(* ===== verification/Prelude.thy ===== *)
theory Prelude
  imports Main "HOL-Library.Word"
begin

text \<open>
  Shared vocabulary of the development: the machine integer types of the C code, the
  collections of rewrite rules the component proofs use, and generic lemmas on words, byte
  lists and byte-addressed stores.

  \<^item> \<open>byte\<close>, \<open>u16\<close>, \<open>u32\<close>, \<open>u64\<close> are \<^verbatim>\<open>uint8_t\<close>, \<^verbatim>\<open>uint16_t\<close>, \<^verbatim>\<open>uint32_t\<close>, \<^verbatim>\<open>uint64_t\<close>; their
    arithmetic wraps as it does in C. A buffer is a \<open>byte list\<close> and a \<^verbatim>\<open>size_t\<close> that is
    the length of a buffer is a \<open>nat\<close>.
  \<^item> \<open>bslice\<close> and \<open>blit\<close> are the two directions of \<^verbatim>\<open>memcpy\<close> on a buffer.
  \<^item> \<open>overlay\<close> is the abstract meaning of a write: a byte-addressed store in which one run of
    bytes was replaced.
\<close>

unbundle bit_operations_syntax

type_synonym byte = "8 word"
type_synonym u16 = "16 word"
type_synonym u32 = "32 word"
type_synonym u64 = "64 word"

named_theorems u_simps \<open>reading a machine word as a natural number\<close>
named_theorems buf_simps \<open>slices and updates of byte buffers\<close>
named_theorems io_simps \<open>reading a store after a write\<close>

section \<open>Words as natural numbers\<close>

lemma unat_u8_less [simp]: "unat (x :: byte) < 256"
  using unsigned_less [of x] by simp

lemma unat_u16_less [simp]: "unat (x :: u16) < 65536"
  using unsigned_less [of x] by simp

lemma unat_u32_less [simp]: "unat (x :: u32) < 4294967296"
  using unsigned_less [of x] by simp

lemma unat_u32_wide [simp]:
  "unat (x :: u32) < 18446744073709551616" "unat (x :: u32) \<le> 18446744073709551615"
  using unat_u32_less [of x] by linarith+

lemma unat_u64_less [simp]: "unat (x :: u64) < 18446744073709551616"
  using unsigned_less [of x] by simp

lemma le_unat_u64: "n \<le> unat (x :: u64) \<Longrightarrow> n < 18446744073709551616"
  by (rule le_less_trans [OF _ unat_u64_less])

lemma unat_ucast_narrow:
  "unat (ucast (x :: 'a::len word) :: 'b::len word) = unat x mod 2 ^ LENGTH('b)"
  by (simp add: unsigned_ucast_eq flip: take_bit_eq_mod)

lemma unat_ucast_widen:
  assumes "LENGTH('a::len) \<le> LENGTH('b::len)"
  shows "unat (ucast (x :: 'a word) :: 'b word) = unat x"
proof -
  have "unat x < 2 ^ LENGTH('a)" by (rule unsigned_less)
  also have "\<dots> \<le> 2 ^ LENGTH('b)" using assms by simp
  finally show ?thesis by (simp add: unat_ucast_narrow)
qed

lemma unat_ucast_8_16 [u_simps]: "unat (ucast (x :: byte) :: u16) = unat x"
  by (simp add: unat_ucast_widen)

lemma unat_ucast_8_32 [u_simps]: "unat (ucast (x :: byte) :: u32) = unat x"
  by (simp add: unat_ucast_widen)

lemma unat_ucast_8_64 [u_simps]: "unat (ucast (x :: byte) :: u64) = unat x"
  by (simp add: unat_ucast_widen)

lemma unat_ucast_16_32 [u_simps]: "unat (ucast (x :: u16) :: u32) = unat x"
  by (simp add: unat_ucast_widen)

lemma unat_ucast_16_64 [u_simps]: "unat (ucast (x :: u16) :: u64) = unat x"
  by (simp add: unat_ucast_widen)

lemma unat_ucast_32_64 [u_simps]: "unat (ucast (x :: u32) :: u64) = unat x"
  by (simp add: unat_ucast_widen)

lemma unat_ucast_64_32: "unat (ucast (x :: u64) :: u32) = unat x mod 4294967296"
  by (simp add: unat_ucast_narrow)

lemma unat_ucast_64_32_small:
  "unat x < 4294967296 \<Longrightarrow> unat (ucast (x :: u64) :: u32) = unat x"
  by (simp add: unat_ucast_64_32)

lemmas unat_arith_simps =
  word_le_nat_alt word_less_nat_alt unat_sub_if' unat_plus_if' unat_div unat_mod

lemma unat_mult_small:
  fixes a b :: "'a::len word"
  assumes "unat a * unat b < 2 ^ LENGTH('a)"
  shows "unat (a * b) = unat a * unat b"
  using assms by (simp add: unat_word_ariths)

lemma unat_add_small:
  fixes a b :: "'a::len word"
  assumes "unat a + unat b < 2 ^ LENGTH('a)"
  shows "unat (a + b) = unat a + unat b"
  using assms by (simp add: unat_word_ariths)

lemma unat_sub_small:
  fixes a b :: "'a::len word"
  assumes "unat b \<le> unat a"
  shows "unat (a - b) = unat a - unat b"
  using assms by (simp add: unat_sub word_le_nat_alt)

lemma unat_of_nat_small:
  assumes "n < 2 ^ LENGTH('a::len)"
  shows "unat (of_nat n :: 'a word) = n"
  using assms by (simp add: unat_of_nat)

lemma unat_max_u64 [simp]: "unat (- 1 :: u64) = 18446744073709551615"
  by (simp add: unsigned_minus_1_eq_mask mask_eq_exp_minus_1)

lemma unat_mult_u32: "unat (ucast (a :: u32) * ucast (b :: u32) :: u64) = unat a * unat b"
proof -
  have "unat a * unat b \<le> 4294967295 * 4294967295"
    using unat_u32_less [of a] unat_u32_less [of b] by (intro mult_le_mono) linarith+
  then show ?thesis by (simp add: unat_mult_small u_simps)
qed

lemma unat_advance:
  fixes off s :: u64
  assumes "unat off + len \<le> unat s" and "n \<le> len"
  shows "unat (off + of_nat n) = unat off + n"
proof -
  have "unat off + n < 2 ^ 64" using assms le_unat_u64 [of "unat off + n" s] by simp
  then show ?thesis by (simp add: unat_add_small unat_of_nat_small)
qed

lemma block_interval:
  fixes a b c k m n :: nat
  assumes "m < b" and "k + n \<le> b"
  shows "c * b + k \<le> a * b + m \<and> a * b + m < c * b + k + n \<longleftrightarrow> a = c \<and> k \<le> m \<and> m < k + n"
proof -
  have "a = c" if "c * b + k \<le> a * b + m" "a * b + m < c * b + k + n"
  proof (rule ccontr)
    assume "a \<noteq> c"
    then have "Suc a * b \<le> c * b \<or> Suc c * b \<le> a * b"
      by (cases a c rule: linorder_cases) (auto simp del: mult_Suc intro: mult_le_mono1)
    with that assms show False unfolding mult_Suc by linarith
  qed
  then show ?thesis by auto
qed

section \<open>Buffers\<close>

text \<open>\<open>bslice off n xs\<close> is \<^verbatim>\<open>memcpy(dst, xs + off, n)\<close>; \<open>blit xs off ys\<close> is
  \<^verbatim>\<open>memcpy(xs + off, ys, length ys)\<close>, for a run that lies inside \<open>xs\<close>.\<close>

definition bslice :: "nat \<Rightarrow> nat \<Rightarrow> 'a list \<Rightarrow> 'a list" where
  "bslice off n xs = take n (drop off xs)"

definition blit :: "'a list \<Rightarrow> nat \<Rightarrow> 'a list \<Rightarrow> 'a list" where
  "blit xs off ys = take off xs @ ys @ drop (off + length ys) xs"

definition zeros :: "nat \<Rightarrow> byte list" where
  "zeros n = replicate n 0"

lemma length_bslice [simp]: "length (bslice off n xs) = min n (length xs - off)"
  by (simp add: bslice_def)

lemma nth_bslice [buf_simps]:
  "i < n \<Longrightarrow> off + i < length xs \<Longrightarrow> bslice off n xs ! i = xs ! (off + i)"
  by (simp add: bslice_def)

lemma bslice_0_all [simp]: "length xs \<le> n \<Longrightarrow> bslice 0 n xs = xs"
  by (simp add: bslice_def)

lemma length_zeros [simp]: "length (zeros n) = n"
  by (simp add: zeros_def)

lemma nth_zeros [simp]: "i < n \<Longrightarrow> zeros n ! i = 0"
  by (simp add: zeros_def)

lemma length_blit [simp]:
  "off + length ys \<le> length xs \<Longrightarrow> length (blit xs off ys) = length xs"
  by (simp add: blit_def)

lemma nth_blit [buf_simps]:
  assumes "off + length ys \<le> length xs" and "i < length xs"
  shows "blit xs off ys ! i =
    (if off \<le> i \<and> i < off + length ys then ys ! (i - off) else xs ! i)"
  using assms by (auto simp: blit_def nth_append min_def)

lemma bslice_blit_same:
  assumes "off + length ys \<le> length xs" and "n = length ys"
  shows "bslice off n (blit xs off ys) = ys"
  using assms by (intro nth_equalityI) (auto simp: buf_simps)

lemma bslice_blit_other:
  assumes "off + length ys \<le> length xs" and "o2 + n \<le> length xs"
    and "o2 + n \<le> off \<or> off + length ys \<le> o2"
  shows "bslice o2 n (blit xs off ys) = bslice o2 n xs"
  using assms by (intro nth_equalityI) (auto simp: buf_simps)

lemma take_blit_other [buf_simps]:
  "n \<le> off \<Longrightarrow> off + length ys \<le> length xs \<Longrightarrow> take n (blit xs off ys) = take n xs"
  by (simp add: blit_def)

lemma take_blit_same [buf_simps]:
  "n = length ys \<Longrightarrow> take n (blit xs 0 ys) = ys"
  by (simp add: blit_def)

lemma blit_Nil [simp]: "blit xs off [] = xs"
  by (simp add: blit_def)

lemma bslice_map_upt:
  "off + n \<le> m \<Longrightarrow> bslice off n (map f [k..<k + m]) = map f [k + off..<k + off + n]"
  by (intro nth_equalityI) (auto simp: buf_simps add.assoc)

lemma nth_map_upt_shift [buf_simps]:
  "i < n \<Longrightarrow> map f [k..<k + n] ! i = f (k + i)"
  by simp

text \<open>Filling in a structure field by field: \<open>apart k ws\<close> says that the fields of \<open>ws\<close> start at
  \<open>k\<close> or later, in ascending order and without overlap.\<close>

fun blit_all :: "'a list \<Rightarrow> (nat \<times> 'a list) list \<Rightarrow> 'a list" where
  "blit_all xs [] = xs"
| "blit_all xs ((off, ys) # ws) = blit_all (blit xs off ys) ws"

fun apart :: "nat \<Rightarrow> nat \<Rightarrow> (nat \<times> 'a list) list \<Rightarrow> bool" where
  "apart k n [] = (k \<le> n)"
| "apart k n ((off, ys) # ws) = (k \<le> off \<and> apart (off + length ys) n ws)"

lemma apart_le: "apart k n ws \<Longrightarrow> k \<le> n"
  by (induction ws arbitrary: k) (auto, fastforce)

lemma length_blit_all: "apart k (length xs) ws \<Longrightarrow> length (blit_all xs ws) = length xs"
proof (induction ws arbitrary: k xs)
  case (Cons w ws)
  obtain off ys where w: "w = (off, ys)" by force
  with Cons.prems have "off + length ys \<le> length xs" by (auto dest: apart_le)
  with Cons.IH [of "off + length ys" "blit xs off ys"] Cons.prems w show ?case by simp
qed simp

lemma nth_blit_all_below:
  "apart k (length xs) ws \<Longrightarrow> i < k \<Longrightarrow> blit_all xs ws ! i = xs ! i"
proof (induction ws arbitrary: k xs)
  case (Cons w ws)
  obtain off ys where w: "w = (off, ys)" by force
  with Cons.prems have "off + length ys \<le> length xs" by (auto dest: apart_le)
  with Cons.IH [of "off + length ys" "blit xs off ys"] Cons.prems w show ?case
    by (simp add: nth_blit)
qed simp

lemma nth_blit_all:
  "apart k (length xs) ws \<Longrightarrow> (off, ys) \<in> set ws \<Longrightarrow> j < length ys \<Longrightarrow>
   blit_all xs ws ! (off + j) = ys ! j"
proof (induction ws arbitrary: k xs)
  case (Cons w ws)
  obtain o2 zs where w: "w = (o2, zs)" by force
  with Cons.prems have fit: "o2 + length zs \<le> length xs" by (auto dest: apart_le)
  with Cons.prems w have ap: "apart (o2 + length zs) (length (blit xs o2 zs)) ws" by simp
  show ?case
  proof (cases "(off, ys) = w")
    case True
    with nth_blit_all_below [OF ap, of "off + j"] w fit Cons.prems show ?thesis
      by (simp add: nth_blit)
  next
    case False
    with Cons.IH [OF ap] Cons.prems w show ?thesis by auto
  qed
qed simp

lemma apart_fits: "apart k n ws \<Longrightarrow> (off, ys) \<in> set ws \<Longrightarrow> off + length ys \<le> n"
  by (induction ws arbitrary: k) (auto dest: apart_le)

lemma bslice_blit_all:
  assumes "apart 0 (length xs) ws" and "(off, ys) \<in> set ws" and "n = length ys"
  shows "bslice off n (blit_all xs ws) = ys"
  using assms nth_blit_all [OF assms(1,2)] apart_fits [OF assms(1,2)]
  by (intro nth_equalityI) (auto simp: length_blit_all nth_bslice)

section \<open>Byte-addressed stores\<close>

definition overlay :: "(nat \<Rightarrow> 'a) \<Rightarrow> nat \<Rightarrow> 'a list \<Rightarrow> nat \<Rightarrow> 'a" where
  "overlay g off bs = (\<lambda>i. if off \<le> i \<and> i < off + length bs then bs ! (i - off) else g i)"

definition window :: "(nat \<Rightarrow> 'a) \<Rightarrow> nat \<Rightarrow> nat \<Rightarrow> 'a list" where
  "window g off n = map g [off..<off + n]"

lemma length_window [simp]: "length (window g off n) = n"
  by (simp add: window_def)

lemma nth_window [simp]: "i < n \<Longrightarrow> window g off n ! i = g (off + i)"
  by (simp add: window_def)

lemma window_0 [simp]: "window g off 0 = []"
  by (simp add: window_def)

lemma overlay_Nil [simp]: "overlay g off [] = g"
  by (auto simp: overlay_def fun_eq_iff)

lemma overlay_in [io_simps]:
  "off \<le> i \<Longrightarrow> i < off + length bs \<Longrightarrow> overlay g off bs i = bs ! (i - off)"
  by (simp add: overlay_def)

lemma overlay_out [io_simps]:
  "i < off \<or> off + length bs \<le> i \<Longrightarrow> overlay g off bs i = g i"
  by (auto simp: overlay_def fun_eq_iff)

lemma window_overlay_same [io_simps]:
  "n = length bs \<Longrightarrow> window (overlay g off bs) off n = bs"
  by (intro nth_equalityI) (auto simp: overlay_def)

lemma window_overlay_disjoint [io_simps]:
  "o2 + n \<le> off \<or> off + length bs \<le> o2 \<Longrightarrow> window (overlay g off bs) o2 n = window g o2 n"
  by (intro nth_equalityI) (auto simp: overlay_def)

lemma window_cong:
  "(\<And>i. off \<le> i \<Longrightarrow> i < off + n \<Longrightarrow> g i = h i) \<Longrightarrow> window g off n = window h off n"
  by (auto simp: window_def)

lemma window_append: "window g off (m + n) = window g off m @ window g (off + m) n"
  by (intro nth_equalityI) (auto simp: nth_append add.assoc)

lemma bslice_window: "o2 + n \<le> m \<Longrightarrow> bslice o2 n (window g off m) = window g (off + o2) n"
  by (intro nth_equalityI) (auto simp: buf_simps add.assoc)

lemma overlay_append:
  "overlay (overlay g off xs) (off + length xs) ys = overlay g off (xs @ ys)"
  by (auto simp: overlay_def nth_append fun_eq_iff)

lemma overlay_take_drop:
  "overlay (overlay g off (take n bs)) (off + n) (drop n bs) = overlay g off bs"
  if "n \<le> length bs"
  using overlay_append [of g off "take n bs" "drop n bs"] that by simp

end
