(* ===== verification/Bytes.thy ===== *)
theory Bytes
  imports Prelude
begin

text \<open>
  The byte-order helpers of the storage code. \<open>le32\<close>, \<open>le64\<close>, \<open>put32\<close>, \<open>put64\<close> are those of
  \<^verbatim>\<open>lib/vdisk/src/backend_vdi.c\<close> (the GPT and MBR readers spell the same shifts out in line), \<open>be16\<close> to
  \<open>put64be\<close> those of \<^verbatim>\<open>lib/vdisk/src/backend_vhd.c\<close>. A pointer into a buffer is the rest of the
  buffer, so \<^verbatim>\<open>le32(h + 0x40)\<close> is \<open>le32 (drop 0x40 h)\<close>, and the \<open>put\<close> functions return the
  bytes the C functions store, which the caller places with \<open>blit\<close>.

  The lemmas show that each reader inverts its writer, in place and in the middle of a larger
  buffer, and that writing one field leaves the others alone.
\<close>

section \<open>Little endian\<close>

definition le16 :: "byte list \<Rightarrow> u16" where
  "le16 p = ucast (p ! 0) OR push_bit 8 (ucast (p ! 1))"

definition le32 :: "byte list \<Rightarrow> u32" where
  "le32 p = ucast (p ! 0) OR push_bit 8 (ucast (p ! 1)) OR
            push_bit 16 (ucast (p ! 2)) OR push_bit 24 (ucast (p ! 3))"

definition le64 :: "byte list \<Rightarrow> u64" where
  "le64 p = ucast (le32 p) OR push_bit 32 (ucast (le32 (drop 4 p)))"

definition put16 :: "u16 \<Rightarrow> byte list" where
  "put16 v = [ucast v, ucast (drop_bit 8 v)]"

definition put32 :: "u32 \<Rightarrow> byte list" where
  "put32 v = [ucast v, ucast (drop_bit 8 v), ucast (drop_bit 16 v), ucast (drop_bit 24 v)]"

definition put64 :: "u64 \<Rightarrow> byte list" where
  "put64 v = put32 (ucast v) @ put32 (ucast (drop_bit 32 v))"

section \<open>Big endian\<close>

definition be16 :: "byte list \<Rightarrow> u16" where
  "be16 p = push_bit 8 (ucast (p ! 0)) OR ucast (p ! 1)"

definition be32 :: "byte list \<Rightarrow> u32" where
  "be32 p = push_bit 24 (ucast (p ! 0)) OR push_bit 16 (ucast (p ! 1)) OR
            push_bit 8 (ucast (p ! 2)) OR ucast (p ! 3)"

definition be64 :: "byte list \<Rightarrow> u64" where
  "be64 p = push_bit 32 (ucast (be32 p)) OR ucast (be32 (drop 4 p))"

definition put16be :: "u16 \<Rightarrow> byte list" where
  "put16be v = [ucast (drop_bit 8 v), ucast v]"

definition put32be :: "u32 \<Rightarrow> byte list" where
  "put32be v = [ucast (drop_bit 24 v), ucast (drop_bit 16 v), ucast (drop_bit 8 v), ucast v]"

definition put64be :: "u64 \<Rightarrow> byte list" where
  "put64be v = put32be (ucast (drop_bit 32 v)) @ put32be (ucast v)"

lemma length_put [simp]:
  "length (put16 h) = 2" "length (put32 w) = 4" "length (put64 d) = 8"
  "length (put16be h) = 2" "length (put32be w) = 4" "length (put64be d) = 8"
  by (simp_all add: put16_def put32_def put64_def put16be_def put32be_def put64be_def)

section \<open>Each reader inverts its writer\<close>

lemma le16_put16 [simp]: "le16 (put16 v) = v"
  by (rule bit_word_eqI) (auto simp: le16_def put16_def bit_simps)

lemma le32_put32 [simp]: "le32 (put32 v) = v"
proof (rule bit_word_eqI)
  fix n assume "n < LENGTH(32)"
  then consider "n < 8" | "8 \<le> n \<and> n < 16" | "16 \<le> n \<and> n < 24" | "24 \<le> n \<and> n < 32"
    by fastforce
  then show "bit (le32 (put32 v)) n = bit v n"
    by cases (auto simp: le32_def put32_def bit_simps)
qed

lemma be16_put16be [simp]: "be16 (put16be v) = v"
  by (rule bit_word_eqI) (auto simp: be16_def put16be_def bit_simps)

lemma be32_put32be [simp]: "be32 (put32be v) = v"
proof (rule bit_word_eqI)
  fix n assume "n < LENGTH(32)"
  then consider "n < 8" | "8 \<le> n \<and> n < 16" | "16 \<le> n \<and> n < 24" | "24 \<le> n \<and> n < 32"
    by fastforce
  then show "bit (be32 (put32be v)) n = bit v n"
    by cases (auto simp: be32_def put32be_def bit_simps)
qed

lemma le32_append [simp]: "4 \<le> length p \<Longrightarrow> le32 (p @ q) = le32 p"
  by (auto simp: le32_def nth_append)

lemma be32_append [simp]: "4 \<le> length p \<Longrightarrow> be32 (p @ q) = be32 p"
  by (auto simp: be32_def nth_append)

lemma word64_halves:
  "ucast (ucast v :: u32) OR push_bit 32 (ucast (ucast (drop_bit 32 v) :: u32)) = (v :: u64)"
  by (rule bit_word_eqI) (auto simp: bit_simps)

lemma le64_put64 [simp]: "le64 (put64 v) = v"
  by (simp add: le64_def put64_def word64_halves)

lemma be64_put64be [simp]: "be64 (put64be v) = v"
  by (simp add: be64_def put64be_def word64_halves or.commute)

text \<open>The other direction: writing what was read gives the bytes back.\<close>

lemma list4_eq: "length p = 4 \<Longrightarrow> p = [p ! 0, p ! 1, p ! 2, p ! 3]"
  by (auto simp: eval_nat_numeral length_Suc_conv)

lemma put32_le32:
  assumes "length p = 4"
  shows "put32 (le32 p) = p"
proof -
  have b: "ucast (le32 p) = p ! 0" "ucast (drop_bit 8 (le32 p)) = p ! 1"
    "ucast (drop_bit 16 (le32 p)) = p ! 2" "ucast (drop_bit 24 (le32 p)) = p ! 3"
    by (rule bit_word_eqI, auto simp: le32_def bit_simps dest: bit_imp_le_length)+
  show ?thesis by (subst (2) list4_eq [OF assms]) (simp add: put32_def b)
qed

lemma put32be_be32:
  assumes "length p = 4"
  shows "put32be (be32 p) = p"
proof -
  have b: "ucast (be32 p) = p ! 3" "ucast (drop_bit 8 (be32 p)) = p ! 2"
    "ucast (drop_bit 16 (be32 p)) = p ! 1" "ucast (drop_bit 24 (be32 p)) = p ! 0"
    by (rule bit_word_eqI, auto simp: be32_def bit_simps dest: bit_imp_le_length)+
  show ?thesis by (subst (2) list4_eq [OF assms]) (simp add: put32be_def b)
qed

section \<open>Fields inside a buffer\<close>

lemma le32_nth:
  "off + 4 \<le> length p \<Longrightarrow> le32 (drop off p) =
     ucast (p ! off) OR push_bit 8 (ucast (p ! (off + 1))) OR
     push_bit 16 (ucast (p ! (off + 2))) OR push_bit 24 (ucast (p ! (off + 3)))"
  by (simp add: le32_def)

lemma le32_cong:
  assumes "\<And>i. i < 4 \<Longrightarrow> p ! i = q ! i"
  shows "le32 p = le32 q"
  using assms [of 0] assms [of 1] assms [of 2] assms [of 3] by (simp add: le32_def)

lemma be32_cong:
  assumes "\<And>i. i < 4 \<Longrightarrow> p ! i = q ! i"
  shows "be32 p = be32 q"
  using assms [of 0] assms [of 1] assms [of 2] assms [of 3] by (simp add: be32_def)

lemma le64_cong:
  assumes "\<And>i. i < 8 \<Longrightarrow> p ! i = q ! i" and "8 \<le> length p" and "8 \<le> length q"
  shows "le64 p = le64 q"
proof -
  have "le32 p = le32 q" by (rule le32_cong) (use assms in simp)
  moreover have "le32 (drop 4 p) = le32 (drop 4 q)" by (rule le32_cong) (use assms in simp)
  ultimately show ?thesis by (simp add: le64_def)
qed

lemma be64_cong:
  assumes "\<And>i. i < 8 \<Longrightarrow> p ! i = q ! i" and "8 \<le> length p" and "8 \<le> length q"
  shows "be64 p = be64 q"
proof -
  have "be32 p = be32 q" by (rule be32_cong) (use assms in simp)
  moreover have "be32 (drop 4 p) = be32 (drop 4 q)" by (rule be32_cong) (use assms in simp)
  ultimately show ?thesis by (simp add: be64_def)
qed

lemma le32_bslice: "le32 (drop off p) = le32 (bslice off 4 p)"
  by (simp add: le32_def bslice_def)

lemma be32_bslice: "be32 (drop off p) = be32 (bslice off 4 p)"
  by (simp add: be32_def bslice_def)

lemma be16_bslice: "be16 (drop off p) = be16 (bslice off 2 p)"
  by (simp add: be16_def bslice_def)

lemma le64_bslice: "le64 (drop off p) = le64 (bslice off 8 p)"
  by (simp add: le64_def le32_def bslice_def drop_take)

lemma be64_bslice: "be64 (drop off p) = be64 (bslice off 8 p)"
  by (simp add: be64_def be32_def bslice_def drop_take)

lemma blit_all_fields:
  assumes "apart 0 (length xs) ws"
  shows "(off, put32 w) \<in> set ws \<Longrightarrow> le32 (drop off (blit_all xs ws)) = w"
    and "(off, put64 d) \<in> set ws \<Longrightarrow> le64 (drop off (blit_all xs ws)) = d"
    and "(off, put16be h) \<in> set ws \<Longrightarrow> be16 (drop off (blit_all xs ws)) = h"
    and "(off, put32be w) \<in> set ws \<Longrightarrow> be32 (drop off (blit_all xs ws)) = w"
    and "(off, put64be d) \<in> set ws \<Longrightarrow> be64 (drop off (blit_all xs ws)) = d"
  using assms
  by (simp_all add: le32_bslice le64_bslice be16_bslice be32_bslice be64_bslice bslice_blit_all)

lemma be16_blit_same [buf_simps]:
  "off + 2 \<le> length xs \<Longrightarrow> be16 (drop off (blit xs off (put16be v))) = v"
  by (rule trans [OF _ be16_put16be]) (simp add: be16_def nth_blit)

lemma be16_blit_other [buf_simps]:
  assumes "off + length ys \<le> length xs" "o2 + 2 \<le> length xs"
    and "o2 + 2 \<le> off \<or> off + length ys \<le> o2"
  shows "be16 (drop o2 (blit xs off ys)) = be16 (drop o2 xs)"
  using assms by (auto simp: be16_def nth_blit)

lemma le32_blit_same [buf_simps]:
  "off + 4 \<le> length xs \<Longrightarrow> le32 (drop off (blit xs off (put32 v))) = v"
  by (rule trans [OF le32_cong le32_put32]) (simp_all add: nth_blit)

lemma le64_blit_same [buf_simps]:
  "off + 8 \<le> length xs \<Longrightarrow> le64 (drop off (blit xs off (put64 v))) = v"
  by (rule trans [OF le64_cong le64_put64]) (simp_all add: nth_blit)

lemma be32_blit_same [buf_simps]:
  "off + 4 \<le> length xs \<Longrightarrow> be32 (drop off (blit xs off (put32be v))) = v"
  by (rule trans [OF be32_cong be32_put32be]) (simp_all add: nth_blit)

lemma be64_blit_same [buf_simps]:
  "off + 8 \<le> length xs \<Longrightarrow> be64 (drop off (blit xs off (put64be v))) = v"
  by (rule trans [OF be64_cong be64_put64be]) (simp_all add: nth_blit)

lemma le32_blit_other [buf_simps]:
  assumes "off + length ys \<le> length xs" "o2 + 4 \<le> length xs"
    and "o2 + 4 \<le> off \<or> off + length ys \<le> o2"
  shows "le32 (drop o2 (blit xs off ys)) = le32 (drop o2 xs)"
  using assms by (intro le32_cong) (auto simp: nth_blit)

lemma le64_blit_other [buf_simps]:
  assumes "off + length ys \<le> length xs" "o2 + 8 \<le> length xs"
    and "o2 + 8 \<le> off \<or> off + length ys \<le> o2"
  shows "le64 (drop o2 (blit xs off ys)) = le64 (drop o2 xs)"
  using assms by (intro le64_cong) (auto simp: nth_blit)

lemma be32_blit_other [buf_simps]:
  assumes "off + length ys \<le> length xs" "o2 + 4 \<le> length xs"
    and "o2 + 4 \<le> off \<or> off + length ys \<le> o2"
  shows "be32 (drop o2 (blit xs off ys)) = be32 (drop o2 xs)"
  using assms by (intro be32_cong) (auto simp: nth_blit)

lemma be64_blit_other [buf_simps]:
  assumes "off + length ys \<le> length xs" "o2 + 8 \<le> length xs"
    and "o2 + 8 \<le> off \<or> off + length ys \<le> o2"
  shows "be64 (drop o2 (blit xs off ys)) = be64 (drop o2 xs)"
  using assms by (intro be64_cong) (auto simp: nth_blit)

end
