(* ===== verification/Cstring.thy ===== *)
theory Cstring
  imports Bytes
begin

text \<open>
  The C library functions on text that the program uses: character classes, \<^verbatim>\<open>strchr\<close> and
  \<^verbatim>\<open>strrchr\<close> as list functions, decimal and hexadecimal printing, the \<^verbatim>\<open>sscanf\<close> conversions, and
  \<^verbatim>\<open>fgets\<close>. A C string is a \<open>string\<close> without the terminating zero.

  The lemmas show that scanning inverts printing and that \<^verbatim>\<open>fgets\<close> gives back the lines a text was
  made of.
\<close>

section \<open>Characters\<close>

definition bytes_of :: "string \<Rightarrow> byte list" where
  "bytes_of s = map (\<lambda>c. of_nat (of_char c)) s"

definition text_of :: "byte list \<Rightarrow> string" where
  "text_of bs = map (\<lambda>b. char_of (unat b)) bs"

definition isspace :: "char \<Rightarrow> bool" where
  "isspace c \<longleftrightarrow> c \<in> {CHR '' '', CHR 0x09, CHR 0x0A, CHR 0x0B, CHR 0x0C, CHR 0x0D}"

definition isdigit :: "char \<Rightarrow> bool" where
  "isdigit c \<longleftrightarrow> 48 \<le> (of_char c :: nat) \<and> (of_char c :: nat) \<le> 57"

definition isalpha :: "char \<Rightarrow> bool" where
  "isalpha c \<longleftrightarrow> (65 \<le> (of_char c :: nat) \<and> (of_char c :: nat) \<le> 90) \<or>
                 (97 \<le> (of_char c :: nat) \<and> (of_char c :: nat) \<le> 122)"

definition tolower :: "char \<Rightarrow> char" where
  "tolower c = (if 65 \<le> (of_char c :: nat) \<and> (of_char c :: nat) \<le> 90 then char_of (of_char c + 32 :: nat) else c)"

definition skip_ws :: "string \<Rightarrow> string" where
  "skip_ws s = dropWhile isspace s"

lemma length_bytes_of [simp]: "length (bytes_of s) = length s"
  by (simp add: bytes_of_def)

lemma text_of_bytes_of [simp]: "text_of (bytes_of s) = s"
proof -
  have "(char_of (unat (of_nat (of_char c) :: byte)) :: char) = c" for c :: char
  proof -
    have "(of_char c :: nat) < 256" using range_nat_of_char by auto
    then show ?thesis by (simp add: unat_of_nat_small)
  qed
  then show ?thesis by (simp add: text_of_def bytes_of_def comp_def)
qed

lemma bytes_of_append [simp]: "bytes_of (s @ t) = bytes_of s @ bytes_of t"
  by (simp add: bytes_of_def)

lemma isdigit_not_space: "isdigit c \<Longrightarrow> \<not> isspace c"
  by (auto simp: isdigit_def isspace_def)

section \<open>Searching\<close>

text \<open>\<^verbatim>\<open>strrchr\<close>: the text up to and including the last occurrence of a character in a set, and what
  follows it.\<close>

fun split_last :: "(char \<Rightarrow> bool) \<Rightarrow> string \<Rightarrow> (string \<times> string) option" where
  "split_last P [] = None"
| "split_last P (c # s) =
     (case split_last P s of
        Some (a, b) \<Rightarrow> Some (c # a, b)
      | None \<Rightarrow> if P c then Some ([c], s) else None)"

lemma split_last_None: "split_last P s = None \<longleftrightarrow> (\<forall>c \<in> set s. \<not> P c)"
  by (induction s) (auto split: option.splits if_splits)

lemma split_last_Some:
  "split_last P s = Some (a, b) \<Longrightarrow> s = a @ b \<and> (\<exists>a' c. a = a' @ [c] \<and> P c) \<and> (\<forall>c \<in> set b. \<not> P c)"
proof (induction s arbitrary: a b)
  case (Cons c s)
  show ?case
  proof (cases "split_last P s")
    case None
    with Cons.prems split_last_None [of P s] show ?thesis by (auto split: if_splits)
  next
    case (Some p)
    obtain x y where "p = (x, y)" by force
    with Some Cons.IH [of x y] Cons.prems show ?thesis by auto
  qed
qed simp

section \<open>Numbers\<close>

definition digit :: "nat \<Rightarrow> char" where
  "digit n = char_of (48 + n)"

fun dec :: "nat \<Rightarrow> string" where
  "dec n = (if n < 10 then [digit n] else dec (n div 10) @ [digit (n mod 10)])"

declare dec.simps [simp del]

definition dec_value :: "string \<Rightarrow> nat" where
  "dec_value s = foldl (\<lambda>v c. v * 10 + (of_char c - 48)) 0 s"

lemma of_char_digit: "n < 10 \<Longrightarrow> (of_char (digit n) :: nat) = 48 + n"
  by (simp add: digit_def)

lemma isdigit_digit [simp]: "n < 10 \<Longrightarrow> isdigit (digit n)"
  by (simp add: isdigit_def of_char_digit)

lemma dec_digits: "\<forall>c \<in> set (dec n). isdigit c"
  by (induction n rule: dec.induct) (subst dec.simps, auto)

lemma dec_nonempty [simp]: "dec n \<noteq> []"
  by (subst dec.simps) simp

lemma dec_value_dec [simp]: "dec_value (dec n) = n"
proof (induction n rule: dec.induct)
  case (1 n)
  then show ?case
    by (subst dec.simps) (simp add: dec_value_def of_char_digit)
qed

lemma length_dec_less: "n < 10 ^ Suc k \<Longrightarrow> length (dec n) \<le> Suc k"
proof (induction k arbitrary: n)
  case (Suc k)
  show ?case
  proof (cases "n < 10")
    case True
    then show ?thesis by (subst dec.simps) simp
  next
    case False
    have "n div 10 < 10 ^ Suc k" using Suc.prems by (simp add: div_less_iff_less_mult)
    from Suc.IH [OF this] False show ?thesis by (subst dec.simps) simp
  qed
qed (subst dec.simps, simp)

definition hex_digit :: "nat \<Rightarrow> char" where
  "hex_digit n = (if n < 10 then char_of (48 + n) else char_of (87 + n))"

text \<open>\<^verbatim>\<open>%02x\<close>\<close>

definition hex2 :: "byte \<Rightarrow> string" where
  "hex2 b = [hex_digit (unat b div 16), hex_digit (unat b mod 16)]"

section \<open>Scanning\<close>

text \<open>\<^verbatim>\<open>%llu\<close>: white space, a sign, digits; a value too large for the type becomes the largest one.\<close>

definition scan_ull :: "string \<Rightarrow> (u64 \<times> string) option" where
  "scan_ull s0 =
     (let s1 = skip_ws s0;
          (neg, s) = (case s1 of [] \<Rightarrow> (False, s1)
                      | c # t \<Rightarrow> if c = CHR ''-'' then (True, t) else if c = CHR ''+'' then (False, t) else (False, s1));
          ds = takeWhile isdigit s
      in if ds = [] then None
         else let v = dec_value ds
              in Some (if v \<ge> 2 ^ 64 then -1 else if neg then - of_nat v else of_nat v, dropWhile isdigit s))"

text \<open>\<^verbatim>\<open>%ns\<close> and \<^verbatim>\<open>%n[^c]\<close>\<close>

definition scan_word :: "nat \<Rightarrow> string \<Rightarrow> (string \<times> string) option" where
  "scan_word n s0 = (let s = skip_ws s0; w = take n (takeWhile (\<lambda>c. \<not> isspace c) s)
     in if w = [] then None else Some (w, drop (length w) s))"

definition scan_until :: "nat \<Rightarrow> char \<Rightarrow> string \<Rightarrow> (string \<times> string) option" where
  "scan_until n q s = (let w = take n (takeWhile (\<lambda>c. c \<noteq> q) s)
     in if w = [] then None else Some (w, drop (length w) s))"

lemma skip_ws_nonspace [simp]: "\<not> isspace c \<Longrightarrow> skip_ws (c # s) = c # s"
  by (simp add: skip_ws_def)

lemma skip_ws_space [simp]: "skip_ws (CHR '' '' # s) = skip_ws s"
  by (simp add: skip_ws_def isspace_def)

lemma takeWhile_dropWhile_head:
  assumes "\<forall>c \<in> set xs. P c" and "\<not> P y"
  shows "takeWhile P (xs @ y # ys) = xs" and "dropWhile P (xs @ y # ys) = y # ys"
  using assms by (simp_all add: takeWhile_append dropWhile_append)

lemma scan_ull_dec:
  assumes "n < 2 ^ 64" and "\<not> isdigit c"
  shows "scan_ull (dec n @ c # s) = Some (of_nat n, c # s)"
proof -
  obtain d ds where d: "dec n = d # ds" by (cases "dec n") auto
  with dec_digits [of n] have dg: "isdigit d" "\<forall>c \<in> set (dec n). isdigit c" by auto
  then have "d \<noteq> CHR ''-''" "d \<noteq> CHR ''+''" "\<not> isspace d" by (auto simp: isdigit_def isspace_def)
  then have "scan_ull (dec n @ c # s) =
      Some (of_nat (dec_value (takeWhile isdigit (dec n @ c # s))), dropWhile isdigit (dec n @ c # s))"
    using assms takeWhile_dropWhile_head [OF dg(2) assms(2)]
    by (simp add: scan_ull_def d Let_def) (metis append_Cons d dec_value_dec not_le power_strict_increasing_iff)
  with takeWhile_dropWhile_head [OF dg(2) assms(2)] show ?thesis by simp
qed

section \<open>Lines\<close>

text \<open>\<^verbatim>\<open>fgets\<close> with a buffer of \<open>Suc n\<close> bytes: at most \<open>n\<close> characters, up to and including a newline.\<close>

fun fgets :: "nat \<Rightarrow> string \<Rightarrow> string \<times> string" where
  "fgets 0 s = ([], s)"
| "fgets (Suc n) [] = ([], [])"
| "fgets (Suc n) (c # s) =
     (if c = CHR 0x0A then ([c], s) else case fgets n s of (l, r) \<Rightarrow> (c # l, r))"

lemma fgets_length: "fgets n s = (l, r) \<Longrightarrow> length l + length r = length s \<and> (0 < n \<and> s \<noteq> [] \<longrightarrow> l \<noteq> [])"
  by (induction n s arbitrary: l r rule: fgets.induct) (auto split: if_splits prod.splits)

text \<open>The successive lines a loop over \<^verbatim>\<open>fgets\<close> sees.\<close>

function fgets_all :: "nat \<Rightarrow> string \<Rightarrow> string list" where
  "fgets_all n s =
     (if n = 0 \<or> s = [] then [] else case fgets n s of (l, r) \<Rightarrow> l # fgets_all n r)"
  by pat_completeness auto
termination
proof (relation "measure (\<lambda>(n, s). length s)", goal_cases)
  case (2 n s l r)
  then have "length l + length r = length s" "l \<noteq> []" using fgets_length [of n s l r] by auto
  then show ?case by (cases l) auto
qed simp

declare fgets_all.simps [simp del]

lemma fgets_line:
  "CHR 0x0A \<notin> set l \<Longrightarrow> length l < n \<Longrightarrow> fgets n (l @ CHR 0x0A # s) = (l @ [CHR 0x0A], s)"
proof (induction l arbitrary: n)
  case Nil
  then show ?case by (cases n) auto
next
  case (Cons c l)
  then obtain m where "n = Suc m" by (cases n) auto
  with Cons show ?case by auto
qed

definition unlines :: "string list \<Rightarrow> string" where
  "unlines ls = concat (map (\<lambda>l. l @ [CHR 0x0A]) ls)"

lemma fgets_all_unlines:
  "\<forall>l \<in> set ls. CHR 0x0A \<notin> set l \<and> length l < n \<Longrightarrow>
   fgets_all n (unlines ls) = map (\<lambda>l. l @ [CHR 0x0A]) ls"
proof (induction ls)
  case Nil
  then show ?case by (simp add: unlines_def fgets_all.simps)
next
  case (Cons l ls)
  then have "fgets n (l @ CHR 0x0A # unlines ls) = (l @ [CHR 0x0A], unlines ls)"
    by (intro fgets_line) auto
  with Cons show ?case
    by (subst fgets_all.simps) (auto simp: unlines_def)
qed

end
