(* ===== verification/Vdisk_Core.thy ===== *)
theory Vdisk_Core
  imports Cstring
begin

text \<open>
  The base of \<^verbatim>\<open>lib/vdisk\<close>: the host file under an open image, the \<^verbatim>\<open>struct vdisk\<close> of
  \<^verbatim>\<open>vdisk_internal.h\<close>, the host I/O helpers of \<^verbatim>\<open>vdisk.c\<close>, and the contract every image backend
  gives its callers, the locale \<open>block_image\<close>.

  A host file is its name, its size, its bytes and two facts about the host: whether the stream may be
  written, and the size past which the host refuses to let the file grow (a full disk, a quota).
  A write that runs into that limit stores the part that fits and reports failure, so a failed
  call can leave bytes behind, as \<^verbatim>\<open>fwrite\<close> can. Bytes between the old end and the start of a
  write read as zero. A \<^verbatim>\<open>FILE\<close> owns the file it opened: what it wrote becomes visible
  to others when the stream is flushed or closed.
\<close>

section \<open>Host files\<close>

record hfile =
  fname :: string
  fsize :: nat
  fdata :: "nat \<Rightarrow> byte"
  flimit :: nat
  fwr :: bool

definition poke :: "hfile \<Rightarrow> nat \<Rightarrow> byte list \<Rightarrow> hfile" where
  "poke f off bs = (if bs = [] then f else
     f\<lparr>fsize := max (fsize f) (off + length bs),
       fdata := overlay (\<lambda>i. if i < fsize f then fdata f i else 0) off bs\<rparr>)"

text \<open>The cast of an offset to the signed \<^verbatim>\<open>off_t\<close> gives a negative value from \<open>2\<^sup>6\<^sup>3\<close> on, which the
  seek refuses.\<close>

definition vdisk_host_seek :: "u64 \<Rightarrow> bool" where
  "vdisk_host_seek off \<longleftrightarrow> unat off < 2 ^ 63"

definition vdisk_host_read :: "hfile \<Rightarrow> u64 \<Rightarrow> nat \<Rightarrow> byte list option" where
  "vdisk_host_read f off n =
     (if \<not> vdisk_host_seek off then None
      else if n \<le> fsize f - unat off then Some (window (fdata f) (unat off) n)
      else None)"

definition vdisk_host_write :: "hfile \<Rightarrow> u64 \<Rightarrow> byte list \<Rightarrow> hfile \<times> bool" where
  "vdisk_host_write f off bs =
     (if \<not> vdisk_host_seek off then (f, False)
      else let n = (if fwr f then min (length bs) (flimit f - unat off) else 0)
           in (poke f (unat off) (take n bs), n = length bs))"

definition vdisk_host_get_size :: "hfile \<Rightarrow> u64" where
  "vdisk_host_get_size f = of_nat (fsize f)"

text \<open>A host file as the host keeps it: within its limit, and the limit within \<^verbatim>\<open>off_t\<close>.\<close>

definition file_ok :: "hfile \<Rightarrow> bool" where
  "file_ok f \<longleftrightarrow> fsize f \<le> flimit f \<and> flimit f < 2 ^ 63"

lemma poke_frame [simp]:
  "flimit (poke f off bs) = flimit f" "fwr (poke f off bs) = fwr f"
  by (simp_all add: poke_def)

lemma fsize_poke:
  "fsize (poke f off bs) = (if bs = [] then fsize f else max (fsize f) (off + length bs))"
  by (simp add: poke_def)

lemma fsize_poke_inside [simp]:
  "off + length bs \<le> fsize f \<Longrightarrow> fsize (poke f off bs) = fsize f"
  by (simp add: poke_def max_def)

lemma fdata_poke [io_simps]:
  "i < fsize f \<Longrightarrow> fdata (poke f off bs) i = overlay (fdata f) off bs i"
  by (auto simp: poke_def overlay_def)

lemma fdata_poke_new [io_simps]:
  "off \<le> i \<Longrightarrow> i < off + length bs \<Longrightarrow> fdata (poke f off bs) i = bs ! (i - off)"
  by (auto simp: poke_def overlay_def)

lemma file_ok_poke:
  "file_ok f \<Longrightarrow> off + length bs \<le> flimit f \<Longrightarrow> file_ok (poke f off bs)"
  by (auto simp: file_ok_def poke_def)

lemma host_write_frame [simp]:
  "flimit (fst (vdisk_host_write f off bs)) = flimit f"
  "fwr (fst (vdisk_host_write f off bs)) = fwr f"
  by (auto simp: vdisk_host_write_def Let_def)

lemma file_ok_host_write: "file_ok f \<Longrightarrow> file_ok (fst (vdisk_host_write f off bs))"
  by (auto simp: vdisk_host_write_def Let_def file_ok_def poke_def)

lemma host_read_ok:
  "file_ok f \<Longrightarrow> unat off + n \<le> fsize f \<Longrightarrow>
   vdisk_host_read f off n = Some (window (fdata f) (unat off) n)"
  by (auto simp: vdisk_host_read_def vdisk_host_seek_def file_ok_def)

lemma host_write_ok:
  "file_ok f \<Longrightarrow> fwr f \<Longrightarrow> unat off + length bs \<le> flimit f \<Longrightarrow>
   vdisk_host_write f off bs = (poke f (unat off) bs, True)"
  by (auto simp: vdisk_host_write_def vdisk_host_seek_def file_ok_def Let_def)

lemma host_write_outside:
  assumes "i < unat off \<or> unat off + length bs \<le> i" and "i < fsize f"
  shows "fdata (fst (vdisk_host_write f off bs)) i = fdata f i"
  using assms
  by (auto simp: vdisk_host_write_def Let_def poke_def overlay_def)

lemma fsize_host_write_mono: "fsize f \<le> fsize (fst (vdisk_host_write f off bs))"
  by (auto simp: vdisk_host_write_def Let_def poke_def)

lemma host_write_True:
  assumes "vdisk_host_write f off bs = (f', True)" and "fwr f" and "bs \<noteq> []"
  shows "f' = poke f (unat off) bs" and "unat off + length bs \<le> flimit f"
proof -
  from assms have n: "length bs \<le> flimit f - unat off" "f' = poke f (unat off) bs"
    by (auto simp: vdisk_host_write_def Let_def min_def split: if_splits)
  moreover have "0 < length bs" using assms(3) by simp
  ultimately show "f' = poke f (unat off) bs" "unat off + length bs \<le> flimit f" by linarith+
qed

text \<open>Everything a host write to a writable file does, whether it succeeds or not.\<close>

lemma host_write_effect:
  assumes "vdisk_host_write f off bs = (f', ok)" and "file_ok f" and "fwr f" and "0 < length bs"
  shows "file_ok f'" and "fwr f'" and "flimit f' = flimit f" and "fsize f \<le> fsize f'"
    and "\<And>i. i < fsize f \<Longrightarrow> i < unat off \<or> unat off + length bs \<le> i \<Longrightarrow> fdata f' i = fdata f i"
    and "ok \<longleftrightarrow> unat off + length bs \<le> flimit f"
    and "ok \<Longrightarrow> fsize f' = max (fsize f) (unat off + length bs)"
    and "\<And>i. ok \<Longrightarrow> unat off \<le> i \<Longrightarrow> i < unat off + length bs \<Longrightarrow> fdata f' i = bs ! (i - unat off)"
proof -
  have n0: "bs \<noteq> []" using assms by simp
  show "file_ok f'" using file_ok_host_write [of f off bs] assms by simp
  show "fwr f'" "flimit f' = flimit f" using host_write_frame [of f off bs] assms by simp_all
  show "fsize f \<le> fsize f'" using fsize_host_write_mono [of f off bs] assms by simp
  show "fdata f' i = fdata f i" if "i < fsize f" "i < unat off \<or> unat off + length bs \<le> i" for i
    using host_write_outside [of i off bs f] assms that by simp
  show k: "ok \<longleftrightarrow> unat off + length bs \<le> flimit f"
    using assms host_write_ok [of f off bs] host_write_True(2) [of f off bs f'] n0 by (cases ok) auto
  assume ok
  with k assms have "f' = poke f (unat off) bs" by (simp add: host_write_ok)
  then show "fsize f' = max (fsize f) (unat off + length bs)"
    and "unat off \<le> i \<Longrightarrow> i < unat off + length bs \<Longrightarrow> fdata f' i = bs ! (i - unat off)" for i
    using n0 by (simp_all add: fsize_poke fdata_poke_new)
qed

lemma unat_host_get_size:
  "file_ok f \<Longrightarrow> unat (vdisk_host_get_size f) = fsize f"
  by (simp add: vdisk_host_get_size_def file_ok_def unat_of_nat_small)

section \<open>Generated identifiers\<close>

text \<open>The xorshift generator the UUID helpers share, and the two bytes they fix afterwards.\<close>

definition xorshift64 :: "u64 \<Rightarrow> u64" where
  "xorshift64 x0 =
     (let x = x0 XOR push_bit 13 x0; x = x XOR drop_bit 7 x in x XOR push_bit 17 x)"

fun uuid_bytes :: "nat \<Rightarrow> nat \<Rightarrow> u64 \<Rightarrow> byte list" where
  "uuid_bytes 0 i x = []"
| "uuid_bytes (Suc n) i x =
     (let x = xorshift64 x in ucast (drop_bit ((i mod 8) * 8) x) # uuid_bytes n (Suc i) x)"

definition uuid_v4 :: "byte list \<Rightarrow> byte list" where
  "uuid_v4 u = (let u = u[6 := (u ! 6 AND 15) OR 64] in u[8 := (u ! 8 AND 63) OR 128])"

lemma length_uuid_bytes [simp]: "length (uuid_bytes n i x) = n"
  by (induction n arbitrary: i x) (simp_all add: Let_def)

lemma length_uuid_v4 [simp]: "length (uuid_v4 u) = length u"
  by (simp add: uuid_v4_def Let_def)

section \<open>The open image\<close>

datatype vdisk_format =
    VDISK_FMT_AUTO | VDISK_FMT_RAW | VDISK_FMT_VDI | VDISK_FMT_VMDK | VDISK_FMT_VHD | VDISK_FMT_QCOW2

text \<open>\<^verbatim>\<open>struct vdisk\<close>. The driver pointer is the format whose driver it is (\<open>None\<close> for a null
  pointer); \<open>create_uuid\<close> is \<open>None\<close> where \<^verbatim>\<open>create_uuid_set\<close> is false.\<close>

record vdisk =
  driver :: "vdisk_format option"
  fp :: hfile
  path :: string
  size_bytes :: u64
  data_offset :: u64
  host_size_bytes :: u64
  block_size :: u32
  block_extra :: u32
  blocks_offset :: u64
  blocks_count :: u32
  blocks_allocated :: u32
  image_type :: u32
  writable :: bool
  vformat :: vdisk_format
  create_flags :: u32
  create_uuid :: "byte list option"

record vdisk_info =
  info_format :: vdisk_format
  info_host_size :: u64
  info_logical_size :: u64
  info_data_offset :: u64
  info_blocks_offset :: u64
  info_image_type :: u32
  info_sector_size :: u32
  info_block_size :: u32
  info_blocks_count :: u32
  info_blocks_allocated :: u32
  map_allocated_entries :: u32
  map_unallocated_entries :: u32
  map_invalid_entries :: u32
  map_duplicate_entries :: u32
  checks_passed :: u32
  checks_failed :: u32
  supported :: bool
  structurally_valid :: bool
  variant :: string

definition info_zero :: vdisk_info where
  "info_zero = \<lparr>info_format = VDISK_FMT_AUTO, info_host_size = 0, info_logical_size = 0,
     info_data_offset = 0, info_blocks_offset = 0, info_image_type = 0, info_sector_size = 0,
     info_block_size = 0, info_blocks_count = 0, info_blocks_allocated = 0,
     map_allocated_entries = 0, map_unallocated_entries = 0, map_invalid_entries = 0,
     map_duplicate_entries = 0, checks_passed = 0, checks_failed = 0, supported = False,
     structurally_valid = False, variant = []\<rparr>"

text \<open>The macro \<^verbatim>\<open>CHECK\<close> of the inspectors.\<close>

definition CHECK :: "bool \<Rightarrow> vdisk_info \<Rightarrow> vdisk_info" where
  "CHECK c info = (if c then info\<lparr>checks_passed := checks_passed info + 1\<rparr>
                   else info\<lparr>checks_failed := checks_failed info + 1\<rparr>)"

lemma CHECK_simps:
  "CHECK True info = info\<lparr>checks_passed := checks_passed info + 1\<rparr>"
  "CHECK False info = info\<lparr>checks_failed := checks_failed info + 1\<rparr>"
  by (simp_all add: CHECK_def)

text \<open>Replace the host file of an image by the outcome of a host write.\<close>

definition put_fp :: "vdisk \<Rightarrow> hfile \<times> bool \<Rightarrow> vdisk \<times> bool" where
  "put_fp d r = (d\<lparr>fp := fst r\<rparr>, snd r)"

section \<open>What a backend promises\<close>

text \<open>
  \<open>guest d\<close> is the disk the guest sees, \<open>inv\<close> the states a backend keeps its image in. Reads give
  the guest's bytes or fail; a write outside the disk or to a read-only image changes nothing; any
  other write succeeds and replaces exactly the bytes it was given.
\<close>

locale block_image =
  fixes rd :: "'d \<Rightarrow> u64 \<Rightarrow> nat \<Rightarrow> byte list option"
    and wr :: "'d \<Rightarrow> u64 \<Rightarrow> byte list \<Rightarrow> 'd \<times> bool"
    and sz :: "'d \<Rightarrow> u64"
    and wrt :: "'d \<Rightarrow> bool"
    and guest :: "'d \<Rightarrow> nat \<Rightarrow> byte"
    and inv :: "'d \<Rightarrow> bool"
  assumes rd_spec: "inv d \<Longrightarrow> rd d off n =
      (if unat off + n \<le> unat (sz d) then Some (window (guest d) (unat off) n) else None)"
    and wr_reject: "inv d \<Longrightarrow> \<not> (wrt d \<and> unat off + length bs \<le> unat (sz d)) \<Longrightarrow>
      wr d off bs = (d, False)"
    and wr_accept: "inv d \<Longrightarrow> wrt d \<Longrightarrow> unat off + length bs \<le> unat (sz d) \<Longrightarrow>
      \<exists>d'. wr d off bs = (d', True) \<and> inv d' \<and> wrt d' \<and> sz d' = sz d \<and>
        (\<forall>i < unat (sz d). guest d' i = overlay (guest d) (unat off) bs i)"
begin

lemma wr_cases:
  assumes "inv d"
  obtains (rejected) "wr d off bs = (d, False)"
    and "\<not> (wrt d \<and> unat off + length bs \<le> unat (sz d))"
  | (accepted) d' where "wr d off bs = (d', True)" and "inv d'" and "wrt d'" and "sz d' = sz d"
    and "unat off + length bs \<le> unat (sz d)"
    and "\<And>i. i < unat (sz d) \<Longrightarrow> guest d' i = overlay (guest d) (unat off) bs i"
  using assms wr_reject [of d off bs] wr_accept [of d off bs] by blast

lemma wr_inv: "inv d \<Longrightarrow> inv (fst (wr d off bs)) \<and> sz (fst (wr d off bs)) = sz d
    \<and> wrt (fst (wr d off bs)) = wrt d"
  by (metis fst_conv wr_accept wr_reject)

lemma read_after_write:
  assumes "inv d" and "wr d off bs = (d', True)"
  shows "rd d' off (length bs) = Some bs"
  using assms(1)
proof (cases rule: wr_cases [where off = off and bs = bs])
  case (accepted d'')
  with assms(2) have [simp]: "d'' = d'" by simp
  have "window (guest d') (unat off) (length bs) =
      window (overlay (guest d) (unat off) bs) (unat off) (length bs)"
    using accepted by (intro window_cong) auto
  with accepted show ?thesis by (simp add: rd_spec io_simps)
qed (use assms in auto)

lemma read_elsewhere:
  assumes "inv d" and "wr d off bs = (d', ok)"
    and "unat o2 + n \<le> unat off \<or> unat off + length bs \<le> unat o2"
  shows "rd d' o2 n = rd d o2 n"
  using assms(1)
proof (cases rule: wr_cases [where off = off and bs = bs])
  case (accepted d'')
  with assms(2) have [simp]: "d'' = d'" by simp
  have "window (guest d') (unat o2) n = window (guest d) (unat o2) n"
    if "unat o2 + n \<le> unat (sz d)"
    using accepted assms(3) that by (intro window_cong) (auto simp: overlay_def)
  with accepted assms(1) show ?thesis by (simp add: rd_spec)
qed (use assms in auto)

end

text \<open>A sequence of writes, stopping at the first failure, and what it means for the guest.\<close>

fun run_writes :: "('d \<Rightarrow> u64 \<Rightarrow> byte list \<Rightarrow> 'd \<times> bool) \<Rightarrow> 'd \<Rightarrow> (u64 \<times> byte list) list \<Rightarrow> 'd \<times> bool" where
  "run_writes wr d [] = (d, True)"
| "run_writes wr d ((off, bs) # ws) =
     (case wr d off bs of (d', ok) \<Rightarrow> if ok then run_writes wr d' ws else (d', False))"

fun overlay_all :: "(nat \<Rightarrow> byte) \<Rightarrow> (u64 \<times> byte list) list \<Rightarrow> nat \<Rightarrow> byte" where
  "overlay_all g [] = g"
| "overlay_all g ((off, bs) # ws) = overlay_all (overlay g (unat off) bs) ws"

lemma overlay_all_cong:
  "(\<And>i. i < n \<Longrightarrow> g i = h i) \<Longrightarrow> i < n \<Longrightarrow> overlay_all g ws i = overlay_all h ws i"
proof (induction ws arbitrary: g h)
  case (Cons w ws)
  obtain off bs where w: "w = (off, bs)" by force
  have "overlay g (unat off) bs j = overlay h (unat off) bs j" if "j < n" for j
    using Cons.prems(1) that by (simp add: overlay_def)
  from Cons.IH [OF this Cons.prems(2)] show ?case by (simp add: w)
qed simp

context block_image
begin

lemma run_writes_guest:
  assumes "inv d" and "wrt d" and "\<forall>(off, bs) \<in> set ws. unat off + length bs \<le> unat (sz d)"
  shows "\<exists>d'. run_writes wr d ws = (d', True) \<and> inv d' \<and> sz d' = sz d \<and>
    (\<forall>i < unat (sz d). guest d' i = overlay_all (guest d) ws i)"
  using assms
proof (induction ws arbitrary: d)
  case (Cons w ws)
  obtain off bs where w: "w = (off, bs)" by force
  with Cons.prems obtain d1 where d1: "wr d off bs = (d1, True)" "inv d1" "wrt d1" "sz d1 = sz d"
      "\<forall>i < unat (sz d). guest d1 i = overlay (guest d) (unat off) bs i"
    using wr_accept [of d off bs] by auto
  from Cons.IH [OF d1(2,3)] Cons.prems(3) d1(4) obtain d' where d':
      "run_writes wr d1 ws = (d', True)" "inv d'" "sz d' = sz d1"
      "\<forall>i < unat (sz d1). guest d' i = overlay_all (guest d1) ws i"
    by auto
  have "guest d' i = overlay_all (overlay (guest d) (unat off) bs) ws i"
    if "i < unat (sz d)" for i
    using overlay_all_cong [where n = "unat (sz d)" and ws = ws] d'(4) d1(4,5) that by metis
  with d1 d' w show ?case by auto
qed auto

end

end
