(* ===== verification/Vdisk_Raw.thy ===== *)
theory Vdisk_Raw
  imports Vdisk_Core
begin

text \<open>
  \<^verbatim>\<open>lib/vdisk/src/backend_raw.c\<close>: an image whose host file is the disk. The lemmas on \<open>linear_image\<close>
  (guest byte \<open>i\<close> is host byte \<open>i\<close>) also serve the fixed VHD and flat VMDK backends, which read and
  write their host file the same way.
\<close>

section \<open>Linear images\<close>

definition linear_image :: "vdisk \<Rightarrow> bool" where
  "linear_image d \<longleftrightarrow> file_ok (fp d) \<and> unat (size_bytes d) \<le> fsize (fp d) \<and>
     (writable d \<longrightarrow> fwr (fp d))"

definition linear_guest :: "vdisk \<Rightarrow> nat \<Rightarrow> byte" where
  "linear_guest d = fdata (fp d)"

lemma in_range_iff:
  "off \<le> s \<and> n \<le> unat (s - off) \<longleftrightarrow> unat off + n \<le> unat s" for off s :: u64
  by (cases "off \<le> s") (auto simp: unat_sub_small word_le_nat_alt)

lemma linear_read:
  "linear_image d \<Longrightarrow> unat off + n \<le> unat (size_bytes d) \<Longrightarrow>
   vdisk_host_read (fp d) off n = Some (window (linear_guest d) (unat off) n)"
  by (simp add: linear_image_def linear_guest_def host_read_ok)

lemma linear_write:
  assumes "linear_image d" and "writable d" and "unat off + length bs \<le> unat (size_bytes d)"
  defines "d' \<equiv> d\<lparr>fp := poke (fp d) (unat off) bs\<rparr>"
  shows "put_fp d (vdisk_host_write (fp d) off bs) = (d', True) \<and> linear_image d' \<and>
    (\<forall>i < unat (size_bytes d). linear_guest d' i = overlay (linear_guest d) (unat off) bs i)"
proof -
  have fits: "unat off + length bs \<le> fsize (fp d)" "file_ok (fp d)" "fwr (fp d)"
    using assms by (auto simp: linear_image_def)
  then have "unat off + length bs \<le> flimit (fp d)" by (auto simp: file_ok_def)
  with fits assms show ?thesis
    by (auto simp: put_fp_def host_write_ok linear_image_def file_ok_poke linear_guest_def
        io_simps)
qed

section \<open>The driver\<close>

definition raw_probe :: "hfile \<Rightarrow> bool" where
  "raw_probe f = True"

definition raw_open :: "vdisk \<Rightarrow> vdisk option" where
  "raw_open d = (let n = vdisk_host_get_size (fp d)
     in Some (d\<lparr>size_bytes := n, host_size_bytes := n, data_offset := 0\<rparr>))"

definition raw_create :: "vdisk \<Rightarrow> u64 \<Rightarrow> vdisk \<times> bool" where
  "raw_create d n =
     (if n = 0 then (d, False)
      else case vdisk_host_write (fp d) (n - 1) [0] of
        (f, False) \<Rightarrow> (d\<lparr>fp := f\<rparr>, False)
      | (f, True) \<Rightarrow>
          (d\<lparr>fp := f, size_bytes := n, host_size_bytes := n, data_offset := 0\<rparr>, True))"

definition bounds :: "vdisk \<Rightarrow> u64 \<Rightarrow> nat \<Rightarrow> bool" where
  "bounds d off len \<longleftrightarrow> off \<le> size_bytes d \<and> len \<le> unat (size_bytes d - off)"

definition raw_read :: "vdisk \<Rightarrow> u64 \<Rightarrow> nat \<Rightarrow> byte list option" where
  "raw_read d off n = (if \<not> bounds d off n then None else vdisk_host_read (fp d) off n)"

definition raw_write :: "vdisk \<Rightarrow> u64 \<Rightarrow> byte list \<Rightarrow> vdisk \<times> bool" where
  "raw_write d off bs =
     (if \<not> writable d \<or> \<not> bounds d off (length bs) then (d, False)
      else put_fp d (vdisk_host_write (fp d) off bs))"

lemma bounds_iff: "bounds d off n \<longleftrightarrow> unat off + n \<le> unat (size_bytes d)"
  by (simp add: bounds_def in_range_iff)

interpretation raw: block_image raw_read raw_write size_bytes writable linear_guest linear_image
proof unfold_locales
  fix d :: vdisk and off :: u64 and n assume "linear_image d"
  then show "raw_read d off n = (if unat off + n \<le> unat (size_bytes d)
      then Some (window (linear_guest d) (unat off) n) else None)"
    by (simp add: raw_read_def bounds_iff linear_read)
next
  fix d :: vdisk and off :: u64 and bs :: "byte list"
  assume "\<not> (writable d \<and> unat off + length bs \<le> unat (size_bytes d))"
  then show "raw_write d off bs = (d, False)" by (auto simp: raw_write_def bounds_iff)
next
  fix d :: vdisk and off :: u64 and bs :: "byte list"
  assume "linear_image d" "writable d" "unat off + length bs \<le> unat (size_bytes d)"
  from linear_write [OF this] this
  show "\<exists>d'. raw_write d off bs = (d', True) \<and> linear_image d' \<and> writable d' \<and>
      size_bytes d' = size_bytes d \<and>
      (\<forall>i < unat (size_bytes d). linear_guest d' i = overlay (linear_guest d) (unat off) bs i)"
    by (auto simp: raw_write_def bounds_iff)
qed

text \<open>Opening a raw image gives a disk of the host file's size in the backend's invariant.\<close>

lemma raw_open_ok:
  assumes "file_ok (fp d)" and "writable d \<longrightarrow> fwr (fp d)"
  shows "\<exists>d'. raw_open d = Some d' \<and> linear_image d' \<and> unat (size_bytes d') = fsize (fp d) \<and>
    linear_guest d' = fdata (fp d)"
  using assms by (auto simp: raw_open_def Let_def linear_image_def linear_guest_def
      unat_host_get_size)

text \<open>A created raw image is the zeroed disk that was asked for.\<close>

lemma unat_minus_1: "0 < (x :: u64) \<Longrightarrow> unat (x - 1) = unat x - 1"
  by (simp add: unat_sub_small word_less_nat_alt)

lemma raw_create_ok:
  assumes "raw_create d n = (d', True)" and "fsize (fp d) = 0" and "file_ok (fp d)" and "fwr (fp d)"
  shows "linear_image d' \<and> size_bytes d' = n \<and> fsize (fp d') = unat n \<and>
    (\<forall>i < unat n. linear_guest d' i = 0)"
proof -
  have pos: "0 < n" and z: "unat (n - 1) + 1 = unat n"
    using assms(1) by (auto simp: raw_create_def unat_minus_1 word_greater_zero_iff
        word_less_nat_alt unat_gt_0 split: if_splits)
  obtain f where w: "vdisk_host_write (fp d) (n - 1) [0] = (f, True)"
    and d': "d' = d\<lparr>fp := f, size_bytes := n, host_size_bytes := n, data_offset := 0\<rparr>"
    using assms(1) by (auto simp: raw_create_def split: if_splits prod.splits bool.splits)
  from w have lim: "unat n \<le> flimit (fp d)"
    using assms(4) z by (auto simp: vdisk_host_write_def Let_def split: if_splits)
  with w assms z have f: "f = poke (fp d) (unat (n - 1)) [0]"
    by (simp add: host_write_ok)
  with assms lim z d' show ?thesis
    by (auto simp: linear_image_def linear_guest_def file_ok_def poke_def overlay_def)
qed

end
