(* ===== verification/Vdisk_Vhd.thy ===== *)
theory Vdisk_Vhd
  imports Vdisk_Raw
begin

text \<open>
  \<^verbatim>\<open>lib/vdisk/src/backend_vhd.c\<close>: legacy fixed VHD, guest data followed by a 512-byte footer. The
  wall clock is the parameter \<open>now\<close>. The lemmas show that a created image is recognised and opened
  again with the size that was asked for, that the footer checksum catches every one-byte change,
  and what the disk geometry in the footer means.
\<close>

definition VHD_EPOCH_DELTA :: u64 where "VHD_EPOCH_DELTA = 946684800"

definition footer_checksum :: "byte list \<Rightarrow> u32" where
  "footer_checksum footer =
     NOT (foldl (\<lambda>sum i. if 64 \<le> i \<and> i < 68 then sum else sum + ucast (footer ! i)) 0 [0..<512])"

definition geometry_for :: "u64 \<Rightarrow> u16 \<times> byte \<times> byte" where
  "geometry_for n =
     (let total0 = n div 512;
          max_sectors = 65535 * 16 * 255;
          total = (if total0 > max_sectors then max_sectors else total0);
          (spt, h, cth) =
            (if total \<ge> 65535 * 16 * 63 then (255 :: u32, 16 :: u32, total div 255)
             else
               let spt = 17; cth = total div 17;
                   h = ucast ((cth + 1023) div 1024);
                   h = (if h < 4 then 4 else h);
                   (spt, h, cth) =
                     (if cth \<ge> ucast h * 1024 \<or> h > 16 then (31, 16, total div 31) else (spt, h, cth));
                   (spt, h, cth) =
                     (if cth \<ge> ucast h * 1024 then (63, 16, total div 63) else (spt, h, cth))
               in (spt, h, cth));
          h = (if h = 0 then 1 else h)
      in (ucast (cth div ucast h), ucast h, ucast spt))"

definition vhd_timestamp_now :: "int \<Rightarrow> u32" where
  "vhd_timestamp_now now =
     (if now \<le> 0 then 0
      else let unix_secs = (of_int now :: u64)
           in if unix_secs \<le> VHD_EPOCH_DELTA then 0
              else let unix_secs = unix_secs - VHD_EPOCH_DELTA
                   in if unix_secs > 4294967295 then 4294967295 else ucast unix_secs)"

definition vhd_make_uuid :: "int \<Rightarrow> u64 \<Rightarrow> byte list" where
  "vhd_make_uuid now n =
     (let x = push_bit 32 (ucast (vhd_timestamp_now now)) XOR n XOR 0x4755505059564844;
          x = (if x = 0 then 0x9e3779b97f4a7c15 else x)
      in uuid_v4 (uuid_bytes 16 0 x))"

definition read_footer :: "hfile \<Rightarrow> (byte list \<times> u64) option" where
  "read_footer f =
     (let host_size = vdisk_host_get_size f
      in if host_size < 512 then None
         else case vdisk_host_read f (host_size - 512) 512 of
                None \<Rightarrow> None
              | Some footer \<Rightarrow> Some (footer, host_size))"

definition fixed_footer_valid :: "byte list \<Rightarrow> u64 \<Rightarrow> u64 option" where
  "fixed_footer_valid f host_size =
     (if take 8 f \<noteq> bytes_of ''conectix'' then None
      else if be32 (drop 60 f) \<noteq> 2 then None
      else if be64 (drop 16 f) \<noteq> -1 then None
      else if be32 (drop 12 f) \<noteq> 0x00010000 then None
      else if be32 (drop 64 f) \<noteq> footer_checksum f then None
      else let current_size = be64 (drop 48 f)
           in if current_size = 0 \<or> current_size mod 512 \<noteq> 0 then None
              else if host_size \<noteq> current_size + 512 then None
              else Some current_size)"

definition vhd_probe :: "hfile \<Rightarrow> bool" where
  "vhd_probe f = (case read_footer f of None \<Rightarrow> False
     | Some (footer, host_size) \<Rightarrow> fixed_footer_valid footer host_size \<noteq> None)"

text \<open>The assignments that \<^verbatim>\<open>vhd_open\<close> and \<^verbatim>\<open>vhd_create_fixed\<close> share.\<close>

definition vhd_set_fields :: "vdisk \<Rightarrow> u64 \<Rightarrow> u64 \<Rightarrow> vdisk" where
  "vhd_set_fields d logical_size host_size =
     (let sectors = logical_size div 512;
          count = (if sectors > 4294967295 then 4294967295 else ucast sectors)
      in d\<lparr>size_bytes := logical_size, host_size_bytes := host_size, data_offset := 0,
           block_size := 512, block_extra := 0, blocks_offset := 0,
           blocks_count := count, blocks_allocated := count, image_type := 2\<rparr>)"

definition vhd_open :: "vdisk \<Rightarrow> vdisk option" where
  "vhd_open d =
     (case read_footer (fp d) of None \<Rightarrow> None
      | Some (f, host_size) \<Rightarrow>
          (case fixed_footer_valid f host_size of None \<Rightarrow> None
           | Some logical_size \<Rightarrow> Some (vhd_set_fields d logical_size host_size)))"

definition build_footer :: "int \<Rightarrow> u64 \<Rightarrow> byte list option" where
  "build_footer now n =
     (if n = 0 \<or> n mod 512 \<noteq> 0 then None
      else
        let f = zeros 512;
            f = blit f 0 (bytes_of ''conectix'');
            f = blit f 8 (put32be 2);
            f = blit f 12 (put32be 0x00010000);
            f = blit f 16 (put64be (-1));
            f = blit f 24 (put32be (vhd_timestamp_now now));
            f = blit f 28 (bytes_of ''GUPP'');
            f = blit f 32 (put32be 0x00010000);
            f = blit f 36 (bytes_of ''Wi2k'');
            f = blit f 40 (put64be n);
            f = blit f 48 (put64be n);
            (cylinders, heads, sectors) = geometry_for n;
            f = blit f 56 (put16be cylinders);
            f = blit f 58 [heads];
            f = blit f 59 [sectors];
            f = blit f 60 (put32be 2);
            f = blit f 68 (vhd_make_uuid now n);
            f = blit f 84 [0]
        in Some (blit f 64 (put32be (footer_checksum f))))"

definition vhd_create_fixed :: "int \<Rightarrow> vdisk \<Rightarrow> u64 \<Rightarrow> vdisk \<times> bool" where
  "vhd_create_fixed now d n =
     (case build_footer now n of None \<Rightarrow> (d, False)
      | Some footer \<Rightarrow>
          (case vdisk_host_write (fp d) (n - 1) [0] of
             (f1, False) \<Rightarrow> (d\<lparr>fp := f1\<rparr>, False)
           | (f1, True) \<Rightarrow>
               (case vdisk_host_write f1 n footer of
                  (f2, False) \<Rightarrow> (d\<lparr>fp := f2\<rparr>, False)
                | (f2, True) \<Rightarrow> (vhd_set_fields (d\<lparr>fp := f2\<rparr>) n (n + 512), True))))"

definition vhd_bounds_ok :: "vdisk \<Rightarrow> u64 \<Rightarrow> nat \<Rightarrow> bool" where
  "vhd_bounds_ok d off len \<longleftrightarrow> off \<le> size_bytes d \<and> len \<le> unat (size_bytes d - off)"

definition vhd_read :: "vdisk \<Rightarrow> u64 \<Rightarrow> nat \<Rightarrow> byte list option" where
  "vhd_read d off n = (if \<not> vhd_bounds_ok d off n then None else vdisk_host_read (fp d) off n)"

definition vhd_write :: "vdisk \<Rightarrow> u64 \<Rightarrow> byte list \<Rightarrow> vdisk \<times> bool" where
  "vhd_write d off bs =
     (if \<not> writable d \<or> \<not> vhd_bounds_ok d off (length bs) then (d, False)
      else put_fp d (vdisk_host_write (fp d) off bs))"

definition vdisk_vhd_inspect :: "hfile \<Rightarrow> vdisk_info option" where
  "vdisk_vhd_inspect file =
     (case read_footer file of None \<Rightarrow> None
      | Some (f, host_size) \<Rightarrow>
        let features = be32 (drop 8 f);
            version = be32 (drop 12 f);
            doff = be64 (drop 16 f);
            original_size = be64 (drop 40 f);
            current_size = be64 (drop 48 f);
            cylinders = be16 (drop 56 f);
            heads = f ! 58;
            sectors = f ! 59;
            type = be32 (drop 60 f);
            checksum = be32 (drop 64 f);
            info = info_zero\<lparr>info_format := VDISK_FMT_VHD, info_host_size := host_size,
              info_logical_size := current_size, info_data_offset := 0, info_image_type := type,
              info_sector_size := 512, info_block_size := 512\<rparr>;
            info = (if current_size div 512 \<le> 4294967295
                    then info\<lparr>info_blocks_count := ucast (current_size div 512),
                              info_blocks_allocated := ucast (current_size div 512)\<rparr>
                    else info);
            info = (if type = 2 then info\<lparr>variant := ''fixed/full'', supported := True\<rparr>
                    else if type = 3 then info\<lparr>variant := ''dynamic'', supported := False\<rparr>
                    else if type = 4 then info\<lparr>variant := ''differencing'', supported := False\<rparr>
                    else info\<lparr>variant := ''unknown'', supported := False\<rparr>);
            info = CHECK (take 8 f = bytes_of ''conectix'') info;
            info = CHECK (features = 2) info;
            info = CHECK (version = 0x00010000) info;
            info = CHECK (if type = 2 then doff = -1 else True) info;
            info = CHECK (current_size \<noteq> 0 \<and> current_size mod 512 = 0) info;
            info = CHECK (original_size = current_size) info;
            info = CHECK (cylinders \<noteq> 0 \<and> heads \<noteq> 0 \<and> sectors \<noteq> 0) info;
            info = CHECK (checksum = footer_checksum f) info;
            info = (if type = 2 then CHECK (host_size = current_size + 512) info else info)
        in Some (info\<lparr>structurally_valid := (checks_failed info = 0)\<rparr>))"

lemma vhd_bounds_iff: "vhd_bounds_ok d off n \<longleftrightarrow> unat off + n \<le> unat (size_bytes d)"
  by (simp add: vhd_bounds_ok_def in_range_iff)

interpretation vhd: block_image vhd_read vhd_write size_bytes writable linear_guest linear_image
proof unfold_locales
  fix d :: vdisk and off :: u64 and n assume "linear_image d"
  then show "vhd_read d off n = (if unat off + n \<le> unat (size_bytes d)
      then Some (window (linear_guest d) (unat off) n) else None)"
    by (simp add: vhd_read_def vhd_bounds_iff linear_read)
next
  fix d :: vdisk and off :: u64 and bs :: "byte list"
  assume "\<not> (writable d \<and> unat off + length bs \<le> unat (size_bytes d))"
  then show "vhd_write d off bs = (d, False)" by (auto simp: vhd_write_def vhd_bounds_iff)
next
  fix d :: vdisk and off :: u64 and bs :: "byte list"
  assume "linear_image d" "writable d" "unat off + length bs \<le> unat (size_bytes d)"
  from linear_write [OF this] this
  show "\<exists>d'. vhd_write d off bs = (d', True) \<and> linear_image d' \<and> writable d' \<and>
      size_bytes d' = size_bytes d \<and>
      (\<forall>i < unat (size_bytes d). linear_guest d' i = overlay (linear_guest d) (unat off) bs i)"
    by (auto simp: vhd_write_def vhd_bounds_iff)
qed


section \<open>The geometry fields\<close>

lemma geometry_pick:
  assumes "unat (tot :: u64) div (unat s * unat h) < 65536" and "0 < unat h"
    and "unat (cth :: u64) = unat tot div unat s" and "unat h < 256" and "unat s < 256"
  shows "unat (ucast (cth div ucast (h :: u32)) :: u16) = unat tot div (unat h * unat s)"
    and "unat (ucast h :: byte) = unat h" and "unat (ucast (s :: u32) :: byte) = unat s"
proof -
  have "unat (cth div ucast h) = unat tot div unat s div unat h"
    using assms by (simp add: unat_div u_simps)
  then have "unat (cth div ucast h) = unat tot div (unat h * unat s)"
    by (simp add: div_mult2_eq [symmetric] mult.commute)
  with assms show "unat (ucast (cth div ucast h) :: u16) = unat tot div (unat h * unat s)"
    by (simp add: unat_ucast_narrow mult.commute)
qed (use assms in \<open>simp_all add: unat_ucast_narrow\<close>)

lemma geometry_for_spec:
  assumes "geometry_for n = (c, h, s)"
  defines "tot \<equiv> min (unat n div 512) (65535 * 16 * 255)"
  shows "unat c = tot div (unat h * unat s) \<and> 4 \<le> unat h \<and> unat h \<le> 16 \<and>
    unat s \<in> {17, 31, 63, 255} \<and> (unat h * unat s \<le> tot \<or> unat h = 4 \<and> unat s = 17)"
proof -
  define t :: u64 where "t = (if 267382800 < n div 512 then 267382800 else n div 512)"
  have ut: "unat t = tot"
    by (auto simp: t_def tot_def unat_div word_less_nat_alt min_def)
  have le: "tot \<le> 267382800" by (simp add: tot_def)
  have ge: "66059280 \<le> t \<longleftrightarrow> 66059280 \<le> tot"
    by (simp add: word_le_nat_alt ut)
  define cth where "cth = t div 17"
  define h0 where "h0 = (ucast ((cth + 1023) div 1024) :: u32)"
  define h1 where "h1 = (if h0 < 4 then 4 else h0)"
  have ucth: "unat cth = tot div 17" by (simp add: cth_def unat_div ut)
  have uh0: "unat h0 = (tot div 17 + 1023) div 1024"
    using le by (simp add: h0_def unat_ucast_narrow unat_div unat_add_small ucth)
  have uh1: "unat h1 = max 4 ((tot div 17 + 1023) div 1024)"
    using uh0 by (auto simp: h1_def word_less_nat_alt max_def)
  have g1: "ucast h1 * 1024 \<le> cth \<longleftrightarrow> unat h1 * 1024 \<le> tot div 17"
    using uh1 le by (simp add: word_le_nat_alt ucth unat_mult_small u_simps)
  have g2: "16384 \<le> t div 31 \<longleftrightarrow> 16384 \<le> tot div 31"
    by (simp add: word_le_nat_alt unat_div ut)
  have g3: "16 < h1 \<longleftrightarrow> 16 < unat h1" by (simp add: word_less_nat_alt)
  have nz: "h1 \<noteq> 0" using uh1 by (auto simp: unat_eq_zero)
  have geo: "geometry_for n =
      (if 66059280 \<le> t then (ucast (t div 255 div 16), 16, 255)
       else if ucast h1 * 1024 \<le> cth \<or> 16 < h1
       then if 16384 \<le> t div 31 then (ucast (t div 63 div 16), 16, 63)
            else (ucast (t div 31 div 16), 16, 31)
       else (ucast (cth div ucast h1), ucast h1, 17))"
    using nz by (simp add: geometry_for_def Let_def t_def [symmetric] cth_def [symmetric]
        h0_def [symmetric] h1_def)
  consider (a) "66059280 \<le> t" "(c, h, s) = (ucast (t div 255 div 16), 16, 255)"
    | (b) "cth < ucast h1 * 1024" "h1 \<le> 16" "(c, h, s) = (ucast (cth div ucast h1), ucast h1, 17)"
    | (c) "t div 31 < 16384" "ucast h1 * 1024 \<le> cth \<or> 16 < h1" "(c, h, s) = (ucast (t div 31 div 16), 16, 31)"
    | (d) "t < 66059280" "16384 \<le> t div 31" "(c, h, s) = (ucast (t div 63 div 16), 16, 63)"
    using assms(1) unfolding geo
    by (cases "66059280 \<le> t"; cases "ucast h1 * 1024 \<le> cth \<or> 16 < h1"; cases "16384 \<le> t div 31")
       (simp_all add: not_le not_less)
  then show ?thesis
  proof cases
    case a
    with le ge show ?thesis
      using geometry_pick [of t 255 16 "t div 255"] by (simp add: ut unat_div)
  next
    case b
    then have h: "tot div 17 < unat h1 * 1024" "unat h1 \<le> 16" "4 \<le> unat h1"
      using g1 g3 uh1 by (auto simp: not_le [symmetric])
    then have "tot div 17 div unat h1 < 1024" by (simp add: less_mult_imp_div_less mult.commute)
    then have "tot div (17 * unat h1) < 65536" by (simp add: div_mult2_eq)
    moreover have "unat h1 * 17 \<le> tot \<or> unat h1 = 4" using h(2) uh1 by auto
    ultimately show ?thesis
      using b h geometry_pick [of t 17 h1 cth] by (simp add: ut ucth)
  next
    case c
    then have "tot div 496 < 65536" using g2 by (simp add: not_le [symmetric])
    moreover have "496 \<le> tot" using c(2) g1 g3 uh1 by auto
    ultimately show ?thesis
      using c geometry_pick [of t 31 16 "t div 31"] by (simp add: ut unat_div)
  next
    case d
    then have "tot div 1008 < 65536" using ge by (simp add: not_le [symmetric])
    moreover have "1008 \<le> tot" using d(2) g2 by simp
    ultimately show ?thesis
      using d geometry_pick [of t 63 16 "t div 63"] by (simp add: ut unat_div)
  qed
qed


section \<open>The footer checksum\<close>

lemma foldl_skip_sum:
  "foldl (\<lambda>sum i. if P i then sum else sum + g i) a xs = a + sum_list (map g (filter (\<lambda>i. \<not> P i) xs))"
  for a :: "'a::comm_monoid_add"
  by (induction xs arbitrary: a) (auto simp: add.assoc)

text \<open>The loop sums every byte but the four of the checksum field.\<close>

lemma footer_checksum_eq:
  "footer_checksum f = NOT (\<Sum>i \<in> {..<512} - {64..<68}. ucast (f ! i))"
proof -
  have "sum_list (map (\<lambda>i. ucast (f ! i) :: u32) (filter (\<lambda>i. \<not> (64 \<le> i \<and> i < 68)) [0..<512])) =
      (\<Sum>i \<in> set (filter (\<lambda>i. \<not> (64 \<le> i \<and> i < 68)) [0..<512]). ucast (f ! i))"
    by (rule sum_list_distinct_conv_sum_set) simp
  also have "set (filter (\<lambda>i. \<not> (64 \<le> i \<and> i < 68)) [0..<512]) = {..<512} - {64..<68 :: nat}"
    by (auto simp del: upt.simps)
  finally show ?thesis by (simp only: footer_checksum_def foldl_skip_sum add_0)
qed

lemma footer_checksum_cong:
  assumes "\<And>i. i < 512 \<Longrightarrow> i < 64 \<or> 68 \<le> i \<Longrightarrow> f ! i = g ! i"
  shows "footer_checksum f = footer_checksum g"
  using assms by (auto simp: footer_checksum_eq intro!: sum.cong)

lemma ucast_8_32_inj: "ucast (a :: byte) = (ucast b :: u32) \<longleftrightarrow> a = b"
  by (metis unat_ucast_8_32 word_unat_eq_iff)

lemma footer_checksum_update:
  assumes "length f = 512" and "i < 512" and "i < 64 \<or> 68 \<le> i" and "b \<noteq> f ! i"
  shows "footer_checksum (f[i := b]) \<noteq> footer_checksum f"
proof -
  let ?I = "{..<512} - {64..<68 :: nat}"
  have i: "i \<in> ?I" using assms by auto
  have "(\<Sum>j \<in> ?I - {i}. ucast (f[i := b] ! j)) = (\<Sum>j \<in> ?I - {i}. ucast (f ! j) :: u32)"
    by (intro sum.cong) auto
  moreover have "ucast (f[i := b] ! i) \<noteq> (ucast (f ! i) :: u32)"
    using assms by (simp add: ucast_8_32_inj)
  ultimately have "(\<Sum>j \<in> ?I. ucast (f[i := b] ! j)) \<noteq> (\<Sum>j \<in> ?I. ucast (f ! j) :: u32)"
    using i by (simp add: sum.remove [of ?I i])
  then show ?thesis by (simp add: footer_checksum_eq)
qed

lemma be32_list_update:
  assumes "off + 4 \<le> length f" and "off \<le> i" and "i < off + 4" and "b \<noteq> f ! i"
  shows "be32 (drop off (f[i := b])) \<noteq> be32 (drop off f)"
proof
  assume eq: "be32 (drop off (f[i := b])) = be32 (drop off f)"
  have h: "be32 (take 4 p) = be32 p" for p :: "byte list" by (simp add: be32_def)
  have "take 4 (drop off (f[i := b])) = put32be (be32 (take 4 (drop off (f[i := b]))))"
    using assms by (simp add: put32be_be32)
  also have "\<dots> = put32be (be32 (take 4 (drop off f)))" by (simp add: h eq)
  also have "\<dots> = take 4 (drop off f)" using assms by (simp add: put32be_be32)
  finally have "take 4 (drop off (f[i := b])) ! (i - off) = take 4 (drop off f) ! (i - off)"
    by simp
  with assms show False by simp
qed

lemma footer_corruption:
  assumes "fixed_footer_valid f hs = Some n" and "length f = 512" and "i < 512" and "b \<noteq> f ! i"
  shows "fixed_footer_valid (f[i := b]) hs' = None"
proof -
  have ok: "be32 (drop 64 f) = footer_checksum f"
    using assms(1) by (auto simp: fixed_footer_valid_def split: if_splits)
  have "be32 (drop 64 (f[i := b])) \<noteq> footer_checksum (f[i := b])"
  proof (cases "64 \<le> i \<and> i < 68")
    case True
    then have "footer_checksum (f[i := b]) = footer_checksum f"
      by (intro footer_checksum_cong) auto
    moreover have "be32 (drop 64 (f[i := b])) \<noteq> be32 (drop 64 f)"
      using True assms by (intro be32_list_update) auto
    ultimately show ?thesis using ok by simp
  next
    case False
    then have "be32 (drop 64 (f[i := b])) = be32 (drop 64 f)"
      using assms by (intro be32_cong) auto
    with footer_checksum_update [of f i b] False assms ok show ?thesis by auto
  qed
  then show ?thesis by (simp add: fixed_footer_valid_def)
qed

section \<open>Created images\<close>

lemma length_vhd_make_uuid [simp]: "length (vhd_make_uuid now n) = 16"
  by (simp add: vhd_make_uuid_def Let_def)


text \<open>The buffer before the checksum is stored.\<close>

lemma build_footer_body:
  assumes "build_footer now n = Some f" and "geometry_for n = (c, h, s)"
  obtains g where "f = blit g 64 (put32be (footer_checksum g))" and "length g = 512"
    and "take 8 g = bytes_of ''conectix''" and "be32 (drop 8 g) = 2"
    and "be32 (drop 12 g) = 0x00010000" and "be64 (drop 16 g) = -1"
    and "be64 (drop 40 g) = n" and "be64 (drop 48 g) = n" and "be32 (drop 60 g) = 2"
    and "be16 (drop 56 g) = c" and "g ! 58 = h" and "g ! 59 = s"
proof -
  define ws :: "(nat \<times> byte list) list" where "ws =
    [(0, bytes_of ''conectix''), (8, put32be 2), (12, put32be 0x00010000), (16, put64be (-1)),
     (24, put32be (vhd_timestamp_now now)), (28, bytes_of ''GUPP''), (32, put32be 0x00010000),
     (36, bytes_of ''Wi2k''), (40, put64be n), (48, put64be n), (56, put16be c), (58, [h]),
     (59, [s]), (60, put32be 2), (68, vhd_make_uuid now n), (84, [0])]"
  define g where "g = blit_all (zeros 512) ws"
  have f: "f = blit g 64 (put32be (footer_checksum g))"
    using assms by (simp add: build_footer_def g_def ws_def Let_def split: if_splits)
  have ap: "apart 0 (length (zeros 512)) ws" by (simp add: ws_def)
  have "bslice 0 8 g = bytes_of ''conectix''"
    unfolding g_def by (rule bslice_blit_all [OF ap]) (simp_all add: ws_def)
  then have t8: "take 8 g = bytes_of ''conectix''" by (simp add: bslice_def)
  have gh: "g ! 58 = h" "g ! 59 = s"
    using nth_blit_all [OF ap, of 58 "[h]" 0] nth_blit_all [OF ap, of 59 "[s]" 0]
    by (simp_all add: g_def ws_def)
  note fld = blit_all_fields [OF ap, folded g_def]
  show ?thesis
    by (rule that [OF f _ t8 fld(4) fld(4) fld(5) fld(5) fld(5) fld(4) fld(3) gh])
       (simp_all add: g_def length_blit_all [OF ap], simp_all add: ws_def)
qed

lemma build_footer_fields:
  assumes "build_footer now n = Some f"
  shows "length f = 512" and "take 8 f = bytes_of ''conectix''" and "be32 (drop 8 f) = 2"
    and "be32 (drop 12 f) = 0x00010000" and "be64 (drop 16 f) = -1"
    and "be64 (drop 40 f) = n" and "be64 (drop 48 f) = n" and "be32 (drop 60 f) = 2"
    and "be32 (drop 64 f) = footer_checksum f"
    and "(be16 (drop 56 f), f ! 58, f ! 59) = geometry_for n"
proof -
  obtain c h s where geo: "geometry_for n = (c, h, s)" by (cases "geometry_for n") auto
  from build_footer_body [OF assms geo] obtain g where
    f: "f = blit g 64 (put32be (footer_checksum g))" and g: "length g = 512"
      "take 8 g = bytes_of ''conectix''" "be32 (drop 8 g) = 2"
      "be32 (drop 12 g) = 0x00010000" "be64 (drop 16 g) = -1"
      "be64 (drop 40 g) = n" "be64 (drop 48 g) = n" "be32 (drop 60 g) = 2"
      "be16 (drop 56 g) = c" "g ! 58 = h" "g ! 59 = s" by blast
  have "footer_checksum f = footer_checksum g"
    using g f by (intro footer_checksum_cong) (auto simp: buf_simps)
  with f g geo show "length f = 512" and "take 8 f = bytes_of ''conectix''"
    and "be32 (drop 8 f) = 2" and "be32 (drop 12 f) = 0x00010000" and "be64 (drop 16 f) = -1"
    and "be64 (drop 40 f) = n" and "be64 (drop 48 f) = n" and "be32 (drop 60 f) = 2"
    and "be32 (drop 64 f) = footer_checksum f"
    and "(be16 (drop 56 f), f ! 58, f ! 59) = geometry_for n"
    by (simp_all add: buf_simps)
qed

lemma build_footer_size: "build_footer now n = Some f \<Longrightarrow> n \<noteq> 0 \<and> n mod 512 = 0"
  by (auto simp: build_footer_def split: if_splits)

lemma build_footer_valid:
  "build_footer now n = Some f \<Longrightarrow> fixed_footer_valid f (n + 512) = Some n"
  using build_footer_fields [of now n f] build_footer_size [of now n f]
  by (simp add: fixed_footer_valid_def)


lemma vhd_create_file:
  assumes "vhd_create_fixed now d n = (d', True)"
    and new: "fsize (fp d) = 0" "file_ok (fp d)" "fwr (fp d)"
  obtains footer where "build_footer now n = Some footer"
    and "d' = vhd_set_fields (d\<lparr>fp := fp d'\<rparr>) n (n + 512)"
    and "fsize (fp d') = unat n + 512" and "file_ok (fp d')" and "fwr (fp d')"
    and "\<And>i. i < unat n \<Longrightarrow> fdata (fp d') i = 0"
    and "window (fdata (fp d')) (unat n) 512 = footer"
proof -
  obtain footer f1 f2 where b: "build_footer now n = Some footer"
    and w1: "vdisk_host_write (fp d) (n - 1) [0] = (f1, True)"
    and w2: "vdisk_host_write f1 n footer = (f2, True)"
    and d': "d' = vhd_set_fields (d\<lparr>fp := f2\<rparr>) n (n + 512)"
    using assms(1) by (auto simp: vhd_create_fixed_def split: option.splits prod.splits bool.splits)
  have len: "length footer = 512" using build_footer_fields(1) [OF b] .
  have n: "0 < unat n" using build_footer_size [OF b] by (simp add: unat_gt_0)
  have n1: "unat (n - 1) = unat n - 1" using n by (simp add: unat_minus_1 word_less_nat_alt)
  have f1: "f1 = poke (fp d) (unat n - 1) [0]" and l1: "unat n \<le> flimit (fp d)"
    using host_write_True [OF w1 new(3)] n by (auto simp: n1)
  have s1: "fsize f1 = unat n" using n by (simp add: f1 new fsize_poke)
  have z: "fdata f1 i = 0" if "i < unat n" for i
    using that n by (auto simp: f1 poke_def overlay_def new)
  have ok1: "file_ok f1" "fwr f1" using new l1 n by (auto simp: f1 intro!: file_ok_poke)
  have f2: "f2 = poke f1 (unat n) footer" and l2: "unat n + 512 \<le> flimit f1"
    using host_write_True [OF w2 ok1(2)] len by force+
  have fp': "fp d' = f2" by (simp add: d' vhd_set_fields_def Let_def)
  show ?thesis
  proof (rule that [of footer])
    show "fsize (fp d') = unat n + 512" using len s1 by (auto simp: fp' f2 fsize_poke)
    show "file_ok (fp d')" "fwr (fp d')"
      using ok1 l2 len by (auto simp: fp' f2 intro!: file_ok_poke)
    show "fdata (fp d') i = 0" if "i < unat n" for i
      using that z s1 by (simp add: fp' f2 fdata_poke overlay_out)
    show "window (fdata (fp d')) (unat n) 512 = footer"
      using len by (intro nth_equalityI) (auto simp: fp' f2 fdata_poke_new)
  qed (use b d' fp' in simp_all)
qed

lemma vhd_read_footer_created:
  assumes "fsize f = unat n + 512" and "file_ok f" and "window (fdata f) (unat n) 512 = footer"
  shows "read_footer f = Some (footer, n + 512)"
proof -
  have small: "unat n + 512 < 2 ^ 63" using assms by (simp add: file_ok_def)
  have hs: "vdisk_host_get_size f = n + 512"
    using assms small by (simp add: word_unat_eq_iff unat_host_get_size unat_add_small)
  have "\<not> n + 512 < 512" using small by (simp add: word_less_nat_alt unat_add_small)
  with assms show ?thesis
    by (simp add: read_footer_def hs Let_def host_read_ok)
qed

lemma vhd_created:
  assumes "vhd_create_fixed now d n = (d', True)"
    and "fsize (fp d) = 0" and "file_ok (fp d)" and "fwr (fp d)"
  shows "vhd_probe (fp d') \<and> linear_image d' \<and> size_bytes d' = n \<and>
    (\<forall>i < unat n. linear_guest d' i = 0) \<and>
    (\<forall>d0. fp d0 = fp d' \<longrightarrow> vhd_open d0 = Some (vhd_set_fields d0 n (n + 512)))"
proof (rule vhd_create_file [OF assms])
  fix footer
  assume b: "build_footer now n = Some footer" and d': "d' = vhd_set_fields (d\<lparr>fp := fp d'\<rparr>) n (n + 512)"
    and f: "fsize (fp d') = unat n + 512" "file_ok (fp d')" "fwr (fp d')"
    "\<And>i. i < unat n \<Longrightarrow> fdata (fp d') i = 0" "window (fdata (fp d')) (unat n) 512 = footer"
  have rf: "read_footer (fp d') = Some (footer, n + 512)"
    using vhd_read_footer_created f by blast
  have "size_bytes d' = n" by (subst d') (simp add: vhd_set_fields_def Let_def)
  with f rf build_footer_valid [OF b] show ?thesis
    by (simp add: vhd_probe_def linear_image_def linear_guest_def vhd_open_def)
qed

lemma vhd_created_inspect:
  assumes "vhd_create_fixed now d n = (d', True)"
    and "fsize (fp d) = 0" and "file_ok (fp d)" and "fwr (fp d)"
  shows "\<exists>info. vdisk_vhd_inspect (fp d') = Some info \<and> supported info \<and>
    info_logical_size info = n \<and> checks_passed info + checks_failed info = 9 \<and>
    (structurally_valid info \<longleftrightarrow> 34816 \<le> unat n)"
proof (rule vhd_create_file [OF assms])
  fix footer
  assume b: "build_footer now n = Some footer"
    and f: "fsize (fp d') = unat n + 512" "file_ok (fp d')" "window (fdata (fp d')) (unat n) 512 = footer"
  have rf: "read_footer (fp d') = Some (footer, n + 512)"
    using vhd_read_footer_created f by blast
  obtain c h s where geo: "geometry_for n = (c, h, s)" by (cases "geometry_for n") auto
  have g: "unat c = min (unat n div 512) 267382800 div (unat h * unat s)" "4 \<le> unat h" "unat h \<le> 16"
    "unat s \<in> {17, 31, 63, 255}"
    "unat h * unat s \<le> min (unat n div 512) 267382800 \<or> unat h = 4 \<and> unat s = 17"
    using geometry_for_spec [OF geo] by auto
  define p where "p = unat h * unat s"
  have "68 \<le> p" using mult_le_mono [of 4 "unat h" 17 "unat s"] g(2,4) by (auto simp: p_def)
  moreover have "p \<le> min (unat n div 512) 267382800 \<or> p = 68" using g(5) by (auto simp: p_def)
  moreover have "unat c = 0 \<longleftrightarrow> min (unat n div 512) 267382800 < p"
    using \<open>68 \<le> p\<close> g(1) by (simp add: p_def [symmetric] div_eq_0_iff)
  ultimately have "unat c = 0 \<longleftrightarrow> unat n div 512 < 68" by linarith
  then have chs: "(c \<noteq> 0 \<and> h \<noteq> 0 \<and> s \<noteq> 0) \<longleftrightarrow> 34816 \<le> unat n"
    using g(2,4) by (auto simp: unat_eq_zero)
  note fl = build_footer_fields [OF b]
  from fl(10) geo have "be16 (drop 56 footer) = c" "footer ! 58 = h" "footer ! 59 = s" by auto
  with fl build_footer_size [OF b] show ?thesis
    by (cases "34816 \<le> unat n")
       (simp_all add: vdisk_vhd_inspect_def rf Let_def CHECK_simps info_zero_def chs)
qed

section \<open>Properties\<close>

lemma build_footer_total: "n \<noteq> 0 \<Longrightarrow> n mod 512 = 0 \<Longrightarrow> \<exists>f. build_footer now n = Some f"
  by (simp add: build_footer_def Let_def split: prod.splits)

lemma vhd_create_room:
  assumes "n \<noteq> 0" and "n mod 512 = 0" and "unat n + 512 \<le> flimit (fp d)"
    and "fsize (fp d) = 0" and "file_ok (fp d)" and "fwr (fp d)"
  shows "\<exists>d'. vhd_create_fixed now d n = (d', True)"
proof -
  obtain ft where b: "build_footer now n = Some ft" using build_footer_total [OF assms(1,2)] by blast
  have n1: "unat (n - 1) = unat n - 1" "0 < unat n" using assms(1) by (simp_all add: unat_minus_1 word_gt_0 unat_gt_0)
  obtain f1 ok1 where w1: "vdisk_host_write (fp d) (n - 1) [0] = (f1, ok1)" by force
  note e1 = host_write_effect [OF w1 assms(5,6), unfolded n1, simplified]
  have ok1: "ok1" using e1(6) n1 assms(3) by simp
  obtain f2 ok2 where w2: "vdisk_host_write f1 n ft = (f2, ok2)" by force
  note e2 = host_write_effect [OF w2 e1(1,2), unfolded build_footer_fields(1) [OF b], simplified]
  have ok2: "ok2" using e2(6) e1(3) assms(3) by simp
  from b w1 w2 ok1 ok2 show ?thesis by (simp add: vhd_create_fixed_def)
qed

text \<open>C21. The VHD footer check catches every corruption of one byte: changing any single byte of an
  accepted footer, the stored checksum included, makes \<^verbatim>\<open>fixed_footer_valid\<close> refuse it, whatever the
  size of the host file.\<close>

theorem vhd_footer_detects_byte_change:
  assumes "fixed_footer_valid f host_size = Some n" and "length f = 512" and "i < 512" and "b \<noteq> f ! i"
  shows "fixed_footer_valid (f[i := b]) host_size' = None"
  by (rule footer_corruption [OF assms])

theorem vhd_footer_detects_byte_change_witness:
  "\<exists>f. build_footer 0 512 = Some f \<and> fixed_footer_valid f 1024 = Some 512 \<and>
     fixed_footer_valid (f[100 := f ! 100 + 1]) 1024 = None"
proof -
  obtain f where f: "build_footer 0 512 = Some f" using build_footer_total [of 512 0] by auto
  have v: "fixed_footer_valid f 1024 = Some 512" using build_footer_valid [OF f] by simp
  with vhd_footer_detects_byte_change [OF v build_footer_fields(1) [OF f], of 100 "f ! 100 + 1"] f
  show ?thesis by simp
qed

text \<open>\<^verbatim>\<open>vhd_create_fixed\<close> on an empty host file with room succeeds for every size that is a
  positive multiple of 512. The image reads as zeroes over its whole size, its file is recognised by
  \<^verbatim>\<open>vhd_probe\<close>, and \<^verbatim>\<open>vhd_open\<close> of that file gives a disk of exactly that size back.\<close>

theorem vhd_create_reopen:
  assumes "n \<noteq> 0" and "n mod 512 = 0" and "unat n + 512 \<le> flimit (fp d)"
    and "fsize (fp d) = 0" and "file_ok (fp d)" and "fwr (fp d)"
  shows "\<exists>d'. vhd_create_fixed now d n = (d', True) \<and> vhd_probe (fp d') \<and> size_bytes d' = n \<and>
    (\<forall>off k. unat off + k \<le> unat n \<longrightarrow> vhd_read d' off k = Some (zeros k)) \<and>
    (\<forall>d0. fp d0 = fp d' \<longrightarrow> (\<exists>d1. vhd_open d0 = Some d1 \<and> size_bytes d1 = n \<and> fp d1 = fp d'))"
proof -
  obtain d' where c: "vhd_create_fixed now d n = (d', True)" using vhd_create_room [OF assms] by blast
  note k = vhd_created [OF c assms(4-6)]
  have "window (linear_guest d') (unat off) m = zeros m" if "unat off + m \<le> unat n" for off :: u64 and m
    using that k by (intro nth_equalityI) auto
  with c k show ?thesis by (auto simp: vhd.rd_spec vhd_set_fields_def Let_def)
qed

definition vhd_blank :: vdisk where
  "vhd_blank = \<lparr>driver = Some VDISK_FMT_VHD,
     fp = \<lparr>fname = ''t.vhd'', fsize = 0, fdata = \<lambda>_. 0, flimit = 0x10000, fwr = True\<rparr>,
     path = ''t.vhd'', size_bytes = 0, data_offset = 0, host_size_bytes = 0, block_size = 0,
     block_extra = 0, blocks_offset = 0, blocks_count = 0, blocks_allocated = 0, image_type = 0,
     writable = True, vformat = VDISK_FMT_VHD, create_flags = 0, create_uuid = None\<rparr>"

lemma vhd_blank_facts:
  "fsize (fp vhd_blank) = 0" "file_ok (fp vhd_blank)" "fwr (fp vhd_blank)" "flimit (fp vhd_blank) = 0x10000"
  by (simp_all add: vhd_blank_def file_ok_def)

theorem vhd_create_reopen_witness:
  "\<exists>d'. vhd_create_fixed 1700000000 vhd_blank 1024 = (d', True) \<and> vhd_read d' 1000 24 = Some (zeros 24)"
  using vhd_create_reopen [of 1024 vhd_blank 1700000000] by (auto simp: vhd_blank_facts)

text \<open>An image \<^verbatim>\<open>vhd_create_fixed\<close> made is called structurally valid by \<^verbatim>\<open>vdisk_vhd_inspect\<close> exactly
  if it has at least 34816 bytes (68 sectors): below that the geometry has no cylinder, and the
  inspector refuses an image the creator made. The nine checks are all counted either way.\<close>

theorem vhd_inspect_created:
  assumes "vhd_create_fixed now d n = (d', True)"
    and "fsize (fp d) = 0" and "file_ok (fp d)" and "fwr (fp d)"
  shows "\<exists>info. vdisk_vhd_inspect (fp d') = Some info \<and> supported info \<and>
    info_logical_size info = n \<and> checks_passed info + checks_failed info = 9 \<and>
    (structurally_valid info \<longleftrightarrow> 34816 \<le> unat n)"
  by (rule vhd_created_inspect [OF assms])

theorem vhd_inspect_created_witness:
  "\<exists>d' info. vhd_create_fixed 1700000000 vhd_blank 1024 = (d', True) \<and>
     vdisk_vhd_inspect (fp d') = Some info \<and> \<not> structurally_valid info"
proof -
  obtain d' where c: "vhd_create_fixed 1700000000 vhd_blank 1024 = (d', True)"
    using vhd_create_room [of 1024 vhd_blank 1700000000] by (auto simp: vhd_blank_facts)
  from vhd_inspect_created [OF this vhd_blank_facts(1-3)] c show ?thesis by auto
qed

end
