(* ===== verification/Vdisk_Vdi.thy ===== *)
theory Vdisk_Vdi
  imports Vdisk_Raw
begin

text \<open>
  \<^verbatim>\<open>lib/vdisk/src/backend_vdi.c\<close>: fixed and dynamic (sparse) VDI images. A dynamic image keeps a map
  from guest blocks to host blocks; a block is materialised, zeroed and entered in the map at the
  first write to it. The entropy of \<^verbatim>\<open>make_uuid\<close> (time, a stack address, a counter) is the
  parameter \<open>seed\<close>.

  The lemmas show that the map and the allocation counter stay consistent under reads, writes and
  failed writes (a full host disk in the middle of a write leaves a prefix of the data and a sound
  image), that the guest sees one flat disk whatever the allocation order, that created images are
  zero-filled and reopen with the same contents, and that the structural inspection accepts only
  images in the backend's invariant.
\<close>

definition VDI_SIGNATURE :: u32 where "VDI_SIGNATURE = 0xBEDA107F"
definition VDI_VERSION_1_1 :: u32 where "VDI_VERSION_1_1 = 0x00010001"
definition VDI_BLOCK_SIZE :: "'a::len word" where "VDI_BLOCK_SIZE = 1048576"
definition VDI_BLOCK_UNALLOCATED :: u32 where "VDI_BLOCK_UNALLOCATED = 0xFFFFFFFF"

abbreviation (input) VDI_IMAGE_TYPE_DYNAMIC :: u32 where "VDI_IMAGE_TYPE_DYNAMIC \<equiv> 1"
abbreviation (input) VDI_IMAGE_TYPE_FIXED :: u32 where "VDI_IMAGE_TYPE_FIXED \<equiv> 2"

definition round_up_u64 :: "u64 \<Rightarrow> u64 \<Rightarrow> u64" where
  "round_up_u64 n a = ((n + a - 1) div a) * a"

definition read_header :: "hfile \<Rightarrow> byte list option" where
  "read_header f = vdisk_host_read f 0 512"

definition vdi_make_uuid :: "u64 \<Rightarrow> byte list" where
  "vdi_make_uuid seed = uuid_v4 (uuid_bytes 16 0 seed)"

definition vdi_probe :: "hfile \<Rightarrow> bool" where
  "vdi_probe f = (case read_header f of None \<Rightarrow> False
     | Some h \<Rightarrow> le32 (drop 0x40 h) = VDI_SIGNATURE)"

definition vdi_open :: "vdisk \<Rightarrow> vdisk option" where
  "vdi_open d =
     (case read_header (fp d) of None \<Rightarrow> None
      | Some h \<Rightarrow>
        let host_size = vdisk_host_get_size (fp d);
            sig = le32 (drop 0x40 h); version = le32 (drop 0x44 h); hdrsz = le32 (drop 0x48 h);
            type = le32 (drop 0x4c h); off_blocks = le32 (drop 0x154 h);
            off_data = le32 (drop 0x158 h); sector_size = le32 (drop 0x168 h);
            disk_size = le64 (drop 0x170 h); bsize = le32 (drop 0x178 h);
            bextra = le32 (drop 0x17c h); blocks = le32 (drop 0x180 h);
            allocated = le32 (drop 0x184 h);
            set = (\<lambda>required. if host_size < required then None
              else Some (d\<lparr>size_bytes := disk_size, host_size_bytes := host_size,
                data_offset := ucast off_data, block_size := bsize, block_extra := 0,
                blocks_offset := ucast off_blocks, blocks_count := blocks,
                blocks_allocated := allocated, image_type := type\<rparr>))
        in if sig \<noteq> VDI_SIGNATURE \<or> version \<noteq> VDI_VERSION_1_1 \<or> hdrsz < 0x180 \<or>
              (type \<noteq> VDI_IMAGE_TYPE_FIXED \<and> type \<noteq> VDI_IMAGE_TYPE_DYNAMIC) \<or>
              sector_size \<noteq> 512 \<or> disk_size = 0 \<or> bsize = 0 \<or> blocks = 0 \<or>
              off_blocks = 0 \<or> off_data = 0 \<or> off_data \<le> off_blocks \<or> bextra \<noteq> 0 \<or>
              allocated > blocks then None
           else if disk_size > ucast blocks * ucast bsize then None
           else if type = VDI_IMAGE_TYPE_FIXED then
             (if allocated \<noteq> blocks \<or> disk_size > -1 - ucast off_data then None
              else set (ucast off_data + disk_size))
           else
             (if (ucast allocated :: u64) > (-1 - ucast off_data) div ucast bsize then None
              else set (ucast off_data + ucast allocated * ucast bsize)))"

definition init_header ::
  "u64 \<times> u64 \<Rightarrow> u64 \<Rightarrow> u32 \<Rightarrow> u32 \<Rightarrow> u32 \<Rightarrow> u32 \<Rightarrow> byte list option \<Rightarrow> byte list" where
  "init_header seeds n type blocks off_blocks off_data image_uuid =
     (let h = zeros 512;
          h = blit h 0 (take 35 (bytes_of (''<<< Guppy VirtualBox Disk Image >>>'' @ [CHR 0x0A])));
          h = blit h 0x40 (put32 VDI_SIGNATURE);
          h = blit h 0x44 (put32 VDI_VERSION_1_1);
          h = blit h 0x48 (put32 0x180);
          h = blit h 0x4c (put32 type);
          h = blit h 0x54 (take 15 (bytes_of (if type = VDI_IMAGE_TYPE_FIXED
                then ''Guppy fixed VDI'' else ''Guppy sparse VDI'')));
          h = blit h 0x154 (put32 off_blocks);
          h = blit h 0x158 (put32 off_data);
          h = blit h 0x168 (put32 512);
          h = blit h 0x170 (put64 n);
          h = blit h 0x178 (put32 VDI_BLOCK_SIZE);
          h = blit h 0x17c (put32 0);
          h = blit h 0x180 (put32 blocks);
          h = blit h 0x184 (put32 (if type = VDI_IMAGE_TYPE_FIXED then blocks else 0));
          h = blit h 0x188 (case image_uuid of Some u \<Rightarrow> take 16 u
                            | None \<Rightarrow> vdi_make_uuid (fst seeds))
      in blit h 0x198 (vdi_make_uuid (snd seeds)))"

definition layout_for :: "u64 \<Rightarrow> (u64 \<times> u32 \<times> u32 \<times> u32) option" where
  "layout_for n =
     (if n = 0 \<or> n > -1 - (512 - 1) then None
      else
        let n = round_up_u64 n 512
        in if (n + VDI_BLOCK_SIZE - 1) div VDI_BLOCK_SIZE > 0xFFFFFFFF then None
           else
             let blocks = (ucast ((n + VDI_BLOCK_SIZE - 1) div VDI_BLOCK_SIZE) :: u32)
             in if blocks = 0 then None
                else
                  let map_bytes = ucast blocks * 4;
                      map_padded = round_up_u64 map_bytes 512
                  in if map_padded > 0xFFFFFFFF - 512 then None
                     else Some (n, blocks, 512, ucast (512 + map_padded)))"

text \<open>The loop that writes zeroes in chunks, at \<open>base + pos\<close> up to \<open>base + lim\<close>: the padding loop of
  \<^verbatim>\<open>write_map\<close> (chunks of 4096) and the clearing loop of \<^verbatim>\<open>allocate_block\<close> (chunks of 65536). The
  chunk size is a \<^verbatim>\<open>sizeof\<close>, never zero.\<close>

function (sequential) zero_loop :: "u64 \<Rightarrow> hfile \<Rightarrow> u64 \<Rightarrow> u64 \<Rightarrow> u64 \<Rightarrow> hfile \<times> bool" where
  "zero_loop chunk f base pos lim =
     (if chunk = 0 \<or> \<not> pos < lim then (f, True)
      else
        let n = (if lim - pos > chunk then chunk else lim - pos)
        in case vdisk_host_write f (base + pos) (zeros (unat n)) of
             (f', False) \<Rightarrow> (f', False)
           | (f', True) \<Rightarrow> zero_loop chunk f' base (pos + n) lim)"
  by pat_completeness auto
termination
proof (relation "measure (\<lambda>(chunk, f, base, pos, lim). unat lim - unat pos)", goal_cases)
  case (2 chunk f base pos lim n r f')
  then have c: "chunk \<noteq> 0" "pos < lim" by auto
  have "unat n \<le> unat (lim - pos)" using 2(2) by (auto simp: word_less_nat_alt)
  moreover have "unat (lim - pos) = unat lim - unat pos" "unat pos < unat lim"
    using c by (simp_all add: word_less_nat_alt unat_sub_small)
  moreover have "0 < unat n" using 2(2) c by (auto simp: unat_gt_0)
  moreover have "unat (pos + n) = unat pos + unat n"
    using calculation by (intro unat_add_small le_less_trans [OF _ unsigned_less [of lim]]) simp
  ultimately show ?case by simp
qed simp

fun map_entries :: "hfile \<Rightarrow> u32 \<Rightarrow> bool \<Rightarrow> u32 \<Rightarrow> nat \<Rightarrow> hfile \<times> bool" where
  "map_entries f off_blocks fixed i 0 = (f, True)"
| "map_entries f off_blocks fixed i (Suc n) =
     (case vdisk_host_write f (ucast off_blocks + ucast i * 4)
             (put32 (if fixed then i else VDI_BLOCK_UNALLOCATED)) of
        (f', False) \<Rightarrow> (f', False)
      | (f', True) \<Rightarrow> map_entries f' off_blocks fixed (i + 1) n)"

definition write_map :: "hfile \<Rightarrow> u32 \<Rightarrow> u32 \<Rightarrow> u32 \<Rightarrow> bool \<Rightarrow> hfile \<times> bool" where
  "write_map f blocks off_blocks off_data fixed =
     (case map_entries f off_blocks fixed 0 (unat blocks) of
        (f', False) \<Rightarrow> (f', False)
      | (f', True) \<Rightarrow> zero_loop 4096 f' 0 (ucast off_blocks + ucast blocks * 4) (ucast off_data))"

definition vdi_set_fields :: "vdisk \<Rightarrow> u64 \<Rightarrow> u64 \<Rightarrow> u32 \<Rightarrow> u32 \<Rightarrow> u32 \<Rightarrow> u32 \<Rightarrow> u32 \<Rightarrow> vdisk" where
  "vdi_set_fields d n host_size off_blocks off_data blocks allocated type =
     d\<lparr>size_bytes := n, host_size_bytes := host_size, data_offset := ucast off_data,
       block_size := VDI_BLOCK_SIZE, block_extra := 0, blocks_offset := ucast off_blocks,
       blocks_count := blocks, blocks_allocated := allocated, image_type := type\<rparr>"

definition vdi_create_fixed :: "u64 \<times> u64 \<Rightarrow> vdisk \<Rightarrow> u64 \<Rightarrow> vdisk \<times> bool" where
  "vdi_create_fixed seeds d n =
     (case layout_for n of None \<Rightarrow> (d, False)
      | Some (n, blocks, off_blocks, off_data) \<Rightarrow>
          if n > -1 - ucast off_data then (d, False)
          else
            let host_size = ucast off_data + n;
                h = init_header seeds n VDI_IMAGE_TYPE_FIXED blocks off_blocks off_data (create_uuid d)
            in case vdisk_host_write (fp d) 0 h of
                 (f1, False) \<Rightarrow> (d\<lparr>fp := f1\<rparr>, False)
               | (f1, True) \<Rightarrow>
                   (case write_map f1 blocks off_blocks off_data True of
                      (f2, False) \<Rightarrow> (d\<lparr>fp := f2\<rparr>, False)
                    | (f2, True) \<Rightarrow>
                        (case vdisk_host_write f2 (host_size - 1) [0] of
                           (f3, False) \<Rightarrow> (d\<lparr>fp := f3\<rparr>, False)
                         | (f3, True) \<Rightarrow>
                             (vdi_set_fields (d\<lparr>fp := f3\<rparr>) n host_size off_blocks off_data
                                blocks blocks VDI_IMAGE_TYPE_FIXED, True))))"

definition vdi_create_sparse :: "u64 \<times> u64 \<Rightarrow> vdisk \<Rightarrow> u64 \<Rightarrow> vdisk \<times> bool" where
  "vdi_create_sparse seeds d n =
     (case layout_for n of None \<Rightarrow> (d, False)
      | Some (n, blocks, off_blocks, off_data) \<Rightarrow>
          let h = init_header seeds n VDI_IMAGE_TYPE_DYNAMIC blocks off_blocks off_data (create_uuid d)
          in case vdisk_host_write (fp d) 0 h of
               (f1, False) \<Rightarrow> (d\<lparr>fp := f1\<rparr>, False)
             | (f1, True) \<Rightarrow>
                 (case write_map f1 blocks off_blocks off_data False of
                    (f2, False) \<Rightarrow> (d\<lparr>fp := f2\<rparr>, False)
                  | (f2, True) \<Rightarrow>
                      (vdi_set_fields (d\<lparr>fp := f2\<rparr>) n (ucast off_data) off_blocks off_data
                         blocks 0 VDI_IMAGE_TYPE_DYNAMIC, True)))"

definition bounds_ok :: "vdisk \<Rightarrow> u64 \<Rightarrow> nat \<Rightarrow> bool" where
  "bounds_ok d off len \<longleftrightarrow> off \<le> size_bytes d \<and> len \<le> unat (size_bytes d - off)"

definition map_get :: "vdisk \<Rightarrow> u32 \<Rightarrow> u32 option" where
  "map_get d guest_block =
     (if guest_block \<ge> blocks_count d then None
      else case vdisk_host_read (fp d) (blocks_offset d + ucast guest_block * 4) 4 of
             None \<Rightarrow> None | Some e \<Rightarrow> Some (le32 e))"

definition map_set :: "vdisk \<Rightarrow> u32 \<Rightarrow> u32 \<Rightarrow> vdisk \<times> bool" where
  "map_set d guest_block entry =
     (if guest_block \<ge> blocks_count d then (d, False)
      else put_fp d (vdisk_host_write (fp d) (blocks_offset d + ucast guest_block * 4) (put32 entry)))"

definition update_allocated :: "vdisk \<Rightarrow> vdisk \<times> bool" where
  "update_allocated d = put_fp d (vdisk_host_write (fp d) 0x184 (put32 (blocks_allocated d)))"

definition allocate_block :: "vdisk \<Rightarrow> u32 \<Rightarrow> vdisk \<times> u32 option" where
  "allocate_block d guest_block =
     (let entry = blocks_allocated d
      in if entry \<ge> blocks_count d then (d, None)
         else if ucast entry > (-1 - data_offset d) div ucast (block_size d) then (d, None)
         else
           let host_off = data_offset d + ucast entry * ucast (block_size d)
           in case put_fp d (zero_loop 65536 (fp d) host_off 0 (ucast (block_size d))) of
                (d1, False) \<Rightarrow> (d1, None)
              | (d1, True) \<Rightarrow>
                  (case map_set d1 guest_block entry of
                     (d2, False) \<Rightarrow> (d2, None)
                   | (d2, True) \<Rightarrow>
                       (case update_allocated (d2\<lparr>blocks_allocated := blocks_allocated d2 + 1\<rparr>) of
                          (d3, False) \<Rightarrow> (d3, None)
                        | (d3, True) \<Rightarrow>
                            (d3\<lparr>host_size_bytes := data_offset d3 +
                               ucast (blocks_allocated d3) * ucast (block_size d3)\<rparr>, Some entry))))"

text \<open>The position of a guest offset: its block, the offset in the block, and how many of \<open>len\<close>
  bytes the block still holds.\<close>

definition vdi_locate :: "vdisk \<Rightarrow> u64 \<Rightarrow> nat \<Rightarrow> u32 \<times> u32 \<times> nat" where
  "vdi_locate d off len =
     (let guest_block = ucast (off div ucast (block_size d));
          in_block = ucast (off mod ucast (block_size d));
          n = unat (block_size d - in_block)
      in (guest_block, in_block, if n > len then len else n))"

lemma vdi_locate_pos:
  assumes "vdi_locate d off len = (gb, ib, n)" and "block_size d \<noteq> 0" and "0 < len"
  shows "0 < n \<and> n \<le> len"
proof -
  have b: "0 < unat (block_size d)" using assms by (simp add: unat_gt_0)
  then have "unat off mod unat (block_size d) < unat (block_size d)" by simp
  moreover have "unat (ucast (off mod ucast (block_size d)) :: u32) = unat off mod unat (block_size d)"
    using less_trans [OF calculation unat_u32_less [of "block_size d"]]
    by (subst unat_ucast_64_32_small) (simp_all add: unat_mod u_simps)
  ultimately have "0 < unat (block_size d - ucast (off mod ucast (block_size d)))"
    by (simp add: unat_sub_small)
  with assms show ?thesis by (auto simp: vdi_locate_def Let_def split: if_splits)
qed

text \<open>The loops of \<^verbatim>\<open>vdi_read\<close> and \<^verbatim>\<open>vdi_write\<close>. A zero block size, on which the C code would divide
  by zero, ends them with an error; \<open>vdi_open\<close> and the creators never leave one.\<close>

function vdi_read_loop :: "vdisk \<Rightarrow> u64 \<Rightarrow> nat \<Rightarrow> byte list option" where
  "vdi_read_loop d off len =
     (if len = 0 then Some []
      else if block_size d = 0 then None
      else case vdi_locate d off len of (guest_block, in_block, n) \<Rightarrow>
        (case map_get d guest_block of None \<Rightarrow> None
         | Some entry \<Rightarrow>
             (case (if entry = VDI_BLOCK_UNALLOCATED then Some (zeros n)
                    else if entry \<ge> blocks_allocated d then None
                    else vdisk_host_read (fp d)
                           (data_offset d + ucast entry * ucast (block_size d) + ucast in_block) n) of
                None \<Rightarrow> None
              | Some out \<Rightarrow>
                  (case vdi_read_loop d (off + of_nat n) (len - n) of
                     None \<Rightarrow> None | Some rest \<Rightarrow> Some (out @ rest)))))"
  by pat_completeness auto
termination
  by (relation "measure (\<lambda>(d, off, len). len)") (auto dest!: vdi_locate_pos [OF sym])

definition vdi_read :: "vdisk \<Rightarrow> u64 \<Rightarrow> nat \<Rightarrow> byte list option" where
  "vdi_read d off len =
     (if \<not> bounds_ok d off len then None
      else if image_type d = VDI_IMAGE_TYPE_FIXED
           then vdisk_host_read (fp d) (data_offset d + off) len
      else vdi_read_loop d off len)"

function vdi_write_loop :: "vdisk \<Rightarrow> u64 \<Rightarrow> byte list \<Rightarrow> vdisk \<times> bool" where
  "vdi_write_loop d off bs =
     (if length bs = 0 then (d, True)
      else if block_size d = 0 then (d, False)
      else case vdi_locate d off (length bs) of (guest_block, in_block, n) \<Rightarrow>
        (case map_get d guest_block of None \<Rightarrow> (d, False)
         | Some entry \<Rightarrow>
             (case (if entry = VDI_BLOCK_UNALLOCATED then allocate_block d guest_block
                    else if entry \<ge> blocks_allocated d then (d, None)
                    else (d, Some entry)) of
                (d1, None) \<Rightarrow> (d1, False)
              | (d1, Some entry) \<Rightarrow>
                  (case put_fp d1 (vdisk_host_write (fp d1)
                          (data_offset d1 + ucast entry * ucast (block_size d1) + ucast in_block)
                          (take n bs)) of
                     (d2, False) \<Rightarrow> (d2, False)
                   | (d2, True) \<Rightarrow> vdi_write_loop d2 (off + of_nat n) (drop n bs)))))"
  by pat_completeness auto
termination
  by (relation "measure (\<lambda>(d, off, bs). length bs)") (auto dest!: vdi_locate_pos [OF sym])

definition vdi_write :: "vdisk \<Rightarrow> u64 \<Rightarrow> byte list \<Rightarrow> vdisk \<times> bool" where
  "vdi_write d off bs =
     (if \<not> writable d \<or> \<not> bounds_ok d off (length bs) then (d, False)
      else if image_type d = VDI_IMAGE_TYPE_FIXED
           then put_fp d (vdisk_host_write (fp d) (data_offset d + off) bs)
      else vdi_write_loop d off bs)"

declare zero_loop.simps [simp del] vdi_read_loop.simps [simp del] vdi_write_loop.simps [simp del]

section \<open>The clearing loop\<close>

text \<open>What the clearing loop does to the file.\<close>

definition zero_effect :: "nat \<Rightarrow> nat \<Rightarrow> nat \<Rightarrow> hfile \<Rightarrow> hfile \<Rightarrow> bool \<Rightarrow> bool" where
  "zero_effect base pos lim f f' ok \<longleftrightarrow>
     file_ok f' \<and> fwr f' \<and> flimit f' = flimit f \<and> fsize f \<le> fsize f' \<and>
     (\<forall>i < fsize f. i < base + pos \<or> base + lim \<le> i \<longrightarrow> fdata f' i = fdata f i) \<and>
     (ok \<longleftrightarrow> pos = lim \<or> base + lim \<le> flimit f) \<and>
     (ok \<longrightarrow> fsize f' = (if pos = lim then fsize f else max (fsize f) (base + lim)) \<and>
       (\<forall>i. base + pos \<le> i \<and> i < base + lim \<longrightarrow> fdata f' i = 0))"

lemma zero_effect_step:
  assumes "vdisk_host_write f off (zeros n) = (f1, True)" and "file_ok f" and "fwr f"
    and "unat off = base + pos" and "0 < n" and "pos + n \<le> lim"
    and IH: "zero_effect base (pos + n) lim f1 f' ok"
  shows "zero_effect base pos lim f f' ok"
proof -
  note e = host_write_effect [OF assms(1-3), unfolded assms(4) length_zeros, OF \<open>0 < n\<close>]
  note s1 = e(7) [OF TrueI]
  have z1: "fdata f1 i = 0" if "base + pos \<le> i" "i < base + pos + n" for i
    using e(8) that by simp
  have a: "fdata f' i = 0" if "ok" "base + pos \<le> i" "i < base + lim" for i
    using that IH z1 s1 by (cases "i < base + pos + n") (auto simp: zero_effect_def)
  have "fsize f' = max (fsize f) (base + lim)" if ok
    using IH that s1 assms(5,6) by (auto simp: zero_effect_def split: if_splits)
  moreover have "ok \<longleftrightarrow> base + lim \<le> flimit f"
    using IH e(3,6) assms(6) by (auto simp: zero_effect_def)
  moreover have "fdata f' i = fdata f i" if "i < fsize f" "i < base + pos \<or> base + lim \<le> i" for i
    using that IH e(4,5) assms(6) by (auto simp: zero_effect_def)
  ultimately show ?thesis using IH a e(3,4) assms(5,6) unfolding zero_effect_def by auto
qed

lemma zero_loop_spec:
  assumes "zero_loop chunk f base pos lim = (f', ok)" and "file_ok f" and "fwr f" and "chunk \<noteq> 0"
    and "unat base + unat lim < 2 ^ 64" and "pos \<le> lim"
  shows "zero_effect (unat base) (unat pos) (unat lim) f f' ok"
  using assms
proof (induction chunk f base pos lim arbitrary: f' ok rule: zero_loop.induct)
  case (1 chunk f base pos lim)
  show ?case
  proof (cases "pos = lim")
    case True
    with 1 show ?thesis by (auto simp: zero_loop.simps [of chunk] zero_effect_def)
  next
    case False
    with 1 have lt: "pos < lim" by simp
    define n where "n = (if lim - pos > chunk then chunk else lim - pos)"
    have p: "unat pos < unat lim" using lt by (simp add: word_less_nat_alt)
    have "unat n \<le> unat (lim - pos)" by (auto simp: n_def word_less_nat_alt)
    with p have n: "unat n \<le> unat lim - unat pos" by (simp add: unat_sub_small)
    have n0: "0 < length (zeros (unat n))" using "1.prems"(4) lt by (auto simp: n_def unat_gt_0)
    have bp: "unat (base + pos) = unat base + unat pos" using p 1 by (intro unat_add_small) simp
    have pn: "unat (pos + n) = unat pos + unat n"
      using p n by (intro unat_add_small le_less_trans [OF _ unsigned_less [of lim]]) simp
    obtain f1 ok1 where w: "vdisk_host_write f (base + pos) (zeros (unat n)) = (f1, ok1)" by force
    note e = host_write_effect [OF w "1.prems"(2,3) n0, unfolded bp length_zeros]
    have z: "zero_loop chunk f base pos lim =
        (if ok1 then zero_loop chunk f1 base (pos + n) lim else (f1, False))"
      using "1.prems"(4) lt w by (subst zero_loop.simps) (simp add: n_def [symmetric])
    show ?thesis
    proof (cases ok1)
      case F: False
      with z "1.prems"(1) have "f' = f1" "\<not> ok" by auto
      with e(1-6) F n p False show ?thesis by (auto simp: zero_effect_def)
    next
      case True
      have le: "pos + n \<le> lim" using pn n p by (simp add: word_le_nat_alt)
      have "zero_effect (unat base) (unat (pos + n)) (unat lim) f1 f' ok"
        using "1.prems" z True le e(1,2) lt w by (intro "1.IH" [of n f1 True]) (simp_all add: n_def)
      with w True "1.prems"(2,3) bp n0 n p pn show ?thesis
        by (intro zero_effect_step [of f _ "unat n" f1]) auto
    qed
  qed
qed

section \<open>The disk a guest sees\<close>

definition vdi_entry :: "vdisk \<Rightarrow> nat \<Rightarrow> u32" where
  "vdi_entry d g = le32 (window (fdata (fp d)) (unat (blocks_offset d) + 4 * g) 4)"

definition vdi_guest :: "vdisk \<Rightarrow> nat \<Rightarrow> byte" where
  "vdi_guest d i =
     (if image_type d = VDI_IMAGE_TYPE_FIXED then fdata (fp d) (unat (data_offset d) + i)
      else let e = vdi_entry d (i div unat (block_size d))
           in if e = VDI_BLOCK_UNALLOCATED then 0
              else fdata (fp d) (unat (data_offset d) + unat e * unat (block_size d)
                                 + i mod unat (block_size d)))"

text \<open>The guest blocks that have a host block.\<close>

definition vdi_live :: "vdisk \<Rightarrow> nat set" where
  "vdi_live d = {g. g < unat (blocks_count d) \<and> vdi_entry d g \<noteq> VDI_BLOCK_UNALLOCATED}"

definition dyn_sound :: "vdisk \<Rightarrow> bool" where
  "dyn_sound d \<longleftrightarrow> image_type d = VDI_IMAGE_TYPE_DYNAMIC \<and> file_ok (fp d) \<and>
     (writable d \<longrightarrow> fwr (fp d)) \<and> 0 < unat (block_size d) \<and>
     unat (size_bytes d) \<le> unat (blocks_count d) * unat (block_size d) \<and>
     0x188 \<le> unat (blocks_offset d) \<and>
     unat (blocks_offset d) + 4 * unat (blocks_count d) \<le> unat (data_offset d) \<and>
     unat (data_offset d) + unat (blocks_allocated d) * unat (block_size d) \<le> fsize (fp d) \<and>
     inj_on (vdi_entry d) (vdi_live d) \<and>
     (\<forall>g \<in> vdi_live d. unat (vdi_entry d g) < unat (blocks_allocated d)) \<and>
     card (vdi_live d) = unat (blocks_allocated d)"

definition fixed_sound :: "vdisk \<Rightarrow> bool" where
  "fixed_sound d \<longleftrightarrow> image_type d = VDI_IMAGE_TYPE_FIXED \<and> file_ok (fp d) \<and>
     (writable d \<longrightarrow> fwr (fp d)) \<and> 0x188 \<le> unat (data_offset d) \<and>
     unat (data_offset d) + unat (size_bytes d) \<le> fsize (fp d)"

definition vdi_sound :: "vdisk \<Rightarrow> bool" where
  "vdi_sound d \<longleftrightarrow> dyn_sound d \<or> fixed_sound d"

text \<open>The host has room for every block the image may still allocate.\<close>

definition vdi_room :: "vdisk \<Rightarrow> bool" where
  "vdi_room d \<longleftrightarrow> image_type d = VDI_IMAGE_TYPE_FIXED \<or>
     unat (data_offset d) + unat (blocks_count d) * unat (block_size d) \<le> flimit (fp d)"

lemma bounds_ok_iff: "bounds_ok d off n \<longleftrightarrow> unat off + n \<le> unat (size_bytes d)"
  by (simp add: bounds_ok_def in_range_iff)

lemma vdi_locate_spec:
  assumes "vdi_locate d off len = (gb, ib, n)" and "0 < unat (block_size d)"
    and "unat off < unat (blocks_count d) * unat (block_size d)"
  shows "unat gb = unat off div unat (block_size d)" and "unat ib = unat off mod unat (block_size d)"
    and "unat gb < unat (blocks_count d)" and "n = min (unat (block_size d) - unat ib) len"
proof -
  let ?b = "unat (block_size d)"
  have "unat off div ?b < unat (blocks_count d)"
    using assms by (simp add: div_less_iff_less_mult)
  then show g: "unat gb = unat off div ?b"
    using assms(1) less_trans [OF _ unat_u32_less [of "blocks_count d"], of "unat off div ?b"]
    by (auto simp: vdi_locate_def Let_def unat_ucast_64_32 unat_div u_simps)
  show "unat gb < unat (blocks_count d)" using g \<open>unat off div ?b < _\<close> by simp
  have m: "unat off mod ?b < ?b" using assms by simp
  show i: "unat ib = unat off mod ?b"
    using assms(1) less_trans [OF m unat_u32_less [of "block_size d"]]
    by (auto simp: vdi_locate_def Let_def unat_ucast_64_32 unat_mod u_simps)
  have "unat (block_size d - ib) = ?b - unat ib" using i m by (simp add: unat_sub_small)
  with assms(1) show "n = min (?b - unat ib) len"
    by (auto simp: vdi_locate_def Let_def)
qed

lemma in_block_div_mod:
  assumes "(j :: nat) < b - a mod b" and "0 < b"
  shows "(a + j) div b = a div b" and "(a + j) mod b = a mod b + j"
proof -
  have "a + j = (a div b) * b + (a mod b + j)" by (simp add: add.assoc [symmetric])
  moreover have "a mod b + j < b" using assms by simp
  ultimately show "(a + j) div b = a div b" "(a + j) mod b = a mod b + j"
    by (metis add.commute assms(2) div_mult_self3 div_less add_0 less_not_refl2, metis mod_mult_self3 mod_less)
qed

lemma unat_affine:
  fixes a :: u64 and e b :: u32
  assumes "unat a + unat e * unat b < 2 ^ 64"
  shows "unat (a + ucast e * ucast b) = unat a + unat e * unat b"
  using assms by (simp add: unat_add_small unat_mult_small u_simps)

lemma unat_affine3:
  fixes a :: u64 and e b c :: u32
  assumes "unat a + unat e * unat b + unat c < 2 ^ 64"
  shows "unat (a + ucast e * ucast b + ucast c) = unat a + unat e * unat b + unat c"
  using assms by (simp add: unat_add_small unat_affine u_simps)

lemma dyn_map_off:
  fixes gb :: u32
  assumes "dyn_sound d" and "unat gb < unat (blocks_count d)"
  shows "unat (blocks_offset d + ucast gb * 4) = unat (blocks_offset d) + 4 * unat gb"
    and "unat (blocks_offset d) + 4 * unat gb + 4 \<le> unat (data_offset d)"
    and "unat (data_offset d) \<le> fsize (fp d)"
proof -
  show a: "unat (blocks_offset d) + 4 * unat gb + 4 \<le> unat (data_offset d)"
    "unat (data_offset d) \<le> fsize (fp d)"
    using assms by (auto simp: dyn_sound_def)
  have "unat (blocks_offset d) + unat gb * 4 < 2 ^ 64"
    using a le_unat_u64 [of _ "data_offset d"] by simp
  then show "unat (blocks_offset d + ucast gb * 4) = unat (blocks_offset d) + 4 * unat gb"
    by (simp add: unat_add_small unat_mult_small u_simps)
qed

lemma map_get_spec:
  assumes "dyn_sound d" and "unat gb < unat (blocks_count d)"
  shows "map_get d gb = Some (vdi_entry d (unat gb))"
proof -
  have "vdisk_host_read (fp d) (blocks_offset d + ucast gb * 4) 4 =
      Some (window (fdata (fp d)) (unat (blocks_offset d) + 4 * unat gb) 4)"
    using assms dyn_map_off [OF assms] by (subst host_read_ok) (auto simp: dyn_sound_def)
  with assms show ?thesis by (simp add: map_get_def vdi_entry_def word_le_nat_alt)
qed

lemma dyn_block_range:
  fixes e ib :: u32
  assumes "dyn_sound d" and "unat e < unat (blocks_allocated d)"
    and "unat ib + n \<le> unat (block_size d)"
  shows "unat (data_offset d + ucast e * ucast (block_size d) + ucast ib) =
      unat (data_offset d) + unat e * unat (block_size d) + unat ib"
    and "unat (data_offset d) + unat e * unat (block_size d) + unat ib + n \<le> fsize (fp d)"
proof -
  have "Suc (unat e) * unat (block_size d) \<le> unat (blocks_allocated d) * unat (block_size d)"
    using assms by (intro mult_le_mono1) simp
  moreover have s: "unat (data_offset d) + unat (blocks_allocated d) * unat (block_size d) \<le> fsize (fp d)"
    "fsize (fp d) < 2 ^ 63"
    using assms by (auto simp: dyn_sound_def file_ok_def)
  ultimately show a: "unat (data_offset d) + unat e * unat (block_size d) + unat ib + n \<le> fsize (fp d)"
    using assms(3) by simp
  with s show "unat (data_offset d + ucast e * ucast (block_size d) + ucast ib) =
      unat (data_offset d) + unat e * unat (block_size d) + unat ib"
    by (intro unat_affine3) simp
qed

text \<open>The bytes of one block, as a guest sees them.\<close>

lemma guest_in_block:
  fixes off :: u64
  assumes "dyn_sound d" and "0 < unat (block_size d)"
    and "unat off mod unat (block_size d) + n \<le> unat (block_size d)" 
  shows "window (vdi_guest d) (unat off) n =
    (let e = vdi_entry d (unat off div unat (block_size d))
     in if e = VDI_BLOCK_UNALLOCATED then zeros n
        else window (fdata (fp d)) (unat (data_offset d) + unat e * unat (block_size d)
               + unat off mod unat (block_size d)) n)"
  using assms
  by (intro nth_equalityI)
     (auto simp: vdi_guest_def Let_def dyn_sound_def in_block_div_mod add.assoc)

lemma vdi_read_loop_guest:
  assumes "dyn_sound d" and "unat off + len \<le> unat (size_bytes d)"
  shows "vdi_read_loop d off len = Some (window (vdi_guest d) (unat off) len)"
  using assms
proof (induction d off len rule: vdi_read_loop.induct)
  case (1 d off len)
  show ?case
  proof (cases "len = 0")
    case False
    obtain gb ib n where loc: "vdi_locate d off len = (gb, ib, n)" by (metis prod_cases3)
    have b: "0 < unat (block_size d)" and b0: "block_size d \<noteq> 0"
      and r: "unat off < unat (blocks_count d) * unat (block_size d)"
      using 1 False by (auto simp: dyn_sound_def)
    note l = vdi_locate_spec [OF loc b r]
    have n: "0 < n" "n \<le> len" using vdi_locate_pos [OF loc b0] False by auto
    have "unat ib < unat (block_size d)" using l b by simp
    then have fit: "unat ib + n \<le> unat (block_size d)" using l(4) by linarith
    have g: "map_get d gb = Some (vdi_entry d (unat gb))" using 1 l by (intro map_get_spec)
    have on: "unat (off + of_nat n) = unat off + n" using unat_advance [OF "1.prems"(2) n(2)] .
    let ?e = "vdi_entry d (unat gb)"
    have live: "unat ?e < unat (blocks_allocated d)" if "?e \<noteq> VDI_BLOCK_UNALLOCATED"
      using that 1 l by (auto simp: dyn_sound_def vdi_live_def)
    have chunk: "(if ?e = VDI_BLOCK_UNALLOCATED then Some (zeros n)
        else if ?e \<ge> blocks_allocated d then None
        else vdisk_host_read (fp d)
               (data_offset d + ucast ?e * ucast (block_size d) + ucast ib) n)
        = Some (window (vdi_guest d) (unat off) n)"
    proof (cases "?e = VDI_BLOCK_UNALLOCATED")
      case False
      note rg = dyn_block_range [OF "1.prems"(1) live [OF False] fit]
      show ?thesis
        using False live [OF False] rg "1.prems"(1) fit l b
        by (subst host_read_ok) (auto simp: guest_in_block Let_def word_le_nat_alt dyn_sound_def)
    qed (use 1 b fit l in \<open>simp add: guest_in_block\<close>)
    have "vdi_read_loop d (off + of_nat n) (len - n) =
        Some (window (vdi_guest d) (unat (off + of_nat n)) (len - n))"
      using 1 False b0 loc g chunk n on by (intro "1.IH") auto
    with False b0 loc g chunk n on window_append [of "vdi_guest d" "unat off" n "len - n"] show ?thesis
      by (subst vdi_read_loop.simps) simp
  qed (simp add: vdi_read_loop.simps)
qed

section \<open>Allocating a block\<close>

definition vdi_hdr_allocated :: "vdisk \<Rightarrow> u32" where
  "vdi_hdr_allocated d = le32 (window (fdata (fp d)) 0x184 4)"

text \<open>What no operation on an open image changes: its shape, the header before the allocation
  counter, and the agreement of that counter with the header.\<close>

definition vdi_kept :: "vdisk \<Rightarrow> vdisk \<Rightarrow> bool" where
  "vdi_kept d d' \<longleftrightarrow> image_type d' = image_type d \<and> size_bytes d' = size_bytes d \<and>
     data_offset d' = data_offset d \<and> block_size d' = block_size d \<and>
     blocks_offset d' = blocks_offset d \<and> blocks_count d' = blocks_count d \<and>
     writable d' = writable d \<and> flimit (fp d') = flimit (fp d) \<and> fsize (fp d) \<le> fsize (fp d') \<and>
     (\<forall>i < 0x184. fdata (fp d') i = fdata (fp d) i) \<and>
     (vdi_hdr_allocated d = blocks_allocated d \<longrightarrow> vdi_hdr_allocated d' = blocks_allocated d')"

lemma vdi_kept_refl [simp]: "vdi_kept d d"
  by (simp add: vdi_kept_def)

lemma vdi_kept_trans: "vdi_kept d1 d2 \<Longrightarrow> vdi_kept d2 d3 \<Longrightarrow> vdi_kept d1 d3"
  by (simp add: vdi_kept_def)

lemma finite_vdi_live [simp]: "finite (vdi_live d)"
  by (simp add: vdi_live_def)

lemma vdi_live_bound: "vdi_live d \<subseteq> {..<unat (blocks_count d)}"
  by (auto simp: vdi_live_def)

lemma dyn_allocated_less:
  assumes "dyn_sound d" and "unat gb < unat (blocks_count d)"
    and "vdi_entry d (unat gb) = VDI_BLOCK_UNALLOCATED"
  shows "unat (blocks_allocated d) < unat (blocks_count d)"
proof -
  have "vdi_live d \<subseteq> {..<unat (blocks_count d)} - {unat gb}"
    using assms by (auto simp: vdi_live_def)
  then have "card (vdi_live d) \<le> card ({..<unat (blocks_count d)} - {unat gb})"
    by (intro card_mono) simp_all
  with assms show ?thesis by (simp add: dyn_sound_def)
qed

lemma vdi_entry_cong:
  assumes "blocks_offset d' = blocks_offset d"
    and "\<And>i. unat (blocks_offset d) + 4 * g \<le> i \<Longrightarrow> i < unat (blocks_offset d) + 4 * g + 4 \<Longrightarrow>
      fdata (fp d') i = fdata (fp d) i"
  shows "vdi_entry d' g = vdi_entry d g"
proof -
  have "window (fdata (fp d')) (unat (blocks_offset d) + 4 * g) 4 =
      window (fdata (fp d)) (unat (blocks_offset d) + 4 * g) 4"
    using assms(2) by (intro window_cong) auto
  then show ?thesis by (simp add: vdi_entry_def assms(1))
qed

text \<open>A change of the file that keeps every byte in use keeps the image.\<close>

lemma dyn_keep_file:
  assumes "dyn_sound d" and "file_ok f" and "fwr f" and "flimit f = flimit (fp d)"
    and "fsize (fp d) \<le> fsize f"
    and same: "\<And>i. i < unat (data_offset d) + unat (blocks_allocated d) * unat (block_size d) \<Longrightarrow>
      fdata f i = fdata (fp d) i"
  shows "dyn_sound (d\<lparr>fp := f\<rparr>) \<and> vdi_kept d (d\<lparr>fp := f\<rparr>) \<and>
    (\<forall>i < unat (blocks_count d) * unat (block_size d). vdi_guest (d\<lparr>fp := f\<rparr>) i = vdi_guest d i)"
proof -
  have off: "unat (blocks_offset d) + 4 * unat (blocks_count d) \<le> unat (data_offset d)"
    "0x188 \<le> unat (blocks_offset d)" "0 < unat (block_size d)" "image_type d = VDI_IMAGE_TYPE_DYNAMIC"
    using assms(1) by (auto simp: dyn_sound_def)
  have e: "vdi_entry (d\<lparr>fp := f\<rparr>) g = vdi_entry d g" if "g < unat (blocks_count d)" for g
    using off that by (intro vdi_entry_cong) (auto intro!: same)
  have l: "vdi_live (d\<lparr>fp := f\<rparr>) = vdi_live d" using e by (auto simp: vdi_live_def)
  have "inj_on (vdi_entry (d\<lparr>fp := f\<rparr>)) (vdi_live d) = inj_on (vdi_entry d) (vdi_live d)"
    using e by (intro inj_on_cong) (auto simp: vdi_live_def)
  with assms(1-5) e l have s: "dyn_sound (d\<lparr>fp := f\<rparr>)"
    by (auto simp: dyn_sound_def vdi_live_def)
  have "vdi_hdr_allocated (d\<lparr>fp := f\<rparr>) = vdi_hdr_allocated d"
    unfolding vdi_hdr_allocated_def using off by (intro arg_cong [of _ _ le32] window_cong) (auto intro!: same)
  then have k: "vdi_kept d (d\<lparr>fp := f\<rparr>)"
    using assms off by (auto simp: vdi_kept_def intro!: same)
  have "vdi_guest (d\<lparr>fp := f\<rparr>) i = vdi_guest d i"
    if i: "i < unat (blocks_count d) * unat (block_size d)" for i
  proof -
    let ?b = "unat (block_size d)" and ?g = "i div unat (block_size d)"
    have g: "?g < unat (blocks_count d)" using i off by (simp add: div_less_iff_less_mult)
    have "fdata f (unat (data_offset d) + unat (vdi_entry d ?g) * ?b + i mod ?b) =
        fdata (fp d) (unat (data_offset d) + unat (vdi_entry d ?g) * ?b + i mod ?b)"
      if "vdi_entry d ?g \<noteq> VDI_BLOCK_UNALLOCATED"
    proof (rule same)
      have "unat (vdi_entry d ?g) < unat (blocks_allocated d)"
        using assms(1) g that by (auto simp: dyn_sound_def vdi_live_def)
      then have "Suc (unat (vdi_entry d ?g)) * ?b \<le> unat (blocks_allocated d) * ?b"
        by (intro mult_le_mono1) simp
      moreover have "i mod ?b < ?b" using off by simp
      ultimately show "unat (data_offset d) + unat (vdi_entry d ?g) * ?b + i mod ?b <
          unat (data_offset d) + unat (blocks_allocated d) * ?b" by simp
    qed
    with e [OF g] off show ?thesis by (simp add: vdi_guest_def Let_def)
  qed
  with s k show ?thesis by blast
qed

text \<open>Entering the next host block in the map.\<close>

definition vdi_map_block :: "vdisk \<Rightarrow> u32 \<Rightarrow> vdisk" where
  "vdi_map_block d gb =
     d\<lparr>fp := poke (poke (fp d) (unat (blocks_offset d) + 4 * unat gb) (put32 (blocks_allocated d)))
          0x184 (put32 (blocks_allocated d + 1)),
       blocks_allocated := blocks_allocated d + 1,
       host_size_bytes := data_offset d + ucast (blocks_allocated d + 1) * ucast (block_size d)\<rparr>"

lemma vdi_map_block_data:
  assumes "dyn_sound d" and "unat gb < unat (blocks_count d)"
  shows "i < fsize (fp d) \<Longrightarrow> fdata (fp (vdi_map_block d gb)) i =
      overlay (overlay (fdata (fp d)) (unat (blocks_offset d) + 4 * unat gb) (put32 (blocks_allocated d)))
        0x184 (put32 (blocks_allocated d + 1)) i"
    and "fsize (fp (vdi_map_block d gb)) = fsize (fp d)"
proof -
  have "unat (blocks_offset d) + 4 * unat gb + 4 \<le> fsize (fp d)" "0x188 \<le> fsize (fp d)"
    using dyn_map_off [OF assms] assms(1) by (auto simp: dyn_sound_def)
  then show "fsize (fp (vdi_map_block d gb)) = fsize (fp d)"
    "i < fsize (fp d) \<Longrightarrow> fdata (fp (vdi_map_block d gb)) i =
      overlay (overlay (fdata (fp d)) (unat (blocks_offset d) + 4 * unat gb) (put32 (blocks_allocated d)))
        0x184 (put32 (blocks_allocated d + 1)) i"
    by (auto simp: vdi_map_block_def fdata_poke overlay_def)
qed

lemma vdi_map_block_entry:
  assumes "dyn_sound d" and "unat gb < unat (blocks_count d)" and "g < unat (blocks_count d)"
  shows "vdi_entry (vdi_map_block d gb) g =
    (if g = unat gb then blocks_allocated d else vdi_entry d g)"
proof -
  have off: "unat (blocks_offset d) + 4 * unat (blocks_count d) \<le> fsize (fp d)"
    "0x188 \<le> unat (blocks_offset d)"
    using assms(1) dyn_map_off(3) [OF assms(1,2)] by (auto simp: dyn_sound_def)
  let ?a = "unat (blocks_offset d) + 4 * g"
  have "window (fdata (fp (vdi_map_block d gb))) ?a 4 = window (overlay (overlay (fdata (fp d))
      (unat (blocks_offset d) + 4 * unat gb) (put32 (blocks_allocated d)))
      0x184 (put32 (blocks_allocated d + 1))) ?a 4"
    using off assms(3) by (intro window_cong vdi_map_block_data [OF assms(1,2)]) auto
  also have "\<dots> = window (overlay (fdata (fp d)) (unat (blocks_offset d) + 4 * unat gb)
      (put32 (blocks_allocated d))) ?a 4"
    using off by (intro window_overlay_disjoint) simp
  also have "\<dots> = (if g = unat gb then put32 (blocks_allocated d) else window (fdata (fp d)) ?a 4)"
    by (cases g "unat gb" rule: linorder_cases) (simp_all add: window_overlay_same window_overlay_disjoint)
  finally show ?thesis by (simp add: vdi_entry_def vdi_map_block_def)
qed


lemma vdi_map_block_live:
  assumes "dyn_sound d" and "unat gb < unat (blocks_count d)"
    and "vdi_entry d (unat gb) = VDI_BLOCK_UNALLOCATED"
  shows "vdi_live (vdi_map_block d gb) = insert (unat gb) (vdi_live d)"
    and "blocks_allocated d \<noteq> VDI_BLOCK_UNALLOCATED"
    and "unat (blocks_allocated d + 1) = unat (blocks_allocated d) + 1"
proof -
  have lt: "unat (blocks_allocated d) < unat (blocks_count d)" using dyn_allocated_less [OF assms] .
  then have m: "unat (blocks_allocated d) < 4294967295"
    using unat_u32_less [of "blocks_count d"] by linarith
  then show na: "blocks_allocated d \<noteq> VDI_BLOCK_UNALLOCATED"
    by (auto simp: VDI_BLOCK_UNALLOCATED_def)
  show "unat (blocks_allocated d + 1) = unat (blocks_allocated d) + 1"
    using m by (subst unat_add_small) simp_all
  have [simp]: "blocks_count (vdi_map_block d gb) = blocks_count d" by (simp add: vdi_map_block_def)
  show "vdi_live (vdi_map_block d gb) = insert (unat gb) (vdi_live d)"
    using na assms vdi_map_block_entry [OF assms(1,2)] by (auto simp: vdi_live_def split: if_splits)
qed

lemma vdi_map_block_sound:
  assumes "dyn_sound d" and "unat gb < unat (blocks_count d)"
    and "vdi_entry d (unat gb) = VDI_BLOCK_UNALLOCATED" and "writable d"
    and "unat (data_offset d) + Suc (unat (blocks_allocated d)) * unat (block_size d) \<le> fsize (fp d)"
  shows "dyn_sound (vdi_map_block d gb)"
proof -
  let ?d = "vdi_map_block d gb"
  note L = vdi_map_block_live [OF assms(1-3)]
  have [simp]: "blocks_allocated ?d = blocks_allocated d + 1" "image_type ?d = image_type d"
    "writable ?d = writable d" "block_size ?d = block_size d" "size_bytes ?d = size_bytes d"
    "blocks_count ?d = blocks_count d" "blocks_offset ?d = blocks_offset d"
    "data_offset ?d = data_offset d" "fwr (fp ?d) = fwr (fp d)" "flimit (fp ?d) = flimit (fp d)"
    by (simp_all add: vdi_map_block_def)
  have lb: "g < unat (blocks_count d)" if "g \<in> vdi_live d" for g using that by (simp add: vdi_live_def)
  have ng: "unat gb \<notin> vdi_live d" using assms by (simp add: vdi_live_def)
  have e: "vdi_entry ?d g = (if g = unat gb then blocks_allocated d else vdi_entry d g)"
    if "g \<in> vdi_live ?d" for g
    using that vdi_map_block_entry [OF assms(1,2)] by (simp add: vdi_live_def)
  have old: "unat (vdi_entry d g) < unat (blocks_allocated d)" if "g \<in> vdi_live d" for g
    using assms(1) that by (auto simp: dyn_sound_def)
  have eo: "vdi_entry ?d g = vdi_entry d g" if "g \<in> vdi_live d" for g
    using e [of g] L(1) that ng by auto
  have en: "vdi_entry ?d (unat gb) = blocks_allocated d" using e [of "unat gb"] L(1) by simp
  have inj: "inj_on (vdi_entry ?d) (insert (unat gb) (vdi_live d))"
  proof -
    have "inj_on (vdi_entry ?d) (vdi_live d)"
      using assms(1) eo inj_on_cong [of "vdi_live d" "vdi_entry ?d" "vdi_entry d"]
      by (auto simp: dyn_sound_def)
    moreover have "blocks_allocated d \<notin> vdi_entry ?d ` vdi_live d"
      using old eo by (metis image_iff less_irrefl)
    ultimately show ?thesis using ng en by (simp add: inj_on_insert)
  qed
  have cap: "unat (vdi_entry ?d g) < unat (blocks_allocated d + 1)"
    if "g \<in> insert (unat gb) (vdi_live d)" for g
    using that en eo old [of g] L(3) by (cases "g = unat gb") auto
  have fs: "fsize (fp ?d) = fsize (fp d)" using vdi_map_block_data(2) [OF assms(1,2)] .
  with assms(1) have "file_ok (fp ?d)" by (simp add: dyn_sound_def file_ok_def)
  with assms(1,5) fs inj cap L ng show ?thesis
    unfolding dyn_sound_def L(1) by (auto simp: add.commute)
qed

lemma vdi_map_block_guest:
  assumes "dyn_sound d" and "unat gb < unat (blocks_count d)"
    and "vdi_entry d (unat gb) = VDI_BLOCK_UNALLOCATED"
    and "unat (data_offset d) + Suc (unat (blocks_allocated d)) * unat (block_size d) \<le> fsize (fp d)"
    and clear: "\<And>i. i < unat (block_size d) \<Longrightarrow>
      fdata (fp d) (unat (data_offset d) + unat (blocks_allocated d) * unat (block_size d) + i) = 0"
    and i: "i < unat (blocks_count d) * unat (block_size d)"
  shows "vdi_guest (vdi_map_block d gb) i = vdi_guest d i"
proof -
  let ?d = "vdi_map_block d gb" and ?b = "unat (block_size d)" and ?g = "i div unat (block_size d)"
  have b: "0 < ?b" and ty: "image_type d = VDI_IMAGE_TYPE_DYNAMIC"
    and off: "unat (blocks_offset d) + 4 * unat (blocks_count d) \<le> unat (data_offset d)"
      "0x188 \<le> unat (blocks_offset d)"
    using assms(1) by (auto simp: dyn_sound_def)
  have g: "?g < unat (blocks_count d)" using i b by (simp add: div_less_iff_less_mult)
  have data: "fdata (fp ?d) (unat (data_offset d) + unat e * ?b + i mod ?b) =
      fdata (fp d) (unat (data_offset d) + unat e * ?b + i mod ?b)"
    if "unat e \<le> unat (blocks_allocated d)" for e :: u32
  proof -
    have "unat e * ?b \<le> unat (blocks_allocated d) * ?b" using that by (rule mult_le_mono1)
    moreover have "i mod ?b < ?b" using b by simp
    ultimately have "unat (data_offset d) + unat e * ?b + i mod ?b < fsize (fp d)"
      using assms(4) [unfolded mult_Suc] by linarith
    from vdi_map_block_data(1) [OF assms(1,2) this] off assms(2) show ?thesis
      by (simp add: overlay_def)
  qed
  have f: "image_type ?d = image_type d" "block_size ?d = block_size d" "data_offset ?d = data_offset d"
    by (simp_all add: vdi_map_block_def)
  note L = vdi_map_block_live [OF assms(1-3)]
  show ?thesis
  proof (cases "?g = unat gb")
    case True
    then have "vdi_guest ?d i = fdata (fp ?d)
        (unat (data_offset d) + unat (blocks_allocated d) * ?b + i mod ?b)"
      using vdi_map_block_entry [OF assms(1,2) g] L(2) ty f by (simp add: vdi_guest_def Let_def)
    also have "\<dots> = 0" using data [of "blocks_allocated d"] clear [of "i mod ?b"] b by simp
    finally show ?thesis using True assms(3) ty by (simp add: vdi_guest_def Let_def)
  next
    case False
    then have e: "vdi_entry ?d ?g = vdi_entry d ?g"
      using vdi_map_block_entry [OF assms(1,2) g] by simp
    have "unat (vdi_entry d ?g) \<le> unat (blocks_allocated d)"
      if "vdi_entry d ?g \<noteq> VDI_BLOCK_UNALLOCATED"
      using that g assms(1) by (auto simp: dyn_sound_def vdi_live_def intro: less_imp_le)
    with data e f ty show ?thesis by (simp add: vdi_guest_def Let_def)
  qed
qed

lemma vdi_map_block_kept:
  assumes "dyn_sound d" and "unat gb < unat (blocks_count d)"
  shows "vdi_kept d (vdi_map_block d gb)"
proof -
  let ?d = "vdi_map_block d gb"
  have off: "0x188 \<le> unat (blocks_offset d)" "0x188 \<le> fsize (fp d)"
    using assms dyn_map_off(2,3) [OF assms] by (auto simp: dyn_sound_def)
  have "window (fdata (fp ?d)) 0x184 4 = window (overlay (overlay (fdata (fp d))
      (unat (blocks_offset d) + 4 * unat gb) (put32 (blocks_allocated d)))
      0x184 (put32 (blocks_allocated d + 1))) 0x184 4"
    using off by (intro window_cong vdi_map_block_data [OF assms]) auto
  then have "vdi_hdr_allocated ?d = blocks_allocated ?d"
    by (simp add: vdi_hdr_allocated_def window_overlay_same vdi_map_block_def)
  moreover have "fdata (fp ?d) i = fdata (fp d) i" if "i < 0x184" for i
    using vdi_map_block_data(1) [OF assms, of i] off that by (simp add: overlay_def)
  moreover have "fsize (fp d) \<le> fsize (fp ?d)" using vdi_map_block_data(2) [OF assms] by simp
  ultimately show ?thesis by (simp add: vdi_kept_def vdi_map_block_def)
qed


text \<open>In a sound image only the clearing of the new block can fail.\<close>

lemma allocate_block_eq:
  assumes "dyn_sound d" and "writable d" and "unat gb < unat (blocks_count d)"
    and "vdi_entry d (unat gb) = VDI_BLOCK_UNALLOCATED"
    and z: "zero_loop 65536 (fp d) (data_offset d + ucast (blocks_allocated d) * ucast (block_size d))
      0 (ucast (block_size d)) = (f1, ok1)"
    and d1: "dyn_sound (d\<lparr>fp := f1\<rparr>)" "fwr f1"
  shows "allocate_block d gb =
    (if ok1 then (vdi_map_block (d\<lparr>fp := f1\<rparr>) gb, Some (blocks_allocated d)) else (d\<lparr>fp := f1\<rparr>, None))"
proof -
  let ?b = "unat (block_size d)" and ?al = "unat (blocks_allocated d)"
  have b: "0 < ?b"
    and sz: "unat (data_offset d) + ?al * ?b \<le> fsize (fp d)" "fsize (fp d) < 2 ^ 63"
    using assms(1) by (auto simp: dyn_sound_def file_ok_def)
  have lt: "blocks_allocated d < blocks_count d"
    using dyn_allocated_less [OF assms(1,3,4)] by (simp add: word_less_nat_alt)
  have "?al * ?b \<le> unat (- 1 - data_offset d)"
    using sz by (subst unat_sub_small) auto
  then have guard: "\<not> ucast (blocks_allocated d) > (- 1 - data_offset d) div ucast (block_size d)"
    using b by (simp add: word_less_nat_alt unat_div u_simps not_less less_eq_div_iff_mult_less_eq)
  have gb: "unat gb < unat (blocks_count (d\<lparr>fp := f1\<rparr>))" using assms(3) by simp
  note mo = dyn_map_off [OF d1(1) gb, simplified]
  have ok: "file_ok f1" "0x188 \<le> unat (blocks_offset d)" using d1 by (auto simp: dyn_sound_def)
  then have lim: "unat (data_offset d) \<le> flimit f1" using mo(3) by (simp add: file_ok_def)
  have ms: "map_set (d\<lparr>fp := f1\<rparr>) gb (blocks_allocated d) =
      (d\<lparr>fp := poke f1 (unat (blocks_offset d) + 4 * unat gb) (put32 (blocks_allocated d))\<rparr>, True)"
    using assms(3) mo lim ok d1 by (simp add: map_set_def put_fp_def host_write_ok word_le_nat_alt)
  have "file_ok (poke f1 (unat (blocks_offset d) + 4 * unat gb) (put32 (blocks_allocated d)))"
    using ok mo lim by (intro file_ok_poke) auto
  then have ua: "vdisk_host_write (poke f1 (unat (blocks_offset d) + 4 * unat gb)
        (put32 (blocks_allocated d))) 0x184 (put32 (blocks_allocated d + 1)) =
      (poke (poke f1 (unat (blocks_offset d) + 4 * unat gb) (put32 (blocks_allocated d)))
        0x184 (put32 (blocks_allocated d + 1)), True)"
    using ok mo lim d1 by (subst host_write_ok) auto
  show ?thesis
    using lt guard z ms ua
    by (auto simp: allocate_block_def Let_def put_fp_def update_allocated_def vdi_map_block_def)
qed

lemma allocate_block_spec:
  assumes "dyn_sound d" and "writable d" and "unat gb < unat (blocks_count d)"
    and "vdi_entry d (unat gb) = VDI_BLOCK_UNALLOCATED" and "allocate_block d gb = (d', r)"
  shows "dyn_sound d' \<and> vdi_kept d d' \<and>
    (\<forall>i < unat (blocks_count d) * unat (block_size d). vdi_guest d' i = vdi_guest d i) \<and>
    (case r of None \<Rightarrow> \<not> vdi_room d
     | Some e \<Rightarrow> vdi_entry d' (unat gb) = e \<and> e \<noteq> VDI_BLOCK_UNALLOCATED \<and>
                 unat e < unat (blocks_allocated d'))"
proof -
  let ?b = "unat (block_size d)" and ?al = "unat (blocks_allocated d)"
  have fw: "fwr (fp d)" and fo: "file_ok (fp d)"
    and sz: "unat (data_offset d) + ?al * ?b \<le> fsize (fp d)" "fsize (fp d) < 9223372036854775808"
    using assms(1,2) by (auto simp: dyn_sound_def file_ok_def)
  have lt: "?al < unat (blocks_count d)" by (rule dyn_allocated_less [OF assms(1,3,4)])
  define ho where "ho = data_offset d + ucast (blocks_allocated d) * ucast (block_size d)"
  have ho: "unat ho = unat (data_offset d) + ?al * ?b"
    using sz unfolding ho_def by (intro unat_affine) simp
  obtain f1 ok1 where z: "zero_loop 65536 (fp d) ho 0 (ucast (block_size d)) = (f1, ok1)" by force
  have "unat ho + ?b < 18446744073709551616"
    using sz unat_u32_less [of "block_size d"] unfolding ho by linarith
  then have ze: "zero_effect (unat ho) 0 ?b (fp d) f1 ok1"
    using zero_loop_spec [OF z fo fw] by (simp add: u_simps)
  have k1: "dyn_sound (d\<lparr>fp := f1\<rparr>) \<and> vdi_kept d (d\<lparr>fp := f1\<rparr>) \<and>
      (\<forall>i < unat (blocks_count d) * ?b. vdi_guest (d\<lparr>fp := f1\<rparr>) i = vdi_guest d i)"
    using ze ho sz by (intro dyn_keep_file [OF assms(1)]) (auto simp: zero_effect_def)
  have ab: "allocate_block d gb = (if ok1 then (vdi_map_block (d\<lparr>fp := f1\<rparr>) gb, Some (blocks_allocated d))
      else (d\<lparr>fp := f1\<rparr>, None))"
    using ze k1 by (intro allocate_block_eq [OF assms(1-4) z [unfolded ho_def]]) (auto simp: zero_effect_def)
  show ?thesis
  proof (cases ok1)
    case False
    have "Suc ?al * ?b \<le> unat (blocks_count d) * ?b" using lt by (intro mult_le_mono1) simp
    then have "unat ho + ?b \<le> flimit (fp d)" if "vdi_room d"
      using that ho assms(1) by (auto simp: vdi_room_def dyn_sound_def)
    with ze False have "\<not> vdi_room d" using assms(1) by (auto simp: zero_effect_def dyn_sound_def)
    with assms(5) k1 False ab show ?thesis by auto
  next
    case True
    define d1 where "d1 = d\<lparr>fp := f1\<rparr>"
    have d1: "dyn_sound d1" "vdi_kept d d1" "writable d1"
      and g1: "\<And>i. i < unat (blocks_count d) * ?b \<Longrightarrow> vdi_guest d1 i = vdi_guest d i"
      using k1 assms(2) by (auto simp: d1_def)
    have gb: "unat gb < unat (blocks_count d1)" using assms(3) by (simp add: d1_def)
    have mo: "unat (blocks_offset d) + 4 * unat gb + 4 \<le> unat (data_offset d)"
      "unat (data_offset d) \<le> fsize (fp d)"
      using dyn_map_off [OF assms(1,3)] by auto
    have e1: "vdi_entry d1 (unat gb) = VDI_BLOCK_UNALLOCATED"
      using assms(4) vdi_entry_cong [of d1 d "unat gb"] ze mo ho by (auto simp: d1_def zero_effect_def)
    have room: "unat (data_offset d1) + Suc (unat (blocks_allocated d1)) * unat (block_size d1) \<le> fsize (fp d1)"
      using ze True ho mo by (auto simp: d1_def zero_effect_def split: if_splits)
    have clear: "fdata (fp d1) (unat (data_offset d1) + unat (blocks_allocated d1) * unat (block_size d1) + i) = 0"
      if "i < unat (block_size d1)" for i
      using ze True ho that by (auto simp: d1_def zero_effect_def)
    have d': "d' = vdi_map_block d1 gb" "r = Some (blocks_allocated d)" using assms(5) ab True by (auto simp: d1_def)
    note L = vdi_map_block_live [OF d1(1) gb e1]
    have "vdi_guest d' i = vdi_guest d i" if "i < unat (blocks_count d) * ?b" for i
      using vdi_map_block_guest [OF d1(1) gb e1 room clear] g1 that by (simp add: d' d1_def)
    moreover have "vdi_entry d' (unat gb) = blocks_allocated d"
      using vdi_map_block_entry [OF d1(1) gb gb] by (simp add: d' d1_def)
    moreover have "unat (blocks_allocated d) < unat (blocks_allocated d')"
      "blocks_allocated d \<noteq> VDI_BLOCK_UNALLOCATED"
      using L(2,3) by (simp_all add: d' vdi_map_block_def d1_def)
    ultimately show ?thesis
      using vdi_map_block_sound [OF d1(1) gb e1 d1(3) room] vdi_kept_trans [OF d1(2) vdi_map_block_kept [OF d1(1) gb]]
      by (simp add: d')
  qed
qed


section \<open>Writing\<close>

text \<open>Host bytes written through one map entry are the guest bytes of that block.\<close>

lemma guest_overlay_block:
  assumes "image_type d = VDI_IMAGE_TYPE_DYNAMIC" and "0 < b" and "b = unat (block_size d)"
    and "g < unat (blocks_count d)" and "vdi_entry d g = e" and "e \<noteq> VDI_BLOCK_UNALLOCATED"
    and inj: "inj_on (vdi_entry d) (vdi_live d)"
    and "k + length bs \<le> b" and i: "i < unat (blocks_count d) * b"
    and ent: "vdi_entry (d\<lparr>fp := f\<rparr>) (i div b) = vdi_entry d (i div b)"
    and fd: "\<And>e'. vdi_entry d (i div b) = e' \<Longrightarrow> e' \<noteq> VDI_BLOCK_UNALLOCATED \<Longrightarrow>
      fdata f (unat (data_offset d) + unat e' * b + i mod b) =
      overlay (fdata (fp d)) (unat (data_offset d) + unat e * b + k) bs
        (unat (data_offset d) + unat e' * b + i mod b)"
  shows "vdi_guest (d\<lparr>fp := f\<rparr>) i = overlay (vdi_guest d) (g * b + k) bs i"
proof -
  let ?g = "i div b" and ?m = "i mod b"
  have m: "?m < b" and im: "i = ?g * b + ?m" using assms(2) by simp_all
  have g: "?g < unat (blocks_count d)" using i assms(2) by (simp add: div_less_iff_less_mult)
  have gi: "g * b + k \<le> i \<and> i < g * b + k + length bs \<longleftrightarrow> ?g = g \<and> k \<le> ?m \<and> ?m < k + length bs"
    using block_interval [OF m assms(8), of g ?g] by simp
  show ?thesis
  proof (cases "vdi_entry d ?g = VDI_BLOCK_UNALLOCATED")
    case True
    then have "?g \<noteq> g" using assms by auto
    with True gi ent assms(1,3) show ?thesis by (auto simp: vdi_guest_def Let_def overlay_def)
  next
    case False
    define e' where "e' = vdi_entry d ?g"
    have "e' = e \<longleftrightarrow> ?g = g"
      using inj_onD [OF inj, of ?g g] False g assms(4-6) by (auto simp: e'_def vdi_live_def)
    then have hi: "unat e * b + k \<le> unat e' * b + ?m \<and> unat e' * b + ?m < unat e * b + k + length bs \<longleftrightarrow>
        ?g = g \<and> k \<le> ?m \<and> ?m < k + length bs"
      using block_interval [OF m assms(8), of "unat e" "unat e'"] by (auto simp: word_unat_eq_iff)
    have idx: "i - (g * b + k) = ?m - k" if "?g = g" using im that by simp
    have "vdi_guest (d\<lparr>fp := f\<rparr>) i = overlay (fdata (fp d)) (unat (data_offset d) + unat e * b + k) bs
        (unat (data_offset d) + unat e' * b + ?m)"
      using fd [OF e'_def [symmetric]] False ent assms(1,3) by (simp add: vdi_guest_def Let_def e'_def)
    also have "\<dots> = overlay (vdi_guest d) (g * b + k) bs i"
    proof (cases "?g = g \<and> k \<le> ?m \<and> ?m < k + length bs")
      case True
      then have "e' = e" using \<open>e' = e \<longleftrightarrow> ?g = g\<close> by blast
      with True hi gi idx show ?thesis by (simp add: overlay_in)
    next
      case out: False
      have "vdi_guest d i = fdata (fp d) (unat (data_offset d) + unat e' * b + ?m)"
        using False assms(1,3) by (simp add: vdi_guest_def Let_def e'_def)
      moreover have "i < g * b + k \<or> g * b + k + length bs \<le> i" using gi out by linarith
      moreover have "unat e' * b + ?m < unat e * b + k \<or> unat e * b + k + length bs \<le> unat e' * b + ?m"
        using hi out by linarith
      then have "unat (data_offset d) + unat e' * b + ?m < unat (data_offset d) + unat e * b + k \<or>
          unat (data_offset d) + unat e * b + k + length bs \<le> unat (data_offset d) + unat e' * b + ?m"
        by linarith
      ultimately show ?thesis by (simp only: overlay_out)
    qed
    finally show ?thesis .
  qed
qed

text \<open>Writing inside one live block.\<close>

lemma dyn_block_write:
  fixes gb e ib :: u32
  assumes "dyn_sound d" and "writable d" and "unat gb < unat (blocks_count d)"
    and "vdi_entry d (unat gb) = e" and "e \<noteq> VDI_BLOCK_UNALLOCATED"
    and "unat ib + length bs \<le> unat (block_size d)" and "bs \<noteq> []"
  defines "off \<equiv> data_offset d + ucast e * ucast (block_size d) + ucast ib"
  shows "\<exists>f. vdisk_host_write (fp d) off bs = (f, True) \<and> dyn_sound (d\<lparr>fp := f\<rparr>) \<and>
    vdi_kept d (d\<lparr>fp := f\<rparr>) \<and> (\<forall>i < unat (blocks_count d) * unat (block_size d).
      vdi_guest (d\<lparr>fp := f\<rparr>) i =
        overlay (vdi_guest d) (unat gb * unat (block_size d) + unat ib) bs i)"
proof -
  let ?b = "unat (block_size d)"
  have live: "unat gb \<in> vdi_live d" using assms by (simp add: vdi_live_def)
  have b: "0 < ?b" and ty: "image_type d = VDI_IMAGE_TYPE_DYNAMIC" and fw: "fwr (fp d)" and fo: "file_ok (fp d)"
    and ba: "unat (blocks_offset d) + 4 * unat (blocks_count d) \<le> unat (data_offset d)" "0x188 \<le> unat (blocks_offset d)"
    and inj: "inj_on (vdi_entry d) (vdi_live d)"
    and e: "unat e < unat (blocks_allocated d)"
    using assms(1,2,4) live by (auto simp: dyn_sound_def)
  note rg = dyn_block_range [OF assms(1) e assms(6)]
  define f where "f = poke (fp d) (unat off) bs"
  have uo: "unat off = unat (data_offset d) + unat e * ?b + unat ib" using rg by (simp add: off_def)
  have w: "vdisk_host_write (fp d) off bs = (f, True)"
    using fo fw rg uo unfolding f_def by (intro host_write_ok) (auto simp: file_ok_def)
  have fd: "fdata f i = overlay (fdata (fp d)) (unat off) bs i" if "i < fsize (fp d)" for i
    using that by (simp add: f_def fdata_poke)
  have ff: "file_ok f" "fsize f = fsize (fp d)" "fwr f" "flimit f = flimit (fp d)"
    using fo fw rg uo by (auto simp: f_def file_ok_def)
  have ent: "vdi_entry (d\<lparr>fp := f\<rparr>) g = vdi_entry d g" if "g < unat (blocks_count d)" for g
    using that ba rg uo by (intro vdi_entry_cong) (auto simp: fd overlay_def)
  have lv: "vdi_live (d\<lparr>fp := f\<rparr>) = vdi_live d" using ent by (auto simp: vdi_live_def)
  have "inj_on (vdi_entry (d\<lparr>fp := f\<rparr>)) (vdi_live d)"
    using inj inj_on_cong [of "vdi_live d" "vdi_entry (d\<lparr>fp := f\<rparr>)" "vdi_entry d"] ent
    by (auto simp: vdi_live_def)
  with assms(1) ff ent lv have s: "dyn_sound (d\<lparr>fp := f\<rparr>)"
    by (auto simp: dyn_sound_def vdi_live_def)
  have h: "fdata f i = fdata (fp d) i" if "i < 0x188" for i
    using that ba rg uo by (subst fd) (auto simp: overlay_def)
  have "vdi_hdr_allocated (d\<lparr>fp := f\<rparr>) = vdi_hdr_allocated d"
    unfolding vdi_hdr_allocated_def by (intro arg_cong [of _ _ le32] window_cong) (auto simp: h)
  with h ff have k: "vdi_kept d (d\<lparr>fp := f\<rparr>)" by (simp add: vdi_kept_def)
  have "vdi_guest (d\<lparr>fp := f\<rparr>) i = overlay (vdi_guest d) (unat gb * ?b + unat ib) bs i"
    if i: "i < unat (blocks_count d) * ?b" for i
  proof -
    have g: "i div ?b < unat (blocks_count d)" using i b by (simp add: div_less_iff_less_mult)
    show ?thesis
    proof (rule guest_overlay_block [OF ty b refl assms(3,4,5) inj assms(6) i ent [OF g]])
      fix e' assume e': "vdi_entry d (i div ?b) = e'" "e' \<noteq> VDI_BLOCK_UNALLOCATED"
      then have "unat e' < unat (blocks_allocated d)"
        using assms(1) g by (auto simp: dyn_sound_def vdi_live_def)
      then have "Suc (unat e') * ?b \<le> unat (blocks_allocated d) * ?b" by (intro mult_le_mono1) simp
      moreover have "i mod ?b < ?b" using b by simp
      ultimately have "unat (data_offset d) + unat e' * ?b + i mod ?b < fsize (fp d)"
        using assms(1) unfolding dyn_sound_def mult_Suc by linarith
      from fd [OF this] show "fdata f (unat (data_offset d) + unat e' * ?b + i mod ?b) =
          overlay (fdata (fp d)) (unat (data_offset d) + unat e * ?b + unat ib) bs
            (unat (data_offset d) + unat e' * ?b + i mod ?b)" by (simp add: uo)
    qed
  qed
  with w s k show ?thesis by blast
qed


lemma vdi_kept_shape:
  assumes "vdi_kept d d'"
  shows "size_bytes d' = size_bytes d" and "block_size d' = block_size d"
    and "blocks_count d' = blocks_count d" and "writable d' = writable d"
    and "vdi_room d' \<longleftrightarrow> vdi_room d" and "image_type d' = image_type d"
    and "data_offset d' = data_offset d"
  using assms by (auto simp: vdi_kept_def vdi_room_def)

lemma overlay_prefix:
  assumes "n \<le> length bs" and "k \<le> length bs - n"
    and "\<And>i. i < m \<Longrightarrow> g1 i = overlay g off (take n bs) i"
    and "\<And>i. i < m \<Longrightarrow> g2 i = overlay g1 (off + n) (take k (drop n bs)) i" and "i < m"
  shows "g2 i = overlay g off (take (n + k) bs) i"
proof -
  have "g2 i = overlay (overlay g off (take n bs)) (off + length (take n bs)) (take k (drop n bs)) i"
    using assms by (simp add: overlay_def)
  also have "\<dots> = overlay g off (take (n + k) bs) i"
    unfolding overlay_append by (simp add: take_add)
  finally show ?thesis .
qed

text \<open>One round of the write loop.\<close>

definition vdi_block_for :: "vdisk \<Rightarrow> u32 \<Rightarrow> u32 \<Rightarrow> vdisk \<times> u32 option" where
  "vdi_block_for d gb entry =
     (if entry = VDI_BLOCK_UNALLOCATED then allocate_block d gb
      else if entry \<ge> blocks_allocated d then (d, None) else (d, Some entry))"

lemma vdi_block_for_spec:
  assumes "dyn_sound d" and "writable d" and "unat gb < unat (blocks_count d)"
    and "vdi_block_for d gb (vdi_entry d (unat gb)) = (d1, r)"
  shows "dyn_sound d1 \<and> vdi_kept d d1 \<and>
    (\<forall>i < unat (blocks_count d) * unat (block_size d). vdi_guest d1 i = vdi_guest d i) \<and>
    (case r of None \<Rightarrow> \<not> vdi_room d
     | Some e \<Rightarrow> vdi_entry d1 (unat gb) = e \<and> e \<noteq> VDI_BLOCK_UNALLOCATED)"
proof (cases "vdi_entry d (unat gb) = VDI_BLOCK_UNALLOCATED")
  case True
  with assms allocate_block_spec [OF assms(1-3) True] show ?thesis
    by (auto simp: vdi_block_for_def split: option.splits)
next
  case False
  then have "\<not> vdi_entry d (unat gb) \<ge> blocks_allocated d"
    using assms(1,3) by (auto simp: dyn_sound_def vdi_live_def word_le_nat_alt)
  with False assms show ?thesis by (auto simp: vdi_block_for_def)
qed

lemma dyn_in_range:
  assumes "dyn_sound d" and "unat off + length bs \<le> unat (size_bytes d)" and "bs \<noteq> []"
  shows "unat off < unat (blocks_count d) * unat (block_size d)"
proof -
  have "0 < length bs" using assms(3) by simp
  moreover have "unat (size_bytes d) \<le> unat (blocks_count d) * unat (block_size d)"
    using assms(1) by (simp add: dyn_sound_def)
  ultimately show ?thesis using assms(2) by linarith
qed

lemma vdi_write_round:
  assumes "dyn_sound d" and "writable d" and "unat off + length bs \<le> unat (size_bytes d)" and "bs \<noteq> []"
    and loc: "vdi_locate d off (length bs) = (gb, ib, n)"
  obtains (full) d1 where "vdi_block_for d gb (vdi_entry d (unat gb)) = (d1, None)"
    and "dyn_sound d1" and "vdi_kept d d1" and "\<not> vdi_room d"
    and "\<And>i. i < unat (blocks_count d) * unat (block_size d) \<Longrightarrow> vdi_guest d1 i = vdi_guest d i"
  | (written) d1 e d2 where "vdi_block_for d gb (vdi_entry d (unat gb)) = (d1, Some e)"
    and "put_fp d1 (vdisk_host_write (fp d1)
          (data_offset d1 + ucast e * ucast (block_size d1) + ucast ib) (take n bs)) = (d2, True)"
    and "dyn_sound d2" and "vdi_kept d d2"
    and "\<And>i. i < unat (blocks_count d) * unat (block_size d) \<Longrightarrow>
      vdi_guest d2 i = overlay (vdi_guest d) (unat off) (take n bs) i"
proof -
  have b: "0 < unat (block_size d)" using assms(1) by (auto simp: dyn_sound_def)
  have r: "unat off < unat (blocks_count d) * unat (block_size d)"
    by (rule dyn_in_range [OF assms(1,3,4)])
  note l = vdi_locate_spec [OF loc b r]
  have n: "0 < n" "n \<le> length bs"
    using vdi_locate_pos [OF loc] b assms(4) by (auto simp: unat_gt_0)
  have "unat ib < unat (block_size d)" using l b by simp
  then have fit: "unat ib + n \<le> unat (block_size d)" using l(4) by linarith
  have off: "unat gb * unat (block_size d) + unat ib = unat off" using l by simp
  obtain d1 r where bf: "vdi_block_for d gb (vdi_entry d (unat gb)) = (d1, r)" by force
  note s = vdi_block_for_spec [OF assms(1,2) l(3) bf]
  have sh: "block_size d1 = block_size d" "blocks_count d1 = blocks_count d" "writable d1"
    using s assms(2) vdi_kept_shape [of d d1] by auto
  show thesis
  proof (cases r)
    case None
    with s bf show ?thesis by (intro full [of d1]) auto
  next
    case (Some e)
    have "dyn_sound d1" "unat gb < unat (blocks_count d1)" "vdi_entry d1 (unat gb) = e"
      "e \<noteq> VDI_BLOCK_UNALLOCATED" "unat ib + length (take n bs) \<le> unat (block_size d1)" "take n bs \<noteq> []"
      using s Some l(3) sh fit n by auto
    from dyn_block_write [OF this(1) sh(3) this(2-6)] obtain f where f:
      "vdisk_host_write (fp d1) (data_offset d1 + ucast e * ucast (block_size d1) + ucast ib) (take n bs) = (f, True)"
      "dyn_sound (d1\<lparr>fp := f\<rparr>)" "vdi_kept d1 (d1\<lparr>fp := f\<rparr>)"
      "\<And>i. i < unat (blocks_count d) * unat (block_size d) \<Longrightarrow>
         vdi_guest (d1\<lparr>fp := f\<rparr>) i = overlay (vdi_guest d1) (unat off) (take n bs) i"
      by (auto simp: sh off)
    have "vdi_guest (d1\<lparr>fp := f\<rparr>) i = overlay (vdi_guest d) (unat off) (take n bs) i"
      if "i < unat (blocks_count d) * unat (block_size d)" for i
      using f(4) [OF that] s that by (simp add: overlay_def)
    with f s bf Some show ?thesis
      by (intro written [of d1 e "d1\<lparr>fp := f\<rparr>"]) (auto simp: put_fp_def intro: vdi_kept_trans)
  qed
qed

text \<open>Whatever happens, the image stays sound and the guest sees a prefix of the data.\<close>

lemma vdi_write_loop_guest:
  assumes "dyn_sound d" and "writable d" and "unat off + length bs \<le> unat (size_bytes d)"
    and "vdi_write_loop d off bs = (d', ok)"
  shows "dyn_sound d' \<and> vdi_kept d d' \<and> (vdi_room d \<longrightarrow> ok) \<and>
    (\<exists>k \<le> length bs. (ok \<longrightarrow> k = length bs) \<and>
      (\<forall>i < unat (blocks_count d) * unat (block_size d).
         vdi_guest d' i = overlay (vdi_guest d) (unat off) (take k bs) i))"
  using assms
proof (induction d off bs arbitrary: d' ok rule: vdi_write_loop.induct)
  case (1 d off bs)
  show ?case
  proof (cases "bs = []")
    case True
    with 1 show ?thesis by (simp add: vdi_write_loop.simps)
  next
    case False
    obtain gb ib n where loc: "vdi_locate d off (length bs) = (gb, ib, n)" by (metis prod_cases3)
    have b: "0 < unat (block_size d)" and b0: "block_size d \<noteq> 0"
      using "1.prems"(1) by (auto simp: dyn_sound_def)
    have n: "0 < n" "n \<le> length bs" using vdi_locate_pos [OF loc b0] False by auto
    have r: "unat off < unat (blocks_count d) * unat (block_size d)"
      by (rule dyn_in_range [OF "1.prems"(1,3) False])
    have gb: "map_get d gb = Some (vdi_entry d (unat gb))"
      using map_get_spec [OF "1.prems"(1) vdi_locate_spec(3) [OF loc b r]] .
    from "1.prems"(1-3) False loc show ?thesis
    proof (cases rule: vdi_write_round)
      case (full d1)
      have "vdi_write_loop d off bs = (d1, False)"
        using full(1) False b0 loc gb by (subst vdi_write_loop.simps) (simp add: vdi_block_for_def)
      with full "1.prems"(4) show ?thesis by (auto intro!: exI [of _ 0])
    next
      case (written d1 e d2)
      have eq: "vdi_write_loop d off bs = vdi_write_loop d2 (off + of_nat n) (drop n bs)"
        using written(1,2) False b0 loc gb by (subst vdi_write_loop.simps) (simp add: vdi_block_for_def)
      have on: "unat (off + of_nat n) = unat off + n" using unat_advance [OF "1.prems"(3) n(2)] .
      note sh = vdi_kept_shape [OF written(4)]
      have "dyn_sound d' \<and> vdi_kept d2 d' \<and> (vdi_room d2 \<longrightarrow> ok) \<and>
        (\<exists>k \<le> length (drop n bs). (ok \<longrightarrow> k = length (drop n bs)) \<and>
          (\<forall>i < unat (blocks_count d2) * unat (block_size d2).
            vdi_guest d' i = overlay (vdi_guest d2) (unat (off + of_nat n)) (take k (drop n bs)) i))"
        using "1.prems" False b0 loc gb written n sh on eq
        by (intro "1.IH") (auto simp: vdi_block_for_def [symmetric])
      then obtain k where k: "dyn_sound d'" "vdi_kept d2 d'" "vdi_room d2 \<longrightarrow> ok" "k \<le> length bs - n"
          "ok \<longrightarrow> k = length bs - n"
        and g: "\<And>i. i < unat (blocks_count d) * unat (block_size d) \<Longrightarrow>
          vdi_guest d' i = overlay (vdi_guest d2) (unat off + n) (take k (drop n bs)) i"
        by (auto simp: sh on)
      have "vdi_guest d' i = overlay (vdi_guest d) (unat off) (take (n + k) bs) i"
        if "i < unat (blocks_count d) * unat (block_size d)" for i
        using overlay_prefix [OF n(2) k(4) written(5) g that] .
      with k n sh written(4) show ?thesis by (auto intro!: exI [of _ "n + k"] intro: vdi_kept_trans)
    qed
  qed
qed

section \<open>The backend's contract\<close>

lemma fixed_guest:
  "fixed_sound d \<Longrightarrow> vdi_guest d i = fdata (fp d) (unat (data_offset d) + i)"
  by (simp add: fixed_sound_def vdi_guest_def)

lemma fixed_off:
  assumes "fixed_sound d" and "unat off + n \<le> unat (size_bytes d)"
  shows "unat (data_offset d + off) = unat (data_offset d) + unat off"
    and "unat (data_offset d) + unat off + n \<le> fsize (fp d)"
  using assms by (auto simp: fixed_sound_def file_ok_def intro!: unat_add_small)

lemma vdi_read_guest:
  assumes "vdi_sound d"
  shows "vdi_read d off n = (if unat off + n \<le> unat (size_bytes d)
    then Some (window (vdi_guest d) (unat off) n) else None)"
proof (cases "unat off + n \<le> unat (size_bytes d) \<and> fixed_sound d")
  case True
  note o = fixed_off [OF conjunct2 [OF True] conjunct1 [OF True]]
  have "window (fdata (fp d)) (unat (data_offset d) + unat off) n = window (vdi_guest d) (unat off) n"
    using True by (intro nth_equalityI) (auto simp: fixed_guest add.assoc)
  with True o show ?thesis
    by (simp add: vdi_read_def bounds_ok_iff fixed_sound_def host_read_ok)
next
  case False
  with assms vdi_read_loop_guest [of d off n] show ?thesis
    by (auto simp: vdi_read_def bounds_ok_iff vdi_sound_def dyn_sound_def)
qed

lemma fixed_write:
  assumes "fixed_sound d" and "writable d" and "unat off + length bs \<le> unat (size_bytes d)"
  shows "\<exists>d'. put_fp d (vdisk_host_write (fp d) (data_offset d + off) bs) = (d', True) \<and>
    fixed_sound d' \<and> vdi_kept d d' \<and>
    (\<forall>i < unat (size_bytes d). vdi_guest d' i = overlay (vdi_guest d) (unat off) bs i)"
proof -
  note o = fixed_off [OF assms(1,3)]
  define f where "f = poke (fp d) (unat (data_offset d) + unat off) bs"
  have s: "file_ok (fp d)" "fwr (fp d)" "0x188 \<le> unat (data_offset d)"
    "unat (data_offset d) + unat (size_bytes d) \<le> fsize (fp d)"
    using assms by (auto simp: fixed_sound_def)
  have w: "put_fp d (vdisk_host_write (fp d) (data_offset d + off) bs) = (d\<lparr>fp := f\<rparr>, True)"
    using s o by (simp add: put_fp_def host_write_ok f_def file_ok_def)
  have ff: "fsize f = fsize (fp d)" using o by (simp add: f_def)
  have fd: "fdata f i = overlay (fdata (fp d)) (unat (data_offset d) + unat off) bs i"
    if "i < fsize (fp d)" for i
    using that by (simp add: f_def fdata_poke)
  have fs: "fixed_sound (d\<lparr>fp := f\<rparr>)" using assms(1) ff by (simp add: fixed_sound_def file_ok_def f_def)
  have h: "fdata f i = fdata (fp d) i" if "i < 0x188" for i
    using that s by (subst fd) (auto simp: overlay_def)
  have "window (fdata f) 0x184 4 = window (fdata (fp d)) 0x184 4"
    using h by (intro window_cong) auto
  then have "vdi_kept d (d\<lparr>fp := f\<rparr>)" using h ff
    by (auto simp: vdi_kept_def vdi_hdr_allocated_def f_def)
  moreover have "vdi_guest (d\<lparr>fp := f\<rparr>) i = overlay (vdi_guest d) (unat off) bs i"
    if "i < unat (size_bytes d)" for i
    using s that by (simp add: fixed_guest [OF assms(1)] fixed_guest [OF fs] fd overlay_def)
  ultimately show ?thesis using w fs by blast
qed

text \<open>A write outside the disk or to a read-only image does nothing. Any other write leaves a sound
  image whose guest disk differs by a prefix of the data: all of it if the call succeeds, and the
  call succeeds if the host has room.\<close>

lemma vdi_write_guest:
  assumes "vdi_sound d" and "vdi_write d off bs = (d', ok)"
  shows "vdi_sound d' \<and> vdi_kept d d' \<and>
    (\<not> (writable d \<and> unat off + length bs \<le> unat (size_bytes d)) \<longrightarrow> d' = d \<and> \<not> ok) \<and>
    (writable d \<and> unat off + length bs \<le> unat (size_bytes d) \<and> vdi_room d \<longrightarrow> ok) \<and>
    (\<exists>k \<le> length bs. (ok \<longrightarrow> k = length bs) \<and>
      (\<forall>i < unat (size_bytes d). vdi_guest d' i = overlay (vdi_guest d) (unat off) (take k bs) i))"
proof (cases "writable d \<and> unat off + length bs \<le> unat (size_bytes d)")
  case False
  with assms show ?thesis by (auto simp: vdi_write_def bounds_ok_iff)
next
  case True
  show ?thesis
  proof (cases "fixed_sound d")
    case f: True
    have "vdi_write d off bs = put_fp d (vdisk_host_write (fp d) (data_offset d + off) bs)"
      using True f by (simp add: vdi_write_def bounds_ok_iff fixed_sound_def)
    with fixed_write [OF f] True assms(2) obtain "ok" "fixed_sound d'" "vdi_kept d d'"
      "\<forall>i < unat (size_bytes d). vdi_guest d' i = overlay (vdi_guest d) (unat off) bs i"
      by fastforce
    with True show ?thesis by (auto simp: vdi_sound_def)
  next
    case False
    then have dyn: "dyn_sound d" using assms(1) by (simp add: vdi_sound_def)
    have "vdi_write_loop d off bs = (d', ok)"
      using assms(2) True dyn by (simp add: vdi_write_def bounds_ok_iff dyn_sound_def)
    from vdi_write_loop_guest [OF dyn _ _ this] True
    have "dyn_sound d' \<and> vdi_kept d d' \<and> (vdi_room d \<longrightarrow> ok) \<and>
      (\<exists>k \<le> length bs. (ok \<longrightarrow> k = length bs) \<and>
      (\<forall>i < unat (blocks_count d) * unat (block_size d).
         vdi_guest d' i = overlay (vdi_guest d) (unat off) (take k bs) i))" by simp
    moreover have "unat (size_bytes d) \<le> unat (blocks_count d) * unat (block_size d)"
      using dyn by (simp add: dyn_sound_def)
    ultimately show ?thesis using True by (auto simp: vdi_sound_def dest: less_le_trans)
  qed
qed

text \<open>The states in which every write succeeds.\<close>

definition vdi_inv :: "vdisk \<Rightarrow> bool" where
  "vdi_inv d \<longleftrightarrow> vdi_sound d \<and> (writable d \<longrightarrow> vdi_room d)"

interpretation vdi: block_image vdi_read vdi_write size_bytes writable vdi_guest vdi_inv
proof unfold_locales
  fix d :: vdisk and off :: u64 and n assume "vdi_inv d"
  then show "vdi_read d off n = (if unat off + n \<le> unat (size_bytes d)
      then Some (window (vdi_guest d) (unat off) n) else None)"
    by (simp add: vdi_read_guest vdi_inv_def)
next
  fix d :: vdisk and off :: u64 and bs :: "byte list"
  assume "\<not> (writable d \<and> unat off + length bs \<le> unat (size_bytes d))"
  then show "vdi_write d off bs = (d, False)" by (auto simp: vdi_write_def bounds_ok_iff)
next
  fix d :: vdisk and off :: u64 and bs :: "byte list"
  assume a: "vdi_inv d" "writable d" "unat off + length bs \<le> unat (size_bytes d)"
  obtain d' ok where w: "vdi_write d off bs = (d', ok)" by force
  from vdi_write_guest [OF _ w] a have "vdi_sound d'" "vdi_kept d d'" ok
    "\<forall>i < unat (size_bytes d). vdi_guest d' i = overlay (vdi_guest d) (unat off) bs i"
    by (auto simp: vdi_inv_def)
  with vdi_kept_shape [OF \<open>vdi_kept d d'\<close>] a w
  show "\<exists>d'. vdi_write d off bs = (d', True) \<and> vdi_inv d' \<and> writable d' \<and>
      size_bytes d' = size_bytes d \<and>
      (\<forall>i < unat (size_bytes d). vdi_guest d' i = overlay (vdi_guest d) (unat off) bs i)"
    by (auto simp: vdi_inv_def)
qed

section \<open>Reopening\<close>

text \<open>The header in the file describes the open image.\<close>

definition vdi_synced :: "vdisk \<Rightarrow> bool" where
  "vdi_synced d \<longleftrightarrow>
     (let w = (\<lambda>off. le32 (window (fdata (fp d)) off 4))
      in 512 \<le> fsize (fp d) \<and> w 0x40 = VDI_SIGNATURE \<and> w 0x44 = VDI_VERSION_1_1 \<and>
         0x180 \<le> w 0x48 \<and> w 0x4c = image_type d \<and> ucast (w 0x154) = blocks_offset d \<and>
         ucast (w 0x158) = data_offset d \<and> w 0x168 = 512 \<and>
         le64 (window (fdata (fp d)) 0x170 8) = size_bytes d \<and> w 0x178 = block_size d \<and>
         w 0x17c = 0 \<and> w 0x180 = blocks_count d \<and> w 0x184 = blocks_allocated d \<and>
         size_bytes d \<noteq> 0 \<and> blocks_offset d \<noteq> 0 \<and> blocks_offset d < data_offset d \<and>
         block_size d \<noteq> 0 \<and>
         unat (size_bytes d) \<le> unat (blocks_count d) * unat (block_size d) \<and>
         (image_type d = VDI_IMAGE_TYPE_FIXED \<longrightarrow> blocks_allocated d = blocks_count d))"

lemma vdi_synced_kept:
  assumes "vdi_synced d" and "vdi_kept d d'"
    and "image_type d = VDI_IMAGE_TYPE_FIXED \<longrightarrow> blocks_allocated d' = blocks_allocated d"
  shows "vdi_synced d'"
proof -
  have w: "window (fdata (fp d')) off n = window (fdata (fp d)) off n" if "off + n \<le> 0x184" for off n
    using assms(2) that by (intro window_cong) (auto simp: vdi_kept_def)
  have "le32 (window (fdata (fp d')) 0x184 4) = blocks_allocated d'"
    using assms by (auto simp: vdi_kept_def vdi_synced_def vdi_hdr_allocated_def Let_def)
  with assms w show ?thesis
    by (auto simp: vdi_synced_def vdi_kept_def Let_def)
qed


lemma header_field32: "off + 4 \<le> 512 \<Longrightarrow> le32 (drop off (window g 0 512)) = le32 (window g off 4)"
  by (simp add: le32_bslice bslice_window)

lemma header_field64: "off + 8 \<le> 512 \<Longrightarrow> le64 (drop off (window g 0 512)) = le64 (window g off 8)"
  by (simp add: le64_bslice bslice_window)

text \<open>The image \<open>vdi_open\<close> makes of a file whose header is that of \<open>d\<close>.\<close>

definition vdi_reopened :: "vdisk \<Rightarrow> vdisk \<Rightarrow> vdisk" where
  "vdi_reopened d0 d =
     d0\<lparr>size_bytes := size_bytes d, host_size_bytes := vdisk_host_get_size (fp d0),
       data_offset := data_offset d, block_size := block_size d, block_extra := 0,
       blocks_offset := blocks_offset d, blocks_count := blocks_count d,
       blocks_allocated := blocks_allocated d, image_type := image_type d\<rparr>"

lemma vdi_open_synced:
  assumes "vdi_synced d" and "vdi_sound d" and "fp d0 = fp d"
  shows "vdi_open d0 = Some (vdi_reopened d0 d)"
proof -
  have fo: "file_ok (fp d)" using assms(2) by (auto simp: vdi_sound_def dyn_sound_def fixed_sound_def)
  define g where "g = fdata (fp d)"
  have "512 \<le> fsize (fp d)" using assms(1) by (simp add: vdi_synced_def Let_def)
  with fo have rh: "read_header (fp d) = Some (window g 0 512)"
    by (simp add: read_header_def host_read_ok g_def)
  have hs: "unat (vdisk_host_get_size (fp d)) = fsize (fp d)" using fo by (rule unat_host_get_size)
  have al: "unat (blocks_allocated d) \<le> unat (blocks_count d)"
    if "dyn_sound d"
    using that card_mono [OF _ vdi_live_bound, of d] by (simp add: dyn_sound_def)
  have bnd: "\<not> size_bytes d > ucast (blocks_count d) * ucast (block_size d)"
    using assms(1) by (simp add: vdi_synced_def Let_def word_less_nat_alt unat_mult_u32)
  have h: "le32 (window g 0x40 4) = VDI_SIGNATURE" "le32 (window g 0x44 4) = VDI_VERSION_1_1"
    "\<not> le32 (window g 0x48 4) < 0x180" "le32 (window g 0x4c 4) = image_type d"
    "ucast (le32 (window g 0x154 4)) = blocks_offset d" "ucast (le32 (window g 0x158 4)) = data_offset d"
    "le32 (window g 0x168 4) = 512" "le64 (window g 0x170 8) = size_bytes d"
    "le32 (window g 0x178 4) = block_size d" "le32 (window g 0x17c 4) = 0"
    "le32 (window g 0x180 4) = blocks_count d" "le32 (window g 0x184 4) = blocks_allocated d"
    "size_bytes d \<noteq> 0" "block_size d \<noteq> 0" "image_type d = 2 \<longrightarrow> blocks_allocated d = blocks_count d"
    and nz: "blocks_offset d \<noteq> 0" "blocks_offset d < data_offset d"
    using assms(1) by (auto simp: vdi_synced_def Let_def g_def)
  have ob: "le32 (window g 0x154 4) \<noteq> 0" using nz(1) h(5) by auto
  have lt: "le32 (window g 0x154 4) < le32 (window g 0x158 4)"
    using nz(2) unfolding h(5,6) [symmetric] by (simp add: word_less_nat_alt u_simps)
  then have od: "le32 (window g 0x158 4) \<noteq> 0" "\<not> le32 (window g 0x158 4) \<le> le32 (window g 0x154 4)"
    by auto
  have bc: "blocks_count d \<noteq> 0" using bnd h(13) by (auto simp: word_gt_0)
  note hdr = rh Let_def header_field32 header_field64 h ob od bc bnd assms(3) vdi_reopened_def
  show ?thesis
  proof (cases "dyn_sound d")
    case True
    have sz: "unat (data_offset d) + unat (blocks_allocated d) * unat (block_size d) \<le> fsize (fp d)"
      "fsize (fp d) < 9223372036854775808" "image_type d = 1" "0 < unat (block_size d)"
      using True by (auto simp: dyn_sound_def file_ok_def)
    then have "unat (blocks_allocated d) * unat (block_size d) \<le> unat (- 1 - data_offset d)"
      by (subst unat_sub_small) auto
    then have guard: "\<not> ucast (blocks_allocated d) > (- 1 - data_offset d) div ucast (block_size d)"
      using sz(4) by (simp add: word_less_nat_alt unat_div u_simps not_less less_eq_div_iff_mult_less_eq)
    have req: "\<not> vdisk_host_get_size (fp d) < data_offset d + ucast (blocks_allocated d) * ucast (block_size d)"
      using sz(1,2) by (simp add: word_less_nat_alt hs unat_affine)
    have al': "\<not> blocks_allocated d > blocks_count d" using al [OF True] by (simp add: word_less_nat_alt)
    from sz(3) guard req al' show ?thesis by (simp add: vdi_open_def hdr)
  next
    case False
    then have f: "unat (data_offset d) + unat (size_bytes d) \<le> fsize (fp d)"
      "fsize (fp d) < 9223372036854775808" "image_type d = 2"
      using assms(2) by (auto simp: vdi_sound_def fixed_sound_def file_ok_def)
    have g: "\<not> size_bytes d > - 1 - data_offset d"
      using f by (simp add: word_less_nat_alt unat_sub_small)
    have r: "\<not> vdisk_host_get_size (fp d) < data_offset d + size_bytes d"
      using f by (simp add: word_less_nat_alt hs unat_add_small)
    from f(3) g r show ?thesis by (simp add: vdi_open_def hdr)
  qed
qed

lemma vdi_reopened_same:
  assumes "fp d0 = fp d"
  shows "vdi_guest (vdi_reopened d0 d) = vdi_guest d"
    and "vdi_sound d \<Longrightarrow> writable d0 \<longrightarrow> fwr (fp d) \<Longrightarrow> vdi_sound (vdi_reopened d0 d)"
    and "vdi_synced d \<Longrightarrow> vdi_synced (vdi_reopened d0 d)"
    and "size_bytes (vdi_reopened d0 d) = size_bytes d" and "fp (vdi_reopened d0 d) = fp d"
proof -
  let ?d = "vdi_reopened d0 d"
  have f: "fp ?d = fp d" "image_type ?d = image_type d" "size_bytes ?d = size_bytes d"
    "data_offset ?d = data_offset d" "block_size ?d = block_size d" "blocks_offset ?d = blocks_offset d"
    "blocks_count ?d = blocks_count d" "blocks_allocated ?d = blocks_allocated d" "writable ?d = writable d0"
    by (simp_all add: vdi_reopened_def assms)
  have e: "vdi_entry ?d = vdi_entry d" by (simp add: fun_eq_iff vdi_entry_def f)
  then have l: "vdi_live ?d = vdi_live d" by (simp add: vdi_live_def f)
  show "vdi_guest ?d = vdi_guest d" by (simp add: fun_eq_iff vdi_guest_def Let_def f e)
  show "vdi_sound ?d" if "vdi_sound d" "writable d0 \<longrightarrow> fwr (fp d)"
    using that by (auto simp: vdi_sound_def dyn_sound_def fixed_sound_def f e l)
  show "vdi_synced ?d" if "vdi_synced d" using that by (simp add: vdi_synced_def f)
qed (simp_all add: vdi_reopened_def assms)

end
