(* ===== verification/Vdisk_Vdi_Create.thy ===== *)
theory Vdisk_Vdi_Create
  imports Vdisk_Vdi
begin

text \<open>
  Creation of VDI images: the layout computed by \<^verbatim>\<open>layout_for\<close>, the header and the block map a
  fresh image is given, and that it is sound, zero-filled and opens again.
\<close>

section \<open>Layout\<close>

lemma unat_ceil:
  fixes n c :: u64
  assumes "unat n + unat c < 18446744073709551616" and "0 < unat a"
  shows "unat ((n + c) div a) = (unat n + unat c) div unat a"
  using assms by (simp add: unat_div unat_add_small)

lemma unat_round_up_512:
  assumes "unat n + 511 < 18446744073709551616"
  shows "unat (round_up_u64 n 512) = (unat n + 511) div 512 * 512"
proof -
  have eq: "n + 512 - 1 = n + 511" by simp
  have "unat ((n + 511) div 512) = (unat n + 511) div 512"
    using assms by (subst unat_ceil) simp_all
  moreover have "(unat n + 511) div 512 * 512 \<le> unat n + 511" by simp
  ultimately show ?thesis
    unfolding round_up_u64_def eq using assms by (subst unat_mult_small) simp_all
qed

text \<open>The largest disk whose block map still has 32-bit offsets.\<close>

abbreviation (input) VDI_MAX :: nat where "VDI_MAX \<equiv> 1073741568 * 1048576"

lemma layout_blocks_zero:
  assumes "18446744073709551616 \<le> unat n + 1048575"
  shows "(n + VDI_BLOCK_SIZE - 1) div VDI_BLOCK_SIZE = (0 :: u64)"
proof -
  have "n + VDI_BLOCK_SIZE - 1 = n + 1048575" by (simp add: VDI_BLOCK_SIZE_def)
  moreover have "unat (n + 1048575) = unat n + 1048575 - 18446744073709551616"
    using assms unat_u64_less [of n] by (subst unat_plus_if') simp
  moreover have "unat n + 1048575 - 18446744073709551616 < 1048576"
    using unat_u64_less [of n] by linarith
  ultimately have "unat ((n + VDI_BLOCK_SIZE - 1) div VDI_BLOCK_SIZE) = 0"
    unfolding unat_div by (simp only: VDI_BLOCK_SIZE_def) simp
  then show ?thesis by (simp add: unat_eq_zero)
qed

lemma layout_for_cases:
  fixes n :: u64
  defines "m \<equiv> (unat n + 511) div 512 * 512"
  defines "b \<equiv> (m + 1048575) div 1048576"
  shows "layout_for n = (if n = 0 \<or> VDI_MAX < m then None
    else Some (of_nat m, of_nat b, 512, of_nat (512 + (b * 4 + 511) div 512 * 512)))"
proof (cases "n = 0 \<or> n > -1 - (512 - 1)")
  case True
  have "VDI_MAX < m" if "n > -1 - (512 - 1)"
    using that by (simp add: word_less_nat_alt m_def)
  with True show ?thesis by (auto simp: layout_for_def)
next
  case False
  then have n0: "n \<noteq> 0" and nb: "unat n + 511 < 18446744073709551616"
    by (auto simp: word_less_nat_alt)
  define r where "r = round_up_u64 n 512"
  have r: "unat r = m" using unat_round_up_512 [OF nb] by (simp add: r_def m_def)
  define q where "q = (r + VDI_BLOCK_SIZE - 1) div VDI_BLOCK_SIZE"
  have lay: "layout_for n = (if q > 0xFFFFFFFF then None else
     let blocks = (ucast q :: u32) in if blocks = 0 then None
     else let map_padded = round_up_u64 (ucast blocks * 4) 512
     in if map_padded > 0xFFFFFFFF - 512 then None else Some (r, blocks, 512, ucast (512 + map_padded)))"
    using False by (simp add: layout_for_def r_def q_def Let_def)
  show ?thesis
  proof (cases "m + 1048575 < 18446744073709551616")
    case small: True
    have "r + VDI_BLOCK_SIZE - 1 = r + 1048575" by (simp add: VDI_BLOCK_SIZE_def)
    then have q: "unat q = b"
      using small r by (simp add: q_def unat_ceil VDI_BLOCK_SIZE_def b_def)
    define p where "p = (b * 4 + 511) div 512"
    have b0: "0 < b"
    proof -
      have "0 < unat n" using n0 by (simp add: unat_gt_0)
      then have "1 \<le> (unat n + 511) div 512" by (simp add: less_eq_div_iff_mult_less_eq)
      then show ?thesis by (simp add: b_def m_def less_eq_div_iff_mult_less_eq Suc_le_eq [symmetric])
    qed
    have bm: "VDI_MAX < m \<longleftrightarrow> 1073741569 \<le> b"
      unfolding b_def by (subst less_eq_div_iff_mult_less_eq) auto
    have bp: "1073741569 \<le> b \<longleftrightarrow> 8388607 \<le> p"
      unfolding p_def by (subst less_eq_div_iff_mult_less_eq) auto
    show ?thesis
    proof (cases "b \<le> 4294967295")
      case False
      then show ?thesis using lay q bm by (simp add: word_less_nat_alt)
    next
      case True
      have ub: "unat (ucast q :: u32) = b" using q True by (simp add: unat_ucast_64_32)
      have "unat (ucast (ucast q :: u32) * 4 :: u64) = b * 4"
        using ub True by (subst unat_mult_small) (simp_all add: u_simps)
      then have mp: "unat (round_up_u64 (ucast (ucast q :: u32) * 4) 512) = p * 512"
        using True by (subst unat_round_up_512) (simp_all add: p_def)
      have "ucast q \<noteq> (0 :: u32)" using ub b0 by auto
      then have "layout_for n = (if 8388607 \<le> p then None
          else Some (r, ucast q, 512, ucast (512 + round_up_u64 (ucast (ucast q :: u32) * 4) 512)))"
        using lay q True mp by (auto simp: word_less_nat_alt Let_def)
      moreover have "r = of_nat m" "ucast q = (of_nat b :: u32)"
        unfolding r [symmetric] ub [symmetric] by simp_all
      moreover have "ucast (512 + round_up_u64 (ucast (ucast q :: u32) * 4) 512) = (of_nat (512 + p * 512) :: u32)"
        if "\<not> 8388607 \<le> p"
        using that mp unat_of_nat_small [of "512 + p * 512", where 'a = 32]
        unfolding word_unat_eq_iff by (simp add: unat_ucast_64_32 unat_add_small del: of_nat_add of_nat_mult)
      ultimately show ?thesis using bm bp n0 by (simp add: p_def)
    qed
  next
    case big: False
    then have "q = 0" using layout_blocks_zero [of r] r by (simp add: q_def)
    moreover have "VDI_MAX < m" using big by simp
    ultimately show ?thesis using lay by simp
  qed
qed
section \<open>Created images\<close>

lemma vdi_map_end: "unat (ucast (ob :: u32) + ucast (bl :: u32) * 4 :: u64) = unat ob + 4 * unat bl"
proof -
  have "unat ob + unat bl * 4 < 18446744073709551616"
    using unat_u32_less [of ob] unat_u32_less [of bl] by linarith
  then show ?thesis by (simp add: unat_add_small unat_mult_small u_simps)
qed

lemma length_vdi_make_uuid [simp]: "length (vdi_make_uuid seed) = 16"
  by (simp add: vdi_make_uuid_def)

lemma init_header_fields:
  assumes "\<forall>u. uuid = Some u \<longrightarrow> 16 \<le> length u"
    and h_def: "h = init_header seeds n type blocks off_blocks off_data uuid"
  shows "length h = 512" and "le32 (drop 0x40 h) = VDI_SIGNATURE" and "le32 (drop 0x44 h) = VDI_VERSION_1_1"
    and "le32 (drop 0x48 h) = 0x180" and "le32 (drop 0x4c h) = type" and "le32 (drop 0x154 h) = off_blocks"
    and "le32 (drop 0x158 h) = off_data" and "le32 (drop 0x168 h) = 512" and "le64 (drop 0x170 h) = n"
    and "le32 (drop 0x178 h) = VDI_BLOCK_SIZE" and "le32 (drop 0x17c h) = 0"
    and "le32 (drop 0x180 h) = blocks"
    and "le32 (drop 0x184 h) = (if type = VDI_IMAGE_TYPE_FIXED then blocks else 0)"
proof -
  define u where "u = (case uuid of Some u \<Rightarrow> take 16 u | None \<Rightarrow> vdi_make_uuid (fst seeds))"
  have lu: "length u = 16" using assms(1) by (auto simp: u_def split: option.splits)
  define t where "t = take 15 (bytes_of (if type = VDI_IMAGE_TYPE_FIXED
                then ''Guppy fixed VDI'' else ''Guppy sparse VDI''))"
  have lt: "length t = 15" by (simp add: t_def)
  define b where "b = take 35 (bytes_of (''<<< Guppy VirtualBox Disk Image >>>'' @ [CHR 0x0A]))"
  have lb: "length b = 35" by (simp add: b_def)
  define ws :: "(nat \<times> byte list) list" where "ws =
    [(0, b), (0x40, put32 VDI_SIGNATURE), (0x44, put32 VDI_VERSION_1_1), (0x48, put32 0x180),
     (0x4c, put32 type), (0x54, t), (0x154, put32 off_blocks), (0x158, put32 off_data),
     (0x168, put32 512), (0x170, put64 n), (0x178, put32 VDI_BLOCK_SIZE), (0x17c, put32 0),
     (0x180, put32 blocks), (0x184, put32 (if type = VDI_IMAGE_TYPE_FIXED then blocks else 0)),
     (0x188, u), (0x198, vdi_make_uuid (snd seeds))]"
  have h: "h = blit_all (zeros 512) ws"
    by (simp only: h_def init_header_def Let_def ws_def blit_all.simps u_def t_def b_def)
  have ap: "apart 0 (length (zeros 512)) ws" by (simp add: ws_def lu lt lb)
  note fld = blit_all_fields [OF ap, folded h]
  show "length h = 512" by (simp add: h length_blit_all [OF ap])
  show "le32 (drop 0x40 h) = VDI_SIGNATURE" "le32 (drop 0x44 h) = VDI_VERSION_1_1"
    "le32 (drop 0x48 h) = 0x180" "le32 (drop 0x4c h) = type" "le32 (drop 0x154 h) = off_blocks"
    "le32 (drop 0x158 h) = off_data" "le32 (drop 0x168 h) = 512"
    "le32 (drop 0x178 h) = VDI_BLOCK_SIZE" "le32 (drop 0x17c h) = 0"
    "le32 (drop 0x180 h) = blocks"
    "le32 (drop 0x184 h) = (if type = VDI_IMAGE_TYPE_FIXED then blocks else 0)"
    by (rule fld(1), simp add: ws_def)+
  show "le64 (drop 0x170 h) = n" by (rule fld(2)) (simp add: ws_def)
qed

lemma map_entries_spec:
  fixes ob i :: u32
  assumes "map_entries f ob fixed i n = (f', True)" and "file_ok f" and "fwr f"
    and "unat i + n < 4294967296" and "fsize f = unat ob + 4 * unat i"
  shows "file_ok f' \<and> fwr f' \<and> flimit f' = flimit f \<and> fsize f' = unat ob + 4 * (unat i + n) \<and>
    (\<forall>k < fsize f. fdata f' k = fdata f k) \<and>
    (\<forall>j < n. le32 (window (fdata f') (unat ob + 4 * (unat i + j)) 4) =
       (if fixed then of_nat (unat i + j) else VDI_BLOCK_UNALLOCATED))"
  using assms
proof (induction n arbitrary: f i)
  case (Suc n)
  let ?v = "put32 (if fixed then i else VDI_BLOCK_UNALLOCATED)"
  have off: "unat (ucast ob + ucast i * 4 :: u64) = unat ob + 4 * unat i"
    using Suc.prems(2,5) by (simp add: unat_add_small unat_mult_small u_simps file_ok_def)
  obtain f1 where w: "vdisk_host_write f (ucast ob + ucast i * 4) ?v = (f1, True)"
    and me: "map_entries f1 ob fixed (i + 1) n = (f', True)"
    using Suc.prems(1) by (auto split: prod.splits bool.splits)
  note e = host_write_effect [OF w Suc.prems(2,3), unfolded off, simplified]
  have i1: "unat (i + 1) = unat i + 1" using Suc.prems(4) by (simp add: unat_add_small)
  have s1: "fsize f1 = unat ob + 4 * unat (i + 1)" using e(7) Suc.prems(5) by (simp add: i1)
  from Suc.IH [OF me e(1,2) _ s1] Suc.prems(4)
  have IH: "file_ok f'" "fwr f'" "flimit f' = flimit f1" "fsize f' = unat ob + 4 * (unat i + Suc n)"
    "\<And>k. k < fsize f1 \<Longrightarrow> fdata f' k = fdata f1 k"
    "\<And>j. j < n \<Longrightarrow> le32 (window (fdata f') (unat ob + 4 * (unat i + Suc j)) 4) =
       (if fixed then of_nat (unat i + Suc j) else VDI_BLOCK_UNALLOCATED)"
    by (auto simp: i1)
  have "window (fdata f') (unat ob + 4 * unat i) 4 = ?v"
    using IH(5) e(8) s1 i1 by (intro nth_equalityI) auto
  then have head: "le32 (window (fdata f') (unat ob + 4 * (unat i + 0)) 4) =
      (if fixed then of_nat (unat i + 0) else VDI_BLOCK_UNALLOCATED)" by simp
  have "le32 (window (fdata f') (unat ob + 4 * (unat i + j)) 4) =
       (if fixed then of_nat (unat i + j) else VDI_BLOCK_UNALLOCATED)" if "j < Suc n" for j
    using head IH(6) that by (cases j) auto
  moreover have "fdata f' k = fdata f k" if "k < fsize f" for k
    using IH(5) [of k] e(5) [of k] that Suc.prems(5) s1 i1 by simp
  ultimately show ?case using IH e(3) by simp
qed auto

lemma write_map_spec:
  assumes "write_map f b 512 od fixed = (f', True)" and "file_ok f" and "fwr f" and "fsize f = 512"
    and "512 + 4 * unat b \<le> unat od" 
  shows "file_ok f' \<and> fwr f' \<and> flimit f' = flimit f \<and> fsize f' = unat od \<and>
    (\<forall>k < 512. fdata f' k = fdata f k) \<and>
    (\<forall>j < unat b. le32 (window (fdata f') (512 + 4 * j) 4) =
       (if fixed then of_nat j else VDI_BLOCK_UNALLOCATED))"
proof -
  obtain f1 where m: "map_entries f 512 fixed 0 (unat b) = (f1, True)"
    and z: "zero_loop 4096 f1 0 (512 + ucast b * 4) (ucast od) = (f', True)"
    using assms(1) by (auto simp: write_map_def split: prod.splits bool.splits)
  have m1: "file_ok f1" "fwr f1" "flimit f1 = flimit f" "fsize f1 = 512 + 4 * unat b"
    "\<And>k. k < 512 \<Longrightarrow> fdata f1 k = fdata f k"
    "\<And>j. j < unat b \<Longrightarrow> le32 (window (fdata f1) (512 + 4 * j) 4) =
       (if fixed then of_nat j else VDI_BLOCK_UNALLOCATED)"
    using map_entries_spec [OF m assms(2,3)] assms(4) by auto
  have p: "unat (512 + ucast b * 4 :: u64) = 512 + 4 * unat b"
    using vdi_map_end [of 512 b] by simp
  have le: "(512 + ucast b * 4 :: u64) \<le> ucast od" using assms(5) by (simp add: word_le_nat_alt p u_simps)
  have ze: "zero_effect 0 (512 + 4 * unat b) (unat od) f1 f' True"
    using zero_loop_spec [OF z m1(1,2)] le by (simp add: p u_simps)
  have keep: "fdata f' k = fdata f1 k" if "k < 512 + 4 * unat b" for k
    using ze that m1(4) by (simp add: zero_effect_def)
  have "window (fdata f') (512 + 4 * j) 4 = window (fdata f1) (512 + 4 * j) 4" if "j < unat b" for j
    using that by (intro window_cong keep) simp
  with m1 ze keep assms(5) show ?thesis by (auto simp: zero_effect_def)
qed


text \<open>What the metadata of a fresh image looks like after both writes.\<close>

lemma vdi_fresh_meta:
  assumes "vdisk_host_write f 0 h = (f1, True)" and "write_map f1 b 512 od fixed = (f2, True)"
    and "length h = 512" and "fsize f = 0" and "file_ok f" and "fwr f" and "512 + 4 * unat b \<le> unat od"
  shows "file_ok f2" and "fwr f2" and "flimit f2 = flimit f" and "fsize f2 = unat od"
    and "window (fdata f2) 0 512 = h"
    and "\<And>j. j < unat b \<Longrightarrow> le32 (window (fdata f2) (512 + 4 * j) 4) =
       (if fixed then of_nat j else VDI_BLOCK_UNALLOCATED)"
proof -
  note e = host_write_effect [OF assms(1,5,6), simplified assms(3,4), simplified]
  note w = write_map_spec [OF assms(2) e(1,2,7) assms(7)]
  show "file_ok f2" "fwr f2" "flimit f2 = flimit f" "fsize f2 = unat od"
    using w e(3) by auto
  show "window (fdata f2) 0 512 = h"
    using w e(8) assms(3) by (intro nth_equalityI) auto
  show "\<And>j. j < unat b \<Longrightarrow> le32 (window (fdata f2) (512 + 4 * j) 4) =
       (if fixed then of_nat j else VDI_BLOCK_UNALLOCATED)"
    using w by blast
qed

lemma layout_for_facts:
  assumes "layout_for n = Some (m, b, ob, od)"
  shows "ob = 512" and "unat m = (unat n + 511) div 512 * 512" and "0 < unat n"
    and "unat m \<le> VDI_MAX" and "unat m \<le> unat b * 1048576" and "0 < unat m"
    and "512 + 4 * unat b \<le> unat od" and "512 < unat od"
proof -
  define k where "k = (unat n + 511) div 512 * 512"
  define c where "c = (k + 1048575) div 1048576"
  define p where "p = 512 + (c * 4 + 511) div 512 * 512"
  have n0: "n \<noteq> 0" and kmax: "k \<le> VDI_MAX" and eq: "m = of_nat k" "b = of_nat c" "ob = 512" "od = of_nat p"
    using assms by (auto simp: layout_for_cases k_def [symmetric] c_def [symmetric] p_def [symmetric]
        split: if_splits)
  show "ob = 512" by (rule eq(3))
  show n1: "0 < unat n" using n0 by (simp add: unat_gt_0)
  have c: "c \<le> 1073741568" "k \<le> c * 1048576" using kmax unfolding c_def by linarith+
  have p: "512 + 4 * c \<le> p" "p \<le> 512 + (c * 4 + 511)" unfolding p_def by linarith+
  have "unat n \<le> k" unfolding k_def by linarith
  with n1 have k0: "0 < k" by simp
  with c have c0: "0 < c" by (cases c) auto
  have um: "unat m = k" and ub: "unat b = c" and uo: "unat od = p"
    using kmax c p unfolding eq by (auto intro!: unat_of_nat_small)
  show "unat m = (unat n + 511) div 512 * 512" using um k_def by simp
  show "unat m \<le> VDI_MAX" "unat m \<le> unat b * 1048576" "0 < unat m" "512 + 4 * unat b \<le> unat od" "512 < unat od"
    using kmax c p k0 c0 by (simp_all add: um ub uo)
qed

lemma vdi_fresh_synced:
  assumes h: "h = init_header seeds m type b 512 od uuid" "\<forall>u. uuid = Some u \<longrightarrow> 16 \<le> length u"
    and "window (fdata (fp d)) 0 512 = h" and "512 \<le> fsize (fp d)"
    and "layout_for n = Some (m, b, 512, od)" and "type = VDI_IMAGE_TYPE_FIXED \<or> type = VDI_IMAGE_TYPE_DYNAMIC"
    and d: "d = vdi_set_fields d0 m hs 512 od b (if type = VDI_IMAGE_TYPE_FIXED then b else 0) type"
  shows "vdi_synced d"
proof -
  note f = init_header_fields [OF h(2,1)]
  note l = layout_for_facts [OF assms(5)]
  define g where "g = fdata (fp d)"
  have w: "le32 (window g off 4) = le32 (drop off h)" "le64 (window g off 8) = le64 (drop off h)"
    if "off + 8 \<le> 512" for off
    using header_field32 [of off g] header_field64 [of off g] that assms(3) by (simp_all add: g_def)
  have nz: "m \<noteq> 0" "(512 :: u64) < ucast od"
    using l by (auto simp: unat_gt_0 word_less_nat_alt u_simps)
  have "vdi_synced d \<longleftrightarrow> vdi_synced (vdi_set_fields d0 m hs 512 od b (if type = VDI_IMAGE_TYPE_FIXED then b else 0) type)"
    by (simp add: d)
  have fields: "size_bytes d = m" "data_offset d = ucast od" "blocks_offset d = 512" "block_size d = 1048576"
    "blocks_count d = b" "blocks_allocated d = (if type = VDI_IMAGE_TYPE_FIXED then b else 0)" "image_type d = type"
    by (simp_all add: d vdi_set_fields_def VDI_BLOCK_SIZE_def)
  show ?thesis
    using w f l(5) nz assms(4,6)
    unfolding vdi_synced_def Let_def fields g_def [symmetric]
    by (simp add: VDI_BLOCK_SIZE_def)
qed

lemma vdi_create_sparse_ok:
  assumes "vdi_create_sparse seeds d n = (d', True)"
    and "fsize (fp d) = 0" and "file_ok (fp d)" and "fwr (fp d)" and "\<forall>u. create_uuid d = Some u \<longrightarrow> 16 \<le> length u"
  shows "dyn_sound d' \<and> vdi_synced d' \<and> unat (size_bytes d') = (unat n + 511) div 512 * 512 \<and>
    vdi_live d' = {} \<and> flimit (fp d') = flimit (fp d) \<and> writable d' = writable d \<and>
    layout_for n = Some (size_bytes d', blocks_count d', 512, ucast (data_offset d')) \<and>
    data_offset d' \<le> 0xFFFFFFFF \<and> block_size d' = 1048576"
proof -
  obtain m b ob od f1 f2 where lay: "layout_for n = Some (m, b, ob, od)"
    and w1: "vdisk_host_write (fp d) 0 (init_header seeds m VDI_IMAGE_TYPE_DYNAMIC b ob od (create_uuid d)) = (f1, True)"
    and w2: "write_map f1 b ob od False = (f2, True)"
    and d': "d' = vdi_set_fields (d\<lparr>fp := f2\<rparr>) m (ucast od) ob od b 0 VDI_IMAGE_TYPE_DYNAMIC"
    using assms(1) by (auto simp: vdi_create_sparse_def Let_def split: option.splits prod.splits bool.splits)
  note l = layout_for_facts [OF lay]
  have [simp]: "ob = 512" by (rule l(1))
  have lh: "length (init_header seeds m VDI_IMAGE_TYPE_DYNAMIC b ob od (create_uuid d)) = 512"
    using init_header_fields(1) [OF assms(5) refl] .
  note m = vdi_fresh_meta [OF w1 w2 [unfolded l(1)] lh assms(2-4) l(7)]
  have fields: "size_bytes d' = m" "data_offset d' = ucast od" "blocks_offset d' = 512" "block_size d' = 1048576"
    "blocks_count d' = b" "blocks_allocated d' = 0" "image_type d' = VDI_IMAGE_TYPE_DYNAMIC" "fp d' = f2"
    "writable d' = writable d"
    by (simp_all add: d' vdi_set_fields_def VDI_BLOCK_SIZE_def)
  have live: "vdi_live d' = {}"
    using m(6) by (auto simp: vdi_live_def vdi_entry_def fields)
  have s: "dyn_sound d'"
    using m(1-4) l live by (simp add: dyn_sound_def fields u_simps)
  have "vdi_synced d'"
  proof (rule vdi_fresh_synced [OF refl assms(5) _ _ lay [unfolded l(1)]])
    show "window (fdata (fp d')) 0 512 = init_header seeds m VDI_IMAGE_TYPE_DYNAMIC b 512 od (create_uuid d)"
      "512 \<le> fsize (fp d')"
      using m(4,5) l(8) by (simp_all add: fields)
    show "d' = vdi_set_fields (d\<lparr>fp := f2\<rparr>) m (ucast od) 512 od b
        (if VDI_IMAGE_TYPE_DYNAMIC = VDI_IMAGE_TYPE_FIXED then b else 0) VDI_IMAGE_TYPE_DYNAMIC"
      by (simp add: d')
  qed simp
  moreover have "ucast (ucast od :: u64) = od" "(ucast od :: u64) \<le> 0xFFFFFFFF"
    using unat_u32_less [of od]
    by (simp_all add: word_unat_eq_iff unat_ucast_64_32 u_simps word_le_nat_alt less_Suc_eq_le [symmetric])
  ultimately show ?thesis using s live l(1,2) m(3) lay by (simp add: fields)
qed


lemma vdi_create_fixed_ok:
  assumes "vdi_create_fixed seeds d n = (d', True)"
    and "fsize (fp d) = 0" and "file_ok (fp d)" and "fwr (fp d)" and "\<forall>u. create_uuid d = Some u \<longrightarrow> 16 \<le> length u"
  shows "fixed_sound d' \<and> vdi_synced d' \<and> unat (size_bytes d') = (unat n + 511) div 512 * 512 \<and>
    (\<forall>i < unat (size_bytes d'). vdi_guest d' i = 0)"
proof -
  obtain m b ob od f1 f2 f3 where lay: "layout_for n = Some (m, b, ob, od)" and g: "\<not> m > -1 - ucast od"
    and w1: "vdisk_host_write (fp d) 0 (init_header seeds m VDI_IMAGE_TYPE_FIXED b ob od (create_uuid d)) = (f1, True)"
    and w2: "write_map f1 b ob od True = (f2, True)"
    and w3: "vdisk_host_write f2 (ucast od + m - 1) [0] = (f3, True)"
    and d': "d' = vdi_set_fields (d\<lparr>fp := f3\<rparr>) m (ucast od + m) ob od b b VDI_IMAGE_TYPE_FIXED"
    using assms(1) by (auto simp: vdi_create_fixed_def Let_def split: option.splits prod.splits bool.splits if_splits)
  note l = layout_for_facts [OF lay]
  have lh: "length (init_header seeds m VDI_IMAGE_TYPE_FIXED b ob od (create_uuid d)) = 512"
    using init_header_fields(1) [OF assms(5) refl] .
  note M = vdi_fresh_meta [OF w1 w2 [unfolded l(1)] lh assms(2-4) l(7)]
  have od: "unat (ucast od + m - 1 :: u64) = unat od + unat m - 1"
  proof -
    have "unat (-1 - ucast od :: u64) = 18446744073709551615 - unat od"
      by (subst unat_sub_small) (simp_all add: u_simps)
    with g have "unat m \<le> 18446744073709551615 - unat od" by (simp add: word_less_nat_alt)
    then have "unat od + unat m < 18446744073709551616" using unat_u32_less [of od] by linarith
    then have "unat (ucast od + m) = unat od + unat m" by (simp add: unat_add_small u_simps)
    with l(6) show ?thesis by (simp add: unat_sub_small)
  qed
  note e = host_write_effect [OF w3 M(1,2), unfolded od M(4), simplified]
  have s3: "fsize f3 = unat od + unat m" using e(7) l(6) by simp
  have keep: "fdata f3 i = fdata f2 i" if "i < unat od" for i using e(5) that l(6) by simp
  have zero: "fdata f3 (unat od + i) = 0" if "i < unat m" for i
    using w3 M(4) that host_write_True(1) [OF w3 M(2)] by (auto simp: poke_def overlay_def od)
  have fields: "size_bytes d' = m" "data_offset d' = ucast od" "image_type d' = VDI_IMAGE_TYPE_FIXED" "fp d' = f3"
    by (simp_all add: d' vdi_set_fields_def)
  have fs: "fixed_sound d'"
    using e(1,2) s3 l(8) by (simp add: fixed_sound_def fields u_simps)
  have "vdi_synced d'"
  proof (rule vdi_fresh_synced [OF refl assms(5) _ _ lay [unfolded l(1)]])
    have "window (fdata f3) 0 512 = window (fdata f2) 0 512"
      using keep l(8) by (intro window_cong) simp
    then show "window (fdata (fp d')) 0 512 = init_header seeds m VDI_IMAGE_TYPE_FIXED b 512 od (create_uuid d)"
      "512 \<le> fsize (fp d')"
      using M(5) s3 l(1,8) by (simp_all add: fields)
    show "d' = vdi_set_fields (d\<lparr>fp := f3\<rparr>) m (ucast od + m) 512 od b
        (if VDI_IMAGE_TYPE_FIXED = VDI_IMAGE_TYPE_FIXED then b else 0) VDI_IMAGE_TYPE_FIXED"
      by (simp add: d' l(1))
  qed simp
  with fs zero l(2) show ?thesis by (simp add: fields fixed_guest [OF fs] u_simps)
qed

section \<open>Creation succeeds when the host has room\<close>

lemma map_entries_room:
  fixes ob i :: u32
  assumes "file_ok f" and "fwr f" and "unat ob + 4 * (unat i + n) \<le> flimit f" and "unat i + n < 4294967296"
  shows "snd (map_entries f ob fixed i n)"
  using assms
proof (induction n arbitrary: f i)
  case (Suc n)
  let ?v = "put32 (if fixed then i else VDI_BLOCK_UNALLOCATED)"
  have off: "unat (ucast ob + ucast i * 4 :: u64) = unat ob + 4 * unat i" by (rule vdi_map_end)
  obtain f1 ok where w: "vdisk_host_write f (ucast ob + ucast i * 4) ?v = (f1, ok)" by force
  note e = host_write_effect [OF w Suc.prems(1,2), unfolded off, simplified]
  have ok using e(6) Suc.prems(3) by simp
  have "unat (i + 1) = unat i + 1" using Suc.prems(4) by (simp add: unat_add_small)
  with Suc.IH [of f1 "i + 1"] e(1-3) Suc.prems(3,4) w \<open>ok\<close> show ?case by simp
qed simp

lemma write_map_room:
  assumes "file_ok f" and "fwr f" and "fsize f = 512" and "512 + 4 * unat b \<le> unat od" and "unat od \<le> flimit f"
  shows "snd (write_map f b 512 od fixed)"
proof -
  have "snd (map_entries f 512 fixed 0 (unat b))"
    using assms by (intro map_entries_room) simp_all
  then obtain f1 where m: "map_entries f 512 fixed 0 (unat b) = (f1, True)"
    by (metis prod.collapse)
  have m1: "file_ok f1" "fwr f1" "flimit f1 = flimit f"
    using map_entries_spec [OF m assms(1,2)] assms(3) by auto
  have p: "unat (512 + ucast b * 4 :: u64) = 512 + 4 * unat b"
    using vdi_map_end [of 512 b] by simp
  obtain f2 ok where z: "zero_loop 4096 f1 0 (512 + ucast b * 4) (ucast od) = (f2, ok)" by force
  have "(512 + ucast b * 4 :: u64) \<le> ucast od" using assms(4) by (simp add: word_le_nat_alt p u_simps)
  then have "zero_effect 0 (512 + 4 * unat b) (unat od) f1 f2 ok"
    using zero_loop_spec [OF z m1(1,2)] by (simp add: p u_simps)
  then have ok using assms(5) m1(3) by (simp add: zero_effect_def)
  with m z show ?thesis by (simp add: write_map_def)
qed

lemma vdi_create_sparse_room:
  assumes "layout_for n = Some (m, b, ob, od)" and "unat od \<le> flimit (fp d)"
    and "fsize (fp d) = 0" and "file_ok (fp d)" and "fwr (fp d)" and "\<forall>u. create_uuid d = Some u \<longrightarrow> 16 \<le> length u"
  shows "\<exists>d'. vdi_create_sparse seeds d n = (d', True)"
proof -
  note l = layout_for_facts [OF assms(1)]
  let ?h = "init_header seeds m VDI_IMAGE_TYPE_DYNAMIC b ob od (create_uuid d)"
  have lh: "length ?h = 512" using init_header_fields(1) [OF assms(6) refl] .
  obtain f1 ok where w: "vdisk_host_write (fp d) 0 ?h = (f1, ok)" by force
  note e = host_write_effect [OF w assms(4,5), simplified lh assms(3), simplified]
  have ok using e(6) assms(2) l(8) by simp
  have "snd (write_map f1 b 512 od False)"
    using e \<open>ok\<close> l(7) assms(2) by (intro write_map_room) auto
  then obtain f2 where "write_map f1 b ob od False = (f2, True)"
    unfolding l(1) by (metis prod.collapse)
  with assms(1) w \<open>ok\<close> show ?thesis by (simp add: vdi_create_sparse_def Let_def)
qed

text \<open>A created sparse image, seen by its users.\<close>

lemma vdi_live_empty_guest:
  assumes "dyn_sound d" and "vdi_live d = {}" and "i < unat (size_bytes d)"
  shows "vdi_guest d i = 0"
proof -
  have "unat (size_bytes d) \<le> unat (blocks_count d) * unat (block_size d)" "0 < unat (block_size d)"
    and ty: "image_type d = VDI_IMAGE_TYPE_DYNAMIC"
    using assms(1) by (auto simp: dyn_sound_def)
  then have "i div unat (block_size d) < unat (blocks_count d)"
    using assms(3) by (simp add: div_less_iff_less_mult)
  then have "vdi_entry d (i div unat (block_size d)) = VDI_BLOCK_UNALLOCATED"
    using assms(2) by (auto simp: vdi_live_def)
  with ty show ?thesis by (simp add: vdi_guest_def)
qed

end
