(* ===== verification/Vdisk_Vdi_Inspect.thy ===== *)
theory Vdisk_Vdi_Inspect
  imports Vdisk_Vdi_Create
begin

text \<open>
  \<^verbatim>\<open>vdisk_vdi_inspect\<close>, the structural check of a VDI file, and the properties of the VDI backend.
\<close>

section \<open>Inspection\<close>

text \<open>A run of \<open>CHECK\<close>s is a fold over their conditions. The loop over the block map comes in between;
  \<open>seen\<close> is \<open>None\<close> where the C pointer is null: the map is longer
  than 16M entries, or \<^verbatim>\<open>calloc\<close> failed.\<close>

fun inspect_entries ::
  "hfile \<Rightarrow> u32 \<Rightarrow> u32 \<Rightarrow> u32 \<Rightarrow> u32 \<Rightarrow> u32 \<Rightarrow> nat \<Rightarrow> vdisk_info \<Rightarrow> bool list option \<Rightarrow> vdisk_info" where
  "inspect_entries f type allocated blocks off_blocks i 0 info seen = info"
| "inspect_entries f type allocated blocks off_blocks i (Suc n) info seen =
     (let loop = inspect_entries f type allocated blocks off_blocks (i + 1) n
      in case vdisk_host_read f (ucast off_blocks + ucast i * 4) 4 of
           None \<Rightarrow> loop (info\<lparr>map_invalid_entries := map_invalid_entries info + 1\<rparr>) seen
         | Some e \<Rightarrow>
             let v = le32 e
             in if v = VDI_BLOCK_UNALLOCATED then
                  let info = info\<lparr>map_unallocated_entries := map_unallocated_entries info + 1\<rparr>;
                      info = (if type = VDI_IMAGE_TYPE_FIXED
                              then info\<lparr>map_invalid_entries := map_invalid_entries info + 1\<rparr> else info)
                  in loop info seen
                else
                  let info = info\<lparr>map_allocated_entries := map_allocated_entries info + 1\<rparr>
                  in if v \<ge> allocated \<or> v \<ge> blocks
                     then loop (info\<lparr>map_invalid_entries := map_invalid_entries info + 1\<rparr>) seen
                     else case seen of
                            None \<Rightarrow> loop info None
                          | Some s \<Rightarrow>
                              loop (if s ! unat v
                                    then info\<lparr>map_duplicate_entries := map_duplicate_entries info + 1\<rparr>
                                    else info) (Some (s[unat v := True])))"

text \<open>The information taken from the header, the conditions checked on it in order, and those checked
  after the map was read.\<close>

definition vdi_info :: "byte list \<Rightarrow> u64 \<Rightarrow> vdisk_info" where
  "vdi_info h host_size =
     (let type = le32 (drop 0x4c h)
      in info_zero\<lparr>info_format := VDISK_FMT_VDI, supported := True,
           info_host_size := host_size, info_logical_size := le64 (drop 0x170 h),
           info_data_offset := ucast (le32 (drop 0x158 h)),
           info_blocks_offset := ucast (le32 (drop 0x154 h)),
           info_image_type := type, info_sector_size := le32 (drop 0x168 h),
           info_block_size := le32 (drop 0x178 h), info_blocks_count := le32 (drop 0x180 h),
           info_blocks_allocated := le32 (drop 0x184 h),
           variant := (if type = VDI_IMAGE_TYPE_DYNAMIC then ''dynamic/sparse''
                       else if type = VDI_IMAGE_TYPE_FIXED then ''fixed/full'' else ''unknown'')\<rparr>)"

definition vdi_header_conds :: "byte list \<Rightarrow> u64 \<Rightarrow> bool list" where
  "vdi_header_conds h host_size =
     (let sig = le32 (drop 0x40 h); version = le32 (drop 0x44 h); hdrsz = le32 (drop 0x48 h);
          type = le32 (drop 0x4c h); off_blocks = le32 (drop 0x154 h);
          off_data = le32 (drop 0x158 h); sector_size = le32 (drop 0x168 h);
          disk_size = le64 (drop 0x170 h); bsize = le32 (drop 0x178 h);
          bextra = le32 (drop 0x17c h); blocks = le32 (drop 0x180 h);
          allocated = le32 (drop 0x184 h);
          map_end = (ucast off_blocks + ucast blocks * 4 :: u64);
          enough = (\<lambda>required :: u64. required \<ge> ucast off_data \<and> host_size \<ge> required)
      in [sig = VDI_SIGNATURE,
          version = VDI_VERSION_1_1,
          hdrsz \<ge> 0x180 \<and> hdrsz \<le> 512,
          type = VDI_IMAGE_TYPE_FIXED \<or> type = VDI_IMAGE_TYPE_DYNAMIC,
          sector_size = 512,
          disk_size \<noteq> 0,
          bsize \<noteq> 0,
          bextra = 0,
          blocks \<noteq> 0,
          allocated \<le> blocks,
          off_blocks \<ge> 512,
          off_data > off_blocks,
          map_end \<le> ucast off_data,
          ucast off_data \<le> host_size,
          if bsize \<noteq> 0 \<and> blocks \<noteq> 0 then disk_size \<le> ucast blocks * ucast bsize else False] @
         (if type = VDI_IMAGE_TYPE_FIXED \<and> bsize \<noteq> 0
          then [allocated = blocks, enough (ucast off_data + disk_size)]
          else if type = VDI_IMAGE_TYPE_DYNAMIC \<and> bsize \<noteq> 0
          then [enough (ucast off_data + ucast allocated * ucast bsize)]
          else []))"

definition vdi_map_conds :: "vdisk_info \<Rightarrow> bool list" where
  "vdi_map_conds info =
     [map_invalid_entries info = 0,
      map_duplicate_entries info = 0,
      map_allocated_entries info = info_blocks_allocated info,
      if info_image_type info = VDI_IMAGE_TYPE_DYNAMIC
      then map_unallocated_entries info = info_blocks_count info - info_blocks_allocated info
      else map_unallocated_entries info = 0]"

definition vdi_inspect_map :: "bool \<Rightarrow> hfile \<Rightarrow> u32 \<Rightarrow> vdisk_info \<Rightarrow> vdisk_info" where
  "vdi_inspect_map calloc_ok f off_blocks info =
     (let blocks = info_blocks_count info;
          map_end = ucast off_blocks + ucast blocks * 4
      in if blocks \<noteq> 0 \<and> map_end \<le> info_host_size info then
           let seen = (if blocks \<le> 16 * 1024 * 1024 \<and> calloc_ok
                       then Some (replicate (unat blocks) False) else None);
               info = inspect_entries f (info_image_type info) (info_blocks_allocated info) blocks
                        off_blocks 0 (unat blocks) info seen
           in fold CHECK (vdi_map_conds info) info
         else info\<lparr>checks_failed := checks_failed info + 4\<rparr>)"

definition vdisk_vdi_inspect :: "bool \<Rightarrow> hfile \<Rightarrow> vdisk_info option" where
  "vdisk_vdi_inspect calloc_ok f =
     (case read_header f of None \<Rightarrow> None
      | Some h \<Rightarrow>
        let host_size = vdisk_host_get_size f;
            info = fold CHECK (vdi_header_conds h host_size) (vdi_info h host_size);
            info = vdi_inspect_map calloc_ok f (le32 (drop 0x154 h)) info
        in Some (info\<lparr>structurally_valid := checks_failed info = 0\<rparr>))"

lemma fold_CHECK_failed:
  "checks_failed (fold CHECK cs info) = checks_failed info + of_nat (length (filter Not cs))"
  by (induction cs arbitrary: info) (auto simp: CHECK_simps split: if_splits)

lemma fold_CHECK_map [simp]:
  "map_invalid_entries (fold CHECK cs info) = map_invalid_entries info"
  "map_duplicate_entries (fold CHECK cs info) = map_duplicate_entries info"
  "map_allocated_entries (fold CHECK cs info) = map_allocated_entries info"
  "map_unallocated_entries (fold CHECK cs info) = map_unallocated_entries info"
  by (induction cs arbitrary: info) (auto simp: CHECK_def)

lemma fold_CHECK_fields [simp]:
  "info_blocks_count (fold CHECK cs info) = info_blocks_count info"
  "info_blocks_allocated (fold CHECK cs info) = info_blocks_allocated info"
  "info_image_type (fold CHECK cs info) = info_image_type info"
  "info_host_size (fold CHECK cs info) = info_host_size info"
  "info_logical_size (fold CHECK cs info) = info_logical_size info"
  by (induction cs arbitrary: info) (auto simp: CHECK_def)

lemma inspect_entries_failed [simp]:
  "checks_failed (inspect_entries f type al bl ob i n info seen) = checks_failed info"
  by (induction n arbitrary: i info seen) (auto simp: Let_def split: option.splits)

text \<open>What the loop counts, on a map it can read.\<close>

definition live_from :: "(nat \<Rightarrow> u32) \<Rightarrow> nat \<Rightarrow> nat \<Rightarrow> nat set" where
  "live_from e i n = {j. i \<le> j \<and> j < i + n \<and> e j \<noteq> VDI_BLOCK_UNALLOCATED}"

lemma live_from_Suc:
  "live_from e i (Suc n) =
     (if e i = VDI_BLOCK_UNALLOCATED then live_from e (Suc i) n else insert i (live_from e (Suc i) n))"
  by (auto simp: live_from_def Suc_le_eq) (metis le_neq_implies_less)

lemma live_from_0 [simp]: "live_from e i 0 = {}"
  by (auto simp: live_from_def)

lemma live_from_head [simp]: "i \<notin> live_from e (Suc i) n" "finite (live_from e i n)"
  by (auto simp: live_from_def)

lemma inspect_entries_spec:
  fixes i al bl ob :: u32 and e :: "nat \<Rightarrow> u32"
  assumes "info' = inspect_entries f type al bl ob i n info (Some s)"
    and "\<And>j. j < unat i + n \<Longrightarrow> vdisk_host_read f (ucast ob + ucast (of_nat j :: u32) * 4) 4 = Some (put32 (e j))"
    and "unat i + n < 4294967296" and "length s = unat bl"
    and "unat (map_invalid_entries info) \<le> unat i" and "unat (map_duplicate_entries info) \<le> unat i"
    and "unat (map_allocated_entries info) \<le> unat i" and "map_invalid_entries info' = 0"
    and "map_duplicate_entries info' = 0"
  shows "map_invalid_entries info = 0 \<and> map_duplicate_entries info = 0 \<and>
    unat (map_allocated_entries info') = unat (map_allocated_entries info) + card (live_from e (unat i) n) \<and>
    (\<forall>j \<in> live_from e (unat i) n. e j < al \<and> e j < bl \<and> \<not> s ! unat (e j)) \<and>
    inj_on e (live_from e (unat i) n)"
  using assms
proof (induction n arbitrary: i info s)
  case (Suc n)
  have [simp]: "(of_nat (unat i) :: u32) = i" by simp
  have rd: "vdisk_host_read f (ucast ob + ucast i * 4) 4 = Some (put32 (e (unat i)))"
    using Suc.prems(2) [of "unat i"] by simp
  have i1: "unat (i + 1) = Suc (unat i)" using Suc.prems(3) by (simp add: unat_add_small)
  have inc: "unat (c + 1) = Suc (unat c)" if "unat c \<le> unat i" for c :: u32
    using that Suc.prems(3) by (subst unat_add_small) simp_all
  have incz: "c + 1 \<noteq> 0" if "unat c \<le> unat i" for c :: u32
    using inc [OF that] by (metis nat.distinct(1) unat_0)
  have IH: "map_invalid_entries info1 = 0 \<and> map_duplicate_entries info1 = 0 \<and>
      unat (map_allocated_entries info') = unat (map_allocated_entries info1) + card (live_from e (Suc (unat i)) n) \<and>
      (\<forall>j \<in> live_from e (Suc (unat i)) n. e j < al \<and> e j < bl \<and> \<not> s1 ! unat (e j)) \<and>
      inj_on e (live_from e (Suc (unat i)) n)"
    if "info' = inspect_entries f type al bl ob (i + 1) n info1 (Some s1)" "length s1 = unat bl"
      "unat (map_invalid_entries info1) \<le> Suc (unat i)" "unat (map_duplicate_entries info1) \<le> Suc (unat i)"
      "unat (map_allocated_entries info1) \<le> Suc (unat i)" for info1 s1
    using Suc.IH [where i = "i + 1", unfolded i1, OF that(1) Suc.prems(2)] that(2-5) Suc.prems(3,8,9) by simp
  let ?v = "e (unat i)"
  let ?inf = "info\<lparr>map_allocated_entries := map_allocated_entries info + 1\<rparr>"
  note step = Suc.prems(1) [simplified, unfolded rd, simplified, unfolded Let_def]
  show ?case
  proof (cases "?v = VDI_BLOCK_UNALLOCATED")
    case True
    let ?i1 = "info\<lparr>map_unallocated_entries := map_unallocated_entries info + 1\<rparr>"
    let ?i2 = "if type = VDI_IMAGE_TYPE_FIXED
      then ?i1\<lparr>map_invalid_entries := map_invalid_entries info + 1\<rparr> else ?i1"
    have "info' = inspect_entries f type al bl ob (i + 1) n ?i2 (Some s)" using True step by simp
    from IH [OF this Suc.prems(4)] Suc.prems(5-7) inc [OF Suc.prems(5)] incz [OF Suc.prems(5)] True
    show ?thesis by (cases "type = VDI_IMAGE_TYPE_FIXED") (simp_all add: live_from_Suc)
  next
    case alive: False
    have ok: "\<not> (?v \<ge> al \<or> ?v \<ge> bl)"
    proof
      assume bad: "?v \<ge> al \<or> ?v \<ge> bl"
      have "info' = inspect_entries f type al bl ob (i + 1) n
          (?inf\<lparr>map_invalid_entries := map_invalid_entries info + 1\<rparr>) (Some s)"
        using alive bad step by simp
      from IH [OF this Suc.prems(4)] Suc.prems(5-7) inc [OF Suc.prems(5)] inc [OF Suc.prems(7)]
        incz [OF Suc.prems(5)] show False by auto
    qed
    have fresh: "\<not> s ! unat ?v"
    proof
      assume dup: "s ! unat ?v"
      have "info' = inspect_entries f type al bl ob (i + 1) n
          (?inf\<lparr>map_duplicate_entries := map_duplicate_entries info + 1\<rparr>) (Some (s[unat ?v := True]))"
        using alive ok dup step by simp
      from IH [OF this] Suc.prems(4-7) inc [OF Suc.prems(6)] inc [OF Suc.prems(7)]
        incz [OF Suc.prems(6)] show False by auto
    qed
    have "info' = inspect_entries f type al bl ob (i + 1) n ?inf (Some (s[unat ?v := True]))"
      using alive ok fresh step by simp
    from IH [OF this] Suc.prems(4-7) inc [OF Suc.prems(7)]
    have R: "map_invalid_entries info = 0" "map_duplicate_entries info = 0"
      "unat (map_allocated_entries info') = Suc (unat (map_allocated_entries info)) + card (live_from e (Suc (unat i)) n)"
      "\<And>j. j \<in> live_from e (Suc (unat i)) n \<Longrightarrow> e j < al \<and> e j < bl \<and> \<not> s[unat ?v := True] ! unat (e j)"
      "inj_on e (live_from e (Suc (unat i)) n)" by auto
    have len: "unat ?v < length s" using ok Suc.prems(4) by (simp add: word_le_nat_alt)
    have ne: "e j \<noteq> ?v \<and> \<not> s ! unat (e j)" if "j \<in> live_from e (Suc (unat i)) n" for j
      using R(4) [OF that] len by (cases "e j = ?v") (auto simp: nth_list_update split: if_splits)
    then have "?v \<notin> e ` live_from e (Suc (unat i)) n" by (metis image_iff)
    with R ok fresh alive ne show ?thesis by (auto simp: live_from_Suc)
  qed
qed simp


text \<open>The image an inspected header describes.\<close>

definition vdi_described :: "vdisk \<Rightarrow> vdisk_info \<Rightarrow> vdisk" where
  "vdi_described d info =
     d\<lparr>size_bytes := info_logical_size info, data_offset := info_data_offset info,
       block_size := info_block_size info, block_extra := 0, blocks_offset := info_blocks_offset info,
       blocks_count := info_blocks_count info, blocks_allocated := info_blocks_allocated info,
       image_type := info_image_type info\<rparr>"

lemma vdi_described_CHECK [simp]: "vdi_described d (fold CHECK cs info) = vdi_described d info"
  by (induction cs arbitrary: info) (simp_all add: CHECK_def vdi_described_def)

lemma vdi_described_entries [simp]:
  "vdi_described d (inspect_entries f type al bl ob i n info seen) = vdi_described d info"
proof (induction n arbitrary: i info seen)
  case (Suc n)
  have "vdi_described d (info\<lparr>map_invalid_entries := a\<rparr>) = vdi_described d info"
    "vdi_described d (info\<lparr>map_unallocated_entries := a\<rparr>) = vdi_described d info"
    "vdi_described d (info\<lparr>map_allocated_entries := a\<rparr>) = vdi_described d info"
    "vdi_described d (info\<lparr>map_duplicate_entries := a\<rparr>) = vdi_described d info" for a info
    by (simp_all add: vdi_described_def)
  with Suc show ?case by (simp add: Let_def split: option.split)
qed simp

lemma small_sum_zero:
  assumes "(of_nat a + of_nat b + of_nat c :: u32) = 0" and "a + b + c < 4294967296"
  shows "a = 0 \<and> b = 0 \<and> c = 0"
proof -
  have "unat (of_nat (a + b + c) :: u32) = a + b + c" using assms(2) by (intro unat_of_nat_small) simp
  with assms(1) show ?thesis by simp
qed

lemma filter_Not_Nil: "length (filter Not cs) = 0 \<longleftrightarrow> (\<forall>c \<in> set cs. c)"
  by (auto simp: filter_empty_conv)

lemma vdi_inspect_valid:
  assumes "vdisk_vdi_inspect calloc_ok f = Some info" and "structurally_valid info"
  obtains h info1 where "read_header f = Some h"
    and "\<forall>c \<in> set (vdi_header_conds h (vdisk_host_get_size f)). c"
    and "\<forall>c \<in> set (vdi_map_conds info1). c"
    and "info1 = inspect_entries f (le32 (drop 0x4c h)) (le32 (drop 0x184 h)) (le32 (drop 0x180 h))
      (le32 (drop 0x154 h)) 0 (unat (le32 (drop 0x180 h)))
      (fold CHECK (vdi_header_conds h (vdisk_host_get_size f)) (vdi_info h (vdisk_host_get_size f)))
      (if le32 (drop 0x180 h) \<le> 16777216 \<and> calloc_ok
       then Some (replicate (unat (le32 (drop 0x180 h))) False) else None)"
    and "\<And>d. vdi_described d info = vdi_described d (vdi_info h (vdisk_host_get_size f))"
proof -
  obtain h where h: "read_header f = Some h"
    using assms(1) by (cases "read_header f") (simp_all add: vdisk_vdi_inspect_def)
  let ?hc = "vdi_header_conds h (vdisk_host_get_size f)" and ?base = "vdi_info h (vdisk_host_get_size f)"
  let ?i = "fold CHECK ?hc ?base" and ?bl = "le32 (drop 0x180 h)" and ?ob = "le32 (drop 0x154 h)"
  have i0: "info_blocks_count ?base = ?bl" "info_blocks_allocated ?base = le32 (drop 0x184 h)"
    "info_image_type ?base = le32 (drop 0x4c h)" "info_host_size ?base = vdisk_host_get_size f"
    "checks_failed ?base = 0"
    by (simp_all add: vdi_info_def Let_def info_zero_def)
  have l1: "length (filter Not ?hc) \<le> 17"
    by (rule order_trans [OF length_filter_le]) (simp add: vdi_header_conds_def Let_def)
  have cf: "checks_failed (vdi_inspect_map calloc_ok f ?ob ?i) = 0"
    and info: "info = (vdi_inspect_map calloc_ok f ?ob ?i)\<lparr>structurally_valid := True\<rparr>"
    using assms h by (auto simp: vdisk_vdi_inspect_def Let_def)
  show thesis
  proof (cases "?bl \<noteq> 0 \<and> ucast ?ob + ucast ?bl * 4 \<le> vdisk_host_get_size f")
    case False
    then have "checks_failed (vdi_inspect_map calloc_ok f ?ob ?i) =
        of_nat (length (filter Not ?hc)) + of_nat 4 + of_nat 0"
      by (auto simp: vdi_inspect_map_def i0 fold_CHECK_failed)
    with cf l1 small_sum_zero [of "length (filter Not ?hc)" 4 0] show ?thesis by simp
  next
    case True
    define info1 where "info1 = inspect_entries f (le32 (drop 0x4c h)) (le32 (drop 0x184 h)) ?bl ?ob 0
      (unat ?bl) ?i (if ?bl \<le> 16777216 \<and> calloc_ok then Some (replicate (unat ?bl) False) else None)"
    have m: "vdi_inspect_map calloc_ok f ?ob ?i = fold CHECK (vdi_map_conds info1) info1"
      using True by (simp add: vdi_inspect_map_def i0 info1_def Let_def)
    have f1: "checks_failed info1 = of_nat (length (filter Not ?hc))"
      by (simp add: info1_def fold_CHECK_failed i0)
    have "checks_failed (vdi_inspect_map calloc_ok f ?ob ?i) =
        of_nat (length (filter Not ?hc)) + of_nat (length (filter Not (vdi_map_conds info1))) + of_nat 0"
      by (simp add: m f1 fold_CHECK_failed)
    moreover have "length (filter Not (vdi_map_conds info1)) \<le> 4"
      by (rule order_trans [OF length_filter_le]) (simp add: vdi_map_conds_def)
    ultimately have "length (filter Not ?hc) = 0" "length (filter Not (vdi_map_conds info1)) = 0"
      using cf l1 small_sum_zero [of "length (filter Not ?hc)" "length (filter Not (vdi_map_conds info1))" 0]
      by simp_all
    then have c: "\<forall>c \<in> set ?hc. c" "\<forall>c \<in> set (vdi_map_conds info1). c" by (simp_all only: filter_Not_Nil)
    have "vdi_described d info = vdi_described d ?base" for d
    proof -
      have "vdi_described d info = vdi_described d (vdi_inspect_map calloc_ok f ?ob ?i)"
        by (simp add: info vdi_described_def)
      then show ?thesis by (simp add: m info1_def)
    qed
    with h c info1_def show ?thesis by (rule that)
  qed
qed

lemma vdi_header_conds_all:
  assumes "\<forall>c \<in> set (vdi_header_conds h hs). c"
  shows "le32 (drop 0x40 h) = VDI_SIGNATURE" "le32 (drop 0x44 h) = VDI_VERSION_1_1"
    "0x180 \<le> le32 (drop 0x48 h)" "le32 (drop 0x4c h) = 2 \<or> le32 (drop 0x4c h) = 1"
    "le32 (drop 0x168 h) = 512" "le64 (drop 0x170 h) \<noteq> 0" "le32 (drop 0x178 h) \<noteq> 0"
    "le32 (drop 0x17c h) = 0" "le32 (drop 0x180 h) \<noteq> 0" "le32 (drop 0x184 h) \<le> le32 (drop 0x180 h)"
    "512 \<le> le32 (drop 0x154 h)" "le32 (drop 0x154 h) < le32 (drop 0x158 h)"
    "ucast (le32 (drop 0x154 h)) + ucast (le32 (drop 0x180 h)) * 4 \<le> (ucast (le32 (drop 0x158 h)) :: u64)"
    "ucast (le32 (drop 0x158 h)) \<le> hs"
    "le64 (drop 0x170 h) \<le> ucast (le32 (drop 0x180 h)) * ucast (le32 (drop 0x178 h))"
proof -
  define xs where "xs = drop 15 (vdi_header_conds h hs)"
  have "vdi_header_conds h hs = take 15 (vdi_header_conds h hs) @ xs" by (simp add: xs_def)
  then have "\<forall>c \<in> set (take 15 (vdi_header_conds h hs)). c" using assms by (metis in_set_takeD)
  then show "le32 (drop 0x40 h) = VDI_SIGNATURE" "le32 (drop 0x44 h) = VDI_VERSION_1_1"
    "0x180 \<le> le32 (drop 0x48 h)" "le32 (drop 0x4c h) = 2 \<or> le32 (drop 0x4c h) = 1"
    "le32 (drop 0x168 h) = 512" "le64 (drop 0x170 h) \<noteq> 0" "le32 (drop 0x178 h) \<noteq> 0"
    "le32 (drop 0x17c h) = 0" "le32 (drop 0x180 h) \<noteq> 0" "le32 (drop 0x184 h) \<le> le32 (drop 0x180 h)"
    "512 \<le> le32 (drop 0x154 h)" "le32 (drop 0x154 h) < le32 (drop 0x158 h)"
    "ucast (le32 (drop 0x154 h)) + ucast (le32 (drop 0x180 h)) * 4 \<le> (ucast (le32 (drop 0x158 h)) :: u64)"
    "ucast (le32 (drop 0x158 h)) \<le> hs"
    "le64 (drop 0x170 h) \<le> ucast (le32 (drop 0x180 h)) * ucast (le32 (drop 0x178 h))"
    by (simp_all add: vdi_header_conds_def Let_def)
qed

lemma inspect_entries_clean:
  fixes bl al ob :: u32 and f :: hfile
  defines "e \<equiv> \<lambda>g. le32 (window (fdata f) (unat ob + 4 * g) 4)"
  assumes i1: "info1 = inspect_entries f ty al bl ob 0 (unat bl) info (Some (replicate (unat bl) False))"
    and "file_ok f" and "unat ob + 4 * unat bl \<le> fsize f"
    and "map_invalid_entries info = 0" "map_duplicate_entries info = 0" "map_allocated_entries info = 0"
    and "map_invalid_entries info1 = 0" "map_duplicate_entries info1 = 0" "map_allocated_entries info1 = al"
  shows "inj_on e (live_from e 0 (unat bl)) \<and> (\<forall>g \<in> live_from e 0 (unat bl). unat (e g) < unat al) \<and>
    card (live_from e 0 (unat bl)) = unat al"
proof -
  have rd: "vdisk_host_read f (ucast ob + ucast (of_nat j :: u32) * 4) 4 = Some (put32 (e j))"
    if "j < unat (0 :: u32) + unat bl" for j
  proof -
    have "unat (of_nat j :: u32) = j"
      using that less_trans [OF _ unat_u32_less [of bl], of j] by (intro unat_of_nat_small) simp
    then have "unat (ucast ob + ucast (of_nat j :: u32) * 4 :: u64) = unat ob + 4 * j"
      by (simp add: vdi_map_end)
    with that assms(3,4) show ?thesis by (simp add: host_read_ok e_def put32_le32)
  qed
  from inspect_entries_spec [OF i1 rd] assms(5-10) show ?thesis
    by (auto simp: word_less_nat_alt)
qed

text \<open>The checks on the header, read as bounds on natural numbers.\<close>

lemma vdi_header_extents:
  assumes hc: "\<forall>c \<in> set (vdi_header_conds h (vdisk_host_get_size f)). c" and "file_ok f"
    and defs: "ob = le32 (drop 0x154 h)" "od = le32 (drop 0x158 h)" "bl = le32 (drop 0x180 h)"
      "al = le32 (drop 0x184 h)" "bs = le32 (drop 0x178 h)"
  shows "512 \<le> unat ob" and "unat ob < unat od" and "unat ob + 4 * unat bl \<le> unat od"
    and "unat od \<le> fsize f" and "unat (le64 (drop 0x170 h)) \<le> unat bl * unat bs"
    and "le32 (drop 0x4c h) = 2 \<Longrightarrow> al = bl \<and> unat od + unat (le64 (drop 0x170 h)) \<le> fsize f"
    and "le32 (drop 0x4c h) = 1 \<Longrightarrow> unat od + unat al * unat bs \<le> fsize f"
proof -
  note C = vdi_header_conds_all [OF hc, folded defs]
  have hs: "unat (vdisk_host_get_size f) = fsize f" using assms(2) by (rule unat_host_get_size)
  show "512 \<le> unat ob" "unat ob < unat od" "unat (le64 (drop 0x170 h)) \<le> unat bl * unat bs"
    "unat od \<le> fsize f"
    using C(11,12,14,15) hs by (simp_all add: word_le_nat_alt word_less_nat_alt unat_mult_u32 u_simps)
  show "unat ob + 4 * unat bl \<le> unat od"
    using C(13) vdi_map_end [of ob bl] by (simp add: word_le_nat_alt u_simps)
  show "al = bl \<and> unat od + unat (le64 (drop 0x170 h)) \<le> fsize f" if "le32 (drop 0x4c h) = 2"
  proof -
    have "al = bl \<and> ucast od \<le> ucast od + le64 (drop 0x170 h) \<and>
        ucast od + le64 (drop 0x170 h) \<le> vdisk_host_get_size f"
      using hc that vdi_header_conds_all(7) [OF hc] by (simp add: vdi_header_conds_def Let_def defs cong: if_cong)
    then show ?thesis
      using unat_plus_simple [of "ucast od" "le64 (drop 0x170 h)"] hs by (auto simp: word_le_nat_alt u_simps)
  qed
  show "unat od + unat al * unat bs \<le> fsize f" if "le32 (drop 0x4c h) = 1"
  proof -
    have "ucast od \<le> ucast od + (ucast al * ucast bs :: u64) \<and>
        ucast od + ucast al * ucast bs \<le> vdisk_host_get_size f"
      using hc that vdi_header_conds_all(7) [OF hc] by (simp add: vdi_header_conds_def Let_def defs cong: if_cong)
    then show ?thesis
      using unat_plus_simple [of "ucast od :: u64" "ucast al * ucast bs"] hs
      by (auto simp: word_le_nat_alt u_simps unat_mult_u32)
  qed
qed

lemma vdi_described_fields:
  "image_type (vdi_described d (vdi_info h hs)) = le32 (drop 0x4c h)"
  "blocks_offset (vdi_described d (vdi_info h hs)) = ucast (le32 (drop 0x154 h))"
  "data_offset (vdi_described d (vdi_info h hs)) = ucast (le32 (drop 0x158 h))"
  "size_bytes (vdi_described d (vdi_info h hs)) = le64 (drop 0x170 h)"
  "block_size (vdi_described d (vdi_info h hs)) = le32 (drop 0x178 h)"
  "blocks_count (vdi_described d (vdi_info h hs)) = le32 (drop 0x180 h)"
  "blocks_allocated (vdi_described d (vdi_info h hs)) = le32 (drop 0x184 h)"
  "fp (vdi_described d (vdi_info h hs)) = fp d" "writable (vdi_described d (vdi_info h hs)) = writable d"
  by (simp_all add: vdi_described_def vdi_info_def Let_def)

lemma vdi_header_synced:
  assumes hc: "\<forall>c \<in> set (vdi_header_conds h (vdisk_host_get_size f)). c" and "file_ok f"
    and h: "h = window (fdata f) 0 512" and "512 \<le> fsize f" and "fp d = f"
  shows "vdi_synced (vdi_described d (vdi_info h hs))"
proof -
  note C = vdi_header_conds_all [OF hc]
  note E = vdi_header_extents [OF hc assms(2) refl refl refl refl refl]
  have w: "le32 (window (fdata f) off 4) = le32 (drop off h)" "le64 (window (fdata f) off 8) = le64 (drop off h)"
    if "off + 8 \<le> 512" for off
    using that by (simp_all add: h header_field32 header_field64)
  have "(ucast (le32 (drop 0x154 h)) :: u64) \<noteq> 0" using E(1) by (auto simp: word_unat_eq_iff u_simps)
  with C E(2,5,6) assms(4,5) show ?thesis
    unfolding vdi_synced_def Let_def vdi_described_fields assms(5)
    by (simp add: w word_less_nat_alt u_simps)
qed

lemma vdi_inspect_sound:
  assumes "vdisk_vdi_inspect True f = Some info" and "structurally_valid info" and "file_ok f"
    and "info_blocks_count info \<le> 16777216" and "fp d = f" and "writable d \<longrightarrow> fwr f"
  shows "vdi_sound (vdi_described d info) \<and> vdi_synced (vdi_described d info)"
proof (rule vdi_inspect_valid [OF assms(1,2)])
  fix h info1
  let ?hs = "vdisk_host_get_size f"
  assume rh: "read_header f = Some h"
    and hc: "\<forall>c \<in> set (vdi_header_conds h ?hs). c" and mc: "\<forall>c \<in> set (vdi_map_conds info1). c"
    and i1: "info1 = inspect_entries f (le32 (drop 0x4c h)) (le32 (drop 0x184 h)) (le32 (drop 0x180 h))
      (le32 (drop 0x154 h)) 0 (unat (le32 (drop 0x180 h))) (fold CHECK (vdi_header_conds h ?hs) (vdi_info h ?hs))
      (if le32 (drop 0x180 h) \<le> 16777216 \<and> True
       then Some (replicate (unat (le32 (drop 0x180 h))) False) else None)"
    and desc: "\<And>d. vdi_described d info = vdi_described d (vdi_info h ?hs)"
  define D where "D = vdi_described d (vdi_info h ?hs)"
  have h: "h = window (fdata f) 0 512" "512 \<le> fsize f"
    using rh by (auto simp: read_header_def vdisk_host_read_def split: if_splits)
  note E = vdi_header_extents [OF hc assms(3) refl refl refl refl refl]
  note fields = vdi_described_fields [of d h ?hs, folded D_def]
  have sy: "vdi_synced D" unfolding D_def using vdi_header_synced [OF hc assms(3) h assms(5)] .
  have "blocks_count (vdi_described d info) = le32 (drop 0x180 h)" by (simp add: desc vdi_described_fields)
  then have "le32 (drop 0x180 h) = info_blocks_count info" by (simp add: vdi_described_def)
  then have i1': "info1 = inspect_entries f (le32 (drop 0x4c h)) (le32 (drop 0x184 h)) (le32 (drop 0x180 h))
      (le32 (drop 0x154 h)) 0 (unat (le32 (drop 0x180 h))) (fold CHECK (vdi_header_conds h ?hs) (vdi_info h ?hs))
      (Some (replicate (unat (le32 (drop 0x180 h))) False))"
    using i1 assms(4) by simp
  have "blocks_allocated (vdi_described d info1) = le32 (drop 0x184 h)" by (simp add: i1 vdi_described_fields)
  then have "info_blocks_allocated info1 = le32 (drop 0x184 h)" by (simp add: vdi_described_def)
  then have mm: "map_invalid_entries info1 = 0" "map_duplicate_entries info1 = 0"
    "map_allocated_entries info1 = le32 (drop 0x184 h)"
    using mc by (simp_all add: vdi_map_conds_def)
  have "vdi_entry D = (\<lambda>g. le32 (window (fdata f) (unat (le32 (drop 0x154 h)) + 4 * g) 4))"
    by (simp add: fun_eq_iff vdi_entry_def fields u_simps assms(5))
  moreover have "vdi_live D = live_from (vdi_entry D) 0 (unat (le32 (drop 0x180 h)))"
    by (auto simp: vdi_live_def live_from_def fields)
  ultimately have m: "inj_on (vdi_entry D) (vdi_live D) \<and>
      (\<forall>g \<in> vdi_live D. unat (vdi_entry D g) < unat (le32 (drop 0x184 h))) \<and>
      card (vdi_live D) = unat (le32 (drop 0x184 h))"
    using inspect_entries_clean [OF i1' assms(3) _ _ _ _ mm] E(3,4)
    by (simp add: vdi_info_def Let_def info_zero_def)
  have "vdi_sound D"
    using vdi_header_conds_all(4,7) [OF hc] E m assms(3,5,6)
    by (auto simp: vdi_sound_def dyn_sound_def fixed_sound_def fields u_simps unat_gt_0)
  with sy show ?thesis by (simp add: desc D_def)
qed

section \<open>Properties\<close>

text \<open>A small dynamic image with nothing allocated: two blocks of four bytes, map at \<open>0x188\<close>, data at
  \<open>0x190\<close>, every byte of the file \<open>0xFF\<close>. It serves as the concrete instance of the properties.\<close>

definition vdi_tiny :: vdisk where
  "vdi_tiny = \<lparr>driver = Some VDISK_FMT_VDI,
     fp = \<lparr>fname = ''t.vdi'', fsize = 0x190, fdata = \<lambda>_. 255, flimit = 0x1000, fwr = True\<rparr>,
     path = ''t.vdi'', size_bytes = 8, data_offset = 0x190, host_size_bytes = 0x190, block_size = 4,
     block_extra = 0, blocks_offset = 0x188, blocks_count = 2, blocks_allocated = 0, image_type = 1,
     writable = True, vformat = VDISK_FMT_VDI, create_flags = 0, create_uuid = None\<rparr>"

definition vdi_blank :: vdisk where
  "vdi_blank = vdi_tiny\<lparr>fp := \<lparr>fname = ''t.vdi'', fsize = 0, fdata = \<lambda>_. 0, flimit = 0x200000, fwr = True\<rparr>\<rparr>"

lemma vdi_tiny_sound: "vdi_sound vdi_tiny" "vdi_room vdi_tiny" "writable vdi_tiny" "size_bytes vdi_tiny = 8"
proof -
  have "vdi_entry vdi_tiny g = VDI_BLOCK_UNALLOCATED" for g
    by (simp add: vdi_entry_def vdi_tiny_def VDI_BLOCK_UNALLOCATED_def le32_def window_def upt_conv_Cons)
  then have "vdi_live vdi_tiny = {}" by (simp add: vdi_live_def)
  then show "vdi_sound vdi_tiny"
    by (simp add: vdi_sound_def dyn_sound_def) (simp add: vdi_tiny_def file_ok_def)
qed (simp_all add: vdi_tiny_def vdi_room_def)

lemma vdi_write_fixed_allocated:
  "image_type d = VDI_IMAGE_TYPE_FIXED \<Longrightarrow> vdi_write d off bs = (d', ok) \<Longrightarrow>
   blocks_allocated d' = blocks_allocated d"
  by (auto simp: vdi_write_def put_fp_def split: if_splits)

lemma vdi_run_writes_synced:
  "vdi_sound d \<Longrightarrow> vdi_synced d \<Longrightarrow> run_writes vdi_write d ws = (d', ok) \<Longrightarrow> vdi_synced d'"
proof (induction ws arbitrary: d)
  case (Cons w ws)
  obtain off bs d1 ok1 where w: "w = (off, bs)" and v: "vdi_write d off bs = (d1, ok1)" by force
  have s: "vdi_sound d1" "vdi_kept d d1" using vdi_write_guest [OF Cons.prems(1) v] by simp_all
  then have "vdi_synced d1"
    using vdi_synced_kept [OF Cons.prems(2)] vdi_write_fixed_allocated [OF _ v] by blast
  with Cons.IH [OF s(1)] Cons.prems(3) w v show ?case by (auto split: if_splits)
qed simp

lemma vdi_probe_synced: "vdi_synced d \<Longrightarrow> file_ok (fp d) \<Longrightarrow> vdi_probe (fp d)"
  by (simp add: vdi_synced_def vdi_probe_def read_header_def host_read_ok header_field32 Let_def)

text \<open>C1. \<^verbatim>\<open>vdi_write\<close> is crash safe. Writing to a sound image, fixed or dynamic, always leaves a sound
  image (its block map stays injective, in range and in step with the allocation counter and the
  file size), whatever the host's free space. A write outside the disk or to a read-only image
  changes nothing and fails. Otherwise the guest disk changes by a prefix of the data at the given
  offset and nowhere else: by all of it if the call succeeds, and it succeeds whenever the host has
  room for the blocks of the disk.\<close>

theorem vdi_write_crash_safe:
  assumes "vdi_sound d" and "vdi_write d off bs = (d', ok)"
  shows "vdi_sound d' \<and> size_bytes d' = size_bytes d \<and>
    (\<not> (writable d \<and> unat off + length bs \<le> unat (size_bytes d)) \<longrightarrow> d' = d \<and> \<not> ok) \<and>
    (writable d \<and> unat off + length bs \<le> unat (size_bytes d) \<and> vdi_room d \<longrightarrow> ok) \<and>
    (\<exists>k \<le> length bs. (ok \<longrightarrow> k = length bs) \<and>
      (\<forall>i < unat (size_bytes d). vdi_guest d' i = overlay (vdi_guest d) (unat off) (take k bs) i))"
  using vdi_write_guest [OF assms] vdi_kept_shape(1) [of d d'] by simp

theorem vdi_write_crash_safe_witness:
  "\<exists>d' ok. vdi_write vdi_tiny 3 [1, 2] = (d', ok) \<and> ok \<and> vdi_sound d' \<and>
     vdi_guest d' 3 = 1 \<and> vdi_guest d' 4 = 2 \<and> vdi_guest d' 5 = vdi_guest vdi_tiny 5"
proof -
  obtain d' ok where w: "vdi_write vdi_tiny 3 [1, 2] = (d', ok)" by force
  from vdi_write_crash_safe [OF vdi_tiny_sound(1) w] vdi_tiny_sound(2-4)
  have "vdi_sound d'" "ok" "\<forall>i < 8. vdi_guest d' i = overlay (vdi_guest vdi_tiny) 3 [1, 2] i" by auto
  with w show ?thesis by (auto simp: overlay_def)
qed


text \<open>C6. What is written survives closing and reopening, where the host has room. Take a sound image
  that is open for writing, whose header on the file is in step with it, and for all of whose blocks the host has
  room (\<open>vdi_room\<close>; a fixed image has them already). Then every write of any sequence of writes inside the disk
  succeeds, and an image opened from the resulting file by \<^verbatim>\<open>vdi_open\<close> is sound, has the same
  size, and reads back at every place exactly what the sequence of writes leaves there.\<close>

theorem vdi_write_reopen_read:
  assumes "vdi_sound d" and "vdi_synced d" and "writable d" and "vdi_room d"
    and "\<forall>(off, bs) \<in> set ws. unat off + length bs \<le> unat (size_bytes d)"
  shows "\<exists>d'. run_writes vdi_write d ws = (d', True) \<and>
    (\<forall>d0. fp d0 = fp d' \<and> (writable d0 \<longrightarrow> fwr (fp d')) \<longrightarrow>
      (\<exists>d1. vdi_open d0 = Some d1 \<and> vdi_sound d1 \<and> size_bytes d1 = size_bytes d \<and>
        (\<forall>off n. unat off + n \<le> unat (size_bytes d) \<longrightarrow>
          vdi_read d1 off n = Some (window (overlay_all (vdi_guest d) ws) (unat off) n))))"
proof -
  have "vdi_inv d" using assms by (simp add: vdi_inv_def)
  from vdi.run_writes_guest [OF this assms(3,5)] obtain d' where
    d': "run_writes vdi_write d ws = (d', True)" "vdi_inv d'" "size_bytes d' = size_bytes d"
      "\<forall>i < unat (size_bytes d). vdi_guest d' i = overlay_all (vdi_guest d) ws i" by blast
  have s: "vdi_sound d'" "vdi_synced d'"
    using d' vdi_run_writes_synced [OF assms(1,2) d'(1)] by (simp_all add: vdi_inv_def)
  have "\<exists>d1. vdi_open d0 = Some d1 \<and> vdi_sound d1 \<and> size_bytes d1 = size_bytes d \<and>
        (\<forall>off n. unat off + n \<le> unat (size_bytes d) \<longrightarrow>
          vdi_read d1 off n = Some (window (overlay_all (vdi_guest d) ws) (unat off) n))"
    if f: "fp d0 = fp d'" "writable d0 \<longrightarrow> fwr (fp d')" for d0
  proof -
    note r = vdi_reopened_same [OF f(1)]
    have "window (vdi_guest d') (unat off) n = window (overlay_all (vdi_guest d) ws) (unat off) n"
      if "unat off + n \<le> unat (size_bytes d)" for off :: u64 and n
      using d'(4) that by (intro window_cong) auto
    with vdi_open_synced [OF s(2,1) f(1)] r(1,4) r(2) [OF s(1) f(2)] d'(3) show ?thesis
      by (simp add: vdi_read_guest)
  qed
  with d'(1) show ?thesis by blast
qed

lemma vdi_blank_created:
  obtains d where "vdi_create_sparse (7, 9) vdi_blank 700 = (d, True)" and "vdi_sound d" and "vdi_synced d"
    and "writable d" and "vdi_room d" and "size_bytes d = 1024" and "fwr (fp d)"
proof -
  have lay: "layout_for 700 = Some (1024, 1, 512, 1024)" by code_simp
  have b: "fsize (fp vdi_blank) = 0" "file_ok (fp vdi_blank)" "fwr (fp vdi_blank)"
    "\<forall>u. create_uuid vdi_blank = Some u \<longrightarrow> 16 \<le> length u" "flimit (fp vdi_blank) = 0x200000" "writable vdi_blank"
    by (simp_all add: vdi_blank_def vdi_tiny_def file_ok_def)
  obtain d where c: "vdi_create_sparse (7, 9) vdi_blank 700 = (d, True)"
    using vdi_create_sparse_room [OF lay _ b(1-4)] b(5) by auto
  note k = vdi_create_sparse_ok [OF c b(1-4)]
  from k lay have f: "size_bytes d = 1024" "blocks_count d = 1" "ucast (data_offset d) = (1024 :: u32)" by auto
  have "unat (data_offset d) < 4294967296" using k by (simp add: word_le_nat_alt)
  then have "unat (ucast (data_offset d) :: u32) = unat (data_offset d)" by (rule unat_ucast_64_32_small)
  then have "unat (data_offset d) = 1024" unfolding f(3) by simp
  with k b f have "vdi_room d" by (simp add: vdi_room_def)
  with c k f b that show thesis by (auto simp: vdi_sound_def dyn_sound_def)
qed

theorem vdi_write_reopen_read_witness:
  "\<exists>d d' d1. vdi_create_sparse (7, 9) vdi_blank 700 = (d, True) \<and>
     run_writes vdi_write d [(1, [5, 6]), (2, [7])] = (d', True) \<and>
     vdi_open (d'\<lparr>writable := False\<rparr>) = Some d1 \<and> vdi_read d1 1 2 = Some [5, 7]"
proof (rule vdi_blank_created)
  fix d assume d: "vdi_create_sparse (7, 9) vdi_blank 700 = (d, True)" "vdi_sound d" "vdi_synced d"
    "writable d" "vdi_room d" "size_bytes d = 1024" "fwr (fp d)"
  define ws :: "(u64 \<times> byte list) list" where "ws = [(1, [5, 6]), (2, [7])]"
  have "\<forall>(off, bs) \<in> set ws. unat off + length bs \<le> unat (size_bytes d)"
    by (simp add: d ws_def)
  from vdi_write_reopen_read [OF d(2-5) this] obtain d' where
    r: "run_writes vdi_write d ws = (d', True)" and o: "\<forall>d0. fp d0 = fp d' \<and> (writable d0 \<longrightarrow> fwr (fp d')) \<longrightarrow>
      (\<exists>d1. vdi_open d0 = Some d1 \<and> vdi_sound d1 \<and> size_bytes d1 = size_bytes d \<and>
        (\<forall>off n. unat off + n \<le> unat (size_bytes d) \<longrightarrow>
          vdi_read d1 off n = Some (window (overlay_all (vdi_guest d) ws) (unat off) n)))"
    by blast
  from o [rule_format, of "d'\<lparr>writable := False\<rparr>"] obtain d1 where
    d1: "vdi_open (d'\<lparr>writable := False\<rparr>) = Some d1" "\<And>off n. unat off + n \<le> unat (size_bytes d) \<Longrightarrow>
          vdi_read d1 off n = Some (window (overlay_all (vdi_guest d) ws) (unat off) n)" by auto
  have "window (overlay_all (vdi_guest d) ws) 1 2 = [5, 7]"
    by (simp add: ws_def window_def overlay_def upt_conv_Cons)
  then have "vdi_read d1 1 2 = Some [5, 7]" using d1(2) [of 1 2] by (simp add: d(6))
  with r d(1) d1(1) show ?thesis unfolding ws_def by blast
qed

text \<open>C18. \<^verbatim>\<open>vdi_create_sparse\<close> on an empty host file with room for the metadata succeeds. The disk it
  makes is sound, in step with its header, as large as was asked for rounded up to whole sectors, and
  every byte of it reads as zero; the file is recognised by \<^verbatim>\<open>vdi_probe\<close>.\<close>

theorem vdi_create_sparse_zeroed:
  assumes "layout_for n = Some (m, b, ob, od)" and "unat od \<le> flimit (fp d)"
    and "fsize (fp d) = 0" and "file_ok (fp d)" and "fwr (fp d)"
    and "\<forall>u. create_uuid d = Some u \<longrightarrow> 16 \<le> length u"
  shows "\<exists>d'. vdi_create_sparse seeds d n = (d', True) \<and> vdi_sound d' \<and> vdi_synced d' \<and>
    unat (size_bytes d') = (unat n + 511) div 512 * 512 \<and> vdi_probe (fp d') \<and>
    (\<forall>off k. unat off + k \<le> unat (size_bytes d') \<longrightarrow> vdi_read d' off k = Some (zeros k))"
proof -
  obtain d' where c: "vdi_create_sparse seeds d n = (d', True)"
    using vdi_create_sparse_room [OF assms] by blast
  from vdi_create_sparse_ok [OF c assms(3-6)] have k: "dyn_sound d'" "vdi_synced d'" "vdi_live d' = {}"
    "unat (size_bytes d') = (unat n + 511) div 512 * 512" by simp_all
  have "window (vdi_guest d') (unat off) k = zeros k" if "unat off + k \<le> unat (size_bytes d')" for off :: u64 and k
    using that vdi_live_empty_guest [OF k(1,3)] by (intro nth_equalityI) auto
  with c k vdi_probe_synced [OF k(2)] show ?thesis
    by (auto simp: vdi_sound_def vdi_read_guest dyn_sound_def)
qed

theorem vdi_create_sparse_zeroed_witness:
  "\<exists>d'. vdi_create_sparse (7, 9) vdi_blank 700 = (d', True) \<and> unat (size_bytes d') = 1024 \<and>
     vdi_read d' 1000 24 = Some (zeros 24)"
proof -
  have "layout_for 700 = Some (1024, 1, 512, 1024)" by code_simp
  from vdi_create_sparse_zeroed [OF this, of vdi_blank "(7, 9)"] show ?thesis
    by (auto simp: vdi_blank_def vdi_tiny_def file_ok_def)
qed

text \<open>C19. \<^verbatim>\<open>layout_for\<close> never lets a size wrap. It refuses exactly the empty disk and the disks
  whose size, rounded up to sectors, exceeds the largest one whose block map has 32-bit offsets; for
  every other size the number of blocks and the offset of the data are the exact ones.\<close>

theorem layout_for_exact:
  "layout_for n =
     (let m = (unat n + 511) div 512 * 512; b = (m + 1048575) div 1048576
      in if unat n = 0 \<or> 1073741568 * 1048576 < m then None
         else Some (of_nat m, of_nat b, 512, of_nat (512 + (b * 4 + 511) div 512 * 512)))"
  using layout_for_cases [of n] by (simp add: Let_def unat_eq_zero)

text \<open>C20. Structural inspection is sound where its check for duplicate blocks runs: for an image of at most
  16777216 blocks and a \<^verbatim>\<open>calloc\<close> that succeeds (otherwise the code skips the check and may still call the image valid).
  If \<^verbatim>\<open>vdisk_vdi_inspect\<close> then calls the image valid, \<^verbatim>\<open>vdi_open\<close> accepts the file and the image it makes
  is in the backend's invariant: its map is injective and in range, its counter agrees with the map,
  and all its blocks are inside the file.\<close>

theorem vdi_inspect_implies_sound:
  assumes "vdisk_vdi_inspect True f = Some info" and "structurally_valid info" and "file_ok f"
    and "info_blocks_count info \<le> 16777216" and "fp d = f" and "writable d \<longrightarrow> fwr f"
  shows "\<exists>d'. vdi_open d = Some d' \<and> vdi_sound d' \<and> size_bytes d' = info_logical_size info"
proof -
  have v: "vdi_sound (vdi_described d info)" "vdi_synced (vdi_described d info)"
    using vdi_inspect_sound [OF assms] by simp_all
  have f: "fp d = fp (vdi_described d info)" by (simp add: vdi_described_def)
  from vdi_open_synced [OF v(2,1) f] vdi_reopened_same(2,4) [OF f] v(1) assms(5,6) show ?thesis
    by (simp add: vdi_described_def)
qed

definition vdi_file :: hfile where
  "vdi_file = \<lparr>fname = ''t.vdi'', fsize = 1024,
     fdata = \<lambda>i. if i < 512 then init_header (7, 9) 512 1 1 512 1024 None ! i else 255,
     flimit = 0x200000, fwr = True\<rparr>"

theorem vdi_inspect_implies_sound_witness:
  "\<exists>info d'. vdisk_vdi_inspect True vdi_file = Some info \<and> structurally_valid info \<and>
     vdi_open (vdi_blank\<lparr>fp := vdi_file\<rparr>) = Some d' \<and> vdi_sound d' \<and> size_bytes d' = 512"
proof -
  define h where "h = init_header (7, 9) 512 1 1 512 1024 None"
  note hf = init_header_fields [OF _ h_def, simplified]
  have "window (fdata vdi_file) 0 512 = h"
    using hf(1) by (intro nth_equalityI) (simp_all add: vdi_file_def h_def)
  then have rh: "read_header vdi_file = Some h"
    by (simp add: read_header_def vdisk_host_read_def vdisk_host_seek_def vdi_file_def)
  have hs: "vdisk_host_get_size vdi_file = 1024" by (simp add: vdisk_host_get_size_def vdi_file_def)
  have e: "vdisk_host_read vdi_file 512 4 = Some [255, 255, 255, 255]"
    by (simp add: vdisk_host_read_def vdisk_host_seek_def vdi_file_def window_def upt_conv_Cons)
  have ok: "\<forall>c \<in> set (vdi_header_conds h 1024). c"
    by (simp add: vdi_header_conds_def Let_def hf VDI_BLOCK_SIZE_def)
  have i0: "info_host_size (vdi_info h 1024) = 1024" "info_blocks_count (vdi_info h 1024) = 1"
    "info_image_type (vdi_info h 1024) = 1" "info_blocks_allocated (vdi_info h 1024) = 0"
    "map_unallocated_entries (vdi_info h 1024) = 0" "map_invalid_entries (vdi_info h 1024) = 0"
    "map_duplicate_entries (vdi_info h 1024) = 0" "map_allocated_entries (vdi_info h 1024) = 0"
    "checks_failed (vdi_info h 1024) = 0" "info_logical_size (vdi_info h 1024) = 512"
    by (simp_all add: vdi_info_def Let_def hf info_zero_def)
  obtain info where i: "vdisk_vdi_inspect True vdi_file = Some info" "structurally_valid info"
    "info_blocks_count info = 1" "info_logical_size info = 512"
  proof -
    define info1 where "info1 = fold CHECK (vdi_header_conds h 1024) (vdi_info h 1024)"
    have cf: "checks_failed info1 = 0"
      using ok by (simp add: info1_def fold_CHECK_failed i0 filter_Not_Nil [THEN iffD2])
    have "inspect_entries vdi_file 1 0 1 512 0 1 info1 (Some [False]) =
        info1\<lparr>map_unallocated_entries := map_unallocated_entries info1 + 1\<rparr>"
      by (simp add: e le32_def VDI_BLOCK_UNALLOCATED_def Let_def)
    then have m: "vdi_inspect_map True vdi_file 512 info1 = fold CHECK [True, True, True, True]
        (info1\<lparr>map_unallocated_entries := map_unallocated_entries info1 + 1\<rparr>)"
      by (simp add: vdi_inspect_map_def info1_def i0 vdi_map_conds_def Let_def)
    then have "checks_failed (vdi_inspect_map True vdi_file 512 info1) = 0"
      by (simp only: m fold_CHECK_failed) (simp add: cf)
    moreover have "info_blocks_count (vdi_inspect_map True vdi_file 512 info1) = 1"
      "info_logical_size (vdi_inspect_map True vdi_file 512 info1) = 512"
      unfolding m fold_CHECK_fields by (simp_all add: info1_def i0)
    ultimately show thesis
      using that by (simp add: vdisk_vdi_inspect_def rh hs hf info1_def)
  qed
  have "file_ok vdi_file" by (simp add: file_ok_def vdi_file_def)
  from vdi_inspect_implies_sound [OF i(1,2) this, of "vdi_blank\<lparr>fp := vdi_file\<rparr>"] i show ?thesis
    by (auto simp: vdi_file_def)
qed

end
