(* ===== verification/Vdisk_Vmdk.thy ===== *)
theory Vdisk_Vmdk
  imports Vdisk_Raw
begin

text \<open>
  \<^verbatim>\<open>lib/vdisk/src/backend_vmdk.c\<close>: flat VMDK, a text descriptor that names the file with the guest
  data. Because the backend opens and creates that second file itself, this theory also has the host
  file system: a partial map from paths to files, with what creating a new file at a path would give
  (nothing, where the host refuses). \<^verbatim>\<open>fopen\<close> hands out the file, \<^verbatim>\<open>fclose\<close> and \<^verbatim>\<open>fflush\<close> of a writable
  stream store it back.

  The lemmas show that the descriptor written by \<^verbatim>\<open>vmdk_create\<close> is read back by \<^verbatim>\<open>read_descriptor\<close>
  with the same sector count and extent name, and hence that a created image opens again.
\<close>

section \<open>The host file system\<close>

record hostfs =
  files :: "string \<rightharpoonup> hfile"
  fresh :: "string \<Rightarrow> hfile option"

definition fopen_rb :: "hostfs \<Rightarrow> string \<Rightarrow> hfile option" where
  "fopen_rb fs p = (case files fs p of None \<Rightarrow> None | Some f \<Rightarrow> Some (f\<lparr>fwr := False\<rparr>))"

definition fopen_rbp :: "hostfs \<Rightarrow> string \<Rightarrow> hfile option" where
  "fopen_rbp fs p = (case files fs p of None \<Rightarrow> None | Some f \<Rightarrow> if fwr f then Some f else None)"

definition fopen_wbp :: "hostfs \<Rightarrow> string \<Rightarrow> hostfs \<times> hfile option" where
  "fopen_wbp fs p =
     (case (case files fs p of None \<Rightarrow> fresh fs p | Some f \<Rightarrow> if fwr f then Some f else None) of
        None \<Rightarrow> (fs, None)
      | Some f \<Rightarrow> let f = f\<lparr>fname := p, fsize := 0, fwr := True\<rparr>
                  in (fs\<lparr>files := (files fs)(p \<mapsto> f)\<rparr>, Some f))"

definition fclose :: "hostfs \<Rightarrow> hfile \<Rightarrow> hostfs" where
  "fclose fs f = (if fwr f then fs\<lparr>files := (files fs)(fname f \<mapsto> f)\<rparr> else fs)"

definition host_remove :: "hostfs \<Rightarrow> string \<Rightarrow> hostfs" where
  "host_remove fs p = fs\<lparr>files := (files fs)(p := None)\<rparr>"

definition hostfs_ok :: "hostfs \<Rightarrow> bool" where
  "hostfs_ok fs \<longleftrightarrow> (\<forall>p f. files fs p = Some f \<longrightarrow> file_ok f \<and> fname f = p) \<and>
     (\<forall>p f. fresh fs p = Some f \<longrightarrow> file_ok f)"

lemma fopen_wbp_Some:
  assumes "fopen_wbp fs p = (fs', Some f)" and "hostfs_ok fs"
  shows "file_ok f" and "fname f = p" and "fsize f = 0" and "fwr f" and "files fs' = (files fs)(p \<mapsto> f)"
    and "fresh fs' = fresh fs" and "hostfs_ok fs'"
  using assms
  by (auto simp: fopen_wbp_def hostfs_ok_def file_ok_def Let_def split: option.splits if_splits)

lemma hostfs_ok_fclose:
  "hostfs_ok fs \<Longrightarrow> file_ok f \<Longrightarrow> hostfs_ok (fclose fs f)"
  by (auto simp: hostfs_ok_def fclose_def)

lemma files_fclose: "fwr f \<Longrightarrow> files (fclose fs f) = (files fs)(fname f \<mapsto> f)"
  by (simp add: fclose_def)

section \<open>Paths\<close>

definition path_parts :: "string \<Rightarrow> (string \<times> string) option" where
  "path_parts p =
     (case (case split_last (\<lambda>c. c = CHR ''/'' \<or> c = CHR 0x5C) p of
              None \<Rightarrow> ([], p) | Some (d, b) \<Rightarrow> (d, b)) of
        (dir, base) \<Rightarrow>
          if length dir \<ge> 1024 then None
          else
            let stem = (case split_last (\<lambda>c. c = CHR ''.'') base of
                          None \<Rightarrow> base
                        | Some (a, ext) \<Rightarrow> if ext = ''vmdk'' then butlast a else base)
            in if length stem + 1 > 512 then None else Some (dir, stem))"

definition extent_path_for :: "string \<Rightarrow> string \<Rightarrow> string option" where
  "extent_path_for descriptor extent_name =
     (case path_parts descriptor of None \<Rightarrow> None
      | Some (dir, stem) \<Rightarrow> if length (dir @ extent_name) \<ge> 1536 then None else Some (dir @ extent_name))"

definition make_flat_name :: "string \<Rightarrow> (string \<times> string) option" where
  "make_flat_name descriptor =
     (case path_parts descriptor of None \<Rightarrow> None
      | Some (dir, stem) \<Rightarrow>
          let name = stem @ ''-flat.vmdk''
          in if length name \<ge> 512 then None
             else if length (dir @ name) \<ge> 1536 then None else Some (name, dir @ name))"

section \<open>The descriptor\<close>

definition parse_extent_line :: "string \<Rightarrow> nat \<Rightarrow> (u64 \<times> string) option" where
  "parse_extent_line line esz =
     (let p = skip_ws line
      in if take 3 p \<noteq> ''RW '' then None
         else case scan_ull (drop 3 p) of None \<Rightarrow> None
           | Some (sec, s1) \<Rightarrow>
             (case scan_word 31 s1 of None \<Rightarrow> None
              | Some (mode, s2) \<Rightarrow>
                (case skip_ws s2 of [] \<Rightarrow> None
                 | q # s3 \<Rightarrow>
                   if q \<noteq> CHR 0x22 then None
                   else case scan_until 511 (CHR 0x22) s3 of None \<Rightarrow> None
                     | Some (file, s4) \<Rightarrow>
                       if mode \<noteq> ''VMFS'' \<and> mode \<noteq> ''FLAT'' then None
                       else if sec = 0 \<or> length file + 1 > esz then None
                       else Some (sec, file))))"

definition parse_create_type :: "string \<Rightarrow> nat \<Rightarrow> string option" where
  "parse_create_type p csz =
     (case dropWhile (\<lambda>c. c \<noteq> CHR 0x22) p of [] \<Rightarrow> None
      | q # rest \<Rightarrow>
          let body = takeWhile (\<lambda>c. c \<noteq> CHR 0x22) rest
          in if length body = length rest \<or> body = [] then None else Some (take (csz - 1) body))"

text \<open>One round of the \<^verbatim>\<open>fgets\<close> loop, on the extent found so far and the create type.\<close>

definition descriptor_line :: "(u64 \<times> string) option \<times> string \<Rightarrow> string \<Rightarrow> (u64 \<times> string) option \<times> string" where
  "descriptor_line st line =
     (case st of (ext, ctype) \<Rightarrow>
        let p = skip_ws (takeWhile (\<lambda>c. c \<noteq> CHR 0x00) line);
            ext = (if ext = None \<and> take 3 p = ''RW '' then parse_extent_line p 512 else ext);
            ctype = (if take 11 p = ''createType='' then
                       (case parse_create_type p 64 of None \<Rightarrow> ctype | Some t \<Rightarrow> t) else ctype)
        in (ext, ctype))"

definition read_descriptor :: "hfile \<Rightarrow> (u64 \<times> string \<times> string) option" where
  "read_descriptor f =
     (case foldl descriptor_line (None, []) (fgets_all 1023 (text_of (window (fdata f) 0 (fsize f)))) of
        (None, _) \<Rightarrow> None
      | (Some (sectors, extent), ctype) \<Rightarrow> Some (sectors, extent, ctype))"

definition vmdk_probe :: "hfile \<Rightarrow> bool" where
  "vmdk_probe f = (case vdisk_host_read f 0 20 of None \<Rightarrow> False
     | Some h \<Rightarrow> h = take 20 (bytes_of ''# Disk DescriptorFile''))"

definition vmdk_open :: "hostfs \<Rightarrow> vdisk \<Rightarrow> vdisk option" where
  "vmdk_open fs d =
     (case read_descriptor (fp d) of None \<Rightarrow> None
      | Some (sectors, extent_name, ctype) \<Rightarrow>
        if ctype \<noteq> ''vmfs'' \<and> ctype \<noteq> ''monolithicFlat'' then None
        else case extent_path_for (path d) extent_name of None \<Rightarrow> None
          | Some extent_path \<Rightarrow>
            (case (case (if writable d then fopen_rbp fs extent_path else fopen_rb fs extent_path) of
                     Some e \<Rightarrow> (Some e, writable d)
                   | None \<Rightarrow> if writable d then (fopen_rb fs extent_path, False) else (None, writable d)) of
               (None, _) \<Rightarrow> None
             | (Some efp, w) \<Rightarrow>
                 let host = vdisk_host_get_size efp
                 in if host < sectors * 512 then None
                    else Some (d\<lparr>fp := efp, writable := w, size_bytes := sectors * 512,
                                host_size_bytes := host, data_offset := 0, image_type := 1\<rparr>)))"

definition size_host_file :: "hfile \<Rightarrow> u64 \<Rightarrow> hfile \<times> bool" where
  "size_host_file f n = (if n = 0 then (f, False) else vdisk_host_write f (n - 1) [0])"

definition VDISK_CREATE_SPARSE :: u32 where "VDISK_CREATE_SPARSE = 0x00000001"
definition VDISK_CREATE_VMDK_LAYOUT_MASK :: u32 where "VDISK_CREATE_VMDK_LAYOUT_MASK = 0x00000f00"
definition VDISK_CREATE_VMDK_FLAT :: u32 where "VDISK_CREATE_VMDK_FLAT = 0x00000100"

text \<open>The identifier of the modification: a linear congruential generator, here seeded by a
  parameter (the code uses the time and an address).\<close>

fun lcg_bytes :: "nat \<Rightarrow> u64 \<Rightarrow> byte list" where
  "lcg_bytes 0 seed = []"
| "lcg_bytes (Suc n) seed =
     (let seed = seed * 6364136223846793005 + 1442695040888963407
      in ucast (drop_bit 56 seed) # lcg_bytes n seed)"

definition uuid_text :: "byte list \<Rightarrow> string" where
  "uuid_text u = concat (map hex2 (bslice 0 4 u)) @ ''-'' @ concat (map hex2 (bslice 4 2 u)) @ ''-'' @
     concat (map hex2 (bslice 6 2 u)) @ ''-'' @ concat (map hex2 (bslice 8 2 u)) @ ''-'' @
     concat (map hex2 (bslice 10 6 u))"

definition quoted :: "string \<Rightarrow> string" where
  "quoted s = CHR 0x22 # s @ [CHR 0x22]"

definition uuid_lines :: "u64 \<Rightarrow> byte list option \<Rightarrow> string list" where
  "uuid_lines seed uuid =
     (case uuid of None \<Rightarrow> []
      | Some u \<Rightarrow>
         [''ddb.uuid.image='' @ quoted (uuid_text u),
          ''ddb.uuid.modification='' @ quoted (uuid_text (uuid_v4 (lcg_bytes 16 seed))),
          ''ddb.uuid.parent='' @ quoted ''00000000-0000-0000-0000-000000000000'',
          ''ddb.uuid.parentmodification='' @ quoted ''00000000-0000-0000-0000-000000000000''])"

definition descriptor_text :: "u64 \<Rightarrow> u64 \<Rightarrow> string \<Rightarrow> byte list option \<Rightarrow> string" where
  "descriptor_text seed sectors extent_name uuid =
     (let cyl = (ucast (sectors div (255 * 63)) :: u32);
          cyl = (if cyl = 0 then 1 else cyl)
      in unlines
           ([''# Disk DescriptorFile'', ''version=1'', ''encoding='' @ quoted ''UTF-8'', ''CID=fffffffe'',
             ''parentCID=ffffffff'', ''createType='' @ quoted ''vmfs'', '''',
             ''# Extent description'',
             ''RW '' @ dec (unat sectors) @ '' VMFS '' @ quoted extent_name, '''',
             ''# The Disk Data Base'', ''#DDB'',
             ''ddb.adapterType = '' @ quoted ''lsilogic'',
             ''ddb.geometry.cylinders = '' @ quoted (dec (unat cyl)),
             ''ddb.geometry.heads = '' @ quoted ''255'',
             ''ddb.geometry.sectors = '' @ quoted ''63''] @ uuid_lines seed uuid))"

definition vmdk_round :: "u64 \<Rightarrow> u64" where
  "vmdk_round n = (if n mod 512 \<noteq> 0 then (n + 511) AND NOT 511 else n)"

definition vmdk_create :: "u64 \<Rightarrow> hostfs \<Rightarrow> vdisk \<Rightarrow> u64 \<Rightarrow> hostfs \<times> vdisk \<times> bool" where
  "vmdk_create seed fs d n =
     (if create_flags d AND VDISK_CREATE_VMDK_LAYOUT_MASK \<noteq> VDISK_CREATE_VMDK_FLAT then (fs, d, False)
      else
        let n = vmdk_round n;
            sectors = n div 512
        in case make_flat_name (path d) of None \<Rightarrow> (fs, d, False)
          | Some (extent_name, extent_path) \<Rightarrow>
            (case vdisk_host_write (fp d) 0 (bytes_of (descriptor_text seed sectors extent_name (create_uuid d))) of
               (f, False) \<Rightarrow> (fs, d\<lparr>fp := f\<rparr>, False)
             | (f, True) \<Rightarrow>
               (case fopen_wbp fs extent_path of
                  (fs, None) \<Rightarrow> (fs, d\<lparr>fp := f\<rparr>, False)
                | (fs, Some efp) \<Rightarrow>
                  (case size_host_file efp n of
                     (efp, False) \<Rightarrow> (host_remove (fclose fs efp) extent_path, d\<lparr>fp := f\<rparr>, False)
                   | (efp, True) \<Rightarrow>
                       (fclose fs f,
                        d\<lparr>fp := efp, size_bytes := n, host_size_bytes := n, data_offset := 0,
                          image_type := 1\<rparr>, True)))))"

definition vmdk_read :: "vdisk \<Rightarrow> u64 \<Rightarrow> nat \<Rightarrow> byte list option" where
  "vmdk_read d o' n =
     (if o' > size_bytes d \<or> n > unat (size_bytes d - o') then None else vdisk_host_read (fp d) o' n)"

definition vmdk_write :: "vdisk \<Rightarrow> u64 \<Rightarrow> byte list \<Rightarrow> vdisk \<times> bool" where
  "vmdk_write d o' bs =
     (if \<not> writable d \<or> o' > size_bytes d \<or> length bs > unat (size_bytes d - o') then (d, False)
      else put_fp d (vdisk_host_write (fp d) o' bs))"

definition vdisk_vmdk_inspect :: "hostfs \<Rightarrow> string \<Rightarrow> hfile \<Rightarrow> vdisk_info \<Rightarrow> vdisk_info option" where
  "vdisk_vmdk_inspect fs p f info =
     (case read_descriptor f of None \<Rightarrow> None
      | Some (sectors, extent_name, ctype) \<Rightarrow>
        let info = info\<lparr>info_format := VDISK_FMT_VMDK, info_sector_size := 512,
              info_logical_size := sectors * 512, info_image_type := 1\<rparr>
        in if ctype \<noteq> ''vmfs'' \<and> ctype \<noteq> ''monolithicFlat'' then
             Some (info\<lparr>supported := False,
               variant := take 31 (if ctype \<noteq> [] then ctype else ''descriptor''), checks_passed := 1\<rparr>)
           else case extent_path_for p extent_name of None \<Rightarrow> None
             | Some extent_path \<Rightarrow>
               (case fopen_rb fs extent_path of
                  None \<Rightarrow> Some (info\<lparr>supported := True, variant := ''flat/external'', checks_failed := 1\<rparr>)
                | Some efp \<Rightarrow>
                    let esz = vdisk_host_get_size efp;
                        info = info\<lparr>supported := True, variant := ''flat/external''\<rparr>;
                        info = (if esz \<ge> info_logical_size info then info\<lparr>checks_passed := 3\<rparr>
                                else info\<lparr>checks_failed := 1\<rparr>)
                    in Some (info\<lparr>structurally_valid := checks_failed info = 0\<rparr>)))"

section \<open>Reading back a descriptor\<close>

lemma round_512_and_not:
  fixes x :: u64
  shows "unat (x AND NOT 511) = unat x div 512 * 512"
proof -
  have "x AND NOT (mask 9) = push_bit 9 (drop_bit 9 x)"
    by (rule bit_eqI) (auto simp: bit_simps)
  then have "x AND NOT 511 = (x div 512) * 512"
    by (simp add: mask_eq_exp_minus_1 push_bit_eq_mult drop_bit_eq_div)
  moreover have "unat x div 512 * 512 < 2 ^ 64"
    using le_unat_u64 [of "unat x div 512 * 512" x] by simp
  ultimately show ?thesis by (simp add: unat_mult_small unat_div)
qed

lemma round_512_and_minus: "unat ((x :: u64) AND - 512) = unat x div 512 * 512"
  using round_512_and_not [of x] by simp

lemma unat_vmdk_round:
  assumes "vmdk_round n \<noteq> 0"
  shows "unat (vmdk_round n) = (unat n + 511) div 512 * 512"
proof -
  have m: "n mod 512 = 0 \<longleftrightarrow> unat n mod 512 = 0"
    by (simp add: unat_mod word_unat_eq_iff)
  show ?thesis
  proof (cases "unat n + 511 < 18446744073709551616")
    case True
    then have "unat (n + 511) = unat n + 511" by (simp add: unat_add_small)
    moreover have "unat n = (unat n + 511) div 512 * 512" if "unat n mod 512 = 0"
    proof -
      from that obtain k where "unat n = 512 * k" by auto
      then show ?thesis by simp
    qed
    ultimately show ?thesis by (simp add: vmdk_round_def round_512_and_minus m)
  next
    case False
    then have "unat (n + 511) = unat n + 511 - 18446744073709551616" by (simp add: unat_plus_if')
    then have "unat (n + 511) < 512" using unat_u64_less [of n] by linarith
    then have "(n + 511) AND NOT 511 = 0" by (simp add: word_unat_eq_iff round_512_and_minus)
    with assms have "n mod 512 = 0" by (auto simp: vmdk_round_def split: if_splits)
    then obtain k where k: "unat n = 512 * k" using m by auto
    with unat_u64_less [of n] have "k < 36028797018963968" by simp
    with False k show ?thesis by simp
  qed
qed

lemma descriptor_line_other:
  "\<not> isspace c \<Longrightarrow> c \<noteq> CHR 0x00 \<Longrightarrow> c \<noteq> CHR ''R'' \<Longrightarrow> c \<noteq> CHR ''c'' \<Longrightarrow> descriptor_line st (c # l) = st"
  by (auto simp: descriptor_line_def Let_def split: prod.splits)

lemma descriptor_line_empty: "descriptor_line st [CHR 0x0A] = st"
  by (auto simp: descriptor_line_def Let_def skip_ws_def isspace_def split: prod.splits)

lemma takeWhile_no_nul: "CHR 0x00 \<notin> set l \<Longrightarrow> takeWhile (\<lambda>c. c \<noteq> CHR 0x00) l = l"
  by (auto simp: takeWhile_eq_all_conv)

lemma parse_extent_line_written:
  assumes "sectors \<noteq> 0" and "CHR 0x22 \<notin> set name" and "name \<noteq> []" and "length name < 512"
  shows "parse_extent_line (''RW '' @ dec (unat sectors) @ '' VMFS '' @ quoted name @ [CHR 0x0A]) 512 =
    Some (sectors, name)"
proof -
  let ?tail = "CHR 0x22 # name @ [CHR 0x22, CHR 0x0A]"
  have sp: "\<not> isspace (CHR ''R'')" "\<not> isdigit (CHR '' '')" "\<not> isspace (CHR 0x22)"
    by (simp_all add: isspace_def isdigit_def)
  have u: "scan_ull (dec (unat sectors) @ '' VMFS '' @ ?tail) = Some (sectors, '' VMFS '' @ ?tail)"
    using scan_ull_dec [of "unat sectors" "CHR '' ''" "''VMFS '' @ ?tail"] sp by simp
  have w: "scan_word 31 ('' VMFS '' @ ?tail) = Some (''VMFS'', CHR '' '' # ?tail)"
    by (simp add: scan_word_def skip_ws_def isspace_def)
  have "takeWhile (\<lambda>c. c \<noteq> CHR 0x22) (name @ [CHR 0x22, CHR 0x0A]) = name"
    using assms(2) by (subst takeWhile_append2) auto
  then have q: "scan_until 511 (CHR 0x22) (name @ [CHR 0x22, CHR 0x0A]) = Some (name, [CHR 0x22, CHR 0x0A])"
    using assms by (simp add: scan_until_def)
  show ?thesis using u w q sp assms by (simp add: parse_extent_line_def quoted_def)
qed

lemma dec_plain: "CHR 0x00 \<notin> set (dec n)" "CHR 0x0A \<notin> set (dec n)"
  using dec_digits [of n] by (auto simp: isdigit_def)

lemma descriptor_line_extent:
  assumes "sectors \<noteq> 0" and "CHR 0x22 \<notin> set name" and "name \<noteq> []" and "length name < 512"
    and "CHR 0x00 \<notin> set name"
  shows "descriptor_line (None, t) ((''RW '' @ dec (unat sectors) @ '' VMFS '' @ quoted name) @ [CHR 0x0A]) =
    (Some (sectors, name), t)"
proof -
  let ?l = "''RW '' @ dec (unat sectors) @ '' VMFS '' @ quoted name @ [CHR 0x0A]"
  have "CHR 0x00 \<notin> set ?l" using assms(5) dec_plain by (simp add: quoted_def)
  then have "skip_ws (takeWhile (\<lambda>c. c \<noteq> CHR 0x00) ?l) = ?l"
    by (simp add: takeWhile_no_nul skip_ws_def isspace_def)
  with parse_extent_line_written [OF assms(1-4)] show ?thesis
    by (simp add: descriptor_line_def Let_def)
qed

lemma descriptor_line_type:
  "descriptor_line (e, t) ((''createType='' @ quoted ''vmfs'') @ [CHR 0x0A]) = (e, ''vmfs'')"
  by (simp add: descriptor_line_def Let_def quoted_def skip_ws_def isspace_def parse_create_type_def)

lemma hex2_plain: "CHR 0x0A \<notin> set (hex2 b)"
proof -
  have "hex_digit k \<noteq> CHR 0x0A" if "k < 16" for k
  proof -
    have "(of_char (hex_digit k) :: nat) \<noteq> 10" using that by (auto simp: hex_digit_def)
    then show ?thesis by auto
  qed
  moreover have "unat b div 16 < 16" using unat_u8_less [of b] by (simp add: div_less_iff_less_mult)
  moreover have "unat b mod 16 < 16" by simp
  ultimately show ?thesis unfolding hex2_def by (metis empty_iff empty_set set_ConsD)
qed

lemma uuid_text_plain: "CHR 0x0A \<notin> set (uuid_text u)" "length (uuid_text u) \<le> 36"
proof -
  show "CHR 0x0A \<notin> set (uuid_text u)" using hex2_plain by (auto simp: uuid_text_def)
  have h: "length (concat (map hex2 xs)) = 2 * length xs" for xs
    by (induction xs) (simp_all add: hex2_def)
  show "length (uuid_text u) \<le> 36" by (simp add: uuid_text_def h)
qed


lemma uuid_lines_plain:
  assumes "l \<in> set (uuid_lines seed uuid)"
  shows "CHR 0x0A \<notin> set l \<and> length l < 1023 \<and> (\<exists>r. l = CHR ''d'' # r)"
proof -
  have "length (uuid_text u) < k" if "36 < k" for u k
    using le_less_trans [OF uuid_text_plain(2) that] .
  with assms uuid_text_plain(1) show ?thesis
    by (auto simp: uuid_lines_def quoted_def split: option.splits)
qed

lemma foldl_other:
  "\<forall>l \<in> set ls. \<exists>r. l = CHR ''d'' # r \<Longrightarrow> foldl descriptor_line st (map (\<lambda>l. l @ [CHR 0x0A]) ls) = st"
  by (induction ls arbitrary: st) (auto simp: descriptor_line_other isspace_def)

lemma read_descriptor_written:
  assumes "text_of (window (fdata f) 0 (fsize f)) = descriptor_text seed sectors name uuid"
    and "sectors \<noteq> 0" and "set name \<inter> {CHR 0x00, CHR 0x0A, CHR 0x22} = {}" and "name \<noteq> []" and "length name < 512"
  shows "read_descriptor f = Some (sectors, name, ''vmfs'')"
proof -
  define cyl where "cyl = (let c = (ucast (sectors div (255 * 63)) :: u32) in if c = 0 then 1 else c)"
  define head where "head = [''# Disk DescriptorFile'', ''version=1'', ''encoding='' @ quoted ''UTF-8'', ''CID=fffffffe'',
             ''parentCID=ffffffff'']"
  define ext where "ext = ''RW '' @ dec (unat sectors) @ '' VMFS '' @ quoted name"
  define rest where "rest = [''# The Disk Data Base'', ''#DDB'',
             ''ddb.adapterType = '' @ quoted ''lsilogic'',
             ''ddb.geometry.cylinders = '' @ quoted (dec (unat cyl)),
             ''ddb.geometry.heads = '' @ quoted ''255'',
             ''ddb.geometry.sectors = '' @ quoted ''63''] @ uuid_lines seed uuid"
  define ls :: "string list" where "ls = head @ [''createType='' @ quoted ''vmfs'', [], ''# Extent description'', ext, []] @ rest"
  have t: "descriptor_text seed sectors name uuid = unlines ls"
    by (simp add: descriptor_text_def ls_def head_def ext_def rest_def cyl_def Let_def)
  have len: "length (dec (unat (x :: u64))) \<le> 20" for x
    using length_dec_less [of "unat x" 19] less_trans [OF unat_u64_less [of x]] by simp
  have len32: "length (dec (unat cyl)) \<le> 20"
    using length_dec_less [of "unat cyl" 19] less_trans [OF unat_u32_less [of cyl]] by simp
  have plain: "CHR 0x0A \<notin> set l \<and> length l < 1023" if "l \<in> set ls" for l
    using that assms(3,5) len [of sectors] len32 dec_plain uuid_lines_plain
    by (auto simp: ls_def head_def ext_def rest_def quoted_def)
  then have lines: "fgets_all 1023 (unlines ls) = map (\<lambda>l. l @ [CHR 0x0A]) ls"
    by (intro fgets_all_unlines) simp
  have h: "foldl descriptor_line st (map (\<lambda>l. l @ [CHR 0x0A]) head) = st" for st
    by (simp add: head_def descriptor_line_other isspace_def)
  have r: "foldl descriptor_line st (map (\<lambda>l. l @ [CHR 0x0A]) rest) = st" for st
    using foldl_other [of "uuid_lines seed uuid"] uuid_lines_plain
    by (simp add: rest_def descriptor_line_other isspace_def)
  have e: "descriptor_line (None, t) (ext @ [CHR 0x0A]) = (Some (sectors, name), t)" for t
    unfolding ext_def using assms by (intro descriptor_line_extent) auto
  have "foldl descriptor_line (None, []) (map (\<lambda>l. l @ [CHR 0x0A]) ls) = (Some (sectors, name), ''vmfs'')"
    unfolding ls_def map_append foldl_append h r
    using descriptor_line_type [of None "[]"] e descriptor_line_empty
    by (simp add: descriptor_line_other isspace_def)
  then show ?thesis by (simp add: read_descriptor_def assms(1) t lines)
qed


section \<open>Created images\<close>

lemma path_parts_extent_differs:
  assumes "make_flat_name p = Some (name, ep)"
  shows "ep \<noteq> p" and "name \<noteq> []" and "length name < 512" and "extent_path_for p name = Some ep"
    and "set name \<subseteq> set p \<union> set ''-flat.vmdk''"
proof -
  obtain dir stem where pp: "path_parts p = Some (dir, stem)"
    and n: "name = stem @ ''-flat.vmdk''" "ep = dir @ name" "length name < 512" "length (dir @ name) < 1536"
    using assms by (auto simp: make_flat_name_def Let_def split: option.splits if_splits)
  show "name \<noteq> []" "length name < 512" using n by auto
  show "extent_path_for p name = Some ep" using pp n by (simp add: extent_path_for_def)
  define base where "base = drop (length dir) p"
  have b: "p = dir @ base \<and> (stem = base \<or> base = stem @ ''.vmdk'')"
  proof -
    have stem: "stem = base' \<or> base' = stem @ ''.vmdk''"
      if "stem = (case split_last (\<lambda>c. c = CHR ''.'') base' of None \<Rightarrow> base'
          | Some (a, ext) \<Rightarrow> if ext = ''vmdk'' then butlast a else base')" for base'
      using that split_last_Some [of "\<lambda>c. c = CHR ''.''" base'] by (auto split: option.splits if_splits)
    show ?thesis
    proof (cases "split_last (\<lambda>c. c = CHR ''/'' \<or> c = CHR 0x5C) p")
      case None
      with pp stem [of p] show ?thesis by (auto simp: path_parts_def base_def Let_def split: if_splits)
    next
      case (Some q)
      obtain x y where q: "q = (x, y)" by force
      with Some have "p = x @ y" using split_last_Some by blast
      with pp Some q stem [of y] show ?thesis by (auto simp: path_parts_def base_def Let_def split: if_splits)
    qed
  qed
  then have "length p < length ep" using n by auto
  then show "ep \<noteq> p" by blast
  show "set name \<subseteq> set p \<union> set ''-flat.vmdk''" using n(1) b by auto
qed

text \<open>The file a descriptor was written to.\<close>

lemma written_text:
  assumes "vdisk_host_write f 0 bs = (f', True)" and "fsize f = 0" and "file_ok f" and "fwr f" and "bs \<noteq> []"
  shows "window (fdata f') 0 (fsize f') = bs" and "fsize f' = length bs"
proof -
  note e = host_write_effect [OF assms(1,3,4)]
  show s: "fsize f' = length bs" using e(7) assms(2,5) by simp
  show "window (fdata f') 0 (fsize f') = bs"
    unfolding s using e(8) assms(5) by (intro nth_equalityI) auto
qed

lemma descriptor_text_head:
  "\<exists>r. descriptor_text seed sectors name uuid = ''# Disk DescriptorFile'' @ r"
  by (simp add: descriptor_text_def Let_def unlines_def)

lemma size_host_file_ok:
  assumes "size_host_file f n = (f', True)" and "fsize f = 0" and "file_ok f" and "fwr f"
  shows "file_ok f'" and "fwr f'" and "fsize f' = unat n" and "fname f' = fname f" and "n \<noteq> 0"
    and "\<And>i. i < unat n \<Longrightarrow> fdata f' i = 0"
proof -
  have n: "n \<noteq> 0" and w: "vdisk_host_write f (n - 1) [0] = (f', True)"
    using assms(1) by (auto simp: size_host_file_def split: if_splits)
  then have n1: "unat (n - 1) = unat n - 1" "0 < unat n" by (simp_all add: unat_minus_1 word_gt_0 unat_gt_0)
  note e = host_write_effect [OF w assms(3,4)]
  show "file_ok f'" "fwr f'" "n \<noteq> 0" using e n by simp_all
  show "fsize f' = unat n" using e(7) n1 assms(2) by simp
  have p: "f' = poke f (unat n - 1) [0]" using host_write_True(1) [OF w assms(4)] n1 by simp
  then show "fname f' = fname f" by (simp add: poke_def)
  show "fdata f' i = 0" if "i < unat n" for i using that n1 by (auto simp: p poke_def overlay_def assms(2))
qed


section \<open>The backend's contract\<close>

lemma vmdk_io_linear: "vmdk_read = raw_read" "vmdk_write = raw_write"
  by (auto simp: fun_eq_iff vmdk_read_def raw_read_def vmdk_write_def raw_write_def bounds_def)

interpretation vmdk: block_image vmdk_read vmdk_write size_bytes writable linear_guest linear_image
  unfolding vmdk_io_linear by (rule raw.block_image_axioms)

lemma vmdk_createE:
  assumes "vmdk_create seed fs d n = (fs', d', True)"
  obtains name ep f fs1 efp efp' where "make_flat_name (path d) = Some (name, ep)"
    and "vdisk_host_write (fp d) 0
      (bytes_of (descriptor_text seed (vmdk_round n div 512) name (create_uuid d))) = (f, True)"
    and "fopen_wbp fs ep = (fs1, Some efp)" and "size_host_file efp (vmdk_round n) = (efp', True)"
    and "fs' = fclose fs1 f"
    and "d' = d\<lparr>fp := efp', size_bytes := vmdk_round n, host_size_bytes := vmdk_round n,
      data_offset := 0, image_type := 1\<rparr>"
proof -
  have "create_flags d AND VDISK_CREATE_VMDK_LAYOUT_MASK = VDISK_CREATE_VMDK_FLAT"
    using assms by (cases "create_flags d AND VDISK_CREATE_VMDK_LAYOUT_MASK = VDISK_CREATE_VMDK_FLAT")
      (simp_all add: vmdk_create_def)
  note c = assms [unfolded vmdk_create_def Let_def this, simplified]
  obtain name ep where mk: "make_flat_name (path d) = Some (name, ep)"
    using c by (cases "make_flat_name (path d)") auto
  note c = c [unfolded mk option.case prod.case]
  obtain f okw where w: "vdisk_host_write (fp d) 0
      (bytes_of (descriptor_text seed (vmdk_round n div 512) name (create_uuid d))) = (f, okw)" by force
  note c = c [unfolded w prod.case]
  have okw: "okw = True" using c by (cases okw) simp_all
  note c = c [unfolded okw bool.case]
  obtain fs1 oe where o: "fopen_wbp fs ep = (fs1, oe)" by force
  note c = c [unfolded o prod.case]
  obtain efp where e: "oe = Some efp" using c by (cases oe) simp_all
  note c = c [unfolded e option.case]
  obtain efp' oks where s: "size_host_file efp (vmdk_round n) = (efp', oks)" by force
  note c = c [unfolded s prod.case]
  have oks: "oks = True" using c by (cases oks) simp_all
  from c [unfolded oks bool.case] that [OF mk w [unfolded okw] o [unfolded e] s [unfolded oks]] show thesis by simp
qed

text \<open>A created flat image: the descriptor on the host names the extent, and opening it gives the
  disk back, from whatever contents the extent has by then.\<close>

lemma vmdk_create_ok:
  assumes "vmdk_create seed fs d n = (fs', d', True)" and fs: "hostfs_ok fs"
    and new: "fsize (fp d) = 0" "file_ok (fp d)" "fwr (fp d)" "fname (fp d) = path d" "writable d"
    and plain: "set (path d) \<inter> {CHR 0x00, CHR 0x0A, CHR 0x22} = {}"
  obtains desc ep where "files fs' (path d) = Some desc" and "vmdk_probe desc" and "ep \<noteq> path d"
    and "extent_path_for (path d) (fst (the (make_flat_name (path d)))) = Some ep" and "fname (fp d') = ep"
    and "read_descriptor desc = Some (size_bytes d' div 512, fst (the (make_flat_name (path d))), ''vmfs'')"
    and "linear_image d'" and "\<And>i. i < unat (size_bytes d') \<Longrightarrow> linear_guest d' i = 0"
    and "unat (size_bytes d') = (unat n + 511) div 512 * 512" and "fsize (fp d') = unat (size_bytes d')"
    and "size_bytes d' div 512 * 512 = size_bytes d'" and "hostfs_ok fs'" and "writable d'" and "fwr desc" and "file_ok desc"
proof -
  define m where "m = vmdk_round n"
  obtain name ep f fs1 efp efp' where mk: "make_flat_name (path d) = Some (name, ep)"
    and w: "vdisk_host_write (fp d) 0 (bytes_of (descriptor_text seed (m div 512) name (create_uuid d))) = (f, True)"
    and o: "fopen_wbp fs ep = (fs1, Some efp)" and s: "size_host_file efp m = (efp', True)"
    and fs': "fs' = fclose fs1 f"
    and d': "d' = d\<lparr>fp := efp', size_bytes := m, host_size_bytes := m, data_offset := 0, image_type := 1\<rparr>"
    unfolding m_def by (rule vmdk_createE [OF assms(1)])
  note P = path_parts_extent_differs [OF mk]
  note O = fopen_wbp_Some [OF o fs]
  note S = size_host_file_ok [OF s O(3,1,4)]
  have t0: "bytes_of (descriptor_text seed (m div 512) name (create_uuid d)) \<noteq> []"
    by (simp add: bytes_of_def descriptor_text_def Let_def unlines_def)
  note W = written_text [OF w new(1-3) t0]
  note e = host_write_effect [OF w new(2,3)]
  have fn: "fname f = path d"
    using new(4) w by (auto simp: vdisk_host_write_def Let_def poke_def split: if_splits)
  have f: "file_ok f" "fwr f" using e(1,2) t0 by (metis length_greater_0_conv)+
  have m: "unat m = (unat n + 511) div 512 * 512" using unat_vmdk_round S(5) by (simp add: m_def)
  have m512: "m div 512 * 512 = m"
  proof -
    have u: "unat m div 512 * 512 = unat m" using m by simp
    have "unat (m div 512) * unat (512 :: u64) < 2 ^ LENGTH(64)" using unat_u64_less [of m] by (simp add: unat_div u)
    then have "unat (m div 512 * 512) = unat m" by (simp only: unat_mult_small) (simp add: unat_div u)
    then show ?thesis by (simp add: word_unat_eq_iff)
  qed
  have sec: "m div 512 \<noteq> 0" using m512 S(5) by auto
  have nm: "set name \<inter> {CHR 0x00, CHR 0x0A, CHR 0x22} = {}" using P(5) plain by auto
  have rd: "read_descriptor f = Some (m div 512, name, ''vmfs'')"
    by (rule read_descriptor_written [OF _ sec nm P(2,3)]) (simp add: W(1) del: bytes_of_append)
  have "vmdk_probe f"
  proof -
    obtain r where r: "descriptor_text seed (m div 512) name (create_uuid d) = ''# Disk DescriptorFile'' @ r"
      using descriptor_text_head by blast
    have len: "20 \<le> fsize f" unfolding W(2) by (simp add: r)
    have "window (fdata f) 0 20 = take 20 (window (fdata f) 0 (fsize f))"
      using len by (simp add: window_def take_map)
    with len f(1) show ?thesis unfolding W(1) by (simp add: vmdk_probe_def host_read_ok r bytes_of_def)
  qed
  moreover have "files fs' (path d) = Some f" using f fn by (simp add: fs' files_fclose)
  moreover have "hostfs_ok fs'" unfolding fs' using O(7) f(1) by (rule hostfs_ok_fclose)
  ultimately show ?thesis
    using P(1,4) rd S m m512 O(2) new(5) f mk
    by (intro that [of f ep]) (simp_all add: d' linear_image_def linear_guest_def)
qed

end
