(* ===== verification/Vdisk.thy ===== *)
theory Vdisk
  imports Vdisk_Vhd Vdisk_Vdi_Inspect Vdisk_Vmdk
begin

text \<open>
  \<^verbatim>\<open>lib/vdisk/src/vdisk.c\<close>: the public interface of the image library, which picks a backend by
  format or by file extension and hands every call to it. The time, the addresses and the counters
  that seed identifiers are the record \<open>vdisk_env\<close>.

  The lemmas lift the backends' contracts to the public interface: whatever the format, an open image
  is a flat disk, and what was written before \<open>vdisk_close\<close> is read back after \<open>vdisk_open\<close>.
\<close>

record vdisk_env =
  env_now :: int
  env_seeds :: "u64 \<times> u64"
  env_vmdk_seed :: u64
  env_calloc_ok :: bool

section \<open>Formats\<close>

fun ext_eq :: "string \<Rightarrow> string \<Rightarrow> bool" where
  "ext_eq (a # as) (b # bs) = (if tolower a \<noteq> tolower b then False else ext_eq as bs)"
| "ext_eq as bs = (as = [] \<and> bs = [])"

definition vdisk_format_from_extension :: "string \<Rightarrow> vdisk_format" where
  "vdisk_format_from_extension p =
     (case split_last (\<lambda>c. c = CHR ''.'') p of
        None \<Rightarrow> VDISK_FMT_AUTO
      | Some (a, ext) \<Rightarrow>
          if ext_eq ext ''vdi'' then VDISK_FMT_VDI
          else if ext_eq ext ''vmdk'' then VDISK_FMT_VMDK
          else if ext_eq ext ''vhd'' then VDISK_FMT_VHD
          else if ext_eq ext ''qcow2'' \<or> ext_eq ext ''qcow'' then VDISK_FMT_QCOW2
          else if ext_eq ext ''raw'' \<or> ext_eq ext ''img'' \<or> ext_eq ext ''hdd'' then VDISK_FMT_RAW
          else VDISK_FMT_AUTO)"

fun vdisk_format_name :: "vdisk_format \<Rightarrow> string" where
  "vdisk_format_name VDISK_FMT_RAW = ''raw''"
| "vdisk_format_name VDISK_FMT_VDI = ''vdi''"
| "vdisk_format_name VDISK_FMT_VMDK = ''vmdk''"
| "vdisk_format_name VDISK_FMT_VHD = ''vhd''"
| "vdisk_format_name VDISK_FMT_QCOW2 = ''qcow2''"
| "vdisk_format_name VDISK_FMT_AUTO = ''auto''"

fun driver_for :: "vdisk_format \<Rightarrow> vdisk_format option" where
  "driver_for VDISK_FMT_RAW = Some VDISK_FMT_RAW"
| "driver_for VDISK_FMT_VDI = Some VDISK_FMT_VDI"
| "driver_for VDISK_FMT_VMDK = Some VDISK_FMT_VMDK"
| "driver_for VDISK_FMT_VHD = Some VDISK_FMT_VHD"
| "driver_for VDISK_FMT_AUTO = None"
| "driver_for VDISK_FMT_QCOW2 = None"

section \<open>The driver tables\<close>

text \<open>A call through a \<^verbatim>\<open>vdisk_driver_t\<close> is a case distinction on the format the table belongs to.\<close>

fun driver_probe :: "vdisk_format \<Rightarrow> hfile \<Rightarrow> bool" where
  "driver_probe VDISK_FMT_RAW f = raw_probe f"
| "driver_probe VDISK_FMT_VDI f = vdi_probe f"
| "driver_probe VDISK_FMT_VMDK f = vmdk_probe f"
| "driver_probe VDISK_FMT_VHD f = vhd_probe f"
| "driver_probe _ f = False"

fun driver_open :: "vdisk_format \<Rightarrow> hostfs \<Rightarrow> vdisk \<Rightarrow> vdisk option" where
  "driver_open VDISK_FMT_RAW fs d = raw_open d"
| "driver_open VDISK_FMT_VDI fs d = vdi_open d"
| "driver_open VDISK_FMT_VMDK fs d = vmdk_open fs d"
| "driver_open VDISK_FMT_VHD fs d = vhd_open d"
| "driver_open _ fs d = None"

fun driver_create :: "vdisk_format \<Rightarrow> vdisk_env \<Rightarrow> hostfs \<Rightarrow> vdisk \<Rightarrow> u64 \<Rightarrow> hostfs \<times> vdisk \<times> bool" where
  "driver_create VDISK_FMT_RAW env fs d n = (fs, raw_create d n)"
| "driver_create VDISK_FMT_VDI env fs d n = (fs, vdi_create_fixed (env_seeds env) d n)"
| "driver_create VDISK_FMT_VMDK env fs d n = vmdk_create (env_vmdk_seed env) fs d n"
| "driver_create VDISK_FMT_VHD env fs d n = (fs, vhd_create_fixed (env_now env) d n)"
| "driver_create _ env fs d n = (fs, d, False)"

definition driver_has_sparse :: "vdisk_format \<Rightarrow> bool" where
  "driver_has_sparse f \<longleftrightarrow> f = VDISK_FMT_VDI"

fun driver_read :: "vdisk_format \<Rightarrow> vdisk \<Rightarrow> u64 \<Rightarrow> nat \<Rightarrow> byte list option" where
  "driver_read VDISK_FMT_RAW = raw_read"
| "driver_read VDISK_FMT_VDI = vdi_read"
| "driver_read VDISK_FMT_VMDK = vmdk_read"
| "driver_read VDISK_FMT_VHD = vhd_read"
| "driver_read _ = (\<lambda>d off n. None)"

fun driver_write :: "vdisk_format \<Rightarrow> vdisk \<Rightarrow> u64 \<Rightarrow> byte list \<Rightarrow> vdisk \<times> bool" where
  "driver_write VDISK_FMT_RAW = raw_write"
| "driver_write VDISK_FMT_VDI = vdi_write"
| "driver_write VDISK_FMT_VMDK = vmdk_write"
| "driver_write VDISK_FMT_VHD = vhd_write"
| "driver_write _ = (\<lambda>d off bs. (d, False))"

section \<open>The public interface\<close>

definition vdisk_calloc :: "string \<Rightarrow> hfile \<Rightarrow> vdisk" where
  "vdisk_calloc p f = \<lparr>driver = None, fp = f, path = p, size_bytes = 0, data_offset = 0,
     host_size_bytes = 0, block_size = 0, block_extra = 0, blocks_offset = 0, blocks_count = 0,
     blocks_allocated = 0, image_type = 0, writable = False, vformat = VDISK_FMT_AUTO,
     create_flags = 0, create_uuid = None\<rparr>"

definition open_file :: "hostfs \<Rightarrow> string \<Rightarrow> vdisk option" where
  "open_file fs p =
     (case fopen_rbp fs p of
        Some f \<Rightarrow> Some ((vdisk_calloc p f)\<lparr>writable := True\<rparr>)
      | None \<Rightarrow> (case fopen_rb fs p of
                   Some f \<Rightarrow> Some ((vdisk_calloc p f)\<lparr>writable := False\<rparr>)
                 | None \<Rightarrow> None))"

text \<open>The format an explicit \<open>VDISK_FMT_AUTO\<close> stands for: that of the extension, raw without one.\<close>

definition vdisk_resolve :: "string \<Rightarrow> vdisk_format \<Rightarrow> vdisk_format" where
  "vdisk_resolve p fmt =
     (if fmt = VDISK_FMT_AUTO then
        (let hint = vdisk_format_from_extension p
         in if hint = VDISK_FMT_AUTO then VDISK_FMT_RAW else hint)
      else fmt)"

definition vdisk_open :: "hostfs \<Rightarrow> string \<Rightarrow> vdisk_format \<Rightarrow> vdisk option" where
  "vdisk_open fs p fmt =
     (case open_file fs p of None \<Rightarrow> None
      | Some d \<Rightarrow>
        let fmt = vdisk_resolve p fmt
        in case driver_for fmt of None \<Rightarrow> None
          | Some drv \<Rightarrow>
              if \<not> driver_probe drv (fp d) then None
              else driver_open drv fs (d\<lparr>driver := Some drv, vformat := fmt\<rparr>))"

definition vdisk_create_ex_uuid ::
  "vdisk_env \<Rightarrow> hostfs \<Rightarrow> string \<Rightarrow> vdisk_format \<Rightarrow> u64 \<Rightarrow> u32 \<Rightarrow> byte list option \<Rightarrow> hostfs \<times> vdisk option" where
  "vdisk_create_ex_uuid env fs p fmt n flags uuid =
     (if n = 0 then (fs, None)
      else if flags AND NOT (VDISK_CREATE_SPARSE OR VDISK_CREATE_VMDK_LAYOUT_MASK) \<noteq> 0 then (fs, None)
      else
        let fmt = vdisk_resolve p fmt
        in case driver_for fmt of None \<Rightarrow> (fs, None)
          | Some drv \<Rightarrow>
              if flags AND VDISK_CREATE_SPARSE \<noteq> 0 \<and> \<not> driver_has_sparse drv then (fs, None)
              else case fopen_wbp fs p of
                  (fs, None) \<Rightarrow> (fs, None)
                | (fs, Some f) \<Rightarrow>
                    let d = (vdisk_calloc p f)\<lparr>driver := Some drv, vformat := fmt, writable := True,
                              create_flags := flags, create_uuid := map_option (take 16) uuid\<rparr>
                    in case (if flags AND VDISK_CREATE_SPARSE \<noteq> 0
                             then (fs, vdi_create_sparse (env_seeds env) d n)
                             else driver_create drv env fs d n) of
                         (fs, d, False) \<Rightarrow> (fclose fs (fp d), None)
                       | (fs, d, True) \<Rightarrow> (fs, Some d))"

definition vdisk_create_ex :: "vdisk_env \<Rightarrow> hostfs \<Rightarrow> string \<Rightarrow> vdisk_format \<Rightarrow> u64 \<Rightarrow> u32 \<Rightarrow> hostfs \<times> vdisk option" where
  "vdisk_create_ex env fs p fmt n flags = vdisk_create_ex_uuid env fs p fmt n flags None"

definition vdisk_create :: "vdisk_env \<Rightarrow> hostfs \<Rightarrow> string \<Rightarrow> vdisk_format \<Rightarrow> u64 \<Rightarrow> hostfs \<times> vdisk option" where
  "vdisk_create env fs p fmt n = vdisk_create_ex env fs p fmt n 0"

definition vdisk_close :: "hostfs \<Rightarrow> vdisk \<Rightarrow> hostfs" where
  "vdisk_close fs d = fclose fs (fp d)"

definition vdisk_read :: "vdisk \<Rightarrow> u64 \<Rightarrow> nat \<Rightarrow> byte list option" where
  "vdisk_read d off n = (case driver d of None \<Rightarrow> None | Some drv \<Rightarrow> driver_read drv d off n)"

definition vdisk_write :: "vdisk \<Rightarrow> u64 \<Rightarrow> byte list \<Rightarrow> vdisk \<times> bool" where
  "vdisk_write d off bs = (case driver d of None \<Rightarrow> (d, False) | Some drv \<Rightarrow> driver_write drv d off bs)"

definition vdisk_flush :: "hostfs \<Rightarrow> vdisk \<Rightarrow> hostfs \<times> bool" where
  "vdisk_flush fs d = (case driver d of None \<Rightarrow> (fs, False) | Some _ \<Rightarrow> (fclose fs (fp d), True))"

definition vdisk_get_size :: "vdisk \<Rightarrow> u64" where "vdisk_get_size d = size_bytes d"
definition vdisk_is_writable :: "vdisk \<Rightarrow> bool" where "vdisk_is_writable d = writable d"
definition vdisk_get_format :: "vdisk \<Rightarrow> vdisk_format" where "vdisk_get_format d = vformat d"
definition vdisk_get_path :: "vdisk \<Rightarrow> string" where "vdisk_get_path d = path d"

definition vdisk_inspect :: "vdisk_env \<Rightarrow> hostfs \<Rightarrow> string \<Rightarrow> vdisk_info option" where
  "vdisk_inspect env fs p =
     (case fopen_rb fs p of None \<Rightarrow> None
      | Some f \<Rightarrow>
        let host_size = vdisk_host_get_size f;
            info = info_zero\<lparr>info_host_size := host_size\<rparr>;
            got = min 512 (fsize f);
            head = window (fdata f) 0 got @ zeros (512 - got)
        in if 0x44 \<le> got \<and> le32 (drop 0x40 head) \<noteq> 0 \<and> le32 (drop 0x40 head) = 0xBEDA107F
           then vdisk_vdi_inspect (env_calloc_ok env) f
           else if 4 \<le> got \<and> take 4 head = [0x51, 0x46, 0x49, 0xfb]
           then Some (info\<lparr>info_format := VDISK_FMT_QCOW2, supported := False,
                        variant := ''recognized'', checks_passed := 1\<rparr>)
           else if 4 \<le> got \<and> take 4 head = bytes_of ''KDMV''
           then Some (info\<lparr>info_format := VDISK_FMT_VMDK, supported := False,
                        variant := ''sparse'', checks_passed := 1\<rparr>)
           else if 20 \<le> got \<and> take 20 head = take 20 (bytes_of ''# Disk DescriptorFile'')
           then vdisk_vmdk_inspect fs p f info
           else if 512 \<le> host_size \<and>
                   (case vdisk_host_read f (host_size - 512) 512 of None \<Rightarrow> False
                    | Some tail \<Rightarrow> take 8 tail = bytes_of ''conectix'')
           then vdisk_vhd_inspect f
           else Some (info\<lparr>info_format := VDISK_FMT_RAW, supported := True,
                        variant := ''plain/raw candidate'', info_logical_size := host_size,
                        info_sector_size := 512, checks_passed := 1, structurally_valid := True\<rparr>))"

section \<open>One contract for every format\<close>

definition vdisk_guest :: "vdisk \<Rightarrow> nat \<Rightarrow> byte" where
  "vdisk_guest d = (if driver d = Some VDISK_FMT_VDI then vdi_guest d else linear_guest d)"

definition vdisk_inv :: "vdisk \<Rightarrow> bool" where
  "vdisk_inv d \<longleftrightarrow>
     (case driver d of
        Some VDISK_FMT_VDI \<Rightarrow> vdi_inv d
      | Some f \<Rightarrow> f \<in> {VDISK_FMT_RAW, VDISK_FMT_VHD, VDISK_FMT_VMDK} \<and> linear_image d
      | None \<Rightarrow> False)"

lemma vhd_io_linear: "vhd_read = raw_read" "vhd_write = raw_write"
  by (auto simp: fun_eq_iff vhd_read_def raw_read_def vhd_write_def raw_write_def bounds_def vhd_bounds_ok_def)

lemma vdisk_inv_cases:
  assumes "vdisk_inv d"
  obtains (linear) "linear_image d" and "vdisk_guest d = linear_guest d"
    and "vdisk_read d = raw_read d" and "vdisk_write d = raw_write d"
    and "driver d \<in> {Some VDISK_FMT_RAW, Some VDISK_FMT_VHD, Some VDISK_FMT_VMDK}"
  | (vdi) "vdi_inv d" and "vdisk_guest d = vdi_guest d"
    and "vdisk_read d = vdi_read d" and "vdisk_write d = vdi_write d" and "driver d = Some VDISK_FMT_VDI"
proof -
  have e: "\<And>f. driver d = Some f \<Longrightarrow> vdisk_read d = driver_read f d \<and> vdisk_write d = driver_write f d"
    by (auto simp: fun_eq_iff vdisk_read_def vdisk_write_def)
  from assms obtain f where f: "driver d = Some f" by (cases "driver d") (auto simp: vdisk_inv_def)
  show thesis
  proof (cases f)
    case VDISK_FMT_VDI
    with f e [OF f] assms show ?thesis by (intro vdi) (simp_all add: vdisk_inv_def vdisk_guest_def)
  qed (use f e [OF f] assms in \<open>auto intro!: linear simp: vdisk_inv_def vdisk_guest_def vmdk_io_linear vhd_io_linear\<close>)
qed

text \<open>What a write leaves of the fields that do not belong to the data.\<close>

definition same_handle :: "vdisk \<Rightarrow> vdisk \<Rightarrow> bool" where
  "same_handle d d' \<longleftrightarrow> driver d' = driver d \<and> path d' = path d \<and> vformat d' = vformat d \<and>
     fname (fp d') = fname (fp d)"

lemma same_handle_refl [simp]: "same_handle d d"
  by (simp add: same_handle_def)

lemma same_handle_trans: "same_handle a b \<Longrightarrow> same_handle b c \<Longrightarrow> same_handle a c"
  by (simp add: same_handle_def)

lemma fname_host_write [simp]: "fname (fst (vdisk_host_write f off bs)) = fname f"
  by (simp add: vdisk_host_write_def Let_def poke_def)

lemma fname_host_writeD: "vdisk_host_write f off bs = (f', ok) \<Longrightarrow> fname f' = fname f"
  using fname_host_write [of f off bs] by simp

lemma same_handle_put_fp: "fname (fst r) = fname (fp d) \<Longrightarrow> same_handle d (fst (put_fp d r))"
  by (simp add: same_handle_def put_fp_def)

lemma fname_zero_loop: "zero_loop chunk f base pos lim = (f', ok) \<Longrightarrow> fname f' = fname f"
proof (induction chunk f base pos lim arbitrary: f' ok rule: zero_loop.induct)
  case (1 chunk f base pos lim)
  define n where "n = (if lim - pos > chunk then chunk else lim - pos)"
  obtain f1 ok1 where w: "vdisk_host_write f (base + pos) (zeros (unat n)) = (f1, ok1)" by force
  have f1: "fname f1 = fname f" using fname_host_write [of f "base + pos" "zeros (unat n)"] w by simp
  show ?case
  proof (cases "(chunk = 0 \<or> \<not> pos < lim) \<or> \<not> ok1")
    case True
    with "1.prems" w f1 show ?thesis
      by (subst (asm) zero_loop.simps) (auto simp: n_def [symmetric] split: if_splits)
  next
    case False
    with "1.prems" w have "zero_loop chunk f1 base (pos + n) lim = (f', ok)"
      by (subst (asm) zero_loop.simps) (simp add: n_def [symmetric])
    with "1.IH" [of n f1 True] False w f1 n_def show ?thesis by auto
  qed
qed

lemma fname_zero_loop_fst [simp]: "fname (fst (zero_loop chunk f base pos lim)) = fname f"
  using fname_zero_loop [of chunk f base pos lim] by (metis prod.collapse)

lemma allocate_block_handle: "allocate_block d gb = (d', r) \<Longrightarrow> same_handle d d'"
  by (auto simp: allocate_block_def Let_def put_fp_def map_set_def update_allocated_def same_handle_def
      split: if_splits prod.splits bool.splits)

lemma vdi_write_loop_handle: "vdi_write_loop d off bs = (d', ok) \<Longrightarrow> same_handle d d'"
proof (induction d off bs arbitrary: d' ok rule: vdi_write_loop.induct)
  case (1 d off bs)
  show ?case
  proof (cases "length bs = 0 \<or> block_size d = 0")
    case True
    with "1.prems" show ?thesis by (subst (asm) vdi_write_loop.simps) (auto split: if_splits)
  next
    case False
    obtain gb ib n where loc: "vdi_locate d off (length bs) = (gb, ib, n)" by (metis prod_cases3)
    show ?thesis
    proof (cases "map_get d gb")
      case None
      with "1.prems" False loc show ?thesis by (subst (asm) vdi_write_loop.simps) simp
    next
      case (Some entry)
      obtain d1 r where r: "vdi_block_for d gb entry = (d1, r)" by force
      have h1: "same_handle d d1"
        using r allocate_block_handle by (auto simp: vdi_block_for_def split: if_splits)
      show ?thesis
      proof (cases r)
        case None
        with "1.prems" False loc Some r h1 show ?thesis
          by (subst (asm) vdi_write_loop.simps) (simp add: vdi_block_for_def [symmetric])
      next
        case (Some e)
        obtain d2 ok2 where w: "put_fp d1 (vdisk_host_write (fp d1)
            (data_offset d1 + ucast e * ucast (block_size d1) + ucast ib) (take n bs)) = (d2, ok2)" by force
        have "same_handle d1 d2"
          using same_handle_put_fp [of "vdisk_host_write (fp d1)
            (data_offset d1 + ucast e * ucast (block_size d1) + ucast ib) (take n bs)" d1] w by simp
        with h1 have h2: "same_handle d d2" by (rule same_handle_trans)
        have eq: "(d', ok) = (if ok2 then vdi_write_loop d2 (off + of_nat n) (drop n bs) else (d2, False))"
          using "1.prems" False loc \<open>map_get d gb = Some entry\<close> r Some w
          by (subst (asm) vdi_write_loop.simps) (cases ok2; simp add: vdi_block_for_def [symmetric])
        show ?thesis
        proof (cases ok2)
          case True
          with eq have "vdi_write_loop d2 (off + of_nat n) (drop n bs) = (d', ok)" by simp
          from "1.IH" [OF _ _ loc [symmetric] refl \<open>map_get d gb = Some entry\<close> _ _ w [symmetric] _ this]
            False r Some True h2 show ?thesis
            by (auto simp: vdi_block_for_def intro: same_handle_trans)
        qed (use eq h2 in simp)
      qed
    qed
  qed
qed

lemma vdisk_write_handle: "vdisk_write d off bs = (d', ok) \<Longrightarrow> same_handle d d'"
proof -
  assume w: "vdisk_write d off bs = (d', ok)"
  have lin: "same_handle d (fst (raw_write d off bs))"
    using same_handle_put_fp by (auto simp: raw_write_def)
  have "same_handle d (fst (vdi_write d off bs))"
    using vdi_write_loop_handle [of d off bs] same_handle_put_fp
    by (auto simp: vdi_write_def split: prod.splits) (metis prod.collapse)
  with lin w show ?thesis
    by (cases "the (driver d)") (auto simp: vdisk_write_def vmdk_io_linear vhd_io_linear split: option.splits)
qed


lemma vdisk_inv_handle:
  "same_handle d d' \<Longrightarrow> driver d \<in> {Some VDISK_FMT_RAW, Some VDISK_FMT_VHD, Some VDISK_FMT_VMDK} \<Longrightarrow>
   linear_image d' \<Longrightarrow> vdisk_inv d' \<and> vdisk_guest d' = linear_guest d'"
  by (auto simp: same_handle_def vdisk_inv_def vdisk_guest_def)

interpretation vdisk: block_image vdisk_read vdisk_write size_bytes writable vdisk_guest vdisk_inv
proof unfold_locales
  fix d :: vdisk and off :: u64 and n assume "vdisk_inv d"
  then show "vdisk_read d off n = (if unat off + n \<le> unat (size_bytes d)
      then Some (window (vdisk_guest d) (unat off) n) else None)"
    by (cases rule: vdisk_inv_cases) (simp_all add: raw.rd_spec vdi.rd_spec)
next
  fix d :: vdisk and off :: u64 and bs :: "byte list"
  assume i: "vdisk_inv d" and r: "\<not> (writable d \<and> unat off + length bs \<le> unat (size_bytes d))"
  from i show "vdisk_write d off bs = (d, False)"
    by (cases rule: vdisk_inv_cases) (simp_all add: raw.wr_reject [OF _ r] vdi.wr_reject [OF _ r])
next
  fix d :: vdisk and off :: u64 and bs :: "byte list"
  assume i: "vdisk_inv d" and a: "writable d" "unat off + length bs \<le> unat (size_bytes d)"
  from i show "\<exists>d'. vdisk_write d off bs = (d', True) \<and> vdisk_inv d' \<and> writable d' \<and>
      size_bytes d' = size_bytes d \<and>
      (\<forall>i < unat (size_bytes d). vdisk_guest d' i = overlay (vdisk_guest d) (unat off) bs i)"
  proof (cases rule: vdisk_inv_cases)
    case linear
    from raw.wr_accept [OF linear(1) a] obtain d' where d': "raw_write d off bs = (d', True)"
      "linear_image d'" "writable d'" "size_bytes d' = size_bytes d"
      "\<forall>i < unat (size_bytes d). linear_guest d' i = overlay (linear_guest d) (unat off) bs i" by blast
    with vdisk_inv_handle [OF vdisk_write_handle [of d off bs d' True]] linear show ?thesis by simp
  next
    case vdi
    from vdi.wr_accept [OF vdi(1) a] obtain d' where d': "vdi_write d off bs = (d', True)"
      "vdi_inv d'" "writable d'" "size_bytes d' = size_bytes d"
      "\<forall>i < unat (size_bytes d). vdi_guest d' i = overlay (vdi_guest d) (unat off) bs i" by blast
    with vdisk_write_handle [of d off bs d' True] vdi show ?thesis
      by (simp add: vdisk_inv_def vdisk_guest_def same_handle_def)
  qed
qed

section \<open>Closing and reopening\<close>

text \<open>What the host keeps of an open image, so that it can be opened again by its path.\<close>

definition vdisk_linked :: "hostfs \<Rightarrow> vdisk \<Rightarrow> bool" where
  "vdisk_linked fs d \<longleftrightarrow> vdisk_inv d \<and> fwr (fp d) \<and>
     (case driver d of
        Some VDISK_FMT_RAW \<Rightarrow> fname (fp d) = path d \<and> fsize (fp d) = unat (size_bytes d)
      | Some VDISK_FMT_VHD \<Rightarrow> fname (fp d) = path d \<and> fsize (fp d) = unat (size_bytes d) + 512 \<and>
          fixed_footer_valid (window (fdata (fp d)) (unat (size_bytes d)) 512) (size_bytes d + 512)
            = Some (size_bytes d)
      | Some VDISK_FMT_VDI \<Rightarrow> fname (fp d) = path d \<and> vdi_synced d
      | Some VDISK_FMT_VMDK \<Rightarrow> fname (fp d) \<noteq> path d \<and> fsize (fp d) = unat (size_bytes d) \<and>
          (\<exists>desc name. files fs (path d) = Some desc \<and> fwr desc \<and> vmdk_probe desc \<and>
             read_descriptor desc = Some (size_bytes d div 512, name, ''vmfs'') \<and>
             extent_path_for (path d) name = Some (fname (fp d)) \<and>
             size_bytes d div 512 * 512 = size_bytes d)
      | _ \<Rightarrow> False)"

lemma linear_write_shape:
  assumes "linear_image d" and "raw_write d off bs = (d', True)"
  shows "d' = d\<lparr>fp := poke (fp d) (unat off) bs\<rparr> \<and> unat off + length bs \<le> unat (size_bytes d)"
proof -
  have r: "writable d \<and> unat off + length bs \<le> unat (size_bytes d)"
    using assms(2) by (auto simp: raw_write_def bounds_iff split: if_splits)
  with linear_write [OF assms(1)] assms(2) show ?thesis by (simp add: raw_write_def bounds_iff)
qed

lemma vdisk_linked_write:
  assumes "vdisk_linked fs d" and "vdisk_write d off bs = (d', True)"
  shows "vdisk_linked fs d'"
proof -
  have i: "vdisk_inv d" using assms(1) by (simp add: vdisk_linked_def)
  have h: "same_handle d d'" using vdisk_write_handle [OF assms(2)] .
  have i': "vdisk_inv d'" "size_bytes d' = size_bytes d" using vdisk.wr_inv [OF i, of off bs] assms(2) by auto
  from i show ?thesis
  proof (cases rule: vdisk_inv_cases)
    case linear
    with assms(2) have d': "d' = d\<lparr>fp := poke (fp d) (unat off) bs\<rparr>"
      and r: "unat off + length bs \<le> unat (size_bytes d)"
      using linear_write_shape [of d off bs d'] by auto
    have sz: "unat (size_bytes d) \<le> fsize (fp d)" using linear(1) by (simp add: linear_image_def)
    have "window (fdata (fp d')) (unat (size_bytes d)) 512 = window (fdata (fp d)) (unat (size_bytes d)) 512"
      if "fsize (fp d) = unat (size_bytes d) + 512"
      using r that by (intro window_cong) (auto simp: d' fdata_poke overlay_out)
    moreover have "fsize (fp d') = fsize (fp d)" using r sz by (simp add: d')
    moreover have "fwr (fp d') = fwr (fp d)" "path d' = path d" "fname (fp d') = fname (fp d)"
      by (simp_all add: d' poke_def)
    ultimately show ?thesis
      using assms(1) h i' linear(5) by (auto simp: vdisk_linked_def same_handle_def)
  next
    case vdi
    then have w: "vdi_write d off bs = (d', True)" using assms(2) by simp
    have s: "vdi_sound d" "vdi_synced d" "fwr (fp d)"
      using assms(1) vdi by (auto simp: vdisk_linked_def vdi_inv_def)
    have k: "vdi_sound d'" "vdi_kept d d'" using vdi_write_guest [OF s(1) w] by simp_all
    then have "vdi_synced d'"
      using vdi_synced_kept [OF s(2)] vdi_write_fixed_allocated [OF _ w] by blast
    moreover have "writable d" using w by (auto simp: vdi_write_def split: if_splits)
    then have "fwr (fp d')"
      using k vdi_kept_shape(4) [OF k(2)] by (auto simp: vdi_sound_def dyn_sound_def fixed_sound_def)
    ultimately show ?thesis
      using assms(1) h i' vdi(5) by (simp add: vdisk_linked_def same_handle_def)
  qed
qed


lemma open_file_closed:
  assumes "fwr f" and "fname f = p"
  shows "open_file (fclose fs f) p = Some ((vdisk_calloc p f)\<lparr>writable := True\<rparr>)"
  using assms by (simp add: open_file_def fopen_rbp_def files_fclose)

lemma vdisk_reopen:
  assumes "vdisk_linked fs d" and "driver d = Some (vdisk_resolve (path d) fmt)"
  shows "\<exists>d2. vdisk_open (vdisk_close fs d) (path d) fmt = Some d2 \<and> size_bytes d2 = size_bytes d \<and>
    (\<forall>off n. vdisk_read d2 off n = vdisk_read d off n)"
proof -
  let ?p = "path d" and ?f = "fp d" and ?fmt = "vdisk_resolve (path d) fmt"
  let ?d0 = "(vdisk_calloc ?p ?f)\<lparr>writable := True, driver := Some ?fmt, vformat := ?fmt\<rparr>"
  have w: "fwr ?f" and i: "vdisk_inv d" using assms(1) by (simp_all add: vdisk_linked_def)
  from i have fo: "file_ok ?f"
    by (cases rule: vdisk_inv_cases)
      (auto simp: linear_image_def vdi_inv_def vdi_sound_def dyn_sound_def fixed_sound_def)
  have op: "vdisk_open (vdisk_close fs d) ?p fmt = (if driver_probe ?fmt ?f then
      driver_open ?fmt (fclose fs ?f) ?d0 else None)"
    if "fname ?f = ?p" "driver_for ?fmt = Some ?fmt"
    using open_file_closed [OF w that(1)] that(2)
    by (simp add: vdisk_open_def vdisk_close_def vdisk_calloc_def Let_def)
  have rd: "vdisk_read d2 off n = vdisk_read d off n"
    if "linear_image d" "raw_read d = vdisk_read d" "fp d2 = ?f" "size_bytes d2 = size_bytes d"
      "vdisk_read d2 = raw_read d2" for d2 off n
  proof -
    have "vdisk_read d2 off n = raw_read d off n"
      unfolding that(5) using that(3,4) by (simp add: raw_read_def bounds_def)
    with that(2) show ?thesis by (metis)
  qed
  show ?thesis
  proof (cases ?fmt)
    case VDISK_FMT_RAW
    have l: "fname ?f = ?p" "fsize ?f = unat (size_bytes d)" "linear_image d"
      using assms VDISK_FMT_RAW by (auto simp: vdisk_linked_def vdisk_inv_def)
    have "vdisk_host_get_size ?f = size_bytes d" by (simp add: vdisk_host_get_size_def l(2))
    then show ?thesis
      using op l assms(2) VDISK_FMT_RAW
      by (auto simp: raw_probe_def raw_open_def vdisk_calloc_def vdisk_read_def raw_read_def bounds_def Let_def)
  next
    case VDISK_FMT_VHD
    have l: "fname ?f = ?p" "fsize ?f = unat (size_bytes d) + 512" "linear_image d"
      "fixed_footer_valid (window (fdata ?f) (unat (size_bytes d)) 512) (size_bytes d + 512) = Some (size_bytes d)"
      using assms VDISK_FMT_VHD by (auto simp: vdisk_linked_def vdisk_inv_def)
    have "read_footer ?f = Some (window (fdata ?f) (unat (size_bytes d)) 512, size_bytes d + 512)"
      using vhd_read_footer_created [OF l(2) fo refl] .
    then show ?thesis
      using op l assms(2) VDISK_FMT_VHD
      by (auto simp: vhd_probe_def vhd_open_def vdisk_calloc_def vdisk_read_def vhd_io_linear raw_read_def bounds_def
          vhd_set_fields_def Let_def)
  next
    case VDISK_FMT_VDI
    have l: "fname ?f = ?p" "vdi_synced d" "vdi_sound d"
      using assms VDISK_FMT_VDI by (auto simp: vdisk_linked_def vdisk_inv_def vdi_inv_def)
    have f0: "fp ?d0 = fp d" by (simp add: vdisk_calloc_def)
    note r = vdi_reopened_same [OF f0]
    have "vdi_sound (vdi_reopened ?d0 d)" using r(2) [OF l(3)] w by blast
    then have "vdi_read (vdi_reopened ?d0 d) off n = vdi_read d off n" for off n
      using l(3) r(1,4) by (simp add: vdi_read_guest)
    moreover have "driver (vdi_reopened ?d0 d) = Some VDISK_FMT_VDI"
      using VDISK_FMT_VDI by (simp add: vdi_reopened_def vdisk_calloc_def)
    ultimately show ?thesis
      using op l VDISK_FMT_VDI assms(2) vdi_open_synced [OF l(2,3) f0] vdi_probe_synced [OF l(2) fo] r(4)
      by (simp add: vdisk_read_def)
  next
    case VDISK_FMT_VMDK
    then obtain desc name where l: "fname ?f \<noteq> ?p" "fsize ?f = unat (size_bytes d)" "linear_image d"
      "files fs ?p = Some desc" "fwr desc" "vmdk_probe desc"
      "read_descriptor desc = Some (size_bytes d div 512, name, ''vmfs'')"
      "extent_path_for ?p name = Some (fname ?f)" "size_bytes d div 512 * 512 = size_bytes d"
      using assms by (auto simp: vdisk_linked_def vdisk_inv_def)
    have o: "open_file (fclose fs ?f) ?p = Some ((vdisk_calloc ?p desc)\<lparr>writable := True\<rparr>)"
      using l w by (simp add: open_file_def fopen_rbp_def files_fclose)
    have hs: "vdisk_host_get_size ?f = size_bytes d" by (simp add: vdisk_host_get_size_def l(2))
    have e: "fopen_rbp (fclose fs ?f) (fname ?f) = Some ?f" using w by (simp add: fopen_rbp_def files_fclose)
    show ?thesis
      using o l assms(2) VDISK_FMT_VMDK hs e
      by (auto simp: vdisk_open_def vdisk_close_def vmdk_open_def vdisk_calloc_def vdisk_read_def
          vmdk_io_linear raw_read_def bounds_def Let_def)
  qed (use assms in \<open>auto simp: vdisk_linked_def vdisk_inv_def\<close>)
qed

section \<open>Creation\<close>

text \<open>An image as creation leaves it: linked to its path, writable, of at least the size asked for,
  and all zeroes.\<close>

definition vdisk_blank :: "hostfs \<Rightarrow> vdisk \<Rightarrow> u64 \<Rightarrow> bool" where
  "vdisk_blank fs d n \<longleftrightarrow> vdisk_linked fs d \<and> writable d \<and> unat n \<le> unat (size_bytes d) \<and>
     (\<forall>i < unat (size_bytes d). vdisk_guest d i = 0)"

lemma raw_create_handle: "raw_create d n = (d', ok) \<Longrightarrow> same_handle d d' \<and> writable d' = writable d"
  by (auto simp: raw_create_def same_handle_def split: if_splits prod.splits bool.splits dest!: fname_host_writeD)

lemma vhd_create_handle: "vhd_create_fixed now d n = (d', ok) \<Longrightarrow> same_handle d d' \<and> writable d' = writable d"
  by (auto simp: vhd_create_fixed_def same_handle_def vhd_set_fields_def Let_def
      split: option.splits prod.splits bool.splits dest!: fname_host_writeD)

lemma fname_map_entries: "map_entries f off_blocks fixed i n = (f', ok) \<Longrightarrow> fname f' = fname f"
  by (induction n arbitrary: f i) (auto split: prod.splits bool.splits dest!: fname_host_writeD)

lemma fname_write_map: "write_map f b ob od fixed = (f', ok) \<Longrightarrow> fname f' = fname f"
  by (auto simp: write_map_def split: prod.splits bool.splits dest!: fname_map_entries fname_zero_loop)

lemma vdi_create_handle:
  "vdi_create_fixed seeds d n = (d', ok) \<Longrightarrow> same_handle d d' \<and> writable d' = writable d"
  "vdi_create_sparse seeds d n = (d', ok) \<Longrightarrow> same_handle d d' \<and> writable d' = writable d"
  by (auto simp: vdi_create_fixed_def vdi_create_sparse_def same_handle_def vdi_set_fields_def Let_def
      split: option.splits prod.splits bool.splits if_splits dest!: fname_host_writeD fname_write_map)

lemma vmdk_create_handle:
  "vmdk_create seed fs d n = (fs', d', True) \<Longrightarrow> driver d' = driver d \<and> path d' = path d \<and> vformat d' = vformat d"
  by (erule vmdk_createE) simp

lemma vdisk_createE:
  assumes "vdisk_create_ex_uuid env fs p fmt n flags uuid = (fs', Some d)"
  obtains f fs1 d0 where "n \<noteq> 0" and "fopen_wbp fs p = (fs1, Some f)"
    and "d0 = (vdisk_calloc p f)\<lparr>driver := Some (vdisk_resolve p fmt), vformat := vdisk_resolve p fmt,
           writable := True, create_flags := flags, create_uuid := map_option (take 16) uuid\<rparr>"
    and "driver_create (vdisk_resolve p fmt) env fs1 d0 n = (fs', d, True) \<or>
         vdisk_resolve p fmt = VDISK_FMT_VDI \<and> fs' = fs1 \<and> vdi_create_sparse (env_seeds env) d0 n = (d, True)"
proof -
  let ?r = "vdisk_resolve p fmt"
  note c = assms [unfolded vdisk_create_ex_uuid_def Let_def]
  obtain drv where drv: "driver_for ?r = Some drv"
    using c by (cases "driver_for ?r") (auto split: if_splits)
  have r: "drv = ?r" using drv by (cases ?r) simp_all
  have n: "n \<noteq> 0" and sp: "\<not> (flags AND VDISK_CREATE_SPARSE \<noteq> 0 \<and> \<not> driver_has_sparse drv)"
    using c drv by (auto split: if_splits)
  obtain fs1 o1 where o: "fopen_wbp fs p = (fs1, o1)" by force
  obtain f where f: "o1 = Some f" using c drv o by (cases o1) (auto split: if_splits)
  let ?d0 = "(vdisk_calloc p f)\<lparr>driver := Some drv, vformat := ?r, writable := True,
      create_flags := flags, create_uuid := map_option (take 16) uuid\<rparr>"
  define res where "res = (if flags AND VDISK_CREATE_SPARSE \<noteq> 0
      then (fs1, vdi_create_sparse (env_seeds env) ?d0 n) else driver_create drv env fs1 ?d0 n)"
  obtain fs2 d2 ok where res2: "res = (fs2, d2, ok)" by (metis prod_cases3)
  have e: "(case ok of False \<Rightarrow> (fclose fs2 (fp d2), None) | True \<Rightarrow> (fs2, Some d2)) = (fs', Some d)"
    using c n drv sp o f res2 unfolding res_def by (simp split: if_splits)
  then have "ok" "fs2 = fs'" "d2 = d" by (cases ok; simp)+
  with res2 res_def r n o f sp show thesis
    by (intro that [of fs1 f ?d0]) (auto simp: driver_has_sparse_def split: if_splits)
qed

lemma vdisk_create_blank:
  assumes "vdisk_create_ex_uuid env fs p fmt n flags uuid = (fs', Some d)" and "hostfs_ok fs"
    and "set p \<inter> {CHR 0x00, CHR 0x0A, CHR 0x22} = {}" and "\<forall>u. uuid = Some u \<longrightarrow> 16 \<le> length u"
    and room: "driver d = Some VDISK_FMT_VDI \<Longrightarrow> vdi_room d"
  shows "vdisk_blank fs' d n \<and> path d = p \<and> driver d = Some (vdisk_resolve p fmt)"
  using assms(1)
proof (rule vdisk_createE)
  fix f fs1 d0
  assume o: "fopen_wbp fs p = (fs1, Some f)"
    and d0: "d0 = (vdisk_calloc p f)\<lparr>driver := Some (vdisk_resolve p fmt), vformat := vdisk_resolve p fmt,
           writable := True, create_flags := flags, create_uuid := map_option (take 16) uuid\<rparr>"
    and c: "driver_create (vdisk_resolve p fmt) env fs1 d0 n = (fs', d, True) \<or>
         vdisk_resolve p fmt = VDISK_FMT_VDI \<and> fs' = fs1 \<and> vdi_create_sparse (env_seeds env) d0 n = (d, True)"
  note O = fopen_wbp_Some [OF o assms(2)]
  have new: "fsize (fp d0) = 0" "file_ok (fp d0)" "fwr (fp d0)" "fname (fp d0) = p" "path d0 = p"
    "driver d0 = Some (vdisk_resolve p fmt)" "writable d0"
    "\<forall>u. create_uuid d0 = Some u \<longrightarrow> 16 \<le> length u"
    using O assms(4) by (auto simp: d0 vdisk_calloc_def)
  have hd: "path d = p \<and> driver d = Some (vdisk_resolve p fmt) \<and> fname (fp d) = p \<and> writable d"
    if "same_handle d0 d \<and> writable d = writable d0" using that new by (simp add: same_handle_def)
  have up: "unat n \<le> (unat n + 511) div 512 * 512"
    using div_mult_mod_eq [of "unat n + 511" 512] mod_less_divisor [of 512 "unat n + 511"] by linarith
  have vdi: ?thesis if "vdisk_resolve p fmt = VDISK_FMT_VDI" "same_handle d0 d \<and> writable d = writable d0"
    "vdi_sound d" "vdi_synced d" "unat (size_bytes d) = (unat n + 511) div 512 * 512"
    "\<forall>i < unat (size_bytes d). vdi_guest d i = 0"
  proof -
    have "fwr (fp d)" using hd [OF that(2)] that(3) by (auto simp: vdi_sound_def dyn_sound_def fixed_sound_def)
    with hd [OF that(2)] that room up show ?thesis
      by (simp add: vdisk_blank_def vdisk_linked_def vdisk_inv_def vdi_inv_def vdisk_guest_def)
  qed
  show ?thesis
  proof (cases "vdisk_resolve p fmt")
    case VDISK_FMT_RAW
    with c have r: "raw_create d0 n = (d, True)" by simp
    with raw_create_ok [OF r new(1-3)] hd [OF raw_create_handle [OF r]] VDISK_FMT_RAW show ?thesis
      by (simp add: vdisk_blank_def vdisk_linked_def vdisk_inv_def vdisk_guest_def linear_image_def)
  next
    case VDISK_FMT_VHD
    with c have v: "vhd_create_fixed (env_now env) d0 n = (d, True)" by simp
    note k = vhd_created [OF v new(1-3)]
    from v new(1-3) obtain footer where b: "build_footer (env_now env) n = Some footer"
      and f: "fsize (fp d) = unat n + 512" "window (fdata (fp d)) (unat n) 512 = footer"
      by (rule vhd_create_file) metis
    with k hd [OF vhd_create_handle [OF v]] VDISK_FMT_VHD build_footer_valid [OF b] show ?thesis
      by (simp add: vdisk_blank_def vdisk_linked_def vdisk_inv_def vdisk_guest_def linear_image_def)
  next
    case VDISK_FMT_VDI
    with c consider "vdi_create_fixed (env_seeds env) d0 n = (d, True)"
      | "vdi_create_sparse (env_seeds env) d0 n = (d, True)" by auto
    then show ?thesis
    proof cases
      case 1
      with vdi_create_fixed_ok [OF 1 new(1-3,8)] vdi_create_handle(1) [OF 1] VDISK_FMT_VDI show ?thesis
        by (intro vdi) (simp_all add: vdi_sound_def)
    next
      case 2
      with vdi_create_sparse_ok [OF 2 new(1-3,8)] vdi_create_handle(2) [OF 2] VDISK_FMT_VDI show ?thesis
        by (intro vdi) (simp_all add: vdi_sound_def vdi_live_empty_guest)
    qed
  next
    case VDISK_FMT_VMDK
    with c have v: "vmdk_create (env_vmdk_seed env) fs1 d0 n = (fs', d, True)" by simp
    have plain: "set (path d0) \<inter> {CHR 0x00, CHR 0x0A, CHR 0x22} = {}" using assms(3) new(5) by simp
    have fn: "fname (fp d0) = path d0" using new(4,5) by simp
    from v O(7) new(1-3) fn new(7) plain show ?thesis
    proof (rule vmdk_create_ok)
      fix desc ep
      assume "files fs' (path d0) = Some desc" "vmdk_probe desc" "ep \<noteq> path d0"
        "extent_path_for (path d0) (fst (the (make_flat_name (path d0)))) = Some ep" "fname (fp d) = ep"
        "read_descriptor desc = Some (size_bytes d div 512, fst (the (make_flat_name (path d0))), ''vmfs'')"
        "linear_image d" "\<And>i. i < unat (size_bytes d) \<Longrightarrow> linear_guest d i = 0"
        "unat (size_bytes d) = (unat n + 511) div 512 * 512" "fsize (fp d) = unat (size_bytes d)"
        "size_bytes d div 512 * 512 = size_bytes d" "writable d" "fwr desc"
      with VDISK_FMT_VMDK new(5,6) vmdk_create_handle [OF v] up show ?thesis
        by (simp add: vdisk_blank_def vdisk_linked_def vdisk_inv_def vdisk_guest_def linear_image_def)
    qed
  qed (use c in simp_all)
qed

lemma vdisk_linked_run_writes:
  "vdisk_linked fs d \<Longrightarrow> run_writes vdisk_write d ws = (d', True) \<Longrightarrow>
   vdisk_linked fs d' \<and> path d' = path d \<and> driver d' = driver d"
proof (induction ws arbitrary: d)
  case (Cons w ws)
  obtain off bs where w: "w = (off, bs)" by force
  with Cons.prems(2) obtain d1 where d1: "vdisk_write d off bs = (d1, True)" "run_writes vdisk_write d1 ws = (d', True)"
    by (auto split: prod.splits if_splits)
  with Cons.IH [OF vdisk_linked_write [OF Cons.prems(1) d1(1)] d1(2)] vdisk_write_handle [OF d1(1)] show ?case
    by (simp add: same_handle_def)
qed simp

text \<open>C15. What is written to a new image is what a later session reads. When \<^verbatim>\<open>vdisk_create_ex_uuid\<close> has made an
  image (raw, fixed or sparse VDI, fixed VHD or flat VMDK, chosen by argument or by extension) under a path without NUL,
  newline or quote, and, if it is a VDI image, the host has room for all of its blocks (\<open>vdi_room\<close>; a sparse image has not
  yet taken it), every write of any sequence of writes inside it succeeds, and after \<^verbatim>\<open>vdisk_close\<close> a
  \<^verbatim>\<open>vdisk_open\<close> by the same path and format gives a disk of the same size, of at least the size asked
  for, that reads as zeroes overlaid by those writes in order.\<close>

theorem vdisk_create_write_reopen:
  assumes "vdisk_create_ex_uuid env fs p fmt n flags uuid = (fs', Some d)" and "hostfs_ok fs"
    and "set p \<inter> {CHR 0x00, CHR 0x0A, CHR 0x22} = {}" and "\<forall>u. uuid = Some u \<longrightarrow> 16 \<le> length u"
    and "driver d = Some VDISK_FMT_VDI \<longrightarrow> vdi_room d"
    and "\<forall>(off, bs) \<in> set ws. unat off + length bs \<le> unat (vdisk_get_size d)"
  shows "\<exists>d' d2. run_writes vdisk_write d ws = (d', True) \<and>
    vdisk_open (vdisk_close fs' d') p fmt = Some d2 \<and>
    vdisk_get_size d2 = vdisk_get_size d \<and> unat n \<le> unat (vdisk_get_size d) \<and>
    (\<forall>off k. unat off + k \<le> unat (vdisk_get_size d) \<longrightarrow>
       vdisk_read d2 off k = Some (window (overlay_all (\<lambda>_. 0) ws) (unat off) k))"
proof -
  have b: "vdisk_blank fs' d n" "path d = p" "driver d = Some (vdisk_resolve p fmt)"
    using vdisk_create_blank [OF assms(1-4)] assms(5) by simp_all
  then have l: "vdisk_linked fs' d" "vdisk_inv d" "writable d" "unat n \<le> unat (size_bytes d)"
    and z: "\<forall>i < unat (size_bytes d). vdisk_guest d i = 0"
    by (simp_all add: vdisk_blank_def vdisk_linked_def)
  from vdisk.run_writes_guest [OF l(2,3)] assms(6) obtain d' where
    d': "run_writes vdisk_write d ws = (d', True)" "vdisk_inv d'" "size_bytes d' = size_bytes d"
      "\<forall>i < unat (size_bytes d). vdisk_guest d' i = overlay_all (vdisk_guest d) ws i"
    unfolding vdisk_get_size_def by blast
  note l' = vdisk_linked_run_writes [OF l(1) d'(1)]
  obtain d2 where d2: "vdisk_open (vdisk_close fs' d') p fmt = Some d2" "size_bytes d2 = size_bytes d'"
      "\<forall>off k. vdisk_read d2 off k = vdisk_read d' off k"
    using vdisk_reopen [of fs' d' fmt] l' b(2,3) by auto
  have "window (vdisk_guest d') (unat off) k = window (overlay_all (\<lambda>_. 0) ws) (unat off) k"
    if "unat off + k \<le> unat (size_bytes d)" for off :: u64 and k
    using that d'(4) z overlay_all_cong [of "unat (size_bytes d)" "vdisk_guest d" "\<lambda>_. 0"]
    by (intro window_cong) simp
  with d' d2 l(4) show ?thesis
    by (simp add: vdisk_get_size_def vdisk.rd_spec)
qed

definition demo_env :: vdisk_env where
  "demo_env = \<lparr>env_now = 1700000000, env_seeds = (7, 9), env_vmdk_seed = 11, env_calloc_ok = True\<rparr>"

definition demo_fs :: hostfs where
  "demo_fs = \<lparr>files = Map.empty,
     fresh = (\<lambda>p. Some \<lparr>fname = p, fsize = 0, fdata = (\<lambda>_. 0), flimit = 0x200000, fwr = True\<rparr>)\<rparr>"

lemma demo_fs_ok: "hostfs_ok demo_fs"
  by (simp add: demo_fs_def hostfs_ok_def file_ok_def)

lemma demo_create:
  "\<exists>fs' d. vdisk_create_ex_uuid demo_env demo_fs ''a.img'' VDISK_FMT_AUTO 100 0 None = (fs', Some d) \<and>
     driver d = Some VDISK_FMT_RAW \<and> size_bytes d = 100"
proof -
  have r: "vdisk_resolve ''a.img'' VDISK_FMT_AUTO = VDISK_FMT_RAW" by code_simp
  show ?thesis
    by (simp add: vdisk_create_ex_uuid_def r Let_def fopen_wbp_def demo_fs_def raw_create_def
        vdisk_calloc_def vdisk_host_write_def poke_def vdisk_host_seek_def word_le_nat_alt)
qed

theorem vdisk_create_write_reopen_witness:
  "\<exists>fs' d d' d2. vdisk_create_ex_uuid demo_env demo_fs ''a.img'' VDISK_FMT_AUTO 100 0 None = (fs', Some d) \<and>
     run_writes vdisk_write d [(1, [5, 6]), (2, [7])] = (d', True) \<and>
     vdisk_open (vdisk_close fs' d') ''a.img'' VDISK_FMT_AUTO = Some d2 \<and>
     vdisk_read d2 0 4 = Some [0, 5, 7, 0]"
proof -
  obtain fs' d where d: "vdisk_create_ex_uuid demo_env demo_fs ''a.img'' VDISK_FMT_AUTO 100 0 None = (fs', Some d)"
    "driver d = Some VDISK_FMT_RAW" "size_bytes d = 100" using demo_create by blast
  define ws :: "(u64 \<times> byte list) list" where "ws = [(1, [5, 6]), (2, [7])]"
  have "\<forall>(off, bs) \<in> set ws. unat off + length bs \<le> unat (vdisk_get_size d)"
    by (simp add: ws_def vdisk_get_size_def d(3))
  from vdisk_create_write_reopen [OF d(1) demo_fs_ok _ _ _ this] d(2) obtain d' d2 where
    r: "run_writes vdisk_write d ws = (d', True)"
      "vdisk_open (vdisk_close fs' d') ''a.img'' VDISK_FMT_AUTO = Some d2"
      "\<forall>off k. unat off + k \<le> unat (vdisk_get_size d) \<longrightarrow>
        vdisk_read d2 off k = Some (window (overlay_all (\<lambda>_. 0) ws) (unat off) k)" by auto
  from r(3) [rule_format, of 0 4] have "vdisk_read d2 0 4 = Some [0, 5, 7, 0]"
    by (simp add: vdisk_get_size_def d(3) ws_def window_def overlay_def upt_conv_Cons)
  with d(1) r show ?thesis unfolding ws_def by blast
qed

end
