(* ===== verification/Diskio.thy ===== *)
theory Diskio
  imports Vdisk
begin

text \<open>
  \<^verbatim>\<open>src/diskio.c\<close>: the table of attached images, keyed by device name (\<^verbatim>\<open>/dev/a\<close>), over the image
  library, and the plain host-file access that names outside the table fall back to. The state is the
  host file system and the table; an entry owns its open image. Strings are never null pointers here,
  and a key longer than 31 characters is cut when it is stored, as \<^verbatim>\<open>snprintf\<close> does.

  An open image carries the content of its host file until it is closed. The code attaches a path a second
  time under another key without a check; the two handles then share the file, each with its own buffers and
  block map, which is outside the model: here each sees the file as it was when it was opened. Statements about
  two attached images therefore ask that the paths of their host files differ.

  The theory also has the two interfaces the block layer above uses: \<open>keyed_table\<close>, what a table of
  named entries promises, and \<open>disk_slice\<close>, a window of a flat disk that is a flat disk again.
\<close>

section \<open>Tables of named entries\<close>

text \<open>The tables of \<^verbatim>\<open>diskio.c\<close>, \<^verbatim>\<open>vblk.c\<close>, \<^verbatim>\<open>devmap.c\<close> and \<^verbatim>\<open>blkdevmap.c\<close> have one contract: storing an
  entry makes it the one found under its name and changes nothing else, and storing under a name that
  is taken cannot fail.\<close>

locale keyed_table =
  fixes get :: "'t \<Rightarrow> string \<Rightarrow> 'v option"
    and put :: "'t \<Rightarrow> 'v \<Rightarrow> 't option"
    and key :: "'v \<Rightarrow> string"
    and storable :: "'v \<Rightarrow> bool"
  assumes get_put: "storable v \<Longrightarrow> put t v = Some t' \<Longrightarrow> get t' k = (if k = key v then Some v else get t k)"
    and put_taken: "storable v \<Longrightarrow> get t (key v) \<noteq> None \<Longrightarrow> put t v \<noteq> None"
begin

fun put_all :: "'t \<Rightarrow> 'v list \<Rightarrow> 't option" where
  "put_all t [] = Some t"
| "put_all t (v # vs) = (case put t v of None \<Rightarrow> None | Some t' \<Rightarrow> put_all t' vs)"

lemma get_put_all:
  "\<forall>v \<in> set vs. storable v \<Longrightarrow> put_all t vs = Some t' \<Longrightarrow>
   get t' k = (case find (\<lambda>v. key v = k) (rev vs) of Some v \<Rightarrow> Some v | None \<Rightarrow> get t k)"
proof (induction vs arbitrary: t)
  case (Cons v vs)
  then obtain t1 where t1: "put t v = Some t1" "put_all t1 vs = Some t'" by (auto split: option.splits)
  have "get t1 k = (if k = key v then Some v else get t k)" using get_put [OF _ t1(1)] Cons.prems(1) by simp
  moreover have f: "find P (xs @ [x]) = (case find P xs of Some y \<Rightarrow> Some y | None \<Rightarrow> if P x then Some x else None)"
    for P and xs :: "'v list" and x by (induction xs) auto
  ultimately show ?case using Cons.IH [OF _ t1(2)] Cons.prems(1) by (auto simp: f split: option.splits)
qed simp

lemma put_overwrites: "storable v \<Longrightarrow> storable w \<Longrightarrow> key v = key w \<Longrightarrow> put t v = Some t1 \<Longrightarrow>
  \<exists>t2. put t1 w = Some t2 \<and> (\<forall>k. get t2 k = (if k = key w then Some w else get t k))"
  using put_taken [of w t1] get_put [of v t t1] get_put [of w t1] by fastforce

end

section \<open>The first entry that matches\<close>

fun find_index :: "('a \<Rightarrow> bool) \<Rightarrow> 'a list \<Rightarrow> nat option" where
  "find_index P [] = None"
| "find_index P (x # xs) = (if P x then Some 0 else map_option Suc (find_index P xs))"

lemma find_index_SomeD:
  "find_index P xs = Some i \<Longrightarrow> i < length xs \<and> P (xs ! i) \<and> (\<forall>j < i. \<not> P (xs ! j))"
proof (induction xs arbitrary: i)
  case (Cons x xs)
  then show ?case by (cases i) (auto simp: less_Suc_eq_0_disj split: if_splits)
qed simp

lemma find_index_None: "find_index P xs = None \<longleftrightarrow> (\<forall>x \<in> set xs. \<not> P x)"
  by (induction xs) auto

lemma find_index_SomeI:
  "i < length xs \<Longrightarrow> P (xs ! i) \<Longrightarrow> (\<forall>j < i. \<not> P (xs ! j)) \<Longrightarrow> find_index P xs = Some i"
proof (induction xs arbitrary: i)
  case (Cons x xs)
  show ?case
  proof (cases i)
    case (Suc m)
    moreover have "find_index P xs = Some m" using Cons.prems Suc by (intro Cons.IH) auto
    ultimately show ?thesis using Cons.prems by auto
  qed (use Cons.prems in simp)
qed simp

lemma find_index_append: "find_index P (xs @ ys) =
    (case find_index P xs of Some i \<Rightarrow> Some i | None \<Rightarrow> map_option (\<lambda>i. i + length xs) (find_index P ys))"
  by (induction xs) (auto split: option.splits simp: option.map_comp comp_def option.map_ident)

text \<open>Replacing the first match of one predicate does not move the first match of another that holds
  of neither the old nor the new entry.\<close>

lemma find_index_update:
  "\<not> P (xs ! i) \<Longrightarrow> \<not> P x \<Longrightarrow> find_index P (xs[i := x]) = find_index P xs"
proof (induction xs arbitrary: i)
  case (Cons y ys)
  then show ?case by (cases i) auto
qed simp

lemma find_index_update_hit:
  "find_index P xs = Some i \<Longrightarrow> P x \<Longrightarrow> find_index P (xs[i := x]) = Some i"
proof (induction xs arbitrary: i)
  case (Cons y ys)
  then show ?case by (cases i) (auto split: if_splits)
qed simp

lemma find_index_put:
  assumes "find_index (\<lambda>e. key e = key v) m = Some i"
  shows "map_option (nth (m[i := v])) (find_index (\<lambda>e. key e = k) (m[i := v])) =
    (if k = key v then Some v else map_option (nth m) (find_index (\<lambda>e. key e = k) m))"
proof -
  note h = find_index_SomeD [OF assms]
  show ?thesis
  proof (cases "k = key v")
    case True
    with find_index_update_hit [OF assms, of v] h show ?thesis by simp
  next
    case False
    with h have e: "find_index (\<lambda>e. key e = k) (m[i := v]) = find_index (\<lambda>e. key e = k) m"
      by (intro find_index_update) auto
    have "m[i := v] ! j = m ! j" if "find_index (\<lambda>e. key e = k) m = Some j" for j
      using find_index_SomeD [OF that] h False by (cases "j = i") auto
    with False e show ?thesis by (auto simp: map_option_case split: option.splits)
  qed
qed

lemma find_index_push:
  assumes "find_index (\<lambda>e. key e = key v) m = None"
  shows "map_option (nth (m @ [v])) (find_index (\<lambda>e. key e = k) (m @ [v])) =
    (if k = key v then Some v else map_option (nth m) (find_index (\<lambda>e. key e = k) m))"
  using assms
  by (auto simp: find_index_append nth_append split: option.splits dest: find_index_SomeD)

section \<open>Windows of a disk\<close>

text \<open>Part of a disk, from byte \<open>base\<close> and \<open>len\<close> bytes long, addressed from its own start, is again a
  flat disk; two parts that do not overlap never see each other's writes.\<close>

locale disk_slice = block_image rd wr sz wrt guest inv
  for rd :: "'d \<Rightarrow> u64 \<Rightarrow> nat \<Rightarrow> byte list option"
    and wr :: "'d \<Rightarrow> u64 \<Rightarrow> byte list \<Rightarrow> 'd \<times> bool"
    and sz :: "'d \<Rightarrow> u64"
    and wrt :: "'d \<Rightarrow> bool"
    and guest :: "'d \<Rightarrow> nat \<Rightarrow> byte"
    and inv :: "'d \<Rightarrow> bool" +
  fixes base len :: u64 and rdonly :: bool
begin

definition slice_ok :: "'d \<Rightarrow> bool" where
  "slice_ok d \<longleftrightarrow> inv d \<and> unat base + unat len \<le> unat (sz d)"

definition slice_rd :: "'d \<Rightarrow> u64 \<Rightarrow> nat \<Rightarrow> byte list option" where
  "slice_rd d off n = (if off > len \<or> n > unat (len - off) then None else rd d (base + off) n)"

definition slice_wr :: "'d \<Rightarrow> u64 \<Rightarrow> byte list \<Rightarrow> 'd \<times> bool" where
  "slice_wr d off bs = (if rdonly then (d, False)
     else if off > len \<or> length bs > unat (len - off) then (d, False) else wr d (base + off) bs)"

lemma slice_range: "\<not> (off > len \<or> n > unat (len - off)) \<longleftrightarrow> unat off + n \<le> unat len"
  by (auto simp: word_less_nat_alt unat_sub_if')

lemma slice_offset: "slice_ok d \<Longrightarrow> unat off + n \<le> unat len \<Longrightarrow> unat (base + off) = unat base + unat off"
  using le_unat_u64 [of "unat base + unat off" "sz d"] by (simp add: slice_ok_def unat_add_small)

lemma slice_outside:
  assumes "slice_ok d" and "slice_wr d off bs = (d', ok)"
  shows "inv d' \<and> sz d' = sz d \<and>
    (\<forall>i < unat (sz d). i < unat base \<or> unat base + unat len \<le> i \<longrightarrow> guest d' i = guest d i)"
proof -
  have i: "inv d" using assms(1) by (simp add: slice_ok_def)
  consider "d' = d" | "unat off + length bs \<le> unat len" "wr d (base + off) bs = (d', ok)"
    using assms(2) slice_range [of off "length bs"] by (auto simp: slice_wr_def split: if_splits)
  then show ?thesis
  proof cases
    case 2
    note o = slice_offset [OF assms(1) 2(1)]
    from i show ?thesis
    proof (cases rule: wr_cases [of d "base + off" bs])
      case (accepted d'')
      with 2 o show ?thesis by (auto simp: overlay_def)
    qed (use 2 i in simp)
  qed (use i in simp)
qed

end

sublocale disk_slice \<subseteq> slice: block_image slice_rd slice_wr "\<lambda>d. len" "\<lambda>d. \<not> rdonly \<and> wrt d"
  "\<lambda>d i. guest d (unat base + i)" slice_ok
proof unfold_locales
  fix d :: 'd and off :: u64 and n assume k: "slice_ok d"
  show "slice_rd d off n = (if unat off + n \<le> unat len
      then Some (window (\<lambda>i. guest d (unat base + i)) (unat off) n) else None)"
  proof (cases "unat off + n \<le> unat len")
    case True
    note o = slice_offset [OF k True]
    have "inv d" "unat (base + off) + n \<le> unat (sz d)" using k True o by (simp_all add: slice_ok_def)
    then have "rd d (base + off) n = Some (window (guest d) (unat base + unat off) n)"
      by (simp add: rd_spec o)
    also have "window (guest d) (unat base + unat off) n = window (\<lambda>i. guest d (unat base + i)) (unat off) n"
      by (intro nth_equalityI) (auto simp: add.assoc)
    finally show ?thesis using True slice_range [of off n] by (auto simp: slice_rd_def)
  qed (use slice_range [of off n] in \<open>auto simp: slice_rd_def\<close>)
next
  fix d :: 'd and off :: u64 and bs :: "byte list"
  assume k: "slice_ok d" and r: "\<not> ((\<not> rdonly \<and> wrt d) \<and> unat off + length bs \<le> unat len)"
  show "slice_wr d off bs = (d, False)"
  proof (cases "\<not> rdonly \<and> unat off + length bs \<le> unat len")
    case True
    with r k have "wr d (base + off) bs = (d, False)" by (intro wr_reject) (auto simp: slice_ok_def)
    with True slice_range [of off "length bs"] show ?thesis unfolding slice_wr_def by auto
  next
    case False
    with slice_range [of off "length bs"] show ?thesis unfolding slice_wr_def by auto
  qed
next
  fix d :: 'd and off :: u64 and bs :: "byte list"
  assume k: "slice_ok d" and w: "\<not> rdonly \<and> wrt d" and r: "unat off + length bs \<le> unat len"
  note o = slice_offset [OF k r]
  have "inv d" "unat (base + off) + length bs \<le> unat (sz d)" using k r o by (simp_all add: slice_ok_def)
  from wr_accept [OF this(1) _ this(2)] w obtain d' where d': "wr d (base + off) bs = (d', True)" "inv d'"
    "wrt d'" "sz d' = sz d" "\<forall>i < unat (sz d). guest d' i = overlay (guest d) (unat (base + off)) bs i" by blast
  have "guest d' (unat base + i) = overlay (\<lambda>i. guest d (unat base + i)) (unat off) bs i"
    if "i < unat len" for i
  proof -
    have "unat base + i < unat (sz d)" using that k by (simp add: slice_ok_def)
    with d'(5) o show ?thesis by (auto simp: overlay_def)
  qed
  moreover have "slice_wr d off bs = (d', True)"
    using d'(1) w r slice_range [of off "length bs"] unfolding slice_wr_def by auto
  moreover have "slice_ok d'" using d'(2,4) k by (simp add: slice_ok_def)
  ultimately show "\<exists>d'. slice_wr d off bs = (d', True) \<and> slice_ok d' \<and>
      (\<not> rdonly \<and> wrt d') \<and> len = len \<and>
      (\<forall>i < unat len. guest d' (unat base + i) = overlay (\<lambda>i. guest d (unat base + i)) (unat off) bs i)"
    using d'(3) w by blast
qed

section \<open>Host files by path\<close>

definition file_pread :: "hostfs \<Rightarrow> nat \<Rightarrow> u64 \<Rightarrow> string \<Rightarrow> byte list option" where
  "file_pread fs n off p = (case fopen_rb fs p of None \<Rightarrow> None | Some f \<Rightarrow> vdisk_host_read f off n)"

definition file_pwrite :: "hostfs \<Rightarrow> byte list \<Rightarrow> u64 \<Rightarrow> string \<Rightarrow> hostfs \<times> bool" where
  "file_pwrite fs bs off p =
     (case fopen_rbp fs p of None \<Rightarrow> (fs, False)
      | Some f \<Rightarrow> (case vdisk_host_write f off bs of (f', ok) \<Rightarrow> (fclose fs f', ok)))"

definition filesize_bytes :: "hostfs \<Rightarrow> string \<Rightarrow> u64" where
  "filesize_bytes fs p = (case files fs p of None \<Rightarrow> 0 | Some f \<Rightarrow> of_nat (fsize f))"

section \<open>Attached images\<close>

definition DISKIO_MAX_MAP :: nat where "DISKIO_MAX_MAP = 64"

record diskio_map_entry =
  dkey :: string
  dpath :: string
  ddisk :: "vdisk option"

record dio =
  dfs :: hostfs
  g_map :: "diskio_map_entry list"

definition map_find_index :: "diskio_map_entry list \<Rightarrow> string \<Rightarrow> nat option" where
  "map_find_index m devkey = find_index (\<lambda>e. dkey e = devkey) m"

definition is_devkey :: "string \<Rightarrow> bool" where
  "is_devkey s \<longleftrightarrow> take 5 s = ''/dev/''"

text \<open>The entry of a name, replaced where the name is taken and appended otherwise, unless the table
  is full.\<close>

definition diskio_put :: "diskio_map_entry list \<Rightarrow> diskio_map_entry \<Rightarrow> diskio_map_entry list option" where
  "diskio_put m e =
     (case map_find_index m (dkey e) of
        Some idx \<Rightarrow> Some (m[idx := e])
      | None \<Rightarrow> if DISKIO_MAX_MAP \<le> length m then None else Some (m @ [e]))"

definition diskio_attach_image :: "dio \<Rightarrow> string \<Rightarrow> string \<Rightarrow> dio \<times> u64 option" where
  "diskio_attach_image st devkey p =
     (if devkey = [] \<or> p = [] then (st, None)
      else case vdisk_open (dfs st) p VDISK_FMT_AUTO of None \<Rightarrow> (st, None)
        | Some d \<Rightarrow>
          let n = vdisk_get_size d;
              e = \<lparr>dkey = take 31 devkey, dpath = take 511 p, ddisk = Some d\<rparr>
          in if n = 0 then (st\<lparr>dfs := vdisk_close (dfs st) d\<rparr>, None)
             else case map_find_index (g_map st) devkey of
                 None \<Rightarrow> if DISKIO_MAX_MAP \<le> length (g_map st)
                         then (st\<lparr>dfs := vdisk_close (dfs st) d\<rparr>, None)
                         else (st\<lparr>g_map := g_map st @ [e]\<rparr>, Some n)
               | Some idx \<Rightarrow>
                   let fs = (case ddisk (g_map st ! idx) of None \<Rightarrow> dfs st | Some old \<Rightarrow> vdisk_close (dfs st) old)
                   in (st\<lparr>dfs := fs, g_map := (g_map st)[idx := e]\<rparr>, Some n))"

definition diskio_detach :: "dio \<Rightarrow> string \<Rightarrow> dio \<times> bool" where
  "diskio_detach st devkey =
     (case map_find_index (g_map st) devkey of None \<Rightarrow> (st, False)
      | Some idx \<Rightarrow>
          let fs = (case ddisk (g_map st ! idx) of None \<Rightarrow> dfs st | Some d \<Rightarrow> vdisk_close (dfs st) d)
          in (st\<lparr>dfs := fs, g_map := take idx (g_map st) @ drop (idx + 1) (g_map st)\<rparr>, True))"

definition diskio_resolve :: "dio \<Rightarrow> string \<Rightarrow> string option" where
  "diskio_resolve st devkey =
     (case map_find_index (g_map st) devkey of
        Some idx \<Rightarrow> Some (dpath (g_map st ! idx))
      | None \<Rightarrow> if is_devkey devkey then None else if devkey \<noteq> [] then Some devkey else None)"

definition attached_disk :: "dio \<Rightarrow> string \<Rightarrow> (nat \<times> vdisk) option" where
  "attached_disk st devkey =
     (case map_find_index (g_map st) devkey of None \<Rightarrow> None
      | Some idx \<Rightarrow> (case ddisk (g_map st ! idx) of None \<Rightarrow> None | Some d \<Rightarrow> Some (idx, d)))"

definition diskio_pread :: "dio \<Rightarrow> string \<Rightarrow> u64 \<Rightarrow> nat \<Rightarrow> byte list option" where
  "diskio_pread st devkey off n =
     (case attached_disk st devkey of
        Some (idx, d) \<Rightarrow> vdisk_read d off n
      | None \<Rightarrow> (case diskio_resolve st devkey of None \<Rightarrow> None | Some p \<Rightarrow> file_pread (dfs st) n off p))"

definition diskio_pwrite :: "dio \<Rightarrow> string \<Rightarrow> u64 \<Rightarrow> byte list \<Rightarrow> dio \<times> bool" where
  "diskio_pwrite st devkey off bs =
     (case attached_disk st devkey of
        Some (idx, d) \<Rightarrow>
          (case vdisk_write d off bs of (d', ok) \<Rightarrow>
             (st\<lparr>g_map := (g_map st)[idx := (g_map st ! idx)\<lparr>ddisk := Some d'\<rparr>]\<rparr>, ok))
      | None \<Rightarrow>
          (case diskio_resolve st devkey of None \<Rightarrow> (st, False)
           | Some p \<Rightarrow> (case file_pwrite (dfs st) bs off p of (fs, ok) \<Rightarrow> (st\<lparr>dfs := fs\<rparr>, ok))))"

definition diskio_flush :: "dio \<Rightarrow> string \<Rightarrow> dio \<times> bool" where
  "diskio_flush st devkey =
     (case attached_disk st devkey of
        Some (idx, d) \<Rightarrow> (case vdisk_flush (dfs st) d of (fs, ok) \<Rightarrow> (st\<lparr>dfs := fs\<rparr>, ok))
      | None \<Rightarrow> (st, \<not> is_devkey devkey))"

definition diskio_size_bytes :: "dio \<Rightarrow> string \<Rightarrow> u64" where
  "diskio_size_bytes st devkey =
     (case attached_disk st devkey of
        Some (idx, d) \<Rightarrow> vdisk_get_size d
      | None \<Rightarrow> (case diskio_resolve st devkey of None \<Rightarrow> 0 | Some p \<Rightarrow> filesize_bytes (dfs st) p))"

section \<open>The table\<close>

definition diskio_lookup :: "diskio_map_entry list \<Rightarrow> string \<Rightarrow> diskio_map_entry option" where
  "diskio_lookup m devkey = map_option (\<lambda>i. m ! i) (map_find_index m devkey)"

interpretation diskio: keyed_table diskio_lookup diskio_put dkey "\<lambda>e. length (dkey e) < 32"
proof unfold_locales
  fix v :: diskio_map_entry and t t' k assume p: "diskio_put t v = Some t'"
  show "diskio_lookup t' k = (if k = dkey v then Some v else diskio_lookup t k)"
  proof (cases "map_find_index t (dkey v)")
    case None
    with p find_index_push [of dkey v t k] show ?thesis
      by (simp add: diskio_put_def diskio_lookup_def map_find_index_def split: if_splits)
  next
    case (Some i)
    with p find_index_put [of dkey v t i k] show ?thesis
      by (simp add: diskio_put_def diskio_lookup_def map_find_index_def)
  qed
next
  fix v :: diskio_map_entry and t assume "diskio_lookup t (dkey v) \<noteq> None"
  then show "diskio_put t v \<noteq> None" by (auto simp: diskio_put_def diskio_lookup_def split: option.splits)
qed

text \<open>An attachment is a store into that table, for a key that fits.\<close>

lemma diskio_attach_put:
  assumes "diskio_attach_image st devkey p = (st', Some n)" and "length devkey < 32"
  obtains d where "vdisk_open (dfs st) p VDISK_FMT_AUTO = Some d" and "vdisk_get_size d = n" and "n \<noteq> 0"
    and "diskio_put (g_map st) \<lparr>dkey = devkey, dpath = take 511 p, ddisk = Some d\<rparr> = Some (g_map st')"
proof -
  have ne: "\<not> (devkey = [] \<or> p = [])" using assms(1) by (auto simp: diskio_attach_image_def)
  obtain d where d: "vdisk_open (dfs st) p VDISK_FMT_AUTO = Some d"
    using assms(1) ne by (cases "vdisk_open (dfs st) p VDISK_FMT_AUTO") (auto simp: diskio_attach_image_def)
  have n: "vdisk_get_size d = n" "n \<noteq> 0"
    using assms(1) ne d by (auto simp: diskio_attach_image_def Let_def split: if_splits option.splits)
  show thesis
  proof (cases "map_find_index (g_map st) devkey")
    case None
    with assms ne d n show thesis
      by (intro that [OF d n]) (auto simp: diskio_attach_image_def Let_def diskio_put_def split: if_splits)
  next
    case (Some idx)
    with assms ne d n show thesis
      by (intro that [OF d n]) (auto simp: diskio_attach_image_def Let_def diskio_put_def)
  qed
qed

lemma attached_lookup: "attached_disk st k = Some (i, d) \<Longrightarrow>
  i < length (g_map st) \<and> map_find_index (g_map st) k = Some i \<and> ddisk (g_map st ! i) = Some d \<and>
  dkey (g_map st ! i) = k"
  by (auto simp: attached_disk_def map_find_index_def split: option.splits dest: find_index_SomeD)

lemma attached_after_attach:
  assumes "diskio_attach_image st devkey p = (st', Some n)" and "length devkey < 32"
  shows "\<exists>i d. vdisk_open (dfs st) p VDISK_FMT_AUTO = Some d \<and> size_bytes d = n \<and>
    attached_disk st' devkey = Some (i, d)"
  using assms
proof (rule diskio_attach_put)
  fix d assume d: "vdisk_open (dfs st) p VDISK_FMT_AUTO = Some d" "vdisk_get_size d = n"
    and put: "diskio_put (g_map st) \<lparr>dkey = devkey, dpath = take 511 p, ddisk = Some d\<rparr> = Some (g_map st')"
  from diskio.get_put [OF _ put, of devkey] assms(2) obtain i where
    "map_find_index (g_map st') devkey = Some i" "ddisk (g_map st' ! i) = Some d"
    by (auto simp: diskio_lookup_def)
  with d show ?thesis by (auto simp: attached_disk_def vdisk_get_size_def)
qed

text \<open>A write to an attached image changes that image and nothing else.\<close>

lemma diskio_pwrite_attached:
  assumes "attached_disk st k = Some (i, d)" and "vdisk_write d off bs = (d', ok)"
  shows "diskio_pwrite st k off bs = (st\<lparr>g_map := (g_map st)[i := (g_map st ! i)\<lparr>ddisk := Some d'\<rparr>]\<rparr>, ok)"
    and "attached_disk (fst (diskio_pwrite st k off bs)) k = Some (i, d')"
    and "k2 \<noteq> k \<Longrightarrow> attached_disk (fst (diskio_pwrite st k off bs)) k2 = attached_disk st k2"
proof -
  note a = attached_lookup [OF assms(1)]
  let ?e = "(g_map st ! i)\<lparr>ddisk := Some d'\<rparr>"
  let ?m = "(g_map st)[i := ?e]"
  show w: "diskio_pwrite st k off bs = (st\<lparr>g_map := ?m\<rparr>, ok)"
    using assms by (simp add: diskio_pwrite_def)
  have k: "dkey ?e = k" using a by simp
  have f: "find_index (\<lambda>e. dkey e = dkey ?e) (g_map st) = Some i" using a k by (simp add: map_find_index_def)
  have "find_index (\<lambda>e. dkey e = k) ?m = Some i"
    using find_index_update_hit [of "\<lambda>e. dkey e = k" "g_map st" i ?e] a by (simp add: map_find_index_def)
  then show "attached_disk (fst (diskio_pwrite st k off bs)) k = Some (i, d')"
    using a by (simp add: w attached_disk_def map_find_index_def)
  show "attached_disk (fst (diskio_pwrite st k off bs)) k2 = attached_disk st k2" if "k2 \<noteq> k"
  proof -
    have e: "find_index (\<lambda>e. dkey e = k2) ?m = find_index (\<lambda>e. dkey e = k2) (g_map st)"
      using a that by (intro find_index_update) auto
    moreover have "?m ! j = g_map st ! j" if "find_index (\<lambda>e. dkey e = k2) (g_map st) = Some j" for j
      using find_index_SomeD [OF that] a \<open>k2 \<noteq> k\<close> by (cases "j = i") auto
    ultimately show ?thesis
      by (auto simp: w attached_disk_def map_find_index_def split: option.splits)
  qed
qed

section \<open>An attached image as a flat disk\<close>

definition dio_disk :: "dio \<times> string \<Rightarrow> vdisk" where
  "dio_disk s = snd (the (attached_disk (fst s) (snd s)))"

definition dio_inv :: "dio \<times> string \<Rightarrow> bool" where
  "dio_inv s \<longleftrightarrow> attached_disk (fst s) (snd s) \<noteq> None \<and> vdisk_inv (dio_disk s)"

definition dio_read :: "dio \<times> string \<Rightarrow> u64 \<Rightarrow> nat \<Rightarrow> byte list option" where
  "dio_read s = diskio_pread (fst s) (snd s)"

definition dio_write :: "dio \<times> string \<Rightarrow> u64 \<Rightarrow> byte list \<Rightarrow> (dio \<times> string) \<times> bool" where
  "dio_write s off bs = (case diskio_pwrite (fst s) (snd s) off bs of (st, ok) \<Rightarrow> ((st, snd s), ok))"

lemma dio_invE:
  assumes "dio_inv s"
  obtains st k i d where "s = (st, k)" and "attached_disk st k = Some (i, d)" and "vdisk_inv d" and "dio_disk s = d"
  using assms by (cases s) (auto simp: dio_inv_def dio_disk_def)

interpretation dio: block_image dio_read dio_write "\<lambda>s. size_bytes (dio_disk s)" "\<lambda>s. writable (dio_disk s)"
  "\<lambda>s. vdisk_guest (dio_disk s)" dio_inv
proof unfold_locales
  fix s and off :: u64 and n assume "dio_inv s"
  then obtain st k i d where s: "s = (st, k)" "attached_disk st k = Some (i, d)" "vdisk_inv d" "dio_disk s = d"
    by (rule dio_invE)
  then show "dio_read s off n = (if unat off + n \<le> unat (size_bytes (dio_disk s))
      then Some (window (vdisk_guest (dio_disk s)) (unat off) n) else None)"
    by (simp add: dio_read_def diskio_pread_def vdisk.rd_spec)
next
  fix s and off :: u64 and bs :: "byte list" assume i: "dio_inv s"
    and r: "\<not> (writable (dio_disk s) \<and> unat off + length bs \<le> unat (size_bytes (dio_disk s)))"
  from i obtain st k i d where s: "s = (st, k)" "attached_disk st k = Some (i, d)" "vdisk_inv d" "dio_disk s = d"
    by (rule dio_invE)
  note a = attached_lookup [OF s(2)]
  have "vdisk_write d off bs = (d, False)" using vdisk.wr_reject [OF s(3)] r s(4) by simp
  note w = diskio_pwrite_attached(1) [OF s(2) this]
  have "(g_map st ! i)\<lparr>ddisk := Some d\<rparr> = g_map st ! i" using a by (cases "g_map st ! i") simp
  with w show "dio_write s off bs = (s, False)" by (simp add: dio_write_def s(1))
next
  fix s and off :: u64 and bs :: "byte list" assume i: "dio_inv s" and w: "writable (dio_disk s)"
    and r: "unat off + length bs \<le> unat (size_bytes (dio_disk s))"
  from i obtain st k i d where s: "s = (st, k)" "attached_disk st k = Some (i, d)" "vdisk_inv d" "dio_disk s = d"
    by (rule dio_invE)
  from vdisk.wr_accept [OF s(3)] w r s(4) obtain d' where d': "vdisk_write d off bs = (d', True)" "vdisk_inv d'"
    "writable d'" "size_bytes d' = size_bytes d"
    "\<forall>i < unat (size_bytes d). vdisk_guest d' i = overlay (vdisk_guest d) (unat off) bs i" by blast
  note p = diskio_pwrite_attached(1,2) [OF s(2) d'(1)]
  obtain st' where st': "diskio_pwrite st k off bs = (st', True)" using p(1) by simp
  then have "attached_disk st' k = Some (i, d')" using p(2) by simp
  then have "dio_disk (st', k) = d'" "dio_inv (st', k)" using d'(2) by (simp_all add: dio_disk_def dio_inv_def)
  moreover have "dio_write s off bs = ((st', k), True)" by (simp add: dio_write_def s(1) st')
  ultimately show "\<exists>s'. dio_write s off bs = (s', True) \<and> dio_inv s' \<and> writable (dio_disk s') \<and>
      size_bytes (dio_disk s') = size_bytes (dio_disk s) \<and>
      (\<forall>i < unat (size_bytes (dio_disk s)). vdisk_guest (dio_disk s') i = overlay (vdisk_guest (dio_disk s)) (unat off) bs i)"
    using d' s(4) by auto
qed

section \<open>Detaching and attaching again\<close>

lemma diskio_attach_some:
  assumes "devkey \<noteq> []" and "p \<noteq> []" and "length devkey < 32" and "length (g_map st) < DISKIO_MAX_MAP"
    and "vdisk_open (dfs st) p VDISK_FMT_AUTO = Some d" and "size_bytes d \<noteq> 0"
  shows "\<exists>st' i. diskio_attach_image st devkey p = (st', Some (size_bytes d)) \<and> attached_disk st' devkey = Some (i, d)"
proof -
  obtain st' where a: "diskio_attach_image st devkey p = (st', Some (size_bytes d))"
    using assms by (cases "map_find_index (g_map st) devkey")
      (auto simp: diskio_attach_image_def Let_def vdisk_get_size_def)
  from attached_after_attach [OF this assms(3)] assms(5) a show ?thesis by auto
qed

text \<open>C23. A write to an attached image survives detaching it. For an image linked to its host file (as
  every created one is), after \<^verbatim>\<open>diskio_pwrite\<close> and \<^verbatim>\<open>diskio_detach\<close> the same path can be attached again
  under any device name that fits, with the same size; reading the written range gives the data, and every
  range apart from it reads as before the write.\<close>

theorem diskio_write_survives_detach:
  assumes "attached_disk st k = Some (i, d)" and "vdisk_linked (dfs st) d"
    and "driver d = Some (vdisk_resolve (path d) VDISK_FMT_AUTO)"
    and "size_bytes d \<noteq> 0" and "path d \<noteq> []" and "length (g_map st) \<le> DISKIO_MAX_MAP"
    and "diskio_pwrite st k off bs = (st1, True)"
    and "k2 \<noteq> []" and "length k2 < 32"
  shows "\<exists>st2 st3. diskio_detach st1 k = (st2, True) \<and>
    diskio_attach_image st2 k2 (path d) = (st3, Some (size_bytes d)) \<and>
    diskio_pread st3 k2 off (length bs) = Some bs \<and>
    (\<forall>o2 n. unat o2 + n \<le> unat off \<or> unat off + length bs \<le> unat o2 \<longrightarrow>
       diskio_pread st3 k2 o2 n = diskio_pread st k o2 n)"
proof -
  note a = attached_lookup [OF assms(1)]
  obtain d1 ok where w: "vdisk_write d off bs = (d1, ok)" by force
  note p = diskio_pwrite_attached(1,2) [OF assms(1) w]
  with assms(7) have ok: "ok" and st1: "st1 = st\<lparr>g_map := (g_map st)[i := (g_map st ! i)\<lparr>ddisk := Some d1\<rparr>]\<rparr>"
    and a1: "attached_disk st1 k = Some (i, d1)" by auto
  note w = w [unfolded eqTrueI [OF ok]]
  have inv: "vdisk_inv d" using assms(2) by (simp add: vdisk_linked_def)
  have l1: "vdisk_linked (dfs st) d1" using vdisk_linked_write [OF assms(2) w] .
  have h: "path d1 = path d" "driver d1 = driver d" using vdisk_write_handle [OF w] by (simp_all add: same_handle_def)
  have sz: "size_bytes d1 = size_bytes d" using vdisk.wr_inv [OF inv, of off bs] w by simp
  define st2 where "st2 = st1\<lparr>dfs := vdisk_close (dfs st) d1, g_map := take i (g_map st1) @ drop (i + 1) (g_map st1)\<rparr>"
  have det: "diskio_detach st1 k = (st2, True)"
    using attached_lookup [OF a1] by (simp add: diskio_detach_def st2_def st1)
  obtain d2 where d2: "vdisk_open (dfs st2) (path d) VDISK_FMT_AUTO = Some d2" "size_bytes d2 = size_bytes d"
    "\<And>o2 n. vdisk_read d2 o2 n = vdisk_read d1 o2 n"
    using vdisk_reopen [OF l1, of VDISK_FMT_AUTO] assms(3) h sz by (auto simp: st2_def)
  have "length (g_map st2) < DISKIO_MAX_MAP" using a assms(6) by (simp add: st2_def st1 DISKIO_MAX_MAP_def)
  from diskio_attach_some [OF assms(8,5,9) this d2(1)] assms(4) d2(2) obtain st3 j where
    at: "diskio_attach_image st2 k2 (path d) = (st3, Some (size_bytes d))" "attached_disk st3 k2 = Some (j, d2)"
    by auto
  have "diskio_pread st3 k2 o2 n = vdisk_read d1 o2 n" for o2 n
    using at(2) d2(3) by (simp add: diskio_pread_def)
  moreover have "diskio_pread st k o2 n = vdisk_read d o2 n" for o2 n
    using assms(1) by (simp add: diskio_pread_def)
  ultimately show ?thesis
    using det at(1) vdisk.read_after_write [OF inv w] vdisk.read_elsewhere [OF inv w] by auto
qed

text \<open>A created raw image, attached.\<close>

lemma demo_created:
  obtains fs' d where "vdisk_create_ex_uuid demo_env demo_fs ''a.img'' VDISK_FMT_AUTO 100 0 None = (fs', Some d)"
    and "vdisk_linked fs' d" and "driver d = Some VDISK_FMT_RAW" and "size_bytes d = 100" and "path d = ''a.img''"
proof -
  obtain fs' d where d: "vdisk_create_ex_uuid demo_env demo_fs ''a.img'' VDISK_FMT_AUTO 100 0 None = (fs', Some d)"
    "driver d = Some VDISK_FMT_RAW" "size_bytes d = 100" using demo_create by blast
  from vdisk_create_blank [OF d(1) demo_fs_ok] d(2) have "vdisk_blank fs' d 100" "path d = ''a.img''" by auto
  with d that show thesis by (simp add: vdisk_blank_def)
qed

theorem diskio_write_survives_detach_witness:
  "\<exists>st st1 st2 st3. diskio_pwrite st ''/dev/a'' 7 [1, 2] = (st1, True) \<and> diskio_detach st1 ''/dev/a'' = (st2, True) \<and>
     diskio_attach_image st2 ''/dev/b'' ''a.img'' = (st3, Some 100) \<and> diskio_pread st3 ''/dev/b'' 7 2 = Some [1, 2]"
proof (rule demo_created)
  fix fs' d
  assume d: "vdisk_linked fs' d" "driver d = Some VDISK_FMT_RAW" "size_bytes d = 100" "path d = ''a.img''"
    and c: "vdisk_create_ex_uuid demo_env demo_fs ''a.img'' VDISK_FMT_AUTO 100 0 None = (fs', Some d)"
  let ?st = "\<lparr>dfs = fs', g_map = [\<lparr>dkey = ''/dev/a'', dpath = ''a.img'', ddisk = Some d\<rparr>]\<rparr>"
  have a: "attached_disk ?st ''/dev/a'' = Some (0, d)" by (simp add: attached_disk_def map_find_index_def)
  have w: "writable d" "vdisk_inv d"
    using vdisk_create_blank [OF c demo_fs_ok] d(1,2) by (auto simp: vdisk_blank_def vdisk_linked_def)
  obtain d1 where "vdisk_write d 7 [1, 2] = (d1, True)" using vdisk.wr_accept [OF w(2,1), of 7 "[1, 2]"] d(3) by auto
  from diskio_pwrite_attached(1) [OF a this] obtain st1 where st1: "diskio_pwrite ?st ''/dev/a'' 7 [1, 2] = (st1, True)" by blast
  have r: "vdisk_resolve ''a.img'' VDISK_FMT_AUTO = VDISK_FMT_RAW" by code_simp
  from diskio_write_survives_detach [OF a _ _ _ _ _ st1, of "''/dev/b''"] d r obtain st2 st3 where
    "diskio_detach st1 ''/dev/a'' = (st2, True)" "diskio_attach_image st2 ''/dev/b'' ''a.img'' = (st3, Some 100)"
    "diskio_pread st3 ''/dev/b'' 7 (length [1 :: byte, 2]) = Some [1, 2]"
    by (auto simp: DISKIO_MAX_MAP_def)
  with st1 show ?thesis by (auto simp: numeral_2_eq_2)
qed

end
