(* ===== verification/Vblk.thy ===== *)
theory Vblk
  imports Diskio
begin

text \<open>
  \<^verbatim>\<open>src/vblk.c\<close>: the registry of block devices (whole disks and partitions) and the device-relative
  I/O that adds a partition's start. The registry is the list of the used slots of \<^verbatim>\<open>g_vblk\<close>; a slot
  whose name is empty is free. Lengths of transfers are 32-bit in the code and natural numbers here.

  The lemmas show that the registry refines a map from names to devices, that the block loop is one
  transfer, and that a partition is a flat disk of its own: it never reads or writes outside its range.
\<close>

section \<open>The registry\<close>

definition VBLK_MAX :: nat where "VBLK_MAX = 256"
definition LSEC :: u64 where "LSEC = 512"

record vblk =
  vname :: string
  vdev :: string
  part_index :: int
  fstype :: string
  lba_start :: u64
  lba_size :: u64
  block_bytes :: u32
  ro :: bool

definition vblk_zero :: vblk where
  "vblk_zero = \<lparr>vname = [], vdev = [], part_index = 0, fstype = [], lba_start = 0, lba_size = 0,
     block_bytes = 0, ro = False\<rparr>"

definition find_by_name :: "vblk list \<Rightarrow> string \<Rightarrow> nat option" where
  "find_by_name g n = find_index (\<lambda>e. vname e \<noteq> [] \<and> vname e = n) g"

definition vblk_by_name :: "vblk list \<Rightarrow> string \<Rightarrow> vblk option" where
  "vblk_by_name g n = map_option (nth g) (find_by_name g n)"

definition vblk_register :: "vblk list \<Rightarrow> vblk \<Rightarrow> vblk list \<times> int" where
  "vblk_register g e =
     (if vname e = [] then (g, -1)
      else case find_by_name g (vname e) of
          Some idx \<Rightarrow> (g[idx := e], int idx)
        | None \<Rightarrow>
            (case find_index (\<lambda>x. vname x = []) g of
               Some i \<Rightarrow> (g[i := e], int i)
             | None \<Rightarrow> if VBLK_MAX \<le> length g then (g, -1) else (g @ [e], int (length g))))"

definition is_child_of :: "string \<Rightarrow> string \<Rightarrow> bool" where
  "is_child_of parent n \<longleftrightarrow> n \<noteq> [] \<and> take (length parent) n = parent \<and>
     drop (length parent) n \<noteq> [] \<and> (\<forall>c \<in> set (drop (length parent) n). isdigit c)"

definition vblk_remove_children :: "vblk list \<Rightarrow> string \<Rightarrow> vblk list \<times> nat" where
  "vblk_remove_children g parent =
     (if parent = [] then (g, 0)
      else (map (\<lambda>e. if is_child_of parent (vname e) then vblk_zero else e) g,
            length (filter (\<lambda>e. is_child_of parent (vname e)) g)))"

definition vblk_clear :: "vblk list \<Rightarrow> vblk list" where
  "vblk_clear g = []"

section \<open>Device-relative I/O\<close>

definition vblk_limit_bytes :: "vblk \<Rightarrow> u64" where
  "vblk_limit_bytes dev = (if lba_size dev = 0 then -1 else lba_size dev * LSEC)"

definition vblk_backing_key :: "vblk \<Rightarrow> string" where
  "vblk_backing_key dev = (if vdev dev \<noteq> [] then vdev dev else vname dev)"

definition vblk_read_bytes :: "dio \<Rightarrow> vblk \<Rightarrow> u64 \<Rightarrow> nat \<Rightarrow> byte list option" where
  "vblk_read_bytes st dev off len =
     (let limit = vblk_limit_bytes dev
      in if off > limit \<or> len > unat (limit - off) then None
         else diskio_pread st (vblk_backing_key dev) (lba_start dev * LSEC + off) len)"

definition vblk_write_bytes :: "dio \<Rightarrow> vblk \<Rightarrow> u64 \<Rightarrow> byte list \<Rightarrow> dio \<times> bool" where
  "vblk_write_bytes st dev off src =
     (if ro dev then (st, False)
      else
        let limit = vblk_limit_bytes dev
        in if off > limit \<or> length src > unat (limit - off) then (st, False)
           else diskio_pwrite st (vblk_backing_key dev) (lba_start dev * LSEC + off) src)"

text \<open>The transfer loops of the block calls: steps of at most \<^verbatim>\<open>UINT32_MAX\<close> bytes.\<close>

function read_steps :: "dio \<Rightarrow> vblk \<Rightarrow> u64 \<Rightarrow> nat \<Rightarrow> byte list option" where
  "read_steps st dev off len =
     (if len = 0 then Some []
      else
        let step = (if len > 0xFFFFFFFF then 0xFFFFFFFF else len)
        in case vblk_read_bytes st dev off step of None \<Rightarrow> None
           | Some p \<Rightarrow> (case read_steps st dev (off + of_nat step) (len - step) of None \<Rightarrow> None
                        | Some q \<Rightarrow> Some (p @ q)))"
  by pat_completeness auto
termination by (relation "measure (\<lambda>(st, dev, off, len). len)") (auto split: if_splits)

definition vblk_read_blocks :: "dio \<Rightarrow> vblk \<Rightarrow> u64 \<Rightarrow> u32 \<Rightarrow> byte list option" where
  "vblk_read_blocks st dev lba count =
     (if count = 0 then None
      else
        let bsz = (if block_bytes dev \<noteq> 0 then block_bytes dev else 512)
        in if lba > -1 div ucast bsz then None
           else read_steps st dev (lba * ucast bsz) (unat (ucast count * ucast bsz :: u64)))"

function write_steps :: "dio \<Rightarrow> vblk \<Rightarrow> u64 \<Rightarrow> byte list \<Rightarrow> dio \<times> bool" where
  "write_steps st dev off src =
     (if src = [] then (st, True)
      else
        let step = (if length src > 0xFFFFFFFF then 0xFFFFFFFF else length src)
        in case vblk_write_bytes st dev off (take step src) of (st, ok) \<Rightarrow>
             if \<not> ok then (st, False) else write_steps st dev (off + of_nat step) (drop step src))"
  by pat_completeness auto
termination by (relation "measure (\<lambda>(st, dev, off, src). length src)") (auto split: if_splits)

definition vblk_write_blocks :: "dio \<Rightarrow> vblk \<Rightarrow> u64 \<Rightarrow> u32 \<Rightarrow> byte list \<Rightarrow> dio \<times> bool" where
  "vblk_write_blocks st dev lba count src =
     (if count = 0 \<or> ro dev then (st, False)
      else
        let bsz = (if block_bytes dev \<noteq> 0 then block_bytes dev else 512)
        in if lba > -1 div ucast bsz then (st, False)
           else write_steps st dev (lba * ucast bsz) (take (unat (ucast count * ucast bsz :: u64)) src))"

declare read_steps.simps [simp del] write_steps.simps [simp del]

definition vblk_size_bytes :: "dio \<Rightarrow> vblk \<Rightarrow> u64" where
  "vblk_size_bytes st dev =
     (if lba_size dev \<noteq> 0 then lba_size dev * LSEC
      else
        let total = diskio_size_bytes st (vblk_backing_key dev); base = lba_start dev * LSEC
        in if total > base then total - base else 0)"

definition vblk_flush :: "dio \<Rightarrow> vblk \<Rightarrow> dio \<times> bool" where
  "vblk_flush st dev = diskio_flush st (vblk_backing_key dev)"

definition vblk_resolve_to_base :: "dio \<Rightarrow> vblk list \<Rightarrow> string \<Rightarrow> nat \<Rightarrow> (string \<times> u64 \<times> u64) option" where
  "vblk_resolve_to_base st g n key_sz =
     (if key_sz = 0 then None
      else case vblk_by_name g n of None \<Rightarrow> None
        | Some vb \<Rightarrow>
            (case diskio_resolve st (vblk_backing_key vb) of None \<Rightarrow> None
             | Some resolved \<Rightarrow>
                 Some (take (key_sz - 1) resolved, lba_start vb * LSEC,
                       if lba_size vb \<noteq> 0 then lba_size vb * LSEC else vblk_size_bytes st vb)))"

definition base_of :: "string \<Rightarrow> string" where
  "base_of s = (if take 5 s = ''/dev/'' then drop 5 s else s)"

definition vblk_open :: "vblk list \<Rightarrow> string \<Rightarrow> nat option" where
  "vblk_open g k =
     (if k = [] then None
      else case find_index (\<lambda>e. vname e \<noteq> [] \<and> (vname e = k \<or> (vdev e \<noteq> [] \<and> vdev e = k))) g of
          Some i \<Rightarrow> if lba_size (g ! i) = 0 then None else Some i
        | None \<Rightarrow>
            if base_of k = k then None
            else case find_index (\<lambda>e. vname e = base_of k) g of None \<Rightarrow> None
              | Some i \<Rightarrow> if lba_size (g ! i) = 0 then None else Some i)"

section \<open>The registry as a map\<close>

definition vblk_put :: "vblk list \<Rightarrow> vblk \<Rightarrow> vblk list option" where
  "vblk_put g e = (case vblk_register g e of (g', i) \<Rightarrow> if i < 0 then None else Some g')"

lemma find_by_name_nonempty: "n \<noteq> [] \<Longrightarrow> find_by_name g n = find_index (\<lambda>e. vname e = n) g"
  unfolding find_by_name_def by (rule arg_cong [where f = "\<lambda>P. find_index P g"]) auto

lemma find_by_name_empty: "find_by_name g [] = None"
  by (auto simp: find_by_name_def find_index_None)

lemma vblk_by_name_cases:
  "vblk_by_name g n = (if n = [] then None else map_option (nth g) (find_index (\<lambda>e. vname e = n) g))"
  by (simp add: vblk_by_name_def find_by_name_nonempty find_by_name_empty)

lemma find_index_fill:
  assumes "find_index (\<lambda>e. key e = key v) m = None" and "i < length m" and "k \<noteq> key (m ! i)"
  shows "map_option (nth (m[i := v])) (find_index (\<lambda>e. key e = k) (m[i := v])) =
    (if k = key v then Some v else map_option (nth m) (find_index (\<lambda>e. key e = k) m))"
proof (cases "k = key v")
  case True
  have "\<forall>j < i. key (m[i := v] ! j) \<noteq> key v" using assms(1,2) by (auto simp: find_index_None)
  with True assms(2) have "find_index (\<lambda>e. key e = k) (m[i := v]) = Some i" by (intro find_index_SomeI) auto
  with True assms(2) show ?thesis by simp
next
  case False
  with assms(3) have e: "find_index (\<lambda>e. key e = k) (m[i := v]) = find_index (\<lambda>e. key e = k) m"
    by (intro find_index_update) auto
  have "m[i := v] ! j = m ! j" if "find_index (\<lambda>e. key e = k) m = Some j" for j
    using find_index_SomeD [OF that] assms(3) by (cases "j = i") auto
  with False e show ?thesis by (auto simp: map_option_case split: option.splits)
qed

interpretation vblk: keyed_table vblk_by_name vblk_put vname "\<lambda>e. vname e \<noteq> []"
proof unfold_locales
  fix e :: vblk and g g' n
  assume ne: "vname e \<noteq> []" and p: "vblk_put g e = Some g'"
  show "vblk_by_name g' n = (if n = vname e then Some e else vblk_by_name g n)"
  proof (cases "n = []")
    case True
    then show ?thesis using ne by (auto simp: vblk_by_name_def find_by_name_empty)
  next
    case False
    show ?thesis
    proof (cases "find_by_name g (vname e)")
      case None
      show ?thesis
      proof (cases "find_index (\<lambda>x. vname x = []) g")
        case None': None
        with p None ne find_index_push [of vname e g n] False show ?thesis
          by (auto simp: vblk_put_def vblk_register_def vblk_by_name_cases find_by_name_nonempty split: if_splits)
      next
        case (Some i)
        with p None ne find_index_SomeD [OF Some] find_index_fill [of vname e g i n] False show ?thesis
          by (auto simp: vblk_put_def vblk_register_def vblk_by_name_cases find_by_name_nonempty)
      qed
    next
      case (Some i)
      with p ne find_index_put [of vname e g i n] False show ?thesis
        by (auto simp: vblk_put_def vblk_register_def vblk_by_name_cases find_by_name_nonempty)
    qed
  qed
next
  fix e :: vblk and g assume "vname e \<noteq> []" "vblk_by_name g (vname e) \<noteq> None"
  then show "vblk_put g e \<noteq> None" by (auto simp: vblk_put_def vblk_register_def vblk_by_name_def)
qed

lemma find_index_map_pred: "find_index P (map f xs) = find_index (P \<circ> f) xs"
  by (induction xs) auto

lemma vblk_remove_children_by_name:
  "parent \<noteq> [] \<Longrightarrow> vblk_by_name (fst (vblk_remove_children g parent)) n =
     (if is_child_of parent n then None else vblk_by_name g n)"
proof -
  assume ne: "parent \<noteq> []"
  let ?f = "\<lambda>e. if is_child_of parent (vname e) then vblk_zero else e"
  show ?thesis
  proof (cases "n = []")
    case False
    have P: "((\<lambda>e. vname e = n) \<circ> ?f) = (\<lambda>e. vname e = n \<and> \<not> is_child_of parent n)"
      using False by (auto simp: fun_eq_iff vblk_zero_def)
    have "map_option (nth (map ?f g)) (find_index (\<lambda>e. vname e = n) g) = map_option (nth g) (find_index (\<lambda>e. vname e = n) g)"
      if "\<not> is_child_of parent n"
      using that by (cases "find_index (\<lambda>e. vname e = n) g") (auto dest: find_index_SomeD)
    then show ?thesis
      using False ne by (auto simp: vblk_by_name_cases vblk_remove_children_def find_index_map_pred P find_index_None)
  qed (simp add: vblk_by_name_cases is_child_of_def)
qed

text \<open>The registry stays within its array, and no two slots carry the same name.\<close>

definition reg_ok :: "vblk list \<Rightarrow> bool" where
  "reg_ok g \<longleftrightarrow> length g \<le> VBLK_MAX \<and>
     (\<forall>i < length g. \<forall>j < length g. vname (g ! i) \<noteq> [] \<and> vname (g ! i) = vname (g ! j) \<longrightarrow> i = j)"

lemma reg_ok_update:
  assumes "reg_ok g" and "i < length g" and "\<And>j. j < length g \<Longrightarrow> j \<noteq> i \<Longrightarrow> vname (g ! j) \<noteq> vname e"
  shows "reg_ok (g[i := e])"
  unfolding reg_ok_def
proof (intro conjI allI impI)
  show "length (g[i := e]) \<le> VBLK_MAX" using assms(1) by (simp add: reg_ok_def)
next
  fix a b assume ab: "a < length (g[i := e])" "b < length (g[i := e])"
    and n: "vname (g[i := e] ! a) \<noteq> [] \<and> vname (g[i := e] ! a) = vname (g[i := e] ! b)"
  have u: "a < length g \<Longrightarrow> b < length g \<Longrightarrow> vname (g ! a) \<noteq> [] \<Longrightarrow> vname (g ! a) = vname (g ! b) \<Longrightarrow> a = b"
    using assms(1) unfolding reg_ok_def by blast
  show "a = b"
  proof (cases "a = i")
    case True
    with n ab assms(2) assms(3) [of b] show ?thesis by (cases "b = i") auto
  next
    case False
    with n ab assms(2) assms(3) [of a] u show ?thesis by (cases "b = i") auto
  qed
qed

lemma reg_ok_register: "reg_ok g \<Longrightarrow> reg_ok (fst (vblk_register g e))"
proof -
  assume g: "reg_ok g"
  show ?thesis
  proof (cases "vname e = []")
    case False
    show ?thesis
    proof (cases "find_by_name g (vname e)")
      case None
      then have new: "\<forall>x \<in> set g. vname x \<noteq> vname e" using False by (auto simp: find_by_name_def find_index_None)
      show ?thesis
      proof (cases "find_index (\<lambda>x. vname x = []) g")
        case None': None
        have new': "vname (g ! j) \<noteq> vname e" if "j < length g" for j using new that by simp
        with g None None' False show ?thesis
          by (auto simp: vblk_register_def reg_ok_def nth_append less_Suc_eq dest: new' sym)
      next
        case (Some i)
        from find_index_SomeD [OF Some] have "i < length g" by simp
        with g new Some None False show ?thesis by (auto simp: vblk_register_def intro!: reg_ok_update)
      qed
    next
      case (Some i)
      then have i: "i < length g" "vname (g ! i) = vname e" "vname (g ! i) \<noteq> []"
        using find_index_SomeD [of _ g i] by (auto simp: find_by_name_def)
      have "vname (g ! j) \<noteq> vname e" if "j < length g" "j \<noteq> i" for j
        using g i that unfolding reg_ok_def by metis
      with g i Some False show ?thesis by (auto simp: vblk_register_def intro!: reg_ok_update)
    qed
  qed (use g in \<open>simp add: vblk_register_def\<close>)
qed

lemma reg_ok_remove_children: "reg_ok g \<Longrightarrow> reg_ok (fst (vblk_remove_children g parent))"
  by (auto simp: reg_ok_def vblk_remove_children_def vblk_zero_def)

section \<open>A partition as a flat disk\<close>

interpretation part: disk_slice dio_read dio_write "\<lambda>s. size_bytes (dio_disk s)" "\<lambda>s. writable (dio_disk s)"
  "\<lambda>s. vdisk_guest (dio_disk s)" dio_inv "lba_start dev * LSEC" "vblk_limit_bytes dev" "ro dev" for dev :: vblk
  by unfold_locales

lemma vblk_read_slice: "vblk_read_bytes st dev off n = part.slice_rd dev (st, vblk_backing_key dev) off n"
  by (simp add: vblk_read_bytes_def part.slice_rd_def dio_read_def Let_def)

lemma vblk_write_slice:
  "part.slice_wr dev (st, vblk_backing_key dev) off bs =
     (case vblk_write_bytes st dev off bs of (st', ok) \<Rightarrow> ((st', vblk_backing_key dev), ok))"
  by (auto simp: vblk_write_bytes_def part.slice_wr_def dio_write_def Let_def split: prod.splits)

text \<open>A partition that lies on an attached image, in the code's terms.\<close>

definition part_ok :: "dio \<Rightarrow> vblk \<Rightarrow> bool" where
  "part_ok st dev \<longleftrightarrow> dio_inv (st, vblk_backing_key dev) \<and> lba_size dev \<noteq> 0 \<and>
     (unat (lba_start dev) + unat (lba_size dev)) * 512 \<le> unat (size_bytes (dio_disk (st, vblk_backing_key dev)))"

lemma part_ok_bytes:
  assumes "part_ok st dev"
  shows "unat (lba_start dev * LSEC) = unat (lba_start dev) * 512"
    and "unat (vblk_limit_bytes dev) = unat (lba_size dev) * 512"
proof -
  have "(unat (lba_start dev) + unat (lba_size dev)) * 512 < 18446744073709551616"
    using assms le_unat_u64 unfolding part_ok_def by blast
  then have "unat (lba_start dev) * 512 < 2 ^ 64" "unat (lba_size dev) * 512 < 2 ^ 64" by simp_all
  then show "unat (lba_start dev * LSEC) = unat (lba_start dev) * 512"
    and "unat (vblk_limit_bytes dev) = unat (lba_size dev) * 512"
    using assms by (simp_all add: vblk_limit_bytes_def part_ok_def LSEC_def unat_mult_small)
qed

lemma part_ok_slice: "part_ok st dev \<Longrightarrow> part.slice_ok dev (st, vblk_backing_key dev)"
  using part_ok_bytes [of st dev] by (simp add: part.slice_ok_def part_ok_def distrib_right)

lemma vblk_write_kept:
  assumes "part_ok st dev" and "vblk_write_bytes st dev off bs = (st', ok)"
  shows "dio_inv (st', vblk_backing_key dev)"
    and "size_bytes (dio_disk (st', vblk_backing_key dev)) = size_bytes (dio_disk (st, vblk_backing_key dev))"
    and "\<And>i. i < unat (size_bytes (dio_disk (st, vblk_backing_key dev))) \<Longrightarrow>
      i < unat (lba_start dev) * 512 \<or> (unat (lba_start dev) + unat (lba_size dev)) * 512 \<le> i \<Longrightarrow>
      vdisk_guest (dio_disk (st', vblk_backing_key dev)) i = vdisk_guest (dio_disk (st, vblk_backing_key dev)) i"
proof -
  have w: "part.slice_wr dev (st, vblk_backing_key dev) off bs = ((st', vblk_backing_key dev), ok)"
    using assms(2) by (simp add: vblk_write_slice)
  note s = part.slice_outside [OF part_ok_slice [OF assms(1)] w, unfolded part_ok_bytes [OF assms(1)]]
  then show "dio_inv (st', vblk_backing_key dev)"
    and "size_bytes (dio_disk (st', vblk_backing_key dev)) = size_bytes (dio_disk (st, vblk_backing_key dev))"
    and "\<And>i. i < unat (size_bytes (dio_disk (st, vblk_backing_key dev))) \<Longrightarrow>
      i < unat (lba_start dev) * 512 \<or> (unat (lba_start dev) + unat (lba_size dev)) * 512 \<le> i \<Longrightarrow>
      vdisk_guest (dio_disk (st', vblk_backing_key dev)) i = vdisk_guest (dio_disk (st, vblk_backing_key dev)) i"
    by (auto simp: distrib_right)
qed

lemma part_ok_after_write:
  assumes "part_ok st dev" and "vblk_write_bytes st dev off bs = (st', ok)"
    and "part_ok st dev2" and "vblk_backing_key dev2 = vblk_backing_key dev"
  shows "part_ok st' dev2"
  using assms vblk_write_kept(1,2) [OF assms(1,2)] by (simp add: part_ok_def)

lemma vblk_read_guest:
  assumes "part_ok st dev"
  shows "vblk_read_bytes st dev off n = (if unat off + n \<le> unat (lba_size dev) * 512
    then Some (window (vdisk_guest (dio_disk (st, vblk_backing_key dev))) (unat (lba_start dev) * 512 + unat off) n)
    else None)"
proof -
  have "window (\<lambda>i. g (b + i)) o1 n = window g (b + o1) n" for g :: "nat \<Rightarrow> byte" and b o1
    by (intro nth_equalityI) (auto simp: add.assoc)
  then show ?thesis
    using part.slice.rd_spec [OF part_ok_slice [OF assms], of off n] part_ok_bytes [OF assms]
    by (simp add: vblk_read_slice)
qed

lemma vblk_write_accept:
  assumes "part_ok st dev" and "\<not> ro dev" and "writable (dio_disk (st, vblk_backing_key dev))"
    and "unat off + length bs \<le> unat (lba_size dev) * 512"
  shows "\<exists>st'. vblk_write_bytes st dev off bs = (st', True) \<and> part_ok st' dev \<and>
    writable (dio_disk (st', vblk_backing_key dev)) \<and> vblk_read_bytes st' dev off (length bs) = Some bs"
proof -
  obtain st' ok where w: "vblk_write_bytes st dev off bs = (st', ok)" by force
  have s: "part.slice_wr dev (st, vblk_backing_key dev) off bs = ((st', vblk_backing_key dev), ok)"
    using w by (simp add: vblk_write_slice)
  note k = part_ok_slice [OF assms(1)]
  have f: "unat off + length bs \<le> unat (vblk_limit_bytes dev)" using assms(4) part_ok_bytes [OF assms(1)] by simp
  from part.slice.wr_accept [OF k _ f] assms(2,3) s have ok: "ok"
    and wr: "writable (dio_disk (st', vblk_backing_key dev))" by auto
  have "vblk_read_bytes st' dev off (length bs) = Some bs"
    using part.slice.read_after_write [OF k, of off bs] s ok by (simp add: vblk_read_slice)
  with w ok wr part_ok_after_write [OF assms(1) w assms(1)] show ?thesis by simp
qed

section \<open>Block transfers\<close>

lemma vblk_read_length: "part_ok st dev \<Longrightarrow> vblk_read_bytes st dev off n = Some p \<Longrightarrow> length p = n"
  by (auto simp: vblk_read_guest split: if_splits)

lemma part_advance:
  fixes off :: u64
  assumes "part_ok st dev" and "unat off + n \<le> unat (lba_size dev) * 512"
  shows "unat (off + of_nat n) = unat off + n"
  using assms(2) part_ok_bytes(2) [OF assms(1)] by (intro unat_advance [of off n "vblk_limit_bytes dev"]) auto

lemma read_steps_once:
  assumes "part_ok st dev"
  shows "read_steps st dev off len = (if len = 0 then Some [] else vblk_read_bytes st dev off len)"
  using assms
proof (induction st dev off len rule: read_steps.induct)
  case (1 st dev off len)
  define step where "step = (if len > 0xFFFFFFFF then 0xFFFFFFFF else len)"
  show ?case
  proof (cases "len = 0")
    case False
    have s: "step \<le> len" "0 < step" using False by (auto simp: step_def)
    have u: "read_steps st dev off len = (case vblk_read_bytes st dev off step of None \<Rightarrow> None
        | Some p \<Rightarrow> (case read_steps st dev (off + of_nat step) (len - step) of None \<Rightarrow> None
                     | Some q \<Rightarrow> Some (p @ q)))"
      using False unfolding step_def by (subst read_steps.simps) (simp only: Let_def if_False)
    show ?thesis
    proof (cases "unat off + step \<le> unat (lba_size dev) * 512")
      case True
      note a = part_advance [OF "1.prems" True]
      have ih: "read_steps st dev (off + of_nat step) (len - step) =
          (if len - step = 0 then Some [] else vblk_read_bytes st dev (off + of_nat step) (len - step))"
        using "1.IH" [OF False step_def _ "1.prems"] True vblk_read_guest [OF "1.prems", of off step] by auto
      show ?thesis
        using u ih True s a vblk_read_guest [OF "1.prems"] False
        by (auto simp: window_append [symmetric] add.assoc [symmetric])
    qed (use u s vblk_read_guest [OF "1.prems"] False in simp)
  qed (simp add: read_steps.simps)
qed

lemma write_steps_guest:
  assumes "part_ok st dev" and "\<not> ro dev" and "writable (dio_disk (st, vblk_backing_key dev))"
    and "unat off + length bs \<le> unat (lba_size dev) * 512"
  shows "\<exists>st'. write_steps st dev off bs = (st', True) \<and> part_ok st' dev \<and>
    (\<forall>i < unat (lba_size dev) * 512. vdisk_guest (dio_disk (st', vblk_backing_key dev)) (unat (lba_start dev) * 512 + i) =
      overlay (\<lambda>i. vdisk_guest (dio_disk (st, vblk_backing_key dev)) (unat (lba_start dev) * 512 + i)) (unat off) bs i)"
  using assms
proof (induction st dev off bs rule: write_steps.induct)
  case (1 st dev off bs)
  define step where "step = (if length bs > 0xFFFFFFFF then 0xFFFFFFFF else length bs)"
  let ?g = "\<lambda>st i. vdisk_guest (dio_disk (st, vblk_backing_key dev)) (unat (lba_start dev) * 512 + i)"
  show ?case
  proof (cases "bs = []")
    case False
    have s: "step \<le> length bs" "0 < step" using False by (auto simp: step_def)
    note k = part_ok_slice [OF "1.prems"(1)] and b = part_ok_bytes [OF "1.prems"(1)]
    have f: "unat off + length (take step bs) \<le> unat (vblk_limit_bytes dev)" using "1.prems"(4) b s by simp
    obtain st1 ok where w: "vblk_write_bytes st dev off (take step bs) = (st1, ok)" by force
    have sw: "part.slice_wr dev (st, vblk_backing_key dev) off (take step bs) = ((st1, vblk_backing_key dev), ok)"
      using w by (simp add: vblk_write_slice)
    from part.slice.wr_accept [OF k _ f] "1.prems"(2,3) sw b have ok: "ok"
      and wr: "writable (dio_disk (st1, vblk_backing_key dev))"
      and g1: "\<forall>i < unat (lba_size dev) * 512. ?g st1 i = overlay (?g st) (unat off) (take step bs) i" by auto
    have p1: "part_ok st1 dev" using part_ok_after_write [OF "1.prems"(1) w "1.prems"(1)] by simp
    have a: "unat (off + of_nat step) = unat off + step"
      using "1.prems"(4) s by (intro part_advance [OF "1.prems"(1)]) simp
    have "unat (off + of_nat step) + length (drop step bs) \<le> unat (lba_size dev) * 512"
      using a "1.prems"(4) s by simp
    from "1.IH" [OF False step_def w [symmetric] _ p1 "1.prems"(2) wr this] ok obtain st' where
      st': "write_steps st1 dev (off + of_nat step) (drop step bs) = (st', True)" "part_ok st' dev"
      "\<forall>i < unat (lba_size dev) * 512. ?g st' i = overlay (?g st1) (unat off + step) (drop step bs) i"
      unfolding a by auto
    have "?g st' i = overlay (?g st) (unat off) bs i" if "i < unat (lba_size dev) * 512" for i
    proof -
      have "?g st' i = overlay (overlay (?g st) (unat off) (take step bs)) (unat off + step) (drop step bs) i"
        using st'(3) g1 that by (simp add: overlay_def)
      then show ?thesis by (simp only: overlay_take_drop [OF s(1)])
    qed
    moreover have "write_steps st dev off bs = (st', True)"
      using False w ok st'(1) by (subst write_steps.simps) (simp add: step_def Let_def)
    ultimately show ?thesis using st'(2) by blast
  qed (use 1 in \<open>simp add: write_steps.simps\<close>)
qed

lemma vblk_blocks_written:
  assumes "part_ok st dev" and "\<not> ro dev" and "writable (dio_disk (st, vblk_backing_key dev))"
    and "block_bytes dev = bsz" and "bsz \<noteq> 0" and "count \<noteq> 0"
    and "length src = unat count * unat bsz"
    and "(unat lba + unat count) * unat bsz \<le> unat (lba_size dev) * 512"
  shows "\<exists>st'. vblk_write_blocks st dev lba count src = (st', True) \<and> part_ok st' dev \<and>
    vblk_read_blocks st' dev lba count = Some src \<and>
    vblk_read_blocks st dev lba count = vblk_read_bytes st dev (lba * ucast bsz) (unat count * unat bsz)"
proof -
  have le: "unat lba * unat bsz + unat count * unat bsz \<le> unat (vblk_limit_bytes dev)"
    using assms(8) part_ok_bytes(2) [OF assms(1)] by (simp add: distrib_right)
  have "unat lba * unat bsz < 2 ^ 64" using le_unat_u64 [OF le] by simp
  then have off: "unat (lba * ucast bsz :: u64) = unat lba * unat bsz"
    by (simp add: unat_mult_small u_simps)
  have "unat lba \<le> 18446744073709551615 div unat bsz"
    using \<open>unat lba * unat bsz < 2 ^ 64\<close> assms(5) by (simp add: less_eq_div_iff_mult_less_eq unat_gt_0)
  then have guard: "\<not> lba > -1 div ucast bsz" by (simp add: word_less_nat_alt unat_div u_simps not_less)
  have n: "unat (ucast count * ucast bsz :: u64) = unat count * unat bsz" by (rule unat_mult_u32)
  have pos: "unat count * unat bsz \<noteq> 0" using assms(5,6) by (simp add: unat_eq_zero)
  have rd: "vblk_read_blocks s dev lba count = vblk_read_bytes s dev (lba * ucast bsz) (unat count * unat bsz)"
    if "part_ok s dev" for s
    using guard n pos assms(4-6) read_steps_once [OF that] by (simp add: vblk_read_blocks_def Let_def)
  have fit: "unat (lba * ucast bsz :: u64) + length src \<le> unat (lba_size dev) * 512"
    using off assms(7,8) by (simp add: distrib_right)
  from write_steps_guest [OF assms(1-3) fit] obtain st' where st': "write_steps st dev (lba * ucast bsz) src = (st', True)"
    "part_ok st' dev" "\<forall>i < unat (lba_size dev) * 512.
      vdisk_guest (dio_disk (st', vblk_backing_key dev)) (unat (lba_start dev) * 512 + i) =
      overlay (\<lambda>i. vdisk_guest (dio_disk (st, vblk_backing_key dev)) (unat (lba_start dev) * 512 + i))
        (unat (lba * ucast bsz :: u64)) src i" by blast
  have wb: "vblk_write_blocks st dev lba count src = (st', True)"
    using guard n assms(2,4-7) st'(1) by (simp add: vblk_write_blocks_def Let_def)
  have "vblk_read_bytes st' dev (lba * ucast bsz) (length src) = Some src"
  proof -
    have "vdisk_guest (dio_disk (st', vblk_backing_key dev)) (unat (lba_start dev) * 512 + unat (lba * ucast bsz :: u64) + i) = src ! i"
      if "i < length src" for i
    proof -
      have "unat (lba * ucast bsz :: u64) + i < unat (lba_size dev) * 512" using that fit by simp
      with st'(3) that show ?thesis by (simp add: overlay_def add.assoc)
    qed
    then have "window (vdisk_guest (dio_disk (st', vblk_backing_key dev)))
        (unat (lba_start dev) * 512 + unat (lba * ucast bsz :: u64)) (length src) = src"
      by (intro nth_equalityI) auto
    with fit show ?thesis by (simp add: vblk_read_guest [OF st'(2)])
  qed
  with wb st'(2) rd [OF st'(2)] rd [OF assms(1)] assms(7) show ?thesis by simp
qed

section \<open>Properties\<close>


text \<open>Block transfers are exact. Writing \<open>count\<close> blocks inside a writable partition succeeds, however
  many steps the loop takes, and reading them gives the data back; a read of blocks in one loop is the read of
  their bytes in one call, and blocks that reach past the partition are refused.\<close>

theorem vblk_blocks_roundtrip:
  assumes "part_ok st dev" and "\<not> ro dev" and "writable (dio_disk (st, vblk_backing_key dev))"
    and "block_bytes dev = bsz" and "bsz \<noteq> 0" and "count \<noteq> 0"
    and "length src = unat count * unat bsz"
    and "(unat lba + unat count) * unat bsz \<le> unat (lba_size dev) * 512"
  shows "\<exists>st'. vblk_write_blocks st dev lba count src = (st', True) \<and> part_ok st' dev \<and>
    vblk_read_blocks st' dev lba count = Some src \<and>
    vblk_read_blocks st dev lba count = vblk_read_bytes st dev (lba * ucast bsz) (unat count * unat bsz)"
  by (rule vblk_blocks_written [OF assms])

text \<open>C24. The registry refines a map from names to devices. Registering a device either updates the map at
  its name and nowhere else, or reports -1 and changes nothing, and it can only fail for a nameless entry or
  when all slots carry other names; no two slots ever carry the same name and the array bound is kept.\<close>

theorem vblk_register_refines:
  assumes "reg_ok g" and "vblk_register g e = (g', idx)"
  shows "reg_ok g' \<and>
    (if idx < 0 then g' = g \<and> (vname e = [] \<or> vblk_by_name g (vname e) = None \<and> length g = VBLK_MAX \<and> (\<forall>x \<in> set g. vname x \<noteq> []))
     else vblk_by_name g' = (vblk_by_name g)(vname e \<mapsto> e) \<and> g' ! nat idx = e \<and> length g' \<le> VBLK_MAX)"
proof -
  have ok: "reg_ok g'" using reg_ok_register [OF assms(1), of e] assms(2) by simp
  show ?thesis
  proof (cases "idx < 0")
    case True
    with assms ok show ?thesis
      by (auto simp: vblk_register_def vblk_by_name_def reg_ok_def find_index_None split: if_splits option.splits)
  next
    case False
    then have p: "vblk_put g e = Some g'" "vname e \<noteq> []"
      using assms(2) by (auto simp: vblk_put_def vblk_register_def split: if_splits)
    have "vblk_by_name g' = (vblk_by_name g)(vname e \<mapsto> e)"
      using vblk.get_put [OF p(2,1)] by (auto simp: fun_eq_iff)
    moreover have "g' ! nat idx = e"
      using assms(2) False by (auto simp: vblk_register_def find_by_name_def nth_append
          split: if_splits option.splits dest!: find_index_SomeD)
    moreover have "length g' \<le> VBLK_MAX" using ok by (simp add: reg_ok_def)
    ultimately show ?thesis using False ok by simp
  qed
qed

text \<open>\<^verbatim>\<open>vblk_remove_children\<close> takes exactly the partitions of a parent out of the registry: the devices
  whose name is the parent's followed by digits. Every other name, the parent's included, resolves as before.\<close>

theorem vblk_remove_children_exact:
  assumes "reg_ok g" and "parent \<noteq> []" and "vblk_remove_children g parent = (g', removed)"
  shows "reg_ok g' \<and> length g' = length g \<and> vblk_by_name g' parent = vblk_by_name g parent \<and>
    (\<forall>n. vblk_by_name g' n = (if is_child_of parent n then None else vblk_by_name g n))"
proof -
  have g': "g' = fst (vblk_remove_children g parent)" using assms(3) by simp
  have "\<not> is_child_of parent parent" by (simp add: is_child_of_def)
  with assms(2) reg_ok_remove_children [OF assms(1), of parent] show ?thesis
    by (auto simp: g' vblk_remove_children_by_name) (simp add: vblk_remove_children_def)
qed

section \<open>Witnesses\<close>

text \<open>The created raw image of 100 bytes is too small for a partition, so the witnesses use one of 2048.\<close>

lemma demo_disk:
  obtains st where "dio_inv (st, ''/dev/a'')" and "writable (dio_disk (st, ''/dev/a''))"
    and "size_bytes (dio_disk (st, ''/dev/a'')) = 2048"
    and "\<And>i. i < 2048 \<Longrightarrow> vdisk_guest (dio_disk (st, ''/dev/a'')) i = 0"
proof -
  have r: "vdisk_resolve ''a.img'' VDISK_FMT_AUTO = VDISK_FMT_RAW" by code_simp
  have "\<exists>fs' d. vdisk_create_ex_uuid demo_env demo_fs ''a.img'' VDISK_FMT_AUTO 2048 0 None = (fs', Some d) \<and>
     driver d = Some VDISK_FMT_RAW \<and> size_bytes d = 2048"
    by (simp add: vdisk_create_ex_uuid_def r Let_def fopen_wbp_def demo_fs_def raw_create_def
        vdisk_calloc_def vdisk_host_write_def poke_def vdisk_host_seek_def word_le_nat_alt)
  then obtain fs' d where d: "vdisk_create_ex_uuid demo_env demo_fs ''a.img'' VDISK_FMT_AUTO 2048 0 None = (fs', Some d)"
    "driver d = Some VDISK_FMT_RAW" "size_bytes d = 2048" by blast
  from vdisk_create_blank [OF d(1) demo_fs_ok] d(2,3) have w: "vdisk_inv d" "writable d"
    "\<And>i. i < 2048 \<Longrightarrow> vdisk_guest d i = 0"
    by (auto simp: vdisk_blank_def vdisk_linked_def)
  let ?st = "\<lparr>dfs = fs', g_map = [\<lparr>dkey = ''/dev/a'', dpath = ''a.img'', ddisk = Some d\<rparr>]\<rparr>"
  have "attached_disk ?st ''/dev/a'' = Some (0, d)" by (simp add: attached_disk_def map_find_index_def)
  then have "dio_disk (?st, ''/dev/a'') = d" "dio_inv (?st, ''/dev/a'')" using w by (simp_all add: dio_disk_def dio_inv_def)
  with w d(3) that [of ?st] show thesis by simp
qed

definition demo_part :: "string \<Rightarrow> u64 \<Rightarrow> u64 \<Rightarrow> vblk" where
  "demo_part n s k = \<lparr>vname = n, vdev = ''/dev/a'', part_index = 1, fstype = ''gpt'', lba_start = s,
     lba_size = k, block_bytes = 512, ro = False\<rparr>"


theorem vblk_blocks_roundtrip_witness:
  "\<exists>st st'. vblk_write_blocks st (demo_part ''/dev/a2'' 2 2) 1 1 (replicate 512 7) = (st', True) \<and>
     vblk_read_blocks st' (demo_part ''/dev/a2'' 2 2) 1 1 = Some (replicate 512 7)"
proof (rule demo_disk)
  fix st assume d: "dio_inv (st, ''/dev/a'')" "writable (dio_disk (st, ''/dev/a''))"
    "size_bytes (dio_disk (st, ''/dev/a'')) = 2048"
  have "part_ok st (demo_part ''/dev/a2'' 2 2)"
    using d by (simp add: part_ok_def demo_part_def vblk_backing_key_def)
  from vblk_blocks_roundtrip [OF this, of 512 1 "replicate 512 7" 1] d(2) show ?thesis
    by (auto simp: demo_part_def vblk_backing_key_def)
qed

theorem vblk_register_refines_witness:
  "\<exists>g' idx. vblk_register [] (demo_part ''/dev/a1'' 1 1) = (g', idx) \<and>
     vblk_by_name g' ''/dev/a1'' = Some (demo_part ''/dev/a1'' 1 1)"
proof -
  have r: "vblk_register [] (demo_part ''/dev/a1'' 1 1) = ([demo_part ''/dev/a1'' 1 1], 0)"
    by (simp add: vblk_register_def find_by_name_def demo_part_def VBLK_MAX_def)
  have "reg_ok []" by (simp add: reg_ok_def)
  from vblk_register_refines [OF this r] r show ?thesis by (simp add: demo_part_def)
qed

theorem vblk_remove_children_exact_witness:
  "\<exists>g' r. vblk_remove_children [demo_part ''/dev/a'' 0 4, demo_part ''/dev/a1'' 1 1] ''/dev/a'' = (g', r) \<and>
     vblk_by_name g' ''/dev/a1'' = None \<and> vblk_by_name g' ''/dev/a'' = Some (demo_part ''/dev/a'' 0 4)"
proof -
  let ?g = "[demo_part ''/dev/a'' 0 4, demo_part ''/dev/a1'' 1 1]"
  have g: "reg_ok ?g" by (auto simp: reg_ok_def demo_part_def VBLK_MAX_def less_Suc_eq)
  obtain g' r where e: "vblk_remove_children ?g ''/dev/a'' = (g', r)" by force
  have "is_child_of ''/dev/a'' ''/dev/a1''" by code_simp
  moreover have "vblk_by_name ?g ''/dev/a'' = Some (demo_part ''/dev/a'' 0 4)"
    by (simp add: vblk_by_name_def find_by_name_def demo_part_def)
  ultimately show ?thesis using vblk_remove_children_exact [OF g _ e] e by auto
qed

end
