(* ===== verification/Crc32.thy ===== *)
theory Crc32
  imports Bytes
begin

text \<open>
  The CRC-32 of \<^verbatim>\<open>src/blkdev.c\<close> (and, word for word, of \<^verbatim>\<open>src/cmd_gpt.c\<close>): a table of 256 entries
  built by eight shift steps each, and the byte loop that uses it. \<open>crc32_ref\<close> is the definition of
  the checksum bit by bit, without a table.

  The lemmas show that the table-driven loop computes the reference, and that the state transformer of
  each byte is a bijection, so data that differ in one byte have different checksums.
\<close>

section \<open>The code\<close>

definition crc_step :: "u32 \<Rightarrow> u32" where
  "crc_step c = (if bit c 0 then 0xEDB88320 XOR drop_bit 1 c else drop_bit 1 c)"

definition crc_table_entry :: "nat \<Rightarrow> u32" where
  "crc_table_entry i = (crc_step ^^ 8) (of_nat i)"

definition crc32_table :: "u32 list" where
  "crc32_table = map crc_table_entry [0..<256]"

definition crc_byte :: "u32 \<Rightarrow> byte \<Rightarrow> u32" where
  "crc_byte c b = crc32_table ! unat ((c XOR ucast b) AND 0xFF) XOR drop_bit 8 c"

definition crc32_calc :: "byte list \<Rightarrow> u32" where
  "crc32_calc data = foldl crc_byte 0xFFFFFFFF data XOR 0xFFFFFFFF"

section \<open>The checksum bit by bit\<close>

definition crc32_ref :: "byte list \<Rightarrow> u32" where
  "crc32_ref data = foldl (\<lambda>c b. (crc_step ^^ 8) (c XOR ucast b)) 0xFFFFFFFF data XOR 0xFFFFFFFF"

lemma crc_step_xor: "crc_step (x XOR y) = crc_step x XOR crc_step y"
proof -
  have d: "drop_bit 1 (x XOR y) = drop_bit 1 x XOR drop_bit 1 y"
    by (rule bit_word_eqI) (simp add: bit_simps)
  have "bit (x XOR y) 0 \<longleftrightarrow> bit x 0 \<noteq> bit y 0" by (simp add: bit_xor_iff)
  then show ?thesis
    unfolding crc_step_def d by (auto simp: ac_simps)
qed

lemma crc_steps_xor: "(crc_step ^^ n) (x XOR y) = (crc_step ^^ n) x XOR (crc_step ^^ n) y"
  by (induction n) (simp_all add: crc_step_xor)

lemma crc_steps_clear:
  "(\<And>i. i < n \<Longrightarrow> \<not> bit x i) \<Longrightarrow> (crc_step ^^ n) x = drop_bit n x"
proof (induction n)
  case (Suc n)
  then have "(crc_step ^^ n) x = drop_bit n x" by simp
  moreover have "\<not> bit (drop_bit n x) 0" using Suc.prems [of n] by (simp add: bit_drop_bit_eq)
  ultimately have "crc_step ((crc_step ^^ n) x) = drop_bit 1 (drop_bit n x)" by (simp add: crc_step_def)
  then show ?case by simp
qed simp

lemma crc_byte_steps: "crc_byte c b = (crc_step ^^ 8) (c XOR ucast b)"
proof -
  let ?x = "c XOR ucast b"
  have ff: "(0xFF :: u32) = mask 8" by (simp add: mask_eq_exp_minus_1)
  have split: "?x = (?x AND mask 8) XOR (?x AND NOT (mask 8))"
    by (rule bit_word_eqI) (auto simp: bit_simps)
  have "unat (?x AND mask 8) < 2 ^ 8"
    using and_mask_less' [of 8 ?x] by (simp add: word_less_nat_alt)
  then have lt: "unat (?x AND mask 8) < 256" by simp
  have "(crc_step ^^ 8) (?x AND NOT (mask 8)) = drop_bit 8 (?x AND NOT (mask 8))"
    by (rule crc_steps_clear) (simp add: bit_simps)
  also have "\<dots> = drop_bit 8 c"
    by (rule bit_word_eqI) (auto simp: bit_simps dest: bit_imp_le_length)
  finally have "(crc_step ^^ 8) ?x = (crc_step ^^ 8) (?x AND mask 8) XOR drop_bit 8 c"
    by (subst split) (simp only: crc_steps_xor)
  then show ?thesis
    using lt by (simp add: crc_byte_def crc32_table_def crc_table_entry_def ff del: funpow.simps)
qed

lemma crc32_calc_ref: "crc32_calc = crc32_ref"
proof -
  have e: "crc_byte = (\<lambda>c b. (crc_step ^^ 8) (c XOR ucast b))"
    using crc_byte_steps by (intro ext)
  show ?thesis by (intro ext) (simp only: crc32_calc_def crc32_ref_def e)
qed

section \<open>Error detection\<close>

lemma xor_cancel: "a XOR c = b XOR c \<longleftrightarrow> a = b" for a b c :: "'a::len word"
proof
  assume "a XOR c = b XOR c"
  then have "(a XOR c) XOR c = (b XOR c) XOR c" by simp
  then show "a = b" by (simp add: xor.assoc)
qed simp

lemma inj_crc_step: "inj crc_step"
proof (rule injI)
  fix x y assume e: "crc_step x = crc_step y"
  have top: "bit (crc_step z) 31 = bit z 0" for z
  proof -
    have "bit (0xEDB88320 :: u32) 31" by simp
    moreover have "\<not> bit (drop_bit 1 z) 31" using bit_imp_le_length [of z 32] by (auto simp: bit_drop_bit_eq)
    ultimately show ?thesis by (simp add: crc_step_def bit_xor_iff)
  qed
  have b0: "bit x 0 = bit y 0" using top [of x] top [of y] e by simp
  have "0xEDB88320 XOR (0xEDB88320 XOR drop_bit 1 z) = drop_bit 1 z" for z :: u32
    by (simp flip: xor.assoc)
  then have d: "drop_bit 1 x = drop_bit 1 y" using e b0 unfolding crc_step_def by metis
  show "x = y"
  proof (rule bit_word_eqI)
    fix n show "bit x n = bit y n"
    proof (cases n)
      case (Suc m)
      have "bit (drop_bit 1 x) m = bit (drop_bit 1 y) m" using d by simp
      then show ?thesis using Suc by (simp add: bit_drop_bit_eq)
    qed (use b0 in simp)
  qed
qed

lemma crc_steps_inj: "(crc_step ^^ n) x = (crc_step ^^ n) y \<longleftrightarrow> x = y"
  using inj_crc_step by (induction n) (auto dest: injD)

lemma crc_byte_state: "crc_byte c b = crc_byte c' b \<longleftrightarrow> c = c'"
  by (simp only: crc_byte_steps crc_steps_inj xor_cancel)

lemma crc_byte_data: "crc_byte c b = crc_byte c b' \<longleftrightarrow> b = b'"
proof -
  have "ucast b = (ucast b' :: u32) \<longleftrightarrow> b = b'"
    by (metis unat_ucast_8_32 word_unat_eq_iff)
  then show ?thesis by (simp only: crc_byte_steps crc_steps_inj xor.commute [of c] xor_cancel)
qed

lemma crc_fold_state: "foldl crc_byte c bs = foldl crc_byte c' bs \<longleftrightarrow> c = c'"
  by (induction bs arbitrary: c c') (simp_all add: crc_byte_state)

lemma crc32_change:
  assumes "i < length bs" and "b \<noteq> bs ! i"
  shows "crc32_calc (bs[i := b]) \<noteq> crc32_calc bs"
proof -
  have "foldl crc_byte c (bs[i := b]) \<noteq> foldl crc_byte c bs" for c
    using assms
  proof (induction bs arbitrary: i c)
    case (Cons x xs)
    then show ?case by (cases i) (auto simp: crc_fold_state crc_byte_data)
  qed simp
  then show ?thesis by (simp add: crc32_calc_def xor_cancel)
qed

text \<open>C26. The table-driven CRC-32 of the partition code equals the checksum defined bit by bit, on every
  input.\<close>

theorem crc32_table_correct: "crc32_calc data = crc32_ref data"
  by (simp only: crc32_calc_ref)

text \<open>Changing any one byte of a buffer changes its CRC-32, so a GPT header or entry array damaged
  in one byte never passes its check.\<close>

theorem crc32_detects_byte_change:
  assumes "i < length data" and "b \<noteq> data ! i"
  shows "crc32_calc (data[i := b]) \<noteq> crc32_calc data"
  by (rule crc32_change [OF assms])

theorem crc32_detects_byte_change_witness:
  "crc32_calc [0x45, 0x47, 0x49] \<noteq> crc32_calc [0x45, 0x46, 0x49]"
  using crc32_detects_byte_change [where i = 1 and data = "[0x45, 0x46, 0x49]" and b = "0x47"] by simp

end
