(* ===== verification/Blkdev.thy ===== *)
theory Blkdev
  imports Vblk Crc32 "HOL-Library.Multiset"
begin

text \<open>
  \<^verbatim>\<open>src/blkdev.c\<close>: partition discovery. The on-disk GPT structures, the MBR and EBR scan, the GPT
  validation and scan, the sort of what was found, and the registration of the partitions as block
  devices. A buffer of partitions \<^verbatim>\<open>first[], last[], n\<close> is a list of pairs. The walk along the EBR chain may
  never end (a link may lead back), so it is a partial function into \<open>option\<close>, \<open>None\<close> for a walk that never
  returns. Whether \<^verbatim>\<open>malloc\<close> grants a size is the parameter \<open>mem\<close>.
\<close>

section \<open>GPT structures\<close>

record gpt_hdr =
  gsig :: "byte list"
  grev :: u32
  header_size :: u32
  header_crc :: u32
  grsv :: u32
  current_lba :: u64
  backup_lba :: u64
  first_usable_lba :: u64
  last_usable_lba :: u64
  disk_guid :: "byte list"
  entries_lba :: u64
  num_entries :: u32
  entry_size :: u32
  entries_crc :: u32

record gpt_ent =
  type_guid :: "byte list"
  part_guid :: "byte list"
  first_lba :: u64
  last_lba :: u64
  attrs :: u64
  name_utf16 :: "byte list"

definition gpt_hdr_of :: "byte list \<Rightarrow> gpt_hdr" where
  "gpt_hdr_of s = \<lparr>gsig = bslice 0 8 s, grev = le32 (drop 8 s), header_size = le32 (drop 12 s),
     header_crc = le32 (drop 16 s), grsv = le32 (drop 20 s), current_lba = le64 (drop 24 s),
     backup_lba = le64 (drop 32 s), first_usable_lba = le64 (drop 40 s), last_usable_lba = le64 (drop 48 s),
     disk_guid = bslice 56 16 s, entries_lba = le64 (drop 72 s), num_entries = le32 (drop 80 s),
     entry_size = le32 (drop 84 s), entries_crc = le32 (drop 88 s)\<rparr>"

definition gpt_ent_of :: "byte list \<Rightarrow> gpt_ent" where
  "gpt_ent_of s = \<lparr>type_guid = bslice 0 16 s, part_guid = bslice 16 16 s, first_lba = le64 (drop 32 s),
     last_lba = le64 (drop 40 s), attrs = le64 (drop 48 s), name_utf16 = bslice 56 72 s\<rparr>"

definition guid_empty :: "gpt_ent \<Rightarrow> bool" where
  "guid_empty e \<longleftrightarrow> (\<forall>b \<in> set (type_guid e). b = 0)"

definition gpt_entry_at :: "gpt_hdr \<Rightarrow> byte list \<Rightarrow> nat \<Rightarrow> gpt_ent" where
  "gpt_entry_at h buf i = gpt_ent_of (drop (i * unat (entry_size h)) buf)"

section \<open>MBR and EBR\<close>

definition MAX_PARTS :: nat where "MAX_PARTS = 128"
definition ENTRIES_MAX_BYTES :: nat where "ENTRIES_MAX_BYTES = 8 * 1024 * 1024"

type_synonym parts = "(u64 \<times> u64) list"

definition read_lba512 :: "dio \<Rightarrow> vblk \<Rightarrow> u64 \<Rightarrow> u32 \<Rightarrow> byte list option" where
  "read_lba512 st dev lba cnt = vblk_read_blocks st dev lba cnt"

definition read_bytes :: "dio \<Rightarrow> vblk \<Rightarrow> u64 \<Rightarrow> u32 \<Rightarrow> byte list option" where
  "read_bytes st dev off len = vblk_read_bytes st dev off (unat len)"

definition boot_sig :: "byte list \<Rightarrow> bool" where
  "boot_sig sec \<longleftrightarrow> sec ! 510 = 0x55 \<and> sec ! 511 = 0xAA"

definition is_extended :: "byte \<Rightarrow> bool" where
  "is_extended t \<longleftrightarrow> t = 0x05 \<or> t = 0x0F \<or> t = 0x85"

text \<open>One round of the chain walk on a sector that carries the signature: the partitions after it, and
  where the next one is, if any.\<close>

definition ebr_round :: "byte list \<Rightarrow> u32 \<Rightarrow> u32 \<Rightarrow> parts \<Rightarrow> parts \<times> u32 option" where
  "ebr_round sec ext_base ebr ps =
     (let e1 = drop 446 sec; e2 = drop 462 sec;
          t1 = e1 ! 4; l1 = le32 (drop 8 e1); c1 = le32 (drop 12 e1);
          f = ucast ebr + ucast l1;
          ps = (if t1 \<noteq> 0 \<and> c1 \<noteq> 0 then ps @ [(f, f + ucast c1 - 1)] else ps);
          t2 = e2 ! 4; l2 = le32 (drop 8 e2)
      in (ps, if is_extended t2 then Some (ext_base + l2) else None))"

partial_function (option) scan_ebr_chain ::
  "dio \<Rightarrow> vblk \<Rightarrow> u32 \<Rightarrow> u32 \<Rightarrow> parts \<Rightarrow> nat \<Rightarrow> parts option" where
  "scan_ebr_chain st dev ext_base ebr ps mx =
     (if \<not> length ps < mx then Some ps
      else case read_lba512 st dev (ucast ebr) 1 of None \<Rightarrow> Some ps
        | Some sec \<Rightarrow>
            if \<not> boot_sig sec then Some ps
            else case snd (ebr_round sec ext_base ebr ps) of
                None \<Rightarrow> Some (fst (ebr_round sec ext_base ebr ps))
              | Some next \<Rightarrow> scan_ebr_chain st dev ext_base next (fst (ebr_round sec ext_base ebr ps)) mx)"

text \<open>The four entries of the MBR. The flag is set when a protective entry ended the scan.\<close>

fun mbr_entries :: "dio \<Rightarrow> vblk \<Rightarrow> byte list \<Rightarrow> nat list \<Rightarrow> parts \<Rightarrow> nat \<Rightarrow> (bool \<times> parts) option" where
  "mbr_entries st dev mbr [] ps mx = Some (False, ps)"
| "mbr_entries st dev mbr (i # is) ps mx =
     (let e = drop (446 + i * 16) mbr;
          type = e ! 4; lba = le32 (drop 8 e); count = le32 (drop 12 e)
      in if type = 0 \<or> count = 0 then mbr_entries st dev mbr is ps mx
         else if type = 0xEE then Some (True, ps)
         else if is_extended type then
           (case scan_ebr_chain st dev lba lba ps mx of None \<Rightarrow> None
            | Some ps \<Rightarrow> mbr_entries st dev mbr is ps mx)
         else mbr_entries st dev mbr is
                (if length ps < mx then ps @ [(ucast lba, ucast (lba + count - 1))] else ps) mx)"

definition scan_mbr :: "dio \<Rightarrow> vblk \<Rightarrow> nat \<Rightarrow> (int \<times> parts) option" where
  "scan_mbr st dev mx =
     (case read_lba512 st dev 0 1 of None \<Rightarrow> Some (0, [])
      | Some mbr \<Rightarrow>
          if \<not> boot_sig mbr then Some (0, [])
          else case mbr_entries st dev mbr [0, 1, 2, 3] [] mx of
              None \<Rightarrow> None
            | Some (True, ps) \<Rightarrow> Some (-1, ps)
            | Some (False, ps) \<Rightarrow> Some (int (length ps), ps))"

section \<open>GPT\<close>

definition gpt_hdr_fields_ok :: "gpt_hdr \<Rightarrow> u64 \<Rightarrow> bool" where
  "gpt_hdr_fields_ok h total_lbas \<longleftrightarrow>
     \<not> (header_size h < 92 \<or> entry_size h < 128 \<or> num_entries h = 0 \<or> num_entries h > 4096) \<and>
     (total_lbas \<noteq> 0 \<longrightarrow> \<not> (current_lba h \<ge> total_lbas \<or> backup_lba h \<ge> total_lbas) \<and>
        \<not> (last_usable_lba h \<ge> total_lbas \<or> entries_lba h \<ge> total_lbas))"

definition entries_bytes :: "gpt_hdr \<Rightarrow> nat" where
  "entries_bytes h = unat (num_entries h) * unat (entry_size h)"

definition gpt_validate_at :: "(nat \<Rightarrow> bool) \<Rightarrow> dio \<Rightarrow> vblk \<Rightarrow> u64 \<Rightarrow> u64 \<Rightarrow> gpt_hdr option" where
  "gpt_validate_at mem st dev total_lbas hdr_lba =
     (case read_lba512 st dev hdr_lba 1 of None \<Rightarrow> None
      | Some sec \<Rightarrow>
          if bslice 0 8 sec \<noteq> bytes_of ''EFI PART'' then None
          else
            let h = gpt_hdr_of sec
            in if \<not> gpt_hdr_fields_ok h total_lbas then None
               else if \<not> mem (unat (header_size h)) then None
               else case (if header_size h \<le> 512 then Some (take (unat (header_size h)) sec)
                          else read_bytes st dev (hdr_lba * LSEC) (header_size h)) of
                   None \<Rightarrow> None
                 | Some hdrbuf \<Rightarrow>
                     if crc32_calc (blit hdrbuf 16 (zeros 4)) \<noteq> header_crc h then None
                     else if entries_bytes h = 0 \<or> entries_bytes h > ENTRIES_MAX_BYTES then None
                     else if total_lbas \<noteq> 0 \<and>
                             entries_lba h * LSEC + of_nat (entries_bytes h) > total_lbas * LSEC then None
                     else if \<not> mem (entries_bytes h) then None
                     else case read_bytes st dev (entries_lba h * LSEC) (of_nat (entries_bytes h)) of
                         None \<Rightarrow> None
                       | Some buf \<Rightarrow> if crc32_calc buf \<noteq> entries_crc h then None else Some h)"

definition gpt_pick :: "gpt_hdr \<Rightarrow> u64 \<Rightarrow> byte list \<Rightarrow> nat \<Rightarrow> parts \<Rightarrow> parts" where
  "gpt_pick h total_lbas buf i ps =
     (let e = gpt_entry_at h buf i
      in if guid_empty e then ps
         else if last_lba e < first_lba e then ps
         else if total_lbas \<noteq> 0 \<and> last_lba e \<ge> total_lbas then ps
         else ps @ [(first_lba e, last_lba e)])"

fun gpt_collect :: "gpt_hdr \<Rightarrow> u64 \<Rightarrow> byte list \<Rightarrow> nat list \<Rightarrow> parts \<Rightarrow> nat \<Rightarrow> parts" where
  "gpt_collect h total_lbas buf [] ps mx = ps"
| "gpt_collect h total_lbas buf (i # is) ps mx =
     (if \<not> length ps < mx then ps
      else gpt_collect h total_lbas buf is (gpt_pick h total_lbas buf i ps) mx)"

text \<open>The header the scan uses: the primary one, or the backup that a damaged primary still names.\<close>

definition gpt_find_header :: "(nat \<Rightarrow> bool) \<Rightarrow> dio \<Rightarrow> vblk \<Rightarrow> u64 \<Rightarrow> gpt_hdr option" where
  "gpt_find_header mem st dev total_lbas =
     (case gpt_validate_at mem st dev total_lbas 1 of
        Some h \<Rightarrow> Some h
      | None \<Rightarrow>
          (case read_lba512 st dev 1 1 of None \<Rightarrow> None
           | Some sec1 \<Rightarrow>
               if bslice 0 8 sec1 \<noteq> bytes_of ''EFI PART'' then None
               else gpt_validate_at mem st dev total_lbas (le64 (drop 32 sec1))))"

definition scan_gpt :: "(nat \<Rightarrow> bool) \<Rightarrow> dio \<Rightarrow> vblk \<Rightarrow> u64 \<Rightarrow> nat \<Rightarrow> parts" where
  "scan_gpt mem st dev total_lbas mx =
     (case gpt_find_header mem st dev total_lbas of
        None \<Rightarrow> []
      | Some h \<Rightarrow>
          if entries_bytes h = 0 \<or> entries_bytes h > ENTRIES_MAX_BYTES then []
          else if \<not> mem (entries_bytes h) then []
          else case read_bytes st dev (entries_lba h * LSEC) (of_nat (entries_bytes h)) of
              None \<Rightarrow> []
            | Some buf \<Rightarrow> gpt_collect h total_lbas buf [0..<unat (num_entries h)] [] mx)"

section \<open>Sorting and registration\<close>

text \<open>The two nested loops of the exchange sort, for any key: the partition listing of \<^verbatim>\<open>cmd_partscan.c\<close> has the
  same loops on another key.\<close>

function sort_inner :: "('a \<Rightarrow> 'k :: linorder) \<Rightarrow> nat \<Rightarrow> nat \<Rightarrow> 'a list \<Rightarrow> 'a list" where
  "sort_inner key i j ps =
     (if j < length ps
      then sort_inner key i (j + 1) (if key (ps ! j) < key (ps ! i) then ps[i := ps ! j, j := ps ! i] else ps)
      else ps)"
  by pat_completeness auto
termination by (relation "measure (\<lambda>(key, i, j, ps). length ps - j)") auto

declare sort_inner.simps [simp del]

lemma length_sort_inner [simp]: "length (sort_inner key i j ps) = length ps"
  by (induction key i j ps rule: sort_inner.induct) (subst sort_inner.simps, simp)

function sort_outer :: "('a \<Rightarrow> 'k :: linorder) \<Rightarrow> nat \<Rightarrow> 'a list \<Rightarrow> 'a list" where
  "sort_outer key i ps = (if i < length ps then sort_outer key (i + 1) (sort_inner key i (i + 1) ps) else ps)"
  by pat_completeness auto
termination by (relation "measure (\<lambda>(key, i, ps). length ps - i)") auto

declare sort_outer.simps [simp del]

definition sort_pairs :: "parts \<Rightarrow> parts" where
  "sort_pairs ps = sort_outer fst 0 ps"

definition register_child :: "vblk list \<Rightarrow> vblk \<Rightarrow> string \<Rightarrow> nat \<Rightarrow> u64 \<Rightarrow> u64 \<Rightarrow> string \<Rightarrow> vblk list \<times> bool" where
  "register_child g parent parent_name num f l ptable_kind =
     (if l < f then (g, False)
      else
        let child = \<lparr>vname = take 31 (parent_name @ dec num), vdev = take 31 (vdev parent),
              part_index = int num, fstype = take 15 ptable_kind, lba_start = f,
              lba_size = l - f + 1,
              block_bytes = (if block_bytes parent \<noteq> 0 then block_bytes parent else 512), ro = ro parent\<rparr>
        in case vblk_register g child of (g', idx) \<Rightarrow> if idx < 0 then (g', False) else (g', True))"

text \<open>The registration loop. The parent is a pointer into the registry, so each round reads the slot as
  it is then.\<close>

fun register_all :: "vblk list \<Rightarrow> nat \<Rightarrow> string \<Rightarrow> nat \<Rightarrow> parts \<Rightarrow> string \<Rightarrow> vblk list" where
  "register_all g pidx pname n [] kind = g"
| "register_all g pidx pname n ((f, l) # ps) kind =
     register_all (fst (register_child g (g ! pidx) pname (n + 1) f l kind)) pidx pname (n + 1) ps kind"

definition disk_scan_partitions :: "(nat \<Rightarrow> bool) \<Rightarrow> dio \<Rightarrow> vblk list \<Rightarrow> string \<Rightarrow> (vblk list \<times> int) option" where
  "disk_scan_partitions mem st g gname =
     (case find_by_name g gname of None \<Rightarrow> Some (g, -1)
      | Some pidx \<Rightarrow>
          let g = fst (vblk_remove_children g gname);
              parent = g ! pidx;
              sz = vblk_size_bytes st parent;
              total_lbas = (if sz \<noteq> 0 then sz div LSEC else 0)
          in case scan_mbr st parent MAX_PARTS of None \<Rightarrow> None
             | Some (n, ps) \<Rightarrow>
                 if n > 0 then Some (register_all g pidx gname 0 (sort_pairs ps) ''mbr'', 0)
                 else
                   let gs = scan_gpt mem st parent total_lbas MAX_PARTS
                   in if n = -1 \<and> gs = [] then Some (g, -1)
                      else if gs \<noteq> [] then Some (register_all g pidx gname 0 (sort_pairs gs) ''gpt'', 0)
                      else Some (g, 0))"

definition add_disk :: "(nat \<Rightarrow> bool) \<Rightarrow> dio \<Rightarrow> vblk list \<Rightarrow> string \<Rightarrow> (vblk list \<times> int) option" where
  "add_disk mem st g gname =
     (case vblk_by_name g gname of
        Some _ \<Rightarrow> disk_scan_partitions mem st g gname
      | None \<Rightarrow>
          (case vblk_register g (vblk_zero\<lparr>vname := take 31 gname, vdev := take 31 gname, part_index := -1,
                  fstype := ''-'', lba_start := 0, lba_size := 0\<rparr>) of
             (g', idx) \<Rightarrow> if idx < 0 then Some (g', -1) else disk_scan_partitions mem st g' gname))"

definition del_disk :: "string \<Rightarrow> int" where
  "del_disk n = -1"

definition block_rescan :: "(nat \<Rightarrow> bool) \<Rightarrow> dio \<Rightarrow> vblk list \<Rightarrow> string \<Rightarrow> (vblk list \<times> int) option" where
  "block_rescan mem st g devname = disk_scan_partitions mem st g (take 31 devname)"

section \<open>The sort\<close>

lemma mset_swap_nth: "i < length xs \<Longrightarrow> j < length xs \<Longrightarrow> mset (xs[i := xs ! j, j := xs ! i]) = mset xs"
  by (rule mset_swap)

text \<open>An inner round moves the least key of the rest to position \<open>i\<close>.\<close>

lemma sort_inner_spec:
  assumes "i < j" and "i < length ps" and "\<forall>k. i \<le> k \<and> k < j \<and> k < length ps \<longrightarrow> key (ps ! i) \<le> key (ps ! k)"
  shows "mset (sort_inner key i j ps) = mset ps \<and> take i (sort_inner key i j ps) = take i ps \<and>
    (\<forall>k. i \<le> k \<and> k < length ps \<longrightarrow> key (sort_inner key i j ps ! i) \<le> key (sort_inner key i j ps ! k))"
  using assms
proof (induction key i j ps rule: sort_inner.induct)
  case (1 key i j ps)
  show ?case
  proof (cases "j < length ps")
    case True
    define qs where "qs = (if key (ps ! j) < key (ps ! i) then ps[i := ps ! j, j := ps ! i] else ps)"
    have len: "length qs = length ps" by (simp add: qs_def)
    have q: "\<forall>k. i \<le> k \<and> k < j + 1 \<and> k < length qs \<longrightarrow> key (qs ! i) \<le> key (qs ! k)"
    proof (intro allI impI)
      fix k assume k: "i \<le> k \<and> k < j + 1 \<and> k < length qs"
      then have "k < length ps" by (simp add: len)
      have k1: "k < j \<Longrightarrow> key (ps ! i) \<le> key (ps ! k)" using "1.prems"(3) k \<open>k < length ps\<close> by auto
      show "key (qs ! i) \<le> key (qs ! k)"
      proof (cases "k = j")
        case False
        with k k1 "1.prems"(1) True show ?thesis by (cases "k = i") (auto simp: qs_def nth_list_update)
      qed (use "1.prems"(1,2) True in \<open>auto simp: qs_def nth_list_update\<close>)
    qed
    have ms: "mset qs = mset ps" "take i qs = take i ps"
      using "1.prems"(1,2) True mset_swap_nth [of i ps j] by (auto simp: qs_def)
    have "sort_inner key i j ps = sort_inner key i (j + 1) qs" using True by (subst sort_inner.simps) (simp add: qs_def)
    with "1.IH" [OF True, folded qs_def, OF _ _ q] "1.prems" ms len show ?thesis by simp
  next
    case False
    then have e: "sort_inner key i j ps = ps" by (subst sort_inner.simps) simp
    show ?thesis unfolding e using "1.prems"(3) False by (simp add: not_less)
  qed
qed

lemma sort_outer_spec:
  assumes "\<forall>a b. a < i \<and> a < b \<and> b < length ps \<longrightarrow> key (ps ! a) \<le> key (ps ! b)"
  shows "mset (sort_outer key i ps) = mset ps \<and>
    (\<forall>a b. a < b \<and> b < length ps \<longrightarrow> key (sort_outer key i ps ! a) \<le> key (sort_outer key i ps ! b))"
  using assms
proof (induction key i ps rule: sort_outer.induct)
  case (1 key i ps)
  show ?case
  proof (cases "i < length ps")
    case True
    let ?qs = "sort_inner key i (i + 1) ps"
    have s: "mset ?qs = mset ps" "take i ?qs = take i ps"
      "\<forall>k. i \<le> k \<and> k < length ps \<longrightarrow> key (?qs ! i) \<le> key (?qs ! k)"
    proof -
      have "\<forall>k. i \<le> k \<and> k < i + 1 \<and> k < length ps \<longrightarrow> key (ps ! i) \<le> key (ps ! k)" by (auto simp: less_Suc_eq)
      from sort_inner_spec [OF _ True this] show "mset ?qs = mset ps" "take i ?qs = take i ps"
        "\<forall>k. i \<le> k \<and> k < length ps \<longrightarrow> key (?qs ! i) \<le> key (?qs ! k)" by simp_all
    qed
    have below: "?qs ! a = ps ! a" if "a < i" for a using s(2) that by (metis nth_take)
    have "set (drop i ?qs) = set (drop i ps)"
    proof -
      have "mset (take i ?qs) + mset (drop i ?qs) = mset (take i ps) + mset (drop i ps)"
        using s(1) by (metis append_take_drop_id mset_append)
      then have "mset (drop i ?qs) = mset (drop i ps)" using s(2) by simp
      then show ?thesis by (metis set_mset_mset)
    qed
    then have above: "\<exists>c \<ge> i. c < length ps \<and> ?qs ! b = ps ! c" if "i \<le> b" "b < length ps" for b
    proof -
      have "?qs ! b \<in> set (drop i ?qs)" using that by (auto simp: in_set_conv_nth intro!: exI [of _ "b - i"])
      with \<open>set (drop i ?qs) = set (drop i ps)\<close> have "?qs ! b \<in> set (drop i ps)" by simp
      then obtain m where "m < length ps - i" "?qs ! b = ps ! (i + m)" by (auto simp: in_set_conv_nth)
      then show ?thesis by (intro exI [of _ "i + m"]) auto
    qed
    have "\<forall>a b. a < i + 1 \<and> a < b \<and> b < length ?qs \<longrightarrow> key (?qs ! a) \<le> key (?qs ! b)"
    proof (intro allI impI)
      fix a b assume ab: "a < i + 1 \<and> a < b \<and> b < length ?qs"
      show "key (?qs ! a) \<le> key (?qs ! b)"
      proof (cases "a = i")
        case False
        then have "a < i" using ab by simp
        show ?thesis
        proof (cases "b < i")
          case True
          with \<open>a < i\<close> ab "1.prems" below show ?thesis by simp
        next
          case False
          with ab above [of b] obtain c where "c \<ge> i" "c < length ps" "?qs ! b = ps ! c" by auto
          with \<open>a < i\<close> "1.prems" below show ?thesis by auto
        qed
      qed (use ab s(3) in simp)
    qed
    from "1.IH" [OF True this] s(1) True show ?thesis by (subst (1 2 3) sort_outer.simps) simp
  qed (use 1 in \<open>subst (1 2 3) sort_outer.simps; auto\<close>)
qed

lemma sort_outer_sorts:
  "mset (sort_outer key 0 ps) = mset ps \<and> sorted (map key (sort_outer key 0 ps)) \<and> length (sort_outer key 0 ps) = length ps"
proof -
  have "mset (sort_outer key 0 ps) = mset ps \<and>
    (\<forall>a b. a < b \<and> b < length ps \<longrightarrow> key (sort_outer key 0 ps ! a) \<le> key (sort_outer key 0 ps ! b))"
    by (rule sort_outer_spec) simp
  moreover from this have "length (sort_outer key 0 ps) = length ps" by (metis size_mset)
  ultimately show ?thesis by (simp add: sorted_iff_nth_mono_less)
qed

lemma sort_pairs_spec:
  "mset (sort_pairs ps) = mset ps \<and> sorted (map fst (sort_pairs ps)) \<and> length (sort_pairs ps) = length ps"
  unfolding sort_pairs_def by (rule sort_outer_sorts)

section \<open>Sectors of a partition\<close>

lemma read_lba512_guest:
  assumes "part_ok st dev" and "block_bytes dev \<in> {0, 512}"
  shows "read_lba512 st dev lba 1 = (if unat lba < unat (lba_size dev)
    then Some (window (vdisk_guest (dio_disk (st, vblk_backing_key dev))) ((unat (lba_start dev) + unat lba) * 512) 512)
    else None)"
proof -
  have b: "(if block_bytes dev \<noteq> 0 then block_bytes dev else 512) = 512" using assms(2) by auto
  have lim: "unat (lba_size dev) * 512 < 18446744073709551616"
    using part_ok_bytes(2) [OF assms(1)] unat_u64_less [of "vblk_limit_bytes dev"] by metis
  have g: "lba > -1 div (512 :: u64) \<longleftrightarrow> 36028797018963967 < unat lba"
    by (simp add: word_less_nat_alt unat_div)
  have u: "read_lba512 st dev lba 1 = (if lba > -1 div (512 :: u64) then None else vblk_read_bytes st dev (lba * 512) 512)"
    unfolding read_lba512_def vblk_read_blocks_def b using read_steps_once [OF assms(1)] by (simp add: Let_def)
  show ?thesis
  proof (cases "36028797018963967 < unat lba")
    case True
    then have "\<not> unat lba < unat (lba_size dev)" using lim by linarith
    with True u g show ?thesis by simp
  next
    case False
    then have "unat (lba * 512) = unat lba * 512" by (simp add: unat_mult_small)
    moreover have "unat lba * 512 + 512 \<le> unat (lba_size dev) * 512 \<longleftrightarrow> unat lba < unat (lba_size dev)" by linarith
    ultimately show ?thesis using u g False by (simp add: vblk_read_guest [OF assms(1)] distrib_right)
  qed
qed

lemma read_bytes_length: "part_ok st dev \<Longrightarrow> read_bytes st dev off n = Some p \<Longrightarrow> length p = unat n"
  by (auto simp: read_bytes_def dest: vblk_read_length)

section \<open>The chain walk\<close>

lemmas ebr_unfold = scan_ebr_chain.simps

lemma ebr_round_length:
  "length (fst (ebr_round sec ext ebr ps)) \<le> Suc (length ps)"
  "length ps \<le> length (fst (ebr_round sec ext ebr ps))"
  by (simp_all add: ebr_round_def Let_def)

text \<open>A sector whose link entry continues the chain and whose own entry is used.\<close>

definition ebr_used :: "byte list \<Rightarrow> bool" where
  "ebr_used sec \<longleftrightarrow> drop 446 sec ! 4 \<noteq> 0 \<and> le32 (drop 12 (drop 446 sec)) \<noteq> 0"

lemma ebr_round_used: "ebr_used sec \<Longrightarrow> length (fst (ebr_round sec ext ebr ps)) = Suc (length ps)"
  by (simp add: ebr_round_def ebr_used_def Let_def)

lemma scan_ebr_returns:
  assumes "\<And>lba sec. read_lba512 st dev (ucast (lba :: u32)) 1 = Some sec \<Longrightarrow> boot_sig sec \<Longrightarrow>
      is_extended (drop 462 sec ! 4) \<Longrightarrow> ebr_used sec"
  shows "\<exists>qs. scan_ebr_chain st dev ext ebr ps mx = Some qs \<and> length ps \<le> length qs \<and>
    take (length ps) qs = ps \<and> length qs \<le> max mx (length ps)"
proof (induction "mx - length ps" arbitrary: ebr ps rule: less_induct)
  case less
  show ?case
  proof (cases "length ps < mx")
    case False
    then show ?thesis by (subst ebr_unfold) simp
  next
    case True
    show ?thesis
    proof (cases "read_lba512 st dev (ucast ebr) 1")
      case None
      with True show ?thesis by (subst ebr_unfold) simp
    next
      case (Some sec)
      show ?thesis
      proof (cases "boot_sig sec")
        case False
        with True Some show ?thesis by (subst ebr_unfold) simp
      next
        case sig: True
        let ?r = "ebr_round sec ext ebr ps"
        have pre: "take (length ps) (fst ?r) = ps" by (simp add: ebr_round_def Let_def)
        show ?thesis
        proof (cases "snd ?r")
          case None
          with True Some sig pre ebr_round_length(1) [of sec ext ebr ps] ebr_round_length(2) [of ps sec ext ebr] show ?thesis by (subst ebr_unfold) simp
        next
          case (Some nxt)
          have "is_extended (drop 462 sec ! 4)" using Some by (simp add: ebr_round_def Let_def split: if_splits)
          with assms \<open>read_lba512 st dev (ucast ebr) 1 = Some sec\<close> sig have "ebr_used sec" by blast
          note l = ebr_round_used [OF this, of ext ebr ps]
          have "mx - length (fst ?r) < mx - length ps" using l True by simp
          from less.hyps [OF this, of nxt] obtain qs where
            q: "scan_ebr_chain st dev ext nxt (fst ?r) mx = Some qs" "length (fst ?r) \<le> length qs"
              "take (length (fst ?r)) qs = fst ?r" "length qs \<le> max mx (length (fst ?r))" by auto
          have "take (length ps) qs = take (length ps) (take (length (fst ?r)) qs)" by (simp add: l min_def)
          then have "take (length ps) qs = ps" by (simp only: q(3) pre)
          moreover have "scan_ebr_chain st dev ext ebr ps mx = Some qs"
            using True \<open>read_lba512 st dev (ucast ebr) 1 = Some sec\<close> sig Some q(1) by (subst ebr_unfold) simp
          moreover have "length ps \<le> length qs" "length qs \<le> max mx (length ps)" using q(2,4) l True by simp_all
          ultimately show ?thesis by blast
        qed
      qed
    qed
  qed
qed

text \<open>A link back to the extended partition's first sector, when that sector carries no partition.\<close>

lemma scan_ebr_loops:
  assumes "length ps < mx" and "read_lba512 st dev (ucast ext) 1 = Some sec" and "boot_sig sec"
    and "\<not> ebr_used sec" and "is_extended (drop 462 sec ! 4)" and "le32 (drop 8 (drop 462 sec)) = 0"
  shows "scan_ebr_chain st dev ext ext ps mx = None"
proof -
  have r: "ebr_round sec ext ext ps = (ps, Some ext)"
    using assms(4-6) by (simp add: ebr_round_def ebr_used_def Let_def)
  have "\<not> (st = st \<and> dev = dev \<and> ext = ext \<and> ext = ext \<and> ps = ps \<and> mx = mx)"
    if "scan_ebr_chain st dev ext ext ps mx = Some y" for y
  proof (rule scan_ebr_chain.raw_induct [where P = "\<lambda>st' dev' ext' ebr' ps' mx' y.
      \<not> (st' = st \<and> dev' = dev \<and> ext' = ext \<and> ebr' = ext \<and> ps' = ps \<and> mx' = mx)", OF _ that])
    fix rec st' dev' ext' ebr' ps' mx' y'
    assume ih: "\<And>st' dev' ext' ebr' ps' mx' y'. rec st' dev' ext' ebr' ps' mx' = Some y' \<Longrightarrow>
        \<not> (st' = st \<and> dev' = dev \<and> ext' = ext \<and> ebr' = ext \<and> ps' = ps \<and> mx' = mx)"
      and body: "(if \<not> length ps' < mx' then Some ps'
         else case read_lba512 st' dev' (ucast ebr') 1 of None \<Rightarrow> Some ps'
           | Some sec \<Rightarrow> if \<not> boot_sig sec then Some ps'
             else case snd (ebr_round sec ext' ebr' ps') of None \<Rightarrow> Some (fst (ebr_round sec ext' ebr' ps'))
               | Some next \<Rightarrow> rec st' dev' ext' next (fst (ebr_round sec ext' ebr' ps')) mx') = Some y'"
    show "\<not> (st' = st \<and> dev' = dev \<and> ext' = ext \<and> ebr' = ext \<and> ps' = ps \<and> mx' = mx)"
      using body ih [of st dev ext ext ps mx y'] assms(1-3) r by auto
  qed
  then show ?thesis by (cases "scan_ebr_chain st dev ext ext ps mx") auto
qed

lemma scan_ebr_bound:
  "scan_ebr_chain st dev ext ebr ps mx = Some qs \<Longrightarrow> length qs \<le> max mx (length ps)"
proof (rule scan_ebr_chain.raw_induct [where P = "\<lambda>st dev ext ebr ps mx qs. length qs \<le> max mx (length ps)"])
  fix rec st dev ext ebr mx and ps qs :: parts
  assume ih: "\<And>st dev ext ebr ps mx qs. rec st dev ext ebr ps mx = Some qs \<Longrightarrow> length qs \<le> max mx (length (ps :: parts))"
    and body: "(if \<not> length ps < mx then Some ps
         else case read_lba512 st dev (ucast ebr) 1 of None \<Rightarrow> Some ps
           | Some sec \<Rightarrow> if \<not> boot_sig sec then Some ps
             else case snd (ebr_round sec ext ebr ps) of None \<Rightarrow> Some (fst (ebr_round sec ext ebr ps))
               | Some next \<Rightarrow> rec st dev ext next (fst (ebr_round sec ext ebr ps)) mx) = Some qs"
  show "length qs \<le> max mx (length ps)"
  proof (cases "length ps < mx")
    case True
    have "length qs \<le> max mx (Suc (length ps))"
    proof -
      have "length qs \<le> max mx (length (fst (ebr_round sec ext ebr ps)))"
        if "rec st dev ext nxt (fst (ebr_round sec ext ebr ps)) mx = Some qs" for sec nxt using ih [OF that] .
      moreover have "max mx (length (fst (ebr_round sec ext ebr ps))) \<le> max mx (Suc (length ps))" for sec
        using ebr_round_length(1) [of sec ext ebr ps] by (simp add: max_def)
      ultimately show ?thesis
        using body True ebr_round_length(1) by (auto split: option.splits if_splits simp: le_max_iff_disj) (meson order_trans)+
    qed
    with True show ?thesis by simp
  qed (use body in simp)
qed

lemma mbr_entries_bound: "mbr_entries st dev mbr is ps mx = Some (b, qs) \<Longrightarrow> length ps \<le> mx \<Longrightarrow> length qs \<le> mx"
proof (induction "is" arbitrary: ps)
  case (Cons i "is")
  have "length ps' \<le> mx" if "scan_ebr_chain st dev ext ext ps mx = Some ps'" for ext ps'
    using scan_ebr_bound [OF that] Cons.prems(2) by simp
  with Cons show ?case by (auto simp: Let_def split: if_splits option.splits)
qed simp

lemma scan_mbr_bound: "scan_mbr st dev mx = Some (n, ps) \<Longrightarrow> length ps \<le> mx"
proof -
  assume a: "scan_mbr st dev mx = Some (n, ps)"
  consider "ps = []" | mbr b where "mbr_entries st dev mbr [0, 1, 2, 3] [] mx = Some (b, ps)"
    using a by (auto simp del: mbr_entries.simps simp: scan_mbr_def split: option.splits if_splits bool.splits prod.splits)
  then show ?thesis
  proof cases
    case 2
    from mbr_entries_bound [OF 2] show ?thesis by simp
  qed simp
qed

section \<open>GPT\<close>

text \<open>Partitions that a scan may report on a disk of a known size.\<close>

definition parts_in :: "u64 \<Rightarrow> nat \<Rightarrow> parts \<Rightarrow> bool" where
  "parts_in total_lbas mx ps \<longleftrightarrow> length ps \<le> mx \<and> (\<forall>p \<in> set ps. fst p \<le> snd p \<and> (total_lbas \<noteq> 0 \<longrightarrow> snd p < total_lbas))"

lemma parts_in_pick: "parts_in total_lbas mx ps \<Longrightarrow> length ps < mx \<Longrightarrow> parts_in total_lbas mx (gpt_pick h total_lbas buf i ps)"
  by (auto simp: parts_in_def gpt_pick_def Let_def not_less not_le)

lemma gpt_collect_range: "parts_in total_lbas mx ps \<Longrightarrow> parts_in total_lbas mx (gpt_collect h total_lbas buf is ps mx)"
  by (induction "is" arbitrary: ps) (simp_all add: parts_in_pick)

lemma scan_gpt_range: "parts_in total_lbas mx (scan_gpt mem st dev total_lbas mx)"
proof -
  have "parts_in total_lbas mx []" by (simp add: parts_in_def)
  with gpt_collect_range show ?thesis by (simp add: scan_gpt_def split: option.splits)
qed

lemma gpt_validate_sound:
  assumes "gpt_validate_at mem st dev total_lbas hdr_lba = Some h"
  obtains sec hdrbuf buf where "read_lba512 st dev hdr_lba 1 = Some sec" and "h = gpt_hdr_of sec"
    and "gsig h = bytes_of ''EFI PART''" and "gpt_hdr_fields_ok h total_lbas"
    and "header_size h \<le> 512 \<Longrightarrow> hdrbuf = take (unat (header_size h)) sec"
    and "crc32_calc (blit hdrbuf 16 (zeros 4)) = header_crc h"
    and "entries_bytes h \<noteq> 0" and "entries_bytes h \<le> ENTRIES_MAX_BYTES"
    and "total_lbas \<noteq> 0 \<Longrightarrow> \<not> entries_lba h * LSEC + of_nat (entries_bytes h) > total_lbas * LSEC"
    and "read_bytes st dev (entries_lba h * LSEC) (of_nat (entries_bytes h)) = Some buf"
    and "crc32_calc buf = entries_crc h" and "mem (entries_bytes h)"
proof -
  from assms obtain sec where sec: "read_lba512 st dev hdr_lba 1 = Some sec"
    by (cases "read_lba512 st dev hdr_lba 1") (auto simp: gpt_validate_at_def)
  note v = assms [unfolded gpt_validate_at_def sec Let_def option.case]
  have sig: "bslice 0 8 sec = bytes_of ''EFI PART''" and ok: "gpt_hdr_fields_ok (gpt_hdr_of sec) total_lbas"
    using v by (auto split: if_splits)
  let ?h = "gpt_hdr_of sec"
  define hb where "hb = (if header_size ?h \<le> 512 then Some (take (unat (header_size ?h)) sec)
                          else read_bytes st dev (hdr_lba * LSEC) (header_size ?h))"
  obtain hdrbuf where hdr: "hb = Some hdrbuf"
    using v sig ok by (cases hb) (auto simp: hb_def split: if_splits)
  note v = v [folded hb_def, unfolded hdr option.case]
  obtain buf where buf: "read_bytes st dev (entries_lba ?h * LSEC) (of_nat (entries_bytes ?h)) = Some buf"
    using v sig ok by (cases "read_bytes st dev (entries_lba ?h * LSEC) (of_nat (entries_bytes ?h))") (auto split: if_splits)
  note v = v [unfolded buf option.case]
  have "h = ?h" using v by (auto split: if_splits)
  show thesis
  proof (rule that [of sec hdrbuf buf])
    show "header_size h \<le> 512 \<Longrightarrow> hdrbuf = take (unat (header_size h)) sec"
      using hdr \<open>h = ?h\<close> by (simp add: hb_def)
    show "gsig h = bytes_of ''EFI PART''" using sig \<open>h = ?h\<close> by (simp add: gpt_hdr_of_def)
  qed (use v sec buf ok \<open>h = ?h\<close> in \<open>auto split: if_splits\<close>)
qed

section \<open>Registration\<close>

definition child_row :: "vblk \<Rightarrow> string \<Rightarrow> nat \<Rightarrow> u64 \<times> u64 \<Rightarrow> string \<Rightarrow> vblk" where
  "child_row p pname num fl kind = \<lparr>vname = pname @ dec num, vdev = take 31 (vdev p), part_index = int num,
     fstype = take 15 kind, lba_start = fst fl, lba_size = snd fl - fst fl + 1,
     block_bytes = (if block_bytes p \<noteq> 0 then block_bytes p else 512), ro = ro p\<rparr>"

lemma dec_inj: "dec m = dec n \<longleftrightarrow> m = n"
  by (metis dec_value_dec)

lemma dec_small: "n < 1000 \<Longrightarrow> length (dec n) \<le> 3"
  using length_dec_less [of n 2] by simp

lemma is_child_dec: "is_child_of p (p @ dec n)"
  using dec_digits by (auto simp: is_child_of_def)

lemma register_child_row:
  assumes "length pname + 3 \<le> 31" and "num < 1000"
  shows "register_child g p pname num f l kind = (if l < f then (g, False)
    else case vblk_register g (child_row p pname num (f, l) kind) of (g', idx) \<Rightarrow> (g', \<not> idx < 0))"
proof -
  have "take 31 (pname @ dec num) = pname @ dec num" using assms dec_small [of num] by simp
  then show ?thesis by (simp add: register_child_def child_row_def Let_def split: prod.splits)
qed

lemma vblk_register_slot:
  assumes "i < length g" and "vname (g ! i) \<noteq> []" and "vname (g ! i) \<noteq> vname e"
  shows "fst (vblk_register g e) ! i = g ! i \<and> i < length (fst (vblk_register g e))"
  using assms
  by (auto simp: vblk_register_def find_by_name_def nth_append nth_list_update
      split: option.splits dest: find_index_SomeD)

lemma vblk_register_length: "length (fst (vblk_register g e)) \<le> length g + 1"
  by (auto simp: vblk_register_def split: option.splits)

text \<open>What one round of the loop does to the registry, seen as a map.\<close>

lemma register_child_map:
  assumes "length pname + 3 \<le> 31" and "num < 1000" and "length g < VBLK_MAX"
  shows "vblk_by_name (fst (register_child g p pname num f l kind)) =
    (if l < f then vblk_by_name g else (vblk_by_name g)(pname @ dec num \<mapsto> child_row p pname num (f, l) kind))"
proof (cases "l < f")
  case False
  let ?e = "child_row p pname num (f, l) kind"
  have ne: "vname ?e = pname @ dec num" "vname ?e \<noteq> []" by (simp_all add: child_row_def)
  obtain g' idx where r: "vblk_register g ?e = (g', idx)" by force
  have "\<not> idx < 0" using r ne(2) assms(3) by (auto simp: vblk_register_def split: option.splits if_splits)
  then have "vblk_put g ?e = Some g'" using r by (simp add: vblk_put_def)
  from vblk.get_put [OF ne(2) this] have "vblk_by_name g' = (vblk_by_name g)(vname ?e \<mapsto> ?e)" by (auto simp: fun_eq_iff)
  with r False ne(1) show ?thesis by (simp add: register_child_row [OF assms(1,2)])
qed (simp add: register_child_row [OF assms(1,2)])

lemma register_child_kept:
  assumes "length pname + 3 \<le> 31" and "num < 1000" and "i < length g" and "vname (g ! i) = pname" and "pname \<noteq> []"
  shows "fst (register_child g p pname num f l kind) ! i = g ! i"
    and "i < length (fst (register_child g p pname num f l kind))"
    and "length (fst (register_child g p pname num f l kind)) \<le> length g + 1"
    and "reg_ok g \<Longrightarrow> reg_ok (fst (register_child g p pname num f l kind))"
proof -
  let ?e = "child_row p pname num (f, l) kind"
  have "vname (g ! i) \<noteq> vname ?e" using assms(4) by (simp add: child_row_def)
  note s = vblk_register_slot [OF assms(3) _ this] and n = vblk_register_length [of g ?e] and r = reg_ok_register [of g ?e]
  from s n assms show "fst (register_child g p pname num f l kind) ! i = g ! i"
    and "i < length (fst (register_child g p pname num f l kind))"
    and "length (fst (register_child g p pname num f l kind)) \<le> length g + 1"
    by (auto simp: register_child_row [OF assms(1,2)] split: prod.splits)
  from r show "reg_ok g \<Longrightarrow> reg_ok (fst (register_child g p pname num f l kind))"
    by (auto simp: register_child_row [OF assms(1,2)] split: prod.splits)
qed

text \<open>The registry after the loop: each proper pair has its row under its number, and every other name is
  untouched.\<close>

lemma register_all_map:
  assumes "length pname + 3 \<le> 31" and "n + length ps < 1000" and "length g + length ps \<le> VBLK_MAX"
    and "i < length g" and "vname (g ! i) = pname" and "pname \<noteq> []" and "p = g ! i"
  shows "vblk_by_name (register_all g i pname n ps kind) x =
    (case find (\<lambda>k. x = pname @ dec (n + 1 + k) \<and> fst (ps ! k) \<le> snd (ps ! k)) [0..<length ps] of
       Some k \<Rightarrow> Some (child_row p pname (n + 1 + k) (ps ! k) kind) | None \<Rightarrow> vblk_by_name g x)"
  using assms
proof (induction ps arbitrary: g n)
  case (Cons fl ps)
  obtain f l where fl: "fl = (f, l)" by force
  let ?g1 = "fst (register_child g (g ! i) pname (n + 1) f l kind)"
  have num: "n + 1 < 1000" using Cons.prems(2) by simp
  note k = register_child_kept [OF Cons.prems(1) num Cons.prems(4,5,6), of "g ! i" f l kind]
  have m: "vblk_by_name ?g1 = (if l < f then vblk_by_name g
      else (vblk_by_name g)(pname @ dec (n + 1) \<mapsto> child_row p pname (n + 1) (f, l) kind))"
    using register_child_map [OF Cons.prems(1) num, of g "g ! i" f l kind] Cons.prems(3,7) by simp
  have "n + 1 + length ps < 1000" "length ?g1 + length ps \<le> VBLK_MAX" "vname (?g1 ! i) = pname" "p = ?g1 ! i"
    using Cons.prems k by auto
  note ih = Cons.IH [OF Cons.prems(1) this(1,2) k(2) this(3) Cons.prems(6) this(4)]
  have u: "[0..<Suc (length ps)] = 0 # map Suc [0..<length ps]" by (simp add: map_Suc_upt upt_conv_Cons del: upt_Suc)
  have fm: "find P (map Suc xs) = map_option Suc (find (P \<circ> Suc) xs)" for P xs by (induction xs) auto
  let ?P = "\<lambda>k. x = pname @ dec (n + 1 + 1 + k) \<and> fst (ps ! k) \<le> snd (ps ! k)"
  have c: "((\<lambda>k. x = pname @ dec (n + 1 + k) \<and> fst ((fl # ps) ! k) \<le> snd ((fl # ps) ! k)) \<circ> Suc) = ?P"
    by (auto simp: fun_eq_iff)
  have none: "find ?P [0..<length ps] = None" if "x = pname @ dec (n + 1)"
    using that by (auto simp: find_None_iff dec_inj)
  have eq: "register_all g i pname n (fl # ps) kind = register_all ?g1 i pname (n + 1) ps kind" by (simp add: fl)
  show ?case
  proof (cases "x = pname @ dec (n + 1) \<and> f \<le> l")
    case True
    with ih none m show ?thesis unfolding eq length_Cons u find.simps(2) by (auto simp: fl)
  next
    case False
    then have "vblk_by_name ?g1 x = vblk_by_name g x" using m by (auto simp: not_less)
    with ih False show ?thesis unfolding eq length_Cons u find.simps(2) fm c
      by (auto simp: fl split: option.splits)
  qed
qed simp

lemma register_all_reg_ok:
  assumes "length pname + 3 \<le> 31" and "n + length ps < 1000" and "i < length g" and "vname (g ! i) = pname"
    and "pname \<noteq> []" and "reg_ok g"
  shows "reg_ok (register_all g i pname n ps kind)"
  using assms
proof (induction ps arbitrary: g n)
  case (Cons fl ps)
  obtain f l where fl: "fl = (f, l)" by force
  have num: "n + 1 < 1000" using Cons.prems(2) by simp
  note k = register_child_kept [OF Cons.prems(1) num Cons.prems(3,4,5), of "g ! i" f l kind]
  have "n + 1 + length ps < 1000" using Cons.prems(2) by simp
  from Cons.IH [OF Cons.prems(1) this k(2) _ Cons.prems(5) k(4) [OF Cons.prems(6)]] k(1) Cons.prems(4) show ?case
    by (simp add: fl)
qed simp

section \<open>Properties\<close>

text \<open>\<^verbatim>\<open>sort_pairs\<close> sorts: the exchange loop gives the same pairs, first and last kept together, in
  ascending order of their first sector.\<close>

theorem sort_pairs_sorts:
  "mset (sort_pairs ps) = mset ps \<and> sorted (map fst (sort_pairs ps))"
  using sort_pairs_spec [of ps] by blast

text \<open>Every partition the GPT scan reports on a disk of known size is a proper range that ends on the
  disk, and never more of them than the arrays hold.\<close>

theorem scan_gpt_in_range:
  "length (scan_gpt mem st dev total_lbas mx) \<le> mx \<and>
   (\<forall>p \<in> set (scan_gpt mem st dev total_lbas mx). fst p \<le> snd p \<and> (total_lbas \<noteq> 0 \<longrightarrow> snd p < total_lbas))"
  using scan_gpt_range [of total_lbas mx mem st dev] by (simp add: parts_in_def)

text \<open>C27. The walk along the EBR chain ends on every disk where a sector that links on also carries a
  partition: it then returns, keeping what was found before and never exceeding the arrays.\<close>

theorem scan_ebr_chain_terminates:
  assumes "\<forall>lba sec. read_lba512 st dev (ucast (lba :: u32)) 1 = Some sec \<and> boot_sig sec \<and>
      is_extended (drop 462 sec ! 4) \<longrightarrow> ebr_used sec"
  shows "\<exists>qs. scan_ebr_chain st dev ext_base ebr ps mx = Some qs \<and> take (length ps) qs = ps \<and>
    length qs \<le> max mx (length ps)"
  using scan_ebr_returns [of st dev ext_base ebr ps mx] assms by blast

text \<open>C28. A chain that leads back to its first sector, where that sector carries no partition, is walked for
  ever: \<^verbatim>\<open>scan_ebr_chain\<close> never returns, whatever was found before, so attaching such an image hangs the
  program.\<close>

theorem scan_ebr_chain_diverges:
  assumes "length ps < mx" and "read_lba512 st dev (ucast ext_base) 1 = Some sec" and "boot_sig sec"
    and "\<not> ebr_used sec" and "is_extended (drop 462 sec ! 4)" and "le32 (drop 8 (drop 462 sec)) = 0"
  shows "scan_ebr_chain st dev ext_base ext_base ps mx = None"
  by (rule scan_ebr_loops [OF assms])

text \<open>A header that \<^verbatim>\<open>gpt_validate_at\<close> accepts is sound: it carries the signature, its
  sizes are within the limits, its fields and its whole entry array lie on the disk, and the array has the CRC the
  header gives.\<close>

theorem gpt_validate_at_sound:
  assumes "gpt_validate_at mem st dev total_lbas hdr_lba = Some h"
    and "part_ok st dev" and "block_bytes dev \<in> {0, 512}" and "unat total_lbas < 2 ^ 54"
  shows "gsig h = bytes_of ''EFI PART'' \<and> 92 \<le> unat (header_size h) \<and> 128 \<le> unat (entry_size h) \<and>
    0 < unat (num_entries h) \<and> unat (num_entries h) \<le> 4096 \<and> entries_bytes h \<le> 8388608 \<and>
    (total_lbas \<noteq> 0 \<longrightarrow> current_lba h < total_lbas \<and> backup_lba h < total_lbas \<and> last_usable_lba h < total_lbas \<and>
       unat (entries_lba h) * 512 + entries_bytes h \<le> unat total_lbas * 512) \<and>
    (\<exists>buf. read_bytes st dev (entries_lba h * LSEC) (of_nat (entries_bytes h)) = Some buf \<and>
       length buf = entries_bytes h \<and> crc32_calc buf = entries_crc h)"
  using assms(1)
proof (rule gpt_validate_sound)
  fix sec hdrbuf buf
  assume h: "gsig h = bytes_of ''EFI PART''" "gpt_hdr_fields_ok h total_lbas"
    and eb: "entries_bytes h \<noteq> 0" "entries_bytes h \<le> ENTRIES_MAX_BYTES"
    and fit: "total_lbas \<noteq> 0 \<Longrightarrow> \<not> entries_lba h * LSEC + of_nat (entries_bytes h) > total_lbas * LSEC"
    and buf: "read_bytes st dev (entries_lba h * LSEC) (of_nat (entries_bytes h)) = Some buf"
      "crc32_calc buf = entries_crc h"
  have f: "92 \<le> unat (header_size h)" "128 \<le> unat (entry_size h)" "0 < unat (num_entries h)"
    "unat (num_entries h) \<le> 4096" "entries_bytes h \<le> 8388608"
    using h(2) eb by (auto simp: gpt_hdr_fields_ok_def ENTRIES_MAX_BYTES_def not_less word_le_nat_alt unat_gt_0)
  have len: "length buf = entries_bytes h"
    using read_bytes_length [OF assms(2) buf(1)] f(5) by (simp add: unat_of_nat_small)
  have "unat (entries_lba h) * 512 + entries_bytes h \<le> unat total_lbas * 512" if "total_lbas \<noteq> 0"
  proof -
    have e: "unat (entries_lba h) < unat total_lbas"
      using h(2) that by (auto simp: gpt_hdr_fields_ok_def not_le word_less_nat_alt)
    have a: "unat (entries_lba h * LSEC) = unat (entries_lba h) * 512" "unat (total_lbas * LSEC) = unat total_lbas * 512"
      using e assms(4) by (simp_all add: LSEC_def unat_mult_small)
    have "unat (entries_lba h * LSEC + of_nat (entries_bytes h)) = unat (entries_lba h) * 512 + entries_bytes h"
      using a(1) e assms(4) f(5) by (simp add: unat_add_small unat_of_nat_small)
    with fit [OF that] a(2) show ?thesis by (simp add: not_less word_le_nat_alt)
  qed
  moreover have "current_lba h < total_lbas \<and> backup_lba h < total_lbas \<and> last_usable_lba h < total_lbas"
    if "total_lbas \<noteq> 0" using h(2) that by (auto simp: gpt_hdr_fields_ok_def)
  ultimately show ?thesis using h(1) f buf len by blast
qed

text \<open>What the scans find on a disk: the partitions of the MBR if it has any, else those of the GPT; and the order in which they are registered.\<close>

definition scanned_parts :: "(nat \<Rightarrow> bool) \<Rightarrow> dio \<Rightarrow> vblk \<Rightarrow> (parts \<times> string) option" where
  "scanned_parts mem st dev =
     (case scan_mbr st dev MAX_PARTS of None \<Rightarrow> None
      | Some (n, ms) \<Rightarrow>
          if n > 0 then Some (ms, ''mbr'')
          else Some (scan_gpt mem st dev (vblk_size_bytes st dev div LSEC) MAX_PARTS, ''gpt''))"

definition found_parts :: "(nat \<Rightarrow> bool) \<Rightarrow> dio \<Rightarrow> vblk \<Rightarrow> (parts \<times> string) option" where
  "found_parts mem st dev = map_option (\<lambda>(ps, kind). (sort_pairs ps, kind)) (scanned_parts mem st dev)"

lemma sort_pairs_Nil [simp]: "sort_pairs [] = []"
  using sort_pairs_spec [of "[]"] by simp

lemma disk_scan_found:
  assumes "disk_scan_partitions mem st g gname = Some (g', rc)" and "find_by_name g gname = Some pidx"
  shows "\<exists>ps kind. found_parts mem st (fst (vblk_remove_children g gname) ! pidx) = Some (ps, kind) \<and>
    g' = register_all (fst (vblk_remove_children g gname)) pidx gname 0 ps kind \<and> length ps \<le> MAX_PARTS \<and> (rc = -1 \<longrightarrow> ps = [])"
proof -
  let ?g1 = "fst (vblk_remove_children g gname)"
  let ?p = "?g1 ! pidx"
  obtain n ms where mbr: "scan_mbr st ?p MAX_PARTS = Some (n, ms)"
    using assms by (cases "scan_mbr st ?p MAX_PARTS") (auto simp: disk_scan_partitions_def Let_def)
  define gs where "gs = scan_gpt mem st ?p (vblk_size_bytes st ?p div LSEC) MAX_PARTS"
  have t: "(if vblk_size_bytes st ?p \<noteq> 0 then vblk_size_bytes st ?p div LSEC else 0) = vblk_size_bytes st ?p div LSEC" by simp
  have e: "(g', rc) = (if n > 0 then (register_all ?g1 pidx gname 0 (sort_pairs ms) ''mbr'', 0)
      else if n = -1 \<and> gs = [] then (?g1, -1)
      else if gs \<noteq> [] then (register_all ?g1 pidx gname 0 (sort_pairs gs) ''gpt'', 0) else (?g1, 0))"
    using assms mbr by (simp add: disk_scan_partitions_def Let_def t gs_def split: if_splits)
  have l: "length (sort_pairs ms) \<le> MAX_PARTS" "length (sort_pairs gs) \<le> MAX_PARTS"
    using scan_mbr_bound [OF mbr] scan_gpt_range [of _ MAX_PARTS mem st ?p] sort_pairs_spec [of ms] sort_pairs_spec [of gs]
    by (auto simp: gs_def parts_in_def)
  show ?thesis
  proof (cases "n > 0")
    case True
    with e l mbr show ?thesis by (intro exI [of _ "sort_pairs ms"] exI [of _ "''mbr''"]) (simp add: found_parts_def scanned_parts_def)
  next
    case False
    with e l mbr show ?thesis
      by (intro exI [of _ "sort_pairs gs"] exI [of _ "''gpt''"]) (auto simp: found_parts_def scanned_parts_def gs_def [symmetric] split: if_splits)
  qed
qed

lemma disk_scan_snapshot:
  assumes "disk_scan_partitions mem st g gname = Some (g', rc)" and "find_by_name g gname = Some pidx"
    and "reg_ok g" and "length gname + 3 \<le> 31" and "length g + MAX_PARTS \<le> VBLK_MAX"
  shows "reg_ok g' \<and> (\<exists>ps kind. found_parts mem st (g ! pidx) = Some (ps, kind) \<and> (rc = -1 \<longrightarrow> ps = []) \<and>
    (\<forall>k < length ps. fst (ps ! k) \<le> snd (ps ! k) \<longrightarrow>
       vblk_by_name g' (gname @ dec (k + 1)) = Some (child_row (g ! pidx) gname (k + 1) (ps ! k) kind)) \<and>
    (\<forall>x. is_child_of gname x \<and> vblk_by_name g' x \<noteq> None \<longrightarrow> (\<exists>k < length ps. x = gname @ dec (k + 1) \<and> fst (ps ! k) \<le> snd (ps ! k))) \<and>
    (\<forall>x. \<not> is_child_of gname x \<longrightarrow> vblk_by_name g' x = vblk_by_name g x))"
proof -
  have i: "pidx < length g" "vname (g ! pidx) = gname" "gname \<noteq> []"
    using find_index_SomeD [of _ g pidx] assms(2) by (auto simp: find_by_name_def)
  let ?g1 = "fst (vblk_remove_children g gname)"
  have nc: "\<not> is_child_of gname gname" by (simp add: is_child_of_def)
  have g1: "?g1 ! pidx = g ! pidx" "length ?g1 = length g" using i nc by (simp_all add: vblk_remove_children_def)
  have rk1: "reg_ok ?g1" by (rule reg_ok_remove_children [OF assms(3)])
  note m1 = vblk_remove_children_by_name [OF i(3), of g]
  obtain ps kind where fp: "found_parts mem st (g ! pidx) = Some (ps, kind)" and g': "g' = register_all ?g1 pidx gname 0 ps kind"
    and ps: "length ps \<le> MAX_PARTS" "rc = -1 \<longrightarrow> ps = []"
    using disk_scan_found [OF assms(1,2)] g1(1) by metis
  have b: "0 + length ps < 1000" "length ?g1 + length ps \<le> VBLK_MAX" "pidx < length ?g1" "vname (?g1 ! pidx) = gname"
    using ps(1) assms(5) i g1 by (auto simp: MAX_PARTS_def)
  note m = register_all_map [OF assms(4) b i(3) g1(1) [symmetric], of kind, folded g', unfolded m1]
  have "reg_ok g'" unfolding g' using register_all_reg_ok [OF assms(4) b(1,3,4) i(3) rk1] .
  moreover have "vblk_by_name g' (gname @ dec (k + 1)) = Some (child_row (g ! pidx) gname (k + 1) (ps ! k) kind)"
    if "k < length ps" "fst (ps ! k) \<le> snd (ps ! k)" for k
  proof -
    have "find (\<lambda>j. gname @ dec (k + 1) = gname @ dec (0 + 1 + j) \<and> fst (ps ! j) \<le> snd (ps ! j)) [0..<length ps] = Some k"
      unfolding find_Some_iff by (rule exI [of _ k]) (use that in \<open>auto simp: dec_inj\<close>)
    then show ?thesis using m [of "gname @ dec (k + 1)"] by simp
  qed
  moreover have "\<exists>k < length ps. x = gname @ dec (k + 1) \<and> fst (ps ! k) \<le> snd (ps ! k)" if "is_child_of gname x" "vblk_by_name g' x \<noteq> None" for x
    using m [of x] that by (auto split: option.splits simp: find_Some_iff)
  moreover have "vblk_by_name g' x = vblk_by_name g x" if "\<not> is_child_of gname x" for x
  proof -
    have "find (\<lambda>j. x = gname @ dec (0 + 1 + j) \<and> fst (ps ! j) \<le> snd (ps ! j)) [0..<length ps] = None"
      using that is_child_dec by (auto simp: find_None_iff)
    then show ?thesis using m [of x] that by simp
  qed
  ultimately show ?thesis using ps fp by blast
qed

text \<open>C25. A partition scan of a registered disk is an authoritative snapshot. When it returns, the pairs that the MBR or GPT scan found have an
  order, ascending in the first sector, in which the children of the disk are exactly its proper pairs: each pair whose last sector is not before its
  first is registered under its place in that order, counted from 1, with the parent's backing device, and no other child is left, so that there is none
  for an improper pair and the stale ones are gone. Every other device is untouched, the registry stays well formed, and a scan that
  reports -1 found nothing.\<close>

theorem disk_scan_partitions_snapshot:
  assumes "disk_scan_partitions mem st g gname = Some (g', rc)" and "find_by_name g gname = Some pidx"
    and "reg_ok g" and "length gname + 3 \<le> 31" and "length g + MAX_PARTS \<le> VBLK_MAX"
  shows "reg_ok g' \<and> (\<exists>found ps kind. scanned_parts mem st (g ! pidx) = Some (found, kind) \<and> (rc = -1 \<longrightarrow> found = []) \<and>
    mset ps = mset found \<and> sorted (map fst ps) \<and>
    (\<forall>k < length ps. fst (ps ! k) \<le> snd (ps ! k) \<longrightarrow>
       vblk_by_name g' (gname @ dec (k + 1)) = Some (child_row (g ! pidx) gname (k + 1) (ps ! k) kind)) \<and>
    (\<forall>x. is_child_of gname x \<and> vblk_by_name g' x \<noteq> None \<longrightarrow> (\<exists>k < length ps. x = gname @ dec (k + 1) \<and> fst (ps ! k) \<le> snd (ps ! k))) \<and>
    (\<forall>x. \<not> is_child_of gname x \<longrightarrow> vblk_by_name g' x = vblk_by_name g x))"
proof -
  obtain ps kind where s: "found_parts mem st (g ! pidx) = Some (ps, kind)" "rc = -1 \<longrightarrow> ps = []"
    "\<forall>k < length ps. fst (ps ! k) \<le> snd (ps ! k) \<longrightarrow>
       vblk_by_name g' (gname @ dec (k + 1)) = Some (child_row (g ! pidx) gname (k + 1) (ps ! k) kind)"
    "\<forall>x. is_child_of gname x \<and> vblk_by_name g' x \<noteq> None \<longrightarrow> (\<exists>k < length ps. x = gname @ dec (k + 1) \<and> fst (ps ! k) \<le> snd (ps ! k))"
    "\<forall>x. \<not> is_child_of gname x \<longrightarrow> vblk_by_name g' x = vblk_by_name g x" and r: "reg_ok g'"
    using disk_scan_snapshot [OF assms] by blast
  then obtain found where f: "scanned_parts mem st (g ! pidx) = Some (found, kind)" "ps = sort_pairs found" by (auto simp: found_parts_def)
  have o: "mset ps = mset found" "sorted (map fst ps)" using sort_pairs_spec [of found] f(2) by auto
  have "rc = -1 \<longrightarrow> found = []" using s(2) o(1) by auto
  then show ?thesis using r f(1) o s(3-5) by blast
qed

section \<open>Witnesses\<close>

text \<open>An EBR that links to itself, with and without a partition of its own.\<close>

definition demo_ebr :: "byte \<Rightarrow> byte list" where
  "demo_ebr t = (zeros 512)[450 := t, 458 := 1, 466 := 0x05, 510 := 0x55, 511 := 0xAA]"

lemma demo_ebr_facts:
  "length (demo_ebr t) = 512" "boot_sig (demo_ebr t)" "is_extended (drop 462 (demo_ebr t) ! 4)"
  "le32 (drop 8 (drop 462 (demo_ebr t))) = 0" "ebr_used (demo_ebr t) \<longleftrightarrow> t \<noteq> 0"
  by (simp_all add: demo_ebr_def boot_sig_def is_extended_def ebr_used_def le32_def nth_list_update)

lemma demo_ebr_disk:
  obtains st where "read_lba512 st (demo_part ''/dev/a1'' 1 1) 0 1 = Some (demo_ebr t)"
    and "\<And>lba. lba \<noteq> 0 \<Longrightarrow> read_lba512 st (demo_part ''/dev/a1'' 1 1) lba 1 = None"
proof (rule demo_disk)
  fix st assume d: "dio_inv (st, ''/dev/a'')" "writable (dio_disk (st, ''/dev/a''))"
    "size_bytes (dio_disk (st, ''/dev/a'')) = 2048"
  let ?p = "demo_part ''/dev/a1'' 1 1"
  have "part_ok st ?p" using d by (simp add: part_ok_def demo_part_def vblk_backing_key_def)
  from vblk_blocks_written [OF this, of 512 1 "demo_ebr t" 0] d(2) demo_ebr_facts(1) obtain st' where
    "part_ok st' ?p" "vblk_read_blocks st' ?p 0 1 = Some (demo_ebr t)"
    by (auto simp: demo_part_def vblk_backing_key_def)
  with that [of st'] show thesis
    by (auto simp: read_lba512_def read_lba512_guest [unfolded read_lba512_def] demo_part_def unat_eq_zero)
qed

theorem scan_ebr_chain_terminates_witness:
  "\<exists>st qs. scan_ebr_chain st (demo_part ''/dev/a1'' 1 1) 0 0 [] 128 = Some qs \<and> length qs \<le> 128 \<and>
     read_lba512 st (demo_part ''/dev/a1'' 1 1) 0 1 = Some (demo_ebr 0x83)"
proof (rule demo_ebr_disk [of "0x83"])
  fix st assume r: "read_lba512 st (demo_part ''/dev/a1'' 1 1) 0 1 = Some (demo_ebr 0x83)"
    "\<And>lba. lba \<noteq> 0 \<Longrightarrow> read_lba512 st (demo_part ''/dev/a1'' 1 1) lba 1 = None"
  have "\<forall>lba sec. read_lba512 st (demo_part ''/dev/a1'' 1 1) (ucast (lba :: u32)) 1 = Some sec \<and> boot_sig sec \<and>
      is_extended (drop 462 sec ! 4) \<longrightarrow> ebr_used sec"
  proof (intro allI impI)
    fix lba :: u32 and sec
    assume a: "read_lba512 st (demo_part ''/dev/a1'' 1 1) (ucast lba) 1 = Some sec \<and> boot_sig sec \<and>
      is_extended (drop 462 sec ! 4)"
    then have "ucast lba = (0 :: u64)" using r(2) by force
    with a r(1) demo_ebr_facts(5) [of "0x83"] show "ebr_used sec" by simp
  qed
  from scan_ebr_chain_terminates [OF this, of 0 0 "[]" 128] r(1) show ?thesis by auto
qed

theorem scan_ebr_chain_diverges_witness:
  "\<exists>st. scan_ebr_chain st (demo_part ''/dev/a1'' 1 1) 0 0 [] 128 = None"
proof (rule demo_ebr_disk [of 0])
  fix st assume r: "read_lba512 st (demo_part ''/dev/a1'' 1 1) 0 1 = Some (demo_ebr 0)"
  from scan_ebr_chain_diverges [of "[]" 128 st _ 0 "demo_ebr 0"] r demo_ebr_facts [of 0] show ?thesis by auto
qed

theorem disk_scan_partitions_snapshot_witness:
  "\<exists>st g'. disk_scan_partitions (\<lambda>n. True) st [demo_part ''/dev/a'' 0 4, demo_part ''/dev/a1'' 1 1] ''/dev/a'' = Some (g', 0) \<and>
     vblk_by_name g' ''/dev/a1'' = None \<and> reg_ok g'"
proof (rule demo_disk)
  fix st assume d: "dio_inv (st, ''/dev/a'')" "size_bytes (dio_disk (st, ''/dev/a'')) = 2048"
    "\<And>i. i < 2048 \<Longrightarrow> vdisk_guest (dio_disk (st, ''/dev/a'')) i = 0"
  let ?p = "demo_part ''/dev/a'' 0 4" and ?g = "[demo_part ''/dev/a'' 0 4, demo_part ''/dev/a1'' 1 1]"
  have p: "part_ok st ?p" using d(1,2) by (simp add: part_ok_def demo_part_def vblk_backing_key_def)
  have rd: "read_lba512 st ?p lba 1 = (if unat lba < 4 then Some (zeros 512) else None)" for lba
  proof -
    have "window (vdisk_guest (dio_disk (st, ''/dev/a''))) (unat lba * 512) 512 = zeros 512" if "unat lba < 4"
      using that d(3) by (intro nth_equalityI) auto
    then show ?thesis using read_lba512_guest [OF p, of lba] by (auto simp: demo_part_def vblk_backing_key_def)
  qed
  have f: "find_by_name ?g ''/dev/a'' = Some 0" by (simp add: find_by_name_def demo_part_def)
  have c: "is_child_of ''/dev/a'' ''/dev/a1''" "\<not> is_child_of ''/dev/a'' ''/dev/a''" by code_simp+
  have g1: "fst (vblk_remove_children ?g ''/dev/a'') = [?p, vblk_zero]"
    using c by (simp add: vblk_remove_children_def demo_part_def)
  have sig: "bslice 0 8 (zeros 512) \<noteq> bytes_of ''EFI PART''"
    by (simp add: bytes_of_def bslice_def zeros_def list_eq_iff_nth_eq) (rule exI [of _ 0], simp)
  have m: "scan_mbr st ?p MAX_PARTS = Some (0, [])" using rd by (simp add: scan_mbr_def boot_sig_def)
  have v: "gpt_validate_at mem st ?p t lba = None" for mem t lba using rd sig by (simp add: gpt_validate_at_def)
  have gp: "scan_gpt mem st ?p t MAX_PARTS = []" for mem t using rd sig v by (simp add: scan_gpt_def gpt_find_header_def)
  have s: "disk_scan_partitions (\<lambda>n. True) st ?g ''/dev/a'' = Some ([?p, vblk_zero], 0)"
    using f g1 m gp by (simp add: disk_scan_partitions_def Let_def)
  have ok: "reg_ok ?g" by (auto simp: reg_ok_def demo_part_def VBLK_MAX_def less_Suc_eq)
  from disk_scan_partitions_snapshot [OF s f ok] have "reg_ok [?p, vblk_zero]" by (simp add: MAX_PARTS_def VBLK_MAX_def)
  moreover have "vblk_by_name [?p, vblk_zero] ''/dev/a1'' = None"
    by (simp add: vblk_by_name_def find_by_name_def demo_part_def vblk_zero_def)
  ultimately show ?thesis using s by blast
qed

end
