(* ===== verification/Gpt_Cmd.thy ===== *)
theory Gpt_Cmd
  imports Blkdev
begin

text \<open>
  \<^verbatim>\<open>src/cmd_gpt.c\<close>: the \<^verbatim>\<open>gpt\<close> command, which prints, creates and extends GUID partition tables on an
  attached image. What a subcommand prints is a value of \<open>gpt_msg\<close>; the C functions return 0 in every case. The
  entropy of \<^verbatim>\<open>gen_guid\<close> (time and \<^verbatim>\<open>rand\<close>) is a 32-bit seed per call, the outcome of \<^verbatim>\<open>malloc\<close> is \<open>mem\<close>,
  and the size parser of \<^verbatim>\<open>helper.c\<close>, which computes in \<^verbatim>\<open>long double\<close>, is the parameter \<open>psize\<close> of the
  option form. The CRC is the one of \<open>Crc32\<close>: the two files have the same text.
\<close>

section \<open>Structures in memory\<close>

definition hdr_bytes :: "gpt_hdr \<Rightarrow> byte list" where
  "hdr_bytes h = gsig h @ put32 (grev h) @ put32 (header_size h) @ put32 (header_crc h) @ put32 (grsv h) @
     put64 (current_lba h) @ put64 (backup_lba h) @ put64 (first_usable_lba h) @ put64 (last_usable_lba h) @
     disk_guid h @ put64 (entries_lba h) @ put32 (num_entries h) @ put32 (entry_size h) @ put32 (entries_crc h)"

definition ent_bytes :: "gpt_ent \<Rightarrow> byte list" where
  "ent_bytes e = type_guid e @ part_guid e @ put64 (first_lba e) @ put64 (last_lba e) @ put64 (attrs e) @ name_utf16 e"

section \<open>Helpers\<close>

definition to_utf16le :: "string \<Rightarrow> byte list" where
  "to_utf16le s =
     (let cs = take 36 (bytes_of s)
      in concat (map (\<lambda>b. [b, 0]) cs) @ zeros (72 - 2 * length cs))"

definition from_utf16le :: "byte list \<Rightarrow> nat \<Rightarrow> string" where
  "from_utf16le src dstsz =
     text_of (take (dstsz - 1) (map (\<lambda>i. src ! (2 * i))
       (takeWhile (\<lambda>i. le16 (drop (2 * i) src) \<noteq> 0) [0..<36])))"

fun guid_stream :: "nat \<Rightarrow> u32 \<Rightarrow> byte list" where
  "guid_stream 0 r = []"
| "guid_stream (Suc n) r =
     (let r = r XOR push_bit 13 r; r = r XOR drop_bit 17 r; r = r XOR push_bit 5 r
      in ucast (r AND 0xFF) # guid_stream n r)"

definition gen_guid :: "u32 \<Rightarrow> byte list" where
  "gen_guid r =
     (let g = guid_stream 16 r
      in g[7 := (g ! 7 AND 0x0F) OR 0x40, 8 := (g ! 8 AND 0x3F) OR 0x80])"

definition TYPE_LINUXFS :: "byte list" where
  "TYPE_LINUXFS = [0xAF,0x3D,0xC6,0x0F,0x83,0x84,0x72,0x47,0x8E,0x79,0x3D,0x69,0xD8,0x47,0x7D,0xE4]"

definition TYPE_BIOSBOOT :: "byte list" where
  "TYPE_BIOSBOOT = [0x48,0x61,0x68,0x21,0x49,0x64,0x6F,0x6E,0x74,0x4E,0x65,0x65,0x64,0x45,0x46,0x49]"

definition TYPE_MS_BASIC :: "byte list" where
  "TYPE_MS_BASIC = [0xA2,0xA0,0xD0,0xEB,0xE5,0xB9,0x33,0x44,0x87,0xC0,0x68,0xB6,0xB7,0x26,0x99,0xC7]"

definition type_guid_for :: "string \<Rightarrow> byte list option" where
  "type_guid_for t =
     (let is = (\<lambda>s. map tolower t = s)
      in if is ''linuxfs'' \<or> is ''linux'' then Some TYPE_LINUXFS
         else if is ''biosboot'' \<or> is ''bios'' then Some TYPE_BIOSBOOT
         else if is ''msbasic'' \<or> is ''basic'' \<or> is ''basicdata'' \<or> is ''ms-basic'' then Some TYPE_MS_BASIC
         else None)"

definition resolve_key_or_path :: "dio \<Rightarrow> vblk list \<Rightarrow> string \<Rightarrow> string option" where
  "resolve_key_or_path st g target =
     (case vblk_by_name g target of
        Some vb \<Rightarrow> Some (take 63 (if vdev vb \<noteq> [] then vdev vb else vname vb))
      | None \<Rightarrow> diskio_resolve st target)"

definition pread_lba512 :: "dio \<Rightarrow> string \<Rightarrow> u64 \<Rightarrow> byte list option" where
  "pread_lba512 st key lba = diskio_pread st key (lba * LSEC) 512"

definition pwrite_lba512 :: "dio \<Rightarrow> string \<Rightarrow> u64 \<Rightarrow> byte list \<Rightarrow> dio \<times> bool" where
  "pwrite_lba512 st key lba src = diskio_pwrite st key (lba * LSEC) src"

section \<open>Reading\<close>

definition cmd_read_header :: "(nat \<Rightarrow> bool) \<Rightarrow> dio \<Rightarrow> string \<Rightarrow> u64 \<Rightarrow> u64 \<Rightarrow> gpt_hdr option" where
  "cmd_read_header mem st key hdr_lba total_lbas =
     (case pread_lba512 st key hdr_lba of None \<Rightarrow> None
      | Some sec \<Rightarrow>
          if bslice 0 8 sec \<noteq> bytes_of ''EFI PART'' then None
          else
            let h = gpt_hdr_of sec
            in if \<not> gpt_hdr_fields_ok h total_lbas then None
               else if \<not> mem (unat (header_size h)) then None
               else case (if header_size h \<le> 512 then Some (take (unat (header_size h)) sec)
                          else diskio_pread st key (hdr_lba * LSEC) (unat (header_size h))) of
                   None \<Rightarrow> None
                 | Some hdrbuf \<Rightarrow>
                     if crc32_calc (blit hdrbuf 16 (zeros 4)) \<noteq> header_crc h then None else Some h)"

definition cmd_read_entries :: "(nat \<Rightarrow> bool) \<Rightarrow> dio \<Rightarrow> string \<Rightarrow> gpt_hdr \<Rightarrow> byte list option" where
  "cmd_read_entries mem st key h =
     (if entries_bytes h = 0 \<or> entries_bytes h > ENTRIES_MAX_BYTES then None
      else if \<not> mem (entries_bytes h) then None
      else case diskio_pread st key (entries_lba h * LSEC) (unat (of_nat (entries_bytes h) :: u32)) of
          None \<Rightarrow> None
        | Some buf \<Rightarrow> if crc32_calc buf \<noteq> entries_crc h then None else Some buf)"

section \<open>Writing\<close>

text \<open>The checksum is taken over \<^verbatim>\<open>header_size\<close> bytes from the start of the structure, which has 92: for a
  larger size the rest is whatever follows it in memory, the parameter \<open>tail\<close>.\<close>

definition gpt_update_header_crc :: "byte list \<Rightarrow> gpt_hdr \<Rightarrow> gpt_hdr" where
  "gpt_update_header_crc tail h =
     (let h0 = h\<lparr>header_crc := 0\<rparr>;
          buf = take (unat (header_size h)) (hdr_bytes h0 @ tail);
          buf = (if header_size h \<ge> 20 then blit buf 16 (zeros 4) else buf)
      in h0\<lparr>header_crc := crc32_calc buf\<rparr>)"

definition gpt_update_entries_crc :: "gpt_hdr \<Rightarrow> byte list \<Rightarrow> gpt_hdr" where
  "gpt_update_entries_crc h ents = h\<lparr>entries_crc := crc32_calc (take (entries_bytes h) ents)\<rparr>"

definition gpt_write_primary :: "dio \<Rightarrow> string \<Rightarrow> gpt_hdr \<Rightarrow> byte list \<Rightarrow> dio \<times> bool" where
  "gpt_write_primary st key h ents =
     (case diskio_pwrite st key (entries_lba h * LSEC) (take (unat (of_nat (entries_bytes h) :: u32)) ents) of
        (st, False) \<Rightarrow> (st, False)
      | (st, True) \<Rightarrow> pwrite_lba512 st key (current_lba h) (hdr_bytes h @ zeros 420))"

definition gpt_write_backup :: "dio \<Rightarrow> string \<Rightarrow> gpt_hdr \<Rightarrow> byte list \<Rightarrow> dio \<times> bool" where
  "gpt_write_backup st key h ents =
     (case diskio_pwrite st key (entries_lba h * LSEC) (take (unat (of_nat (entries_bytes h) :: u32)) ents) of
        (st, False) \<Rightarrow> (st, False)
      | (st, True) \<Rightarrow> pwrite_lba512 st key (current_lba h) (hdr_bytes h @ zeros 420))"

definition protective_mbr :: "u64 \<Rightarrow> byte list" where
  "protective_mbr total_lbas =
     (let count = (if total_lbas > 0xFFFFFFFF then 0xFFFFFFFF else ucast total_lbas - 1 :: u32)
      in blit_all (zeros 512) [(446 + 4, [0xEE]), (446 + 8, put32 1), (446 + 12, put32 count), (510, [0x55, 0xAA])])"

definition write_protective_mbr :: "dio \<Rightarrow> string \<Rightarrow> u64 \<Rightarrow> dio \<times> bool" where
  "write_protective_mbr st key total_lbas = pwrite_lba512 st key 0 (protective_mbr total_lbas)"

section \<open>Number and size arguments\<close>

definition strto_digits :: "string \<Rightarrow> (nat \<times> string) option" where
  "strto_digits s = (if takeWhile isdigit s = [] then None
     else Some (dec_value (takeWhile isdigit s), dropWhile isdigit s))"

definition strto_sign :: "string \<Rightarrow> bool \<times> string" where
  "strto_sign s = (case dropWhile isspace s of
       [] \<Rightarrow> (False, [])
     | c # r \<Rightarrow> if c = CHR ''-'' then (True, r) else if c = CHR ''+'' then (False, r) else (False, c # r))"

definition strtol10 :: "string \<Rightarrow> int \<times> string" where
  "strtol10 s =
     (case strto_sign s of (neg, r) \<Rightarrow>
        (case strto_digits r of None \<Rightarrow> (0, s)
         | Some (n, rest) \<Rightarrow> (if neg then max (- (2 ^ 63)) (- int n) else min (2 ^ 63 - 1) (int n), rest)))"

definition strtoull10 :: "string \<Rightarrow> u64 \<times> string" where
  "strtoull10 s =
     (case strto_sign s of (neg, r) \<Rightarrow>
        (case strto_digits r of None \<Rightarrow> (0, s)
         | Some (n, rest) \<Rightarrow>
             (if n \<ge> 2 ^ 64 then -1 else if neg then - of_nat n else of_nat n, rest)))"

datatype size_spec = SpecBytes u64 | SpecPct u32 | SpecSectors u64

definition parse_size_spec :: "(string \<Rightarrow> u64 option) \<Rightarrow> string \<Rightarrow> size_spec option" where
  "parse_size_spec psize s0 =
     (if s0 = [] then None
      else
        let s = dropWhile (\<lambda>c. c = CHR '' '' \<or> c = CHR 0x09) s0
        in if s \<noteq> [] \<and> last s = CHR ''%'' then
             (case strtol10 s of (p, rest) \<Rightarrow>
                if rest = ''%'' \<and> 0 \<le> p \<and> p \<le> 100 then Some (SpecPct (of_int p)) else None)
           else if s \<noteq> [] \<and> (last s = CHR ''s'' \<or> last s = CHR ''S'') then
             (case strtoull10 s of (v, rest) \<Rightarrow>
                if rest = ''s'' \<or> rest = ''S'' then Some (SpecSectors v) else None)
           else map_option SpecBytes (psize s))"

section \<open>Subcommands\<close>

datatype gpt_msg =
    Unresolved | NoGpt | BadEntries | TooSmall | AllocFailed | MbrFailed | WriteFailed
  | UnknownType | EndBeforeStart | BackupInvalid | OutsideUsable | Overlaps nat | NoFreeEntry
  | UnknownOption | MissingOptions | BadStart | BadEnd | BadSize | EmptyRange | Usage
  | Initialized | Added nat | Table gpt_hdr "(nat \<times> u64 \<times> u64 \<times> u64 \<times> string \<times> string) list"

definition key_total :: "dio \<Rightarrow> string \<Rightarrow> u64" where
  "key_total st key = (let n = diskio_size_bytes st key in if n \<noteq> 0 then n div LSEC else 0)"

definition type_label :: "gpt_ent \<Rightarrow> string" where
  "type_label e = (if type_guid e = TYPE_LINUXFS then ''linuxfs'' else if type_guid e = TYPE_BIOSBOOT then ''biosboot''
     else if type_guid e = TYPE_MS_BASIC then ''msbasic'' else ''unknown'')"

fun print_rows :: "gpt_hdr \<Rightarrow> byte list \<Rightarrow> nat list \<Rightarrow> nat \<Rightarrow> (nat \<times> u64 \<times> u64 \<times> u64 \<times> string \<times> string) list" where
  "print_rows h ents [] idx = []"
| "print_rows h ents (i # is) idx =
     (let e = gpt_entry_at h ents i
      in if guid_empty e then print_rows h ents is idx
         else (idx, first_lba e, last_lba e, (if last_lba e \<ge> first_lba e then last_lba e - first_lba e + 1 else 0),
               type_label e, from_utf16le (name_utf16 e) 64) # print_rows h ents is (idx + 1))"

definition gpt_cmd_print :: "(nat \<Rightarrow> bool) \<Rightarrow> dio \<Rightarrow> vblk list \<Rightarrow> string \<Rightarrow> gpt_msg" where
  "gpt_cmd_print mem st g target =
     (case resolve_key_or_path st g target of None \<Rightarrow> Unresolved
      | Some key \<Rightarrow>
          (case cmd_read_header mem st key 1 (key_total st key) of None \<Rightarrow> NoGpt
           | Some h \<Rightarrow>
               (case cmd_read_entries mem st key h of None \<Rightarrow> BadEntries
                | Some ents \<Rightarrow> Table h (print_rows h ents [0..<unat (num_entries h)] 1))))"

fun zero_lbas :: "dio \<Rightarrow> string \<Rightarrow> u64 \<Rightarrow> nat \<Rightarrow> dio" where
  "zero_lbas st key lba 0 = st"
| "zero_lbas st key lba (Suc n) = zero_lbas (fst (pwrite_lba512 st key lba (zeros 512))) key (lba + 1) n"

definition fresh_header :: "u64 \<Rightarrow> byte list \<Rightarrow> byte list \<Rightarrow> byte list \<Rightarrow> gpt_hdr" where
  "fresh_header total_lbas guid ents tail =
     (let backup_hdr = total_lbas - 1; backup_ent = backup_hdr - 32
      in gpt_update_header_crc tail (gpt_update_entries_crc
           \<lparr>gsig = bytes_of ''EFI PART'', grev = 0x00010000, header_size = 92, header_crc = 0, grsv = 0,
             current_lba = 1, backup_lba = backup_hdr, first_usable_lba = 2 + 32, last_usable_lba = backup_ent - 1,
             disk_guid = guid, entries_lba = 2, num_entries = 128, entry_size = 128, entries_crc = 0\<rparr> ents))"

definition backup_of :: "gpt_hdr \<Rightarrow> byte list \<Rightarrow> byte list \<Rightarrow> gpt_hdr" where
  "backup_of hp ents tail =
     gpt_update_header_crc tail (gpt_update_entries_crc
       (hp\<lparr>current_lba := backup_lba hp, backup_lba := 1, entries_lba := backup_lba hp - 32\<rparr>) ents)"

definition gpt_init_disk :: "(nat \<Rightarrow> bool) \<Rightarrow> u32 \<Rightarrow> dio \<Rightarrow> string \<Rightarrow> dio \<times> gpt_msg" where
  "gpt_init_disk mem seed st key =
     (let n = diskio_size_bytes st key
      in if n < LSEC * (2 + 32 + 1) then (st, TooSmall)
         else
           let total_lbas = n div LSEC;
               backup_hdr = total_lbas - 1; backup_ent = backup_hdr - 32;
               st = zero_lbas st key 2 32;
               st = zero_lbas st key backup_ent 32;
               st = fst (pwrite_lba512 st key 1 (zeros 512));
               st = fst (pwrite_lba512 st key backup_hdr (zeros 512))
           in if \<not> mem 16384 then (st, AllocFailed)
              else
                let ents = zeros 16384;
                    hp = fresh_header total_lbas (gen_guid seed) ents [];
                    hb = backup_of hp ents []
                in case write_protective_mbr st key total_lbas of
                     (st, False) \<Rightarrow> (st, MbrFailed)
                   | (st, True) \<Rightarrow>
                       (case gpt_write_primary st key hp ents of
                          (st, False) \<Rightarrow> (st, WriteFailed)
                        | (st, True) \<Rightarrow>
                            (case gpt_write_backup st key hb ents of
                               (st, False) \<Rightarrow> (st, WriteFailed)
                             | (st, True) \<Rightarrow> (st, Initialized))))"

text \<open>Both writers end with a rescan, whose result they drop; the rescan itself may not return.\<close>

definition after_write :: "(nat \<Rightarrow> bool) \<Rightarrow> vblk list \<Rightarrow> string \<Rightarrow> dio \<times> gpt_msg \<Rightarrow> bool \<Rightarrow> (dio \<times> vblk list \<times> gpt_msg) option" where
  "after_write mem g target r done =
     (case r of (st, m) \<Rightarrow>
        if \<not> done then Some (st, g, m)
        else case block_rescan mem st g target of None \<Rightarrow> None | Some (g', rc) \<Rightarrow> Some (st, g', m))"

definition gpt_cmd_init :: "(nat \<Rightarrow> bool) \<Rightarrow> u32 \<Rightarrow> dio \<Rightarrow> vblk list \<Rightarrow> string \<Rightarrow> (dio \<times> vblk list \<times> gpt_msg) option" where
  "gpt_cmd_init mem seed st g target =
     (case resolve_key_or_path st g target of None \<Rightarrow> Some (st, g, Unresolved)
      | Some key \<Rightarrow> (let r = gpt_init_disk mem seed st key in after_write mem g target r (snd r = Initialized)))"

text \<open>The checks and the update of the entry array, between reading and writing.\<close>

definition overlapping :: "gpt_hdr \<Rightarrow> byte list \<Rightarrow> u64 \<Rightarrow> u64 \<Rightarrow> nat \<Rightarrow> bool" where
  "overlapping h ents f l i =
     (let e = gpt_entry_at h ents i in \<not> guid_empty e \<and> f \<le> last_lba e \<and> l \<ge> first_lba e)"

definition new_entry :: "byte list \<Rightarrow> u32 \<Rightarrow> u64 \<Rightarrow> u64 \<Rightarrow> string \<Rightarrow> gpt_ent" where
  "new_entry tg seed f l name = \<lparr>type_guid = tg, part_guid = gen_guid seed, first_lba = f, last_lba = l, attrs = 0,
     name_utf16 = to_utf16le name\<rparr>"

definition gpt_insert :: "u32 \<Rightarrow> gpt_hdr \<Rightarrow> byte list \<Rightarrow> byte list \<Rightarrow> string \<Rightarrow> u64 \<Rightarrow> u64 \<Rightarrow> gpt_msg + (byte list \<times> nat)" where
  "gpt_insert seed hp ents tg name f l =
     (let f = (if f < first_usable_lba hp then first_usable_lba hp else f);
          l = (if l > last_usable_lba hp then last_usable_lba hp else l)
      in if l < f then Inl OutsideUsable
         else case find (overlapping hp ents f l) [0..<unat (num_entries hp)] of
             Some i \<Rightarrow> Inl (Overlaps (i + 1))
           | None \<Rightarrow>
               (case find (\<lambda>i. guid_empty (gpt_entry_at hp ents i)) [0..<unat (num_entries hp)] of
                  None \<Rightarrow> Inl NoFreeEntry
                | Some idx \<Rightarrow>
                    Inr (blit ents (idx * unat (entry_size hp))
                           (ent_bytes (new_entry tg seed f l name) @ zeros (unat (entry_size hp) - 128)), idx)))"

definition gpt_add_disk :: "(nat \<Rightarrow> bool) \<Rightarrow> byte list \<Rightarrow> u32 \<Rightarrow> dio \<Rightarrow> string \<Rightarrow> byte list \<Rightarrow> string \<Rightarrow> u64 \<Rightarrow> u64 \<Rightarrow> dio \<times> gpt_msg" where
  "gpt_add_disk mem tail seed st key tg name f l =
     (let total_lbas = key_total st key
      in case cmd_read_header mem st key 1 total_lbas of None \<Rightarrow> (st, NoGpt)
         | Some hp \<Rightarrow>
           (case cmd_read_header mem st key (backup_lba hp) total_lbas of None \<Rightarrow> (st, BackupInvalid)
            | Some hb \<Rightarrow>
              (case (case cmd_read_entries mem st key hp of Some ents \<Rightarrow> Inr ents
                     | None \<Rightarrow>
                         if \<not> mem (entries_bytes hb) then Inl AllocFailed
                         else case diskio_pread st key (entries_lba hb * LSEC) (unat (of_nat (entries_bytes hb) :: u32)) of
                             None \<Rightarrow> Inl BadEntries | Some ents \<Rightarrow> Inr ents) of
                 Inl m \<Rightarrow> (st, m)
               | Inr ents \<Rightarrow>
                   (case gpt_insert seed hp ents tg name f l of
                      Inl m \<Rightarrow> (st, m)
                    | Inr (ents, idx) \<Rightarrow>
                        let hp = gpt_update_header_crc tail (gpt_update_entries_crc hp ents)
                        in case gpt_write_primary st key hp ents of
                             (st, False) \<Rightarrow> (st, WriteFailed)
                           | (st, True) \<Rightarrow>
                               let hb = gpt_update_header_crc tail (gpt_update_entries_crc hb ents)
                               in case gpt_write_backup st key hb ents of
                                    (st, False) \<Rightarrow> (st, WriteFailed)
                                  | (st, True) \<Rightarrow> (st, Added (idx + 1))))))"

definition is_added :: "gpt_msg \<Rightarrow> bool" where
  "is_added m = (case m of Added n \<Rightarrow> True | _ \<Rightarrow> False)"

definition gpt_add_by_range ::
  "(nat \<Rightarrow> bool) \<Rightarrow> byte list \<Rightarrow> u32 \<Rightarrow> dio \<Rightarrow> vblk list \<Rightarrow> string \<Rightarrow> string \<Rightarrow> string \<Rightarrow> u64 \<Rightarrow> u64 \<Rightarrow> (dio \<times> vblk list \<times> gpt_msg) option" where
  "gpt_add_by_range mem tail seed st g target type name f l =
     (case type_guid_for type of None \<Rightarrow> Some (st, g, UnknownType)
      | Some tg \<Rightarrow>
          if l < f then Some (st, g, EndBeforeStart)
          else case resolve_key_or_path st g target of None \<Rightarrow> Some (st, g, Unresolved)
            | Some key \<Rightarrow> (let r = gpt_add_disk mem tail seed st key tg name f l
                           in after_write mem g target r (is_added (snd r))))"

section \<open>The option form\<close>

record add_opts =
  o_type :: "string option"
  o_name :: "string option"
  o_start :: "string option"
  o_size :: "string option"
  o_end :: "string option"

fun parse_add_opts :: "string list \<Rightarrow> add_opts \<Rightarrow> add_opts option" where
  "parse_add_opts [] os = Some os"
| "parse_add_opts [a] os = None"
| "parse_add_opts (a # v # rest) os =
     (if a = ''--type'' then parse_add_opts rest (os\<lparr>o_type := Some v\<rparr>)
      else if a = ''--name'' then parse_add_opts rest (os\<lparr>o_name := Some v\<rparr>)
      else if a = ''--start'' then parse_add_opts rest (os\<lparr>o_start := Some v\<rparr>)
      else if a = ''--size'' then parse_add_opts rest (os\<lparr>o_size := Some v\<rparr>)
      else if a = ''--end'' then parse_add_opts rest (os\<lparr>o_end := Some v\<rparr>)
      else None)"

definition no_opts :: add_opts where
  "no_opts = \<lparr>o_type = None, o_name = None, o_start = None, o_size = None, o_end = None\<rparr>"

definition usable_span :: "gpt_hdr \<Rightarrow> u64" where
  "usable_span h = (if last_usable_lba h \<ge> first_usable_lba h then last_usable_lba h - first_usable_lba h + 1 else 0)"

text \<open>A zero sector count or percentage is taken for bytes: the parser leaves the byte count 0 then.\<close>

definition start_lba_of :: "gpt_hdr \<Rightarrow> size_spec \<Rightarrow> u64" where
  "start_lba_of h sp =
     (let s = (case sp of
                 SpecSectors v \<Rightarrow> if v \<noteq> 0 then v else 0
               | SpecPct p \<Rightarrow> if p \<noteq> 0 then first_usable_lba h + (usable_span h * ucast p) div 100 else 0
               | SpecBytes b \<Rightarrow> b div LSEC)
      in if s < first_usable_lba h then first_usable_lba h else s)"

definition end_lba_of :: "gpt_hdr \<Rightarrow> size_spec \<Rightarrow> u64" where
  "end_lba_of h sp =
     (case sp of
        SpecSectors v \<Rightarrow> if v \<noteq> 0 then v else 0
      | SpecPct p \<Rightarrow> if p \<noteq> 0 then first_usable_lba h + (usable_span h * ucast p) div 100 else 0
      | SpecBytes b \<Rightarrow> let elba = b div LSEC in if elba > 0 then elba - 1 else 0)"

definition size_lba_of :: "gpt_hdr \<Rightarrow> u64 \<Rightarrow> size_spec \<Rightarrow> u64" where
  "size_lba_of h start sp =
     (let sized = (\<lambda>b :: u64. let nsec = (b + LSEC - 1) div LSEC in start + (if nsec \<noteq> 0 then nsec else 1) - 1)
      in case sp of
        SpecSectors v \<Rightarrow> if v \<noteq> 0 then start + v - 1 else sized 0
      | SpecPct p \<Rightarrow>
          if p \<noteq> 0 then
            let rem = (if start \<le> last_usable_lba h then last_usable_lba h - start + 1 else 0)
            in start + (rem * ucast p) div 100 - 1
          else sized 0
      | SpecBytes b \<Rightarrow> sized b)"

definition gpt_cmd_add_opts ::
  "(string \<Rightarrow> u64 option) \<Rightarrow> (nat \<Rightarrow> bool) \<Rightarrow> byte list \<Rightarrow> u32 \<Rightarrow> dio \<Rightarrow> vblk list \<Rightarrow> string \<Rightarrow> string list \<Rightarrow> (dio \<times> vblk list \<times> gpt_msg) option" where
  "gpt_cmd_add_opts psize mem tail seed st g dev args =
     (case parse_add_opts args no_opts of None \<Rightarrow> Some (st, g, UnknownOption)
      | Some os \<Rightarrow>
        (case (o_type os, o_name os, o_start os) of
           (Some type, Some name, Some start_s) \<Rightarrow>
             if o_size os = None \<and> o_end os = None then Some (st, g, MissingOptions)
             else
               (case resolve_key_or_path st g dev of None \<Rightarrow> Some (st, g, Unresolved)
                | Some key \<Rightarrow>
                  (case cmd_read_header mem st key 1 (key_total st key) of None \<Rightarrow> Some (st, g, NoGpt)
                   | Some h \<Rightarrow>
                     (case parse_size_spec psize start_s of None \<Rightarrow> Some (st, g, BadStart)
                      | Some sp \<Rightarrow>
                          let start = start_lba_of h sp
                          in case (case o_end os of
                                     Some end_s \<Rightarrow> (case parse_size_spec psize end_s of None \<Rightarrow> Inl BadEnd
                                                    | Some e \<Rightarrow> Inr (end_lba_of h e))
                                   | None \<Rightarrow> (case parse_size_spec psize (the (o_size os)) of None \<Rightarrow> Inl BadSize
                                              | Some e \<Rightarrow> Inr (size_lba_of h start e))) of
                               Inl m \<Rightarrow> Some (st, g, m)
                             | Inr e \<Rightarrow>
                                 let e = (if e > last_usable_lba h then last_usable_lba h else e)
                                 in if e < start then Some (st, g, EmptyRange)
                                    else gpt_add_by_range mem tail seed st g dev type name start e)))
         | _ \<Rightarrow> Some (st, g, MissingOptions)))"

text \<open>\<^verbatim>\<open>strtoull\<close> in base 0: hexadecimal after 0x, octal after 0, decimal otherwise.\<close>

definition digit_of :: "char \<Rightarrow> nat option" where
  "digit_of c =
     (let n = (of_char (tolower c) :: nat)
      in if 48 \<le> n \<and> n \<le> 57 then Some (n - 48) else if 97 \<le> n \<and> n \<le> 102 then Some (n - 87) else None)"

fun digits_value :: "nat \<Rightarrow> nat \<Rightarrow> string \<Rightarrow> nat" where
  "digits_value b acc [] = acc"
| "digits_value b acc (c # s) =
     (case digit_of c of None \<Rightarrow> acc | Some d \<Rightarrow> if d < b then digits_value b (acc * b + d) s else acc)"

definition has_hex_prefix :: "string \<Rightarrow> bool" where
  "has_hex_prefix s \<longleftrightarrow> length s \<ge> 3 \<and> s ! 0 = CHR ''0'' \<and> tolower (s ! 1) = CHR ''x'' \<and> digit_of (s ! 2) \<noteq> None"

definition strtoull0 :: "string \<Rightarrow> u64" where
  "strtoull0 s =
     (case strto_sign s of (neg, r) \<Rightarrow>
        let n = (if has_hex_prefix r then digits_value 16 0 (drop 2 r)
                 else if take 1 r = ''0'' then digits_value 8 0 r else digits_value 10 0 r)
        in if n \<ge> 2 ^ 64 then -1 else if neg then - of_nat n else of_nat n)"

definition gpt_cmd_add_legacy ::
  "(nat \<Rightarrow> bool) \<Rightarrow> byte list \<Rightarrow> u32 \<Rightarrow> dio \<Rightarrow> vblk list \<Rightarrow> string \<Rightarrow> string \<Rightarrow> string \<Rightarrow> u64 \<Rightarrow> u64 \<Rightarrow> (dio \<times> vblk list \<times> gpt_msg) option" where
  "gpt_cmd_add_legacy mem tail seed st g dev type name f l = gpt_add_by_range mem tail seed st g dev type name f l"

definition cmd_gpt ::
  "(string \<Rightarrow> u64 option) \<Rightarrow> (nat \<Rightarrow> bool) \<Rightarrow> byte list \<Rightarrow> u32 \<Rightarrow> dio \<Rightarrow> vblk list \<Rightarrow> string list \<Rightarrow> (dio \<times> vblk list \<times> gpt_msg) option" where
  "cmd_gpt psize mem tail seed st g argv =
     (if length argv < 2 then Some (st, g, Usage)
      else if argv ! 1 = ''print'' then
        (if length argv < 3 then Some (st, g, Usage) else Some (st, g, gpt_cmd_print mem st g (argv ! 2)))
      else if argv ! 1 = ''init'' then
        (if length argv < 3 then Some (st, g, Usage) else gpt_cmd_init mem seed st g (argv ! 2))
      else if argv ! 1 = ''add'' then
        (if length argv < 3 then Some (st, g, Usage)
         else if \<exists>a \<in> set (drop 3 argv). take 2 a = ''--'' then
           gpt_cmd_add_opts psize mem tail seed st g (argv ! 2) (drop 3 argv)
         else if length argv < 7 then Some (st, g, Usage)
         else gpt_cmd_add_legacy mem tail seed st g (argv ! 2) (argv ! 3) (argv ! 4)
                (strtoull0 (argv ! 5)) (strtoull0 (argv ! 6)))
      else Some (st, g, Usage))"

end
