(* ===== verification/Gpt_Disk.thy ===== *)
theory Gpt_Disk
  imports Gpt_Cmd
begin

text \<open>
  What the \<^verbatim>\<open>gpt\<close> command and the partition scan do to one disk. \<open>holds\<close> is the abstract state of an attached
  image, its contents as a function; \<open>gpt_disk\<close> says that it carries a complete GUID partition table: the
  protective MBR, both headers with right checksums, and both copies of the entry array. \<^verbatim>\<open>gpt init\<close> establishes
  it, \<^verbatim>\<open>gpt add\<close> keeps it, and the scan of \<^verbatim>\<open>blkdev.c\<close> accepts it and finds the entries.
\<close>

section \<open>Structures\<close>

lemma le64_append [simp]: "8 \<le> length p \<Longrightarrow> le64 (p @ q) = le64 p"
  by (simp add: le64_def)

definition hdr_sized :: "gpt_hdr \<Rightarrow> bool" where
  "hdr_sized h \<longleftrightarrow> length (gsig h) = 8 \<and> length (disk_guid h) = 16"

definition ent_sized :: "gpt_ent \<Rightarrow> bool" where
  "ent_sized e \<longleftrightarrow> length (type_guid e) = 16 \<and> length (part_guid e) = 16 \<and> length (name_utf16 e) = 72"

lemma length_hdr_bytes: "hdr_sized h \<Longrightarrow> length (hdr_bytes h) = 92"
  by (simp add: hdr_bytes_def hdr_sized_def)

lemma length_ent_bytes: "ent_sized e \<Longrightarrow> length (ent_bytes e) = 128"
  by (simp add: ent_bytes_def ent_sized_def)

lemma gpt_hdr_of_bytes: "hdr_sized h \<Longrightarrow> gpt_hdr_of (hdr_bytes h @ r) = h"
  by (simp add: gpt_hdr_of_def hdr_bytes_def hdr_sized_def bslice_def)

lemma gpt_ent_of_bytes: "ent_sized e \<Longrightarrow> gpt_ent_of (ent_bytes e @ r) = e"
  by (simp add: gpt_ent_of_def ent_bytes_def ent_sized_def bslice_def)

lemma hdr_bytes_crc0: "hdr_sized h \<Longrightarrow> blit (hdr_bytes h) 16 (zeros 4) = hdr_bytes (h\<lparr>header_crc := 0\<rparr>)"
  by (simp add: hdr_bytes_def hdr_sized_def blit_def zeros_def put32_def numeral_eq_Suc)

text \<open>A header that passes the checks of both readers on a disk of \<open>total_lbas\<close> sectors.\<close>

definition hdr_good :: "gpt_hdr \<Rightarrow> u64 \<Rightarrow> bool" where
  "hdr_good h total_lbas \<longleftrightarrow> hdr_sized h \<and> gsig h = bytes_of ''EFI PART'' \<and> header_size h = 92 \<and>
     gpt_hdr_fields_ok h total_lbas \<and> header_crc h = crc32_calc (hdr_bytes (h\<lparr>header_crc := 0\<rparr>))"

lemma hdr_good_sector:
  assumes "hdr_good h total_lbas" and "sec = hdr_bytes h @ zeros 420"
  shows "length sec = 512" and "bslice 0 8 sec = bytes_of ''EFI PART''" and "gpt_hdr_of sec = h"
    and "take 92 sec = hdr_bytes h" and "crc32_calc (blit (take 92 sec) 16 (zeros 4)) = header_crc h"
proof -
  have s: "hdr_sized h" using assms(1) by (simp add: hdr_good_def)
  note l = length_hdr_bytes [OF s]
  show "length sec = 512" using l by (simp add: assms(2))
  show g: "gpt_hdr_of sec = h" using gpt_hdr_of_bytes [OF s] by (simp add: assms(2))
  show "bslice 0 8 sec = bytes_of ''EFI PART''"
    using g assms(1) by (auto simp: gpt_hdr_of_def hdr_good_def)
  show t: "take 92 sec = hdr_bytes h" using l by (simp add: assms(2))
  show "crc32_calc (blit (take 92 sec) 16 (zeros 4)) = header_crc h"
    using assms(1) unfolding t hdr_bytes_crc0 [OF s] by (simp add: hdr_good_def)
qed

lemma cmd_read_header_good:
  assumes "hdr_good h total_lbas" and "pread_lba512 st key lba = Some (hdr_bytes h @ zeros 420)" and "mem 92"
  shows "cmd_read_header mem st key lba total_lbas = Some h"
  using hdr_good_sector [OF assms(1) refl] assms
  by (simp add: cmd_read_header_def Let_def hdr_good_def)

lemma update_header_crc_good:
  assumes "hdr_sized h" and "header_size h = 92"
  shows "gpt_update_header_crc tail h = h\<lparr>header_crc := crc32_calc (hdr_bytes (h\<lparr>header_crc := 0\<rparr>))\<rparr>"
proof -
  have s: "hdr_sized (h\<lparr>header_crc := 0\<rparr>)" using assms(1) by (simp add: hdr_sized_def)
  have "take 92 (hdr_bytes (h\<lparr>header_crc := 0\<rparr>) @ tail) = hdr_bytes (h\<lparr>header_crc := 0\<rparr>)"
    using length_hdr_bytes [OF s] by simp
  then show ?thesis using assms hdr_bytes_crc0 [OF s]
    by (simp add: gpt_update_header_crc_def Let_def word_le_nat_alt)
qed

section \<open>An attached image and its contents\<close>

definition holds :: "dio \<Rightarrow> string \<Rightarrow> (nat \<Rightarrow> byte) \<Rightarrow> u64 \<Rightarrow> bool" where
  "holds st key G sz \<longleftrightarrow> dio_inv (st, key) \<and> writable (dio_disk (st, key)) \<and> size_bytes (dio_disk (st, key)) = sz \<and>
     (\<forall>i < unat sz. vdisk_guest (dio_disk (st, key)) i = G i)"

lemma holds_pread:
  assumes "holds st key G sz" and "unat off + n \<le> unat sz"
  shows "diskio_pread st key off n = Some (window G (unat off) n)"
proof -
  have "diskio_pread st key off n = Some (window (vdisk_guest (dio_disk (st, key))) (unat off) n)"
    using dio.rd_spec [of "(st, key)" off n] assms by (simp add: holds_def dio_read_def)
  also have "window (vdisk_guest (dio_disk (st, key))) (unat off) n = window G (unat off) n"
    using assms by (intro window_cong) (simp add: holds_def)
  finally show ?thesis .
qed

lemma holds_pwrite:
  assumes "holds st key G sz" and "unat off + length bs \<le> unat sz"
  shows "\<exists>st'. diskio_pwrite st key off bs = (st', True) \<and> holds st' key (overlay G (unat off) bs) sz"
proof -
  have "dio_inv (st, key)" "writable (dio_disk (st, key))" "unat off + length bs \<le> unat (size_bytes (dio_disk (st, key)))"
    using assms by (simp_all add: holds_def)
  from dio.wr_accept [OF this] obtain s' where s': "dio_write (st, key) off bs = (s', True)" "dio_inv s'"
    "writable (dio_disk s')" "size_bytes (dio_disk s') = size_bytes (dio_disk (st, key))"
    "\<forall>i < unat (size_bytes (dio_disk (st, key))). vdisk_guest (dio_disk s') i = overlay (vdisk_guest (dio_disk (st, key))) (unat off) bs i"
    by blast
  from s'(1) obtain st' where "diskio_pwrite st key off bs = (st', True)" "s' = (st', key)"
    by (auto simp: dio_write_def split: prod.splits)
  with s' assms(1) show ?thesis by (auto simp: holds_def overlay_def)
qed

lemma holds_size: "holds st key G sz \<Longrightarrow> diskio_size_bytes st key = sz"
  by (auto simp: holds_def dio_inv_def dio_disk_def diskio_size_bytes_def vdisk_get_size_def split: option.splits)

lemma holds_pwrite_lba:
  assumes "holds st key G sz" and "(unat lba + 1) * 512 \<le> unat sz" and "length bs = 512"
  shows "\<exists>st'. pwrite_lba512 st key lba bs = (st', True) \<and> holds st' key (overlay G (unat lba * 512) bs) sz"
proof -
  have "unat lba * 512 + 512 < 18446744073709551616" using assms(2) le_unat_u64 [of "unat lba * 512 + 512" sz] by simp
  then have "unat (lba * LSEC) = unat lba * 512" by (simp add: LSEC_def unat_mult_small)
  with holds_pwrite [OF assms(1), of "lba * LSEC" bs] assms(2,3) show ?thesis by (simp add: pwrite_lba512_def)
qed

lemma holds_pread_lba:
  assumes "holds st key G sz" and "(unat lba + 1) * 512 \<le> unat sz"
  shows "pread_lba512 st key lba = Some (window G (unat lba * 512) 512)"
proof -
  have "unat lba * 512 + 512 < 18446744073709551616" using assms(2) le_unat_u64 [of "unat lba * 512 + 512" sz] by simp
  then have "unat (lba * LSEC) = unat lba * 512" by (simp add: LSEC_def unat_mult_small)
  with holds_pread [OF assms(1), of "lba * LSEC" 512] assms(2) show ?thesis by (simp add: pread_lba512_def)
qed

lemma holds_zero_lbas:
  "holds st key G sz \<Longrightarrow> (unat lba + n) * 512 \<le> unat sz \<Longrightarrow> \<exists>G'. holds (zero_lbas st key lba n) key G' sz"
proof (induction n arbitrary: st G lba)
  case (Suc n)
  have "(unat lba + 1) * 512 \<le> unat sz" using Suc.prems(2) by simp
  from holds_pwrite_lba [OF Suc.prems(1) this, of "zeros 512"] obtain st' where
    w: "pwrite_lba512 st key lba (zeros 512) = (st', True)" "holds st' key (overlay G (unat lba * 512) (zeros 512)) sz" by auto
  have "unat lba * 512 + 512 < 18446744073709551616" using Suc.prems(2) le_unat_u64 [of "unat lba * 512 + 512" sz] by simp
  then have "unat (lba + 1) = unat lba + 1" by (simp add: unat_add_small)
  with Suc.IH [OF w(2), of "lba + 1"] Suc.prems(2) w(1) show ?case by simp
qed auto

section \<open>A disk with a partition table\<close>

abbreviation gpt_primary :: "u64 \<Rightarrow> byte list \<Rightarrow> byte list \<Rightarrow> gpt_hdr" where
  "gpt_primary total_lbas guid ents \<equiv> fresh_header total_lbas guid ents []"

abbreviation gpt_backup :: "u64 \<Rightarrow> byte list \<Rightarrow> byte list \<Rightarrow> gpt_hdr" where
  "gpt_backup total_lbas guid ents \<equiv> backup_of (fresh_header total_lbas guid ents []) ents []"

definition gpt_disk :: "dio \<Rightarrow> string \<Rightarrow> u64 \<Rightarrow> byte list \<Rightarrow> byte list \<Rightarrow> bool" where
  "gpt_disk st key total_lbas guid ents \<longleftrightarrow> length guid = 16 \<and> length ents = 16384 \<and> 67 \<le> unat total_lbas \<and>
     (\<exists>G sz. holds st key G sz \<and> total_lbas = sz div LSEC \<and>
        window G 0 512 = protective_mbr total_lbas \<and>
        window G 512 512 = hdr_bytes (gpt_primary total_lbas guid ents) @ zeros 420 \<and>
        window G 1024 16384 = ents \<and>
        window G ((unat total_lbas - 33) * 512) 16384 = ents \<and>
        window G ((unat total_lbas - 1) * 512) 512 = hdr_bytes (gpt_backup total_lbas guid ents) @ zeros 420)"

lemma fresh_header_fields:
  assumes "length guid = 16" and "length ents = 16384" and "67 \<le> unat total_lbas"
  shows "fresh_header total_lbas guid ents tail = gpt_primary total_lbas guid ents"
    and "hdr_good (gpt_primary total_lbas guid ents) total_lbas"
    and "current_lba (gpt_primary total_lbas guid ents) = 1" and "backup_lba (gpt_primary total_lbas guid ents) = total_lbas - 1"
    and "entries_lba (gpt_primary total_lbas guid ents) = 2" and "entries_bytes (gpt_primary total_lbas guid ents) = 16384"
    and "entries_crc (gpt_primary total_lbas guid ents) = crc32_calc ents"
    and "num_entries (gpt_primary total_lbas guid ents) = 128" and "entry_size (gpt_primary total_lbas guid ents) = 128"
    and "first_usable_lba (gpt_primary total_lbas guid ents) = 34"
    and "last_usable_lba (gpt_primary total_lbas guid ents) = total_lbas - 34"
    and "header_size (gpt_primary total_lbas guid ents) = 92" and "hdr_sized (gpt_primary total_lbas guid ents)"
proof -
  let ?h0 = "\<lparr>gsig = bytes_of ''EFI PART'', grev = 0x00010000, header_size = 92, header_crc = 0, grsv = 0,
             current_lba = 1, backup_lba = total_lbas - 1, first_usable_lba = 34, last_usable_lba = total_lbas - 34,
             disk_guid = guid, entries_lba = 2, num_entries = 128, entry_size = 128, entries_crc = crc32_calc ents\<rparr>"
  have s: "hdr_sized ?h0" using assms(1) by (simp add: hdr_sized_def)
  have "total_lbas - 1 - 32 - 1 = total_lbas - 34" by (simp add: diff_diff_eq)
  then have e: "fresh_header total_lbas guid ents t = ?h0\<lparr>header_crc := crc32_calc (hdr_bytes (?h0\<lparr>header_crc := 0\<rparr>))\<rparr>" for t
    using update_header_crc_good [OF s, of t] assms(2)
    by (simp add: fresh_header_def Let_def gpt_update_entries_crc_def entries_bytes_def)
  show "fresh_header total_lbas guid ents tail = gpt_primary total_lbas guid ents" by (simp only: e)
  have t: "unat (total_lbas - 1) = unat total_lbas - 1" "unat (total_lbas - 34) = unat total_lbas - 34"
    using assms(3) by (simp_all add: unat_sub_small)
  have "gpt_hdr_fields_ok ?h0 total_lbas"
    using assms(3) t by (simp add: gpt_hdr_fields_ok_def word_less_nat_alt word_le_nat_alt) linarith
  then show "hdr_good (gpt_primary total_lbas guid ents) total_lbas"
    using s unfolding e by (simp add: hdr_good_def hdr_sized_def gpt_hdr_fields_ok_def)
  show "current_lba (gpt_primary total_lbas guid ents) = 1" "backup_lba (gpt_primary total_lbas guid ents) = total_lbas - 1" "entries_lba (gpt_primary total_lbas guid ents) = 2" "entries_bytes (gpt_primary total_lbas guid ents) = 16384"
    "entries_crc (gpt_primary total_lbas guid ents) = crc32_calc ents" "num_entries (gpt_primary total_lbas guid ents) = 128" "entry_size (gpt_primary total_lbas guid ents) = 128" "first_usable_lba (gpt_primary total_lbas guid ents) = 34"
    "last_usable_lba (gpt_primary total_lbas guid ents) = total_lbas - 34" "header_size (gpt_primary total_lbas guid ents) = 92" "hdr_sized (gpt_primary total_lbas guid ents)"
    using assms s by (simp_all add: e entries_bytes_def hdr_sized_def)
qed

lemma backup_fields:
  assumes "length guid = 16" and "length ents = 16384" and "67 \<le> unat total_lbas"
  shows "hdr_good (gpt_backup total_lbas guid ents) total_lbas"
    and "current_lba (gpt_backup total_lbas guid ents) = total_lbas - 1"
    and "entries_lba (gpt_backup total_lbas guid ents) = total_lbas - 33"
    and "entries_bytes (gpt_backup total_lbas guid ents) = 16384"
    and "header_size (gpt_backup total_lbas guid ents) = 92" and "hdr_sized (gpt_backup total_lbas guid ents)"
proof -
  note f = fresh_header_fields [OF assms]
  let ?p = "gpt_primary total_lbas guid ents"
  let ?h0 = "?p\<lparr>current_lba := total_lbas - 1, backup_lba := 1, entries_lba := total_lbas - 33\<rparr>"
  have s: "hdr_sized ?h0" using f(13) by (simp add: hdr_sized_def)
  have "total_lbas - 1 - 32 = total_lbas - 33" by (simp add: diff_diff_eq)
  moreover have "gpt_update_entries_crc ?h0 ents = ?h0"
    using f assms(2) by (simp add: gpt_update_entries_crc_def entries_bytes_def)
  ultimately have e: "gpt_backup total_lbas guid ents = ?h0\<lparr>header_crc := crc32_calc (hdr_bytes (?h0\<lparr>header_crc := 0\<rparr>))\<rparr>"
    using update_header_crc_good [OF s, of "[]"] f by (simp add: backup_of_def)
  have t: "unat (total_lbas - 1) = unat total_lbas - 1" "unat (total_lbas - 33) = unat total_lbas - 33"
    using assms(3) by (simp_all add: unat_sub_small)
  have "gpt_hdr_fields_ok ?h0 total_lbas"
    using f(2) t assms(3) by (simp add: hdr_good_def gpt_hdr_fields_ok_def word_less_nat_alt word_le_nat_alt) linarith
  then show "hdr_good (gpt_backup total_lbas guid ents) total_lbas"
    using s f(2) unfolding e by (simp add: hdr_good_def hdr_sized_def gpt_hdr_fields_ok_def)
  show "entries_bytes (gpt_backup total_lbas guid ents) = 16384" using f by (simp add: e entries_bytes_def)
  show "header_size (gpt_backup total_lbas guid ents) = 92" "hdr_sized (gpt_backup total_lbas guid ents)"
    using f s by (simp_all add: e hdr_sized_def)
  show "current_lba (gpt_backup total_lbas guid ents) = total_lbas - 1" "entries_lba (gpt_backup total_lbas guid ents) = total_lbas - 33" by (simp_all add: e)
qed

text \<open>Changing the entries and refreshing both checksums gives the headers of the new array.\<close>

lemma update_headers:
  assumes "length guid = 16" and "length ents = 16384" and "length ents' = 16384" and "67 \<le> unat total_lbas"
  shows "gpt_update_header_crc tail (gpt_update_entries_crc (gpt_primary total_lbas guid ents) ents') = gpt_primary total_lbas guid ents'"
    and "gpt_update_header_crc tail (gpt_update_entries_crc (gpt_backup total_lbas guid ents) ents') = gpt_backup total_lbas guid ents'"
proof -
  have up: "gpt_update_header_crc t (gpt_update_entries_crc h e) =
      (h\<lparr>entries_crc := crc32_calc e, header_crc := crc32_calc (hdr_bytes (h\<lparr>entries_crc := crc32_calc e, header_crc := 0\<rparr>))\<rparr>)"
    if "hdr_sized h" "header_size h = 92" "entries_bytes h = 16384" "length e = 16384" for h e t
    using update_header_crc_good [of "h\<lparr>entries_crc := crc32_calc e\<rparr>" t] that
    by (simp add: gpt_update_entries_crc_def hdr_sized_def)
  let ?h0 = "\<lparr>gsig = bytes_of ''EFI PART'', grev = 0x00010000, header_size = 92, header_crc = 0, grsv = 0,
             current_lba = 1, backup_lba = total_lbas - 1, first_usable_lba = 2 + 32, last_usable_lba = total_lbas - 1 - 32 - 1,
             disk_guid = guid, entries_lba = 2, num_entries = 128, entry_size = 128, entries_crc = 0 :: u32\<rparr>"
  have h0: "hdr_sized ?h0" "header_size ?h0 = 92" "entries_bytes ?h0 = 16384"
    using assms(1) by (simp_all add: hdr_sized_def entries_bytes_def)
  have fr: "gpt_primary total_lbas guid e = gpt_update_header_crc [] (gpt_update_entries_crc ?h0 e)" for e
    by (simp add: fresh_header_def Let_def)
  note f = fresh_header_fields [OF assms(1,2,4)] and b = backup_fields [OF assms(1,2,4)]
  show p: "gpt_update_header_crc tail (gpt_update_entries_crc (gpt_primary total_lbas guid ents) ents') = gpt_primary total_lbas guid ents'"
    using up [OF f(13,12,6) assms(3), of tail] up [OF h0 assms(2), of "[]"] up [OF h0 assms(3), of "[]"] by (simp add: fr)
  let ?bp = "\<lambda>e. (gpt_primary total_lbas guid e)\<lparr>current_lba := total_lbas - 1, backup_lba := 1, entries_lba := total_lbas - 1 - 32\<rparr>"
  have bk: "gpt_backup total_lbas guid e = gpt_update_header_crc [] (gpt_update_entries_crc (?bp e) e)"
    if "length e = 16384" for e using fresh_header_fields(4) [OF assms(1) that assms(4)] by (simp add: backup_of_def)
  have sb: "hdr_sized (?bp e)" "header_size (?bp e) = 92" "entries_bytes (?bp e) = 16384" if "length e = 16384" for e
    using fresh_header_fields(6,12,13) [OF assms(1) that assms(4)] by (simp_all add: hdr_sized_def entries_bytes_def)
  show "gpt_update_header_crc tail (gpt_update_entries_crc (gpt_backup total_lbas guid ents) ents') = gpt_backup total_lbas guid ents'"
    unfolding up [OF b(6,5,4) assms(3)] bk [OF assms(3)] up [OF sb [OF assms(3)] assms(3)]
    unfolding bk [OF assms(2)] up [OF sb [OF assms(2)] assms(2)]
    using up [OF h0 assms(2), of "[]"] up [OF h0 assms(3), of "[]"] by (simp add: fr)
qed

lemma gpt_write_backup_eq: "gpt_write_backup = gpt_write_primary"
  by (simp add: fun_eq_iff gpt_write_backup_def gpt_write_primary_def)

lemma gpt_write_holds:
  assumes "holds st key G sz" and "length ents = 16384" and "entries_bytes h = 16384" and "hdr_sized h"
    and "(unat (entries_lba h) + 32) * 512 \<le> unat sz" and "(unat (current_lba h) + 1) * 512 \<le> unat sz"
  shows "\<exists>st'. gpt_write_primary st key h ents = (st', True) \<and>
    holds st' key (overlay (overlay G (unat (entries_lba h) * 512) ents) (unat (current_lba h) * 512) (hdr_bytes h @ zeros 420)) sz"
proof -
  have "unat (entries_lba h) * 512 + 16384 < 18446744073709551616"
    using assms(5) le_unat_u64 [of "unat (entries_lba h) * 512 + 16384" sz] by simp
  then have u: "unat (entries_lba h * LSEC) = unat (entries_lba h) * 512" by (simp add: LSEC_def unat_mult_small)
  have tk: "take (unat (of_nat (entries_bytes h) :: u32)) ents = ents" using assms(2,3) by simp
  from holds_pwrite [OF assms(1), of "entries_lba h * LSEC" ents] u assms(2,5) obtain st1 where
    st1: "diskio_pwrite st key (entries_lba h * LSEC) ents = (st1, True)"
      "holds st1 key (overlay G (unat (entries_lba h) * 512) ents) sz" by auto
  from holds_pwrite_lba [OF st1(2) assms(6), of "hdr_bytes h @ zeros 420"] length_hdr_bytes [OF assms(4)] obtain st2 where
    "pwrite_lba512 st1 key (current_lba h) (hdr_bytes h @ zeros 420) = (st2, True)"
    "holds st2 key (overlay (overlay G (unat (entries_lba h) * 512) ents) (unat (current_lba h) * 512) (hdr_bytes h @ zeros 420)) sz"
    by auto
  with st1 tk show ?thesis by (simp add: gpt_write_primary_def)
qed

lemma total_sectors: "total_lbas = sz div LSEC \<Longrightarrow> unat total_lbas * 512 \<le> unat sz"
  by (simp add: LSEC_def unat_div)

lemma gpt_disk_written:
  assumes "holds st key G sz" and "total_lbas = sz div LSEC" and "67 \<le> unat total_lbas"
    and "window G 0 512 = protective_mbr total_lbas" and "length guid = 16" and "length ents = 16384"
  shows "\<exists>st1 st2. gpt_write_primary st key (gpt_primary total_lbas guid ents) ents = (st1, True) \<and>
    gpt_write_backup st1 key (gpt_backup total_lbas guid ents) ents = (st2, True) \<and>
    gpt_disk st2 key total_lbas guid ents"
proof -
  note f = fresh_header_fields [OF assms(5,6,3)] and b = backup_fields [OF assms(5,6,3)]
  note T = total_sectors [OF assms(2)]
  have t: "unat (total_lbas - 1) = unat total_lbas - 1" "unat (total_lbas - 33) = unat total_lbas - 33"
    using assms(3) by (simp_all add: unat_sub_small)
  let ?p = "hdr_bytes (gpt_primary total_lbas guid ents) @ zeros 420"
  let ?b = "hdr_bytes (gpt_backup total_lbas guid ents) @ zeros 420"
  let ?G1 = "overlay (overlay G 1024 ents) 512 ?p"
  let ?T = "unat total_lbas"
  let ?G2 = "overlay (overlay ?G1 ((?T - 33) * 512) ents) ((?T - 1) * 512) ?b"
  have l: "length ?p = 512" "length ?b = 512" using length_hdr_bytes f(13) b(6) by simp_all
  have r1: "(unat (2 :: u64) + 32) * 512 \<le> unat sz" "(unat (1 :: u64) + 1) * 512 \<le> unat sz"
    using T assms(3) by simp_all
  obtain st1 where st1: "gpt_write_primary st key (gpt_primary total_lbas guid ents) ents = (st1, True)" "holds st1 key ?G1 sz"
    using gpt_write_holds [OF assms(1,6) f(6,13)] r1 f(3,5) by auto
  have r2: "(unat (total_lbas - 33) + 32) * 512 \<le> unat sz" "(unat (total_lbas - 1) + 1) * 512 \<le> unat sz"
    using T assms(3) t by simp_all
  obtain st2 where st2: "gpt_write_primary st1 key (gpt_backup total_lbas guid ents) ents = (st2, True)" "holds st2 key ?G2 sz"
    using gpt_write_holds [OF st1(2) assms(6) b(4,6)] r2 b(2,3) t by auto
  have k: "34 \<le> ?T - 33" "(?T - 33) * 512 + 16384 \<le> (?T - 1) * 512" using assms(3) by simp_all
  have "window ?G2 0 512 = protective_mbr total_lbas"
    using k l assms(4,6) by (simp add: window_overlay_disjoint)
  moreover have "window ?G2 512 512 = ?p"
    using k l assms(6) by (simp add: window_overlay_disjoint window_overlay_same)
  moreover have "window ?G2 1024 16384 = ents"
    using k l assms(6) by (simp add: window_overlay_disjoint window_overlay_same)
  moreover have "window ?G2 ((?T - 33) * 512) 16384 = ents"
    using k l assms(6) by (simp add: window_overlay_disjoint window_overlay_same)
  moreover have "window ?G2 ((?T - 1) * 512) 512 = ?b"
    using l by (simp add: window_overlay_same)
  ultimately show ?thesis
    using st1(1) st2 assms(2,3,5,6) unfolding gpt_disk_def gpt_write_backup_eq by blast
qed

section \<open>What the scan makes of it\<close>

lemma protective_mbr_facts:
  assumes "67 \<le> unat total_lbas"
  shows "length (protective_mbr total_lbas) = 512" and "boot_sig (protective_mbr total_lbas)"
    and "drop 446 (protective_mbr total_lbas) ! 4 = 0xEE" and "le32 (drop 12 (drop 446 (protective_mbr total_lbas))) \<noteq> 0"
proof -
  define c where "c = (if total_lbas > 0xFFFFFFFF then 0xFFFFFFFF else ucast total_lbas - 1 :: u32)"
  let ?ws = "[(446 + 4, [0xEE]), (446 + 8, put32 1), (446 + 12, put32 c), (510, [0x55, 0xAA])] :: (nat \<times> byte list) list"
  have m: "protective_mbr total_lbas = blit_all (zeros 512) ?ws" unfolding protective_mbr_def c_def Let_def ..
  have a: "apart 0 (length (zeros 512)) ?ws" by simp
  show l: "length (protective_mbr total_lbas) = 512" using length_blit_all [OF a] by (simp only: m length_zeros)
  note n = nth_blit_all [OF a, folded m]
  have "protective_mbr total_lbas ! (510 + 0) = [0x55, 0xAA] ! 0" by (rule n) simp_all
  moreover have "protective_mbr total_lbas ! (510 + 1) = [0x55, 0xAA] ! 1" by (rule n) simp_all
  ultimately show "boot_sig (protective_mbr total_lbas)" by (simp add: boot_sig_def)
  have "protective_mbr total_lbas ! (446 + 4 + 0) = [0xEE] ! 0" by (rule n) simp_all
  then show "drop 446 (protective_mbr total_lbas) ! 4 = 0xEE" using l by simp
  have "bslice (446 + 12) 4 (protective_mbr total_lbas) = put32 c" unfolding m by (rule bslice_blit_all [OF a]) simp_all
  then have "le32 (drop 12 (drop 446 (protective_mbr total_lbas))) = c" by (simp add: le32_bslice)
  moreover have "c \<noteq> 0"
  proof (cases "total_lbas > 0xFFFFFFFF")
    case False
    then have "unat (ucast total_lbas :: u32) = unat total_lbas"
      by (intro unat_ucast_64_32_small) (simp add: word_less_nat_alt)
    then have "unat (ucast total_lbas :: u32) \<noteq> unat (1 :: u32)" using assms by simp
    with False show ?thesis by (auto simp: c_def)
  qed (simp add: c_def)
  ultimately show "le32 (drop 12 (drop 446 (protective_mbr total_lbas))) \<noteq> 0" by simp
qed

text \<open>The whole-disk device of an attached image, as \<^verbatim>\<open>use\<close> registers it.\<close>

definition whole_disk :: "vblk \<Rightarrow> string \<Rightarrow> u64 \<Rightarrow> bool" where
  "whole_disk dev key total_lbas \<longleftrightarrow> vblk_backing_key dev = key \<and> lba_start dev = 0 \<and> lba_size dev = total_lbas \<and>
     block_bytes dev \<in> {0, 512}"

lemma holds_device:
  assumes "holds st key G sz" and "whole_disk dev key total_lbas" and "total_lbas = sz div LSEC" and "total_lbas \<noteq> 0"
  shows "part_ok st dev"
    and "read_lba512 st dev lba 1 = (if unat lba < unat total_lbas then Some (window G (unat lba * 512) 512) else None)"
    and "unat off + unat n \<le> unat total_lbas * 512 \<Longrightarrow> read_bytes st dev off n = Some (window G (unat off) (unat n))"
    and "vblk_size_bytes st dev div LSEC = total_lbas"
proof -
  note T = total_sectors [OF assms(3)]
  show p: "part_ok st dev" using assms T by (simp add: part_ok_def holds_def whole_disk_def)
  have g: "window (vdisk_guest (dio_disk (st, key))) o1 k = window G o1 k" if "o1 + k \<le> unat total_lbas * 512" for o1 k
    using assms(1) that T by (intro window_cong) (simp add: holds_def)
  have b: "block_bytes dev \<in> {0, 512}" using assms(2) by (simp add: whole_disk_def)
  show "read_lba512 st dev lba 1 = (if unat lba < unat total_lbas then Some (window G (unat lba * 512) 512) else None)"
    using read_lba512_guest [OF p b, of lba] assms(2) g [of "unat lba * 512" 512] by (auto simp: whole_disk_def)
  show "read_bytes st dev off n = Some (window G (unat off) (unat n))" if "unat off + unat n \<le> unat total_lbas * 512"
    using vblk_read_guest [OF p, of off "unat n"] assms(2) that g [of "unat off" "unat n"] by (simp add: whole_disk_def read_bytes_def)
  have "unat total_lbas * 512 < 18446744073709551616" using T le_unat_u64 by blast
  then have "unat (total_lbas * LSEC div LSEC) = unat total_lbas"
    by (simp add: LSEC_def unat_div unat_mult_small)
  then have "total_lbas * LSEC div LSEC = total_lbas" by (simp add: word_unat_eq_iff)
  with assms(2,4) show "vblk_size_bytes st dev div LSEC = total_lbas"
    by (simp add: vblk_size_bytes_def whole_disk_def)
qed

lemma gpt_validate_good:
  assumes "hdr_good h total_lbas" and "read_lba512 st dev lba 1 = Some (hdr_bytes h @ zeros 420)"
    and "read_bytes st dev (entries_lba h * LSEC) (of_nat (entries_bytes h)) = Some ents"
    and "entries_bytes h = 16384" and "crc32_calc ents = entries_crc h"
    and "\<not> entries_lba h * LSEC + 16384 > total_lbas * LSEC" and "mem 92" and "mem 16384"
  shows "gpt_validate_at mem st dev total_lbas lba = Some h"
proof -
  note s = hdr_good_sector [OF assms(1) refl]
  have hs: "header_size h = 92" "gpt_hdr_fields_ok h total_lbas" using assms(1) by (simp_all add: hdr_good_def)
  show ?thesis
    unfolding gpt_validate_at_def assms(2) option.case Let_def s(3) using s(2,4,5) hs assms(3-8)
    by (simp add: ENTRIES_MAX_BYTES_def)
qed

lemma entries_fit:
  assumes "unat elba + 32 \<le> unat total_lbas" and "unat total_lbas * 512 < 18446744073709551616"
  shows "\<not> elba * LSEC + 16384 > total_lbas * LSEC" and "unat (elba * LSEC) = unat elba * 512"
proof -
  show e: "unat (elba * LSEC) = unat elba * 512" using assms by (simp add: LSEC_def unat_mult_small)
  have "unat (total_lbas * LSEC) = unat total_lbas * 512" using assms(2) by (simp add: LSEC_def unat_mult_small)
  moreover have "unat (elba * LSEC + 16384) = unat elba * 512 + 16384"
    using assms e by (simp add: unat_add_small)
  ultimately show "\<not> elba * LSEC + 16384 > total_lbas * LSEC" using assms(1) by (simp add: word_less_nat_alt)
qed

lemma gpt_disk_scan:
  assumes "gpt_disk st key total_lbas guid ents" and "whole_disk dev key total_lbas" and "mem 92" and "mem 16384"
  shows "gpt_validate_at mem st dev total_lbas 1 = Some (gpt_primary total_lbas guid ents)"
    and "scan_mbr st dev mx = Some (-1, [])"
    and "scan_gpt mem st dev total_lbas mx = gpt_collect (gpt_primary total_lbas guid ents) total_lbas ents [0..<128] [] mx"
    and "vblk_size_bytes st dev div LSEC = total_lbas" and "part_ok st dev"
proof -
  from assms(1) obtain G sz where d: "length guid = 16" "length ents = 16384" "67 \<le> unat total_lbas"
    "holds st key G sz" "total_lbas = sz div LSEC" "window G 0 512 = protective_mbr total_lbas"
    "window G 512 512 = hdr_bytes (gpt_primary total_lbas guid ents) @ zeros 420" "window G 1024 16384 = ents"
    by (auto simp: gpt_disk_def)
  note f = fresh_header_fields [OF d(1-3)]
  have nz: "total_lbas \<noteq> 0" using d(3) by auto
  note h = holds_device [OF d(4) assms(2) d(5) nz]
  have T: "unat total_lbas * 512 < 18446744073709551616" using total_sectors [OF d(5)] le_unat_u64 by blast
  have fit: "\<not> 2 * LSEC + 16384 > total_lbas * LSEC" "unat (2 * LSEC :: u64) = 1024"
    using entries_fit [of 2 total_lbas] d(3) T by simp_all
  have r1: "read_lba512 st dev 1 1 = Some (hdr_bytes (gpt_primary total_lbas guid ents) @ zeros 420)"
    using h(2) [of 1] d(3,7) by simp
  have re: "read_bytes st dev (2 * LSEC) 16384 = Some ents"
    using h(3) [of "2 * LSEC" 16384] fit(2) d(3,8) by simp
  show v: "gpt_validate_at mem st dev total_lbas 1 = Some (gpt_primary total_lbas guid ents)"
    by (rule gpt_validate_good [OF f(2) r1 _ f(6) _ _ assms(3,4)]) (use f re fit in simp_all)
  show "scan_gpt mem st dev total_lbas mx = gpt_collect (gpt_primary total_lbas guid ents) total_lbas ents [0..<128] [] mx"
    using v re f assms(4) by (simp add: scan_gpt_def gpt_find_header_def ENTRIES_MAX_BYTES_def)
  have r0: "read_lba512 st dev 0 1 = Some (protective_mbr total_lbas)" using h(2) [of 0] d(3,6) by simp
  show "scan_mbr st dev mx = Some (-1, [])"
    using r0 protective_mbr_facts [OF d(3)] by (simp add: scan_mbr_def Let_def)
  show "vblk_size_bytes st dev div LSEC = total_lbas" "part_ok st dev" using h by simp_all
qed

section \<open>The entry array\<close>

lemma gpt_ent_of_take: "128 \<le> length s \<Longrightarrow> gpt_ent_of (take 128 s) = gpt_ent_of s"
  by (simp add: gpt_ent_of_def le64_bslice) (simp add: bslice_def drop_take)

lemma gpt_entry_blit:
  assumes "length ents = 16384" and "entry_size h = 128" and "length bs = 128" and "idx < 128" and "i < 128"
  shows "gpt_entry_at h (blit ents (idx * 128) bs) i = (if i = idx then gpt_ent_of bs else gpt_entry_at h ents i)"
proof -
  have fit: "idx * 128 + length bs \<le> length ents" "i * 128 + 128 \<le> length ents" using assms by simp_all
  have e: "gpt_entry_at h b i = gpt_ent_of (bslice (i * 128) 128 b)" if "length b = 16384" for b
    using gpt_ent_of_take [of "drop (i * 128) b"] that assms(2) fit(2) assms(1)
    by (simp add: gpt_entry_at_def bslice_def)
  have lb: "length (blit ents (idx * 128) bs) = 16384" using fit(1) assms(1) by simp
  show ?thesis
  proof (cases "i = idx")
    case True
    with e [OF lb] bslice_blit_same [OF fit(1), of 128] assms(3) show ?thesis by simp
  next
    case False
    then have "i * 128 + 128 \<le> idx * 128 \<or> idx * 128 + length bs \<le> i * 128" using assms(3) by auto
    with False e [OF lb] e [OF assms(1)] bslice_blit_other [OF fit] show ?thesis by simp
  qed
qed

lemma length_guid_stream [simp]: "length (guid_stream n r) = n"
  by (induction n arbitrary: r) (simp_all add: Let_def)

lemma length_gen_guid [simp]: "length (gen_guid r) = 16"
  by (simp add: gen_guid_def Let_def)

lemma length_to_utf16le [simp]: "length (to_utf16le s) = 72"
proof -
  have "length (concat (map (\<lambda>b. [b, 0 :: byte]) xs)) = 2 * length xs" for xs by (induction xs) auto
  then show ?thesis by (simp add: to_utf16le_def Let_def)
qed

text \<open>The used entries are proper ranges of the usable area and pairwise disjoint.\<close>

definition table_ok :: "gpt_hdr \<Rightarrow> byte list \<Rightarrow> bool" where
  "table_ok h ents \<longleftrightarrow>
     (\<forall>i < 128. \<not> guid_empty (gpt_entry_at h ents i) \<longrightarrow>
        first_usable_lba h \<le> first_lba (gpt_entry_at h ents i) \<and>
        first_lba (gpt_entry_at h ents i) \<le> last_lba (gpt_entry_at h ents i) \<and>
        last_lba (gpt_entry_at h ents i) \<le> last_usable_lba h) \<and>
     (\<forall>i < 128. \<forall>j < 128. i \<noteq> j \<and> \<not> guid_empty (gpt_entry_at h ents i) \<and> \<not> guid_empty (gpt_entry_at h ents j) \<longrightarrow>
        last_lba (gpt_entry_at h ents i) < first_lba (gpt_entry_at h ents j) \<or>
        last_lba (gpt_entry_at h ents j) < first_lba (gpt_entry_at h ents i))"

lemma gpt_insert_Inr:
  assumes "gpt_insert seed h ents tg name f l = Inr (ents', idx)" and "length ents = 16384" and "entry_size h = 128"
    and "num_entries h = 128" and "length tg = 16" and "\<exists>b \<in> set tg. b \<noteq> 0"
  defines "f' \<equiv> max f (first_usable_lba h)" and "l' \<equiv> min l (last_usable_lba h)"
  shows "idx < 128" and "length ents' = 16384" and "f' \<le> l'" and "guid_empty (gpt_entry_at h ents idx)"
    and "\<And>i. i < 128 \<Longrightarrow> gpt_entry_at h ents' i = (if i = idx then new_entry tg seed f' l' name else gpt_entry_at h ents i)"
    and "\<not> guid_empty (new_entry tg seed f' l' name)"
    and "\<And>i. i < 128 \<Longrightarrow> \<not> overlapping h ents f' l' i"
proof -
  have cl: "(if f < first_usable_lba h then first_usable_lba h else f) = f'"
    "(if l > last_usable_lba h then last_usable_lba h else l) = l'"
    by (auto simp: f'_def l'_def max_def min_def)
  note g = assms(1) [unfolded gpt_insert_def Let_def cl]
  show fl: "f' \<le> l'" using g by (auto split: if_splits)
  have o: "find (overlapping h ents f' l') [0..<unat (num_entries h)] = None"
    using g by (auto split: if_splits option.splits)
  then show "\<And>i. i < 128 \<Longrightarrow> \<not> overlapping h ents f' l' i" using assms(4) by (auto simp: find_None_iff)
  obtain k where k: "find (\<lambda>i. guid_empty (gpt_entry_at h ents i)) [0..<unat (num_entries h)] = Some k"
    using g o by (auto split: if_splits option.splits)
  let ?e = "new_entry tg seed f' l' name"
  have e': "ents' = blit ents (idx * 128) (ent_bytes ?e)" "k = idx"
    using g o k assms(3) by (auto simp: zeros_def split: if_splits)
  show i: "idx < 128" "guid_empty (gpt_entry_at h ents idx)" using k e'(2) assms(4) by (auto simp: find_Some_iff)
  have s: "ent_sized ?e" using assms(5) by (simp add: ent_sized_def new_entry_def)
  note lb = length_ent_bytes [OF s]
  show "length ents' = 16384" using i lb assms(2) by (simp add: e'(1))
  show "gpt_entry_at h ents' j = (if j = idx then ?e else gpt_entry_at h ents j)" if "j < 128" for j
    using gpt_entry_blit [OF assms(2,3) lb i(1) that] gpt_ent_of_bytes [OF s, of "[]"] by (simp add: e'(1))
  show "\<not> guid_empty ?e" using assms(6) by (simp add: guid_empty_def new_entry_def)
qed

lemma table_ok_insert:
  assumes "table_ok h ents" and "gpt_insert seed h ents tg name f l = Inr (ents', idx)" and "length ents = 16384"
    and "entry_size h = 128" and "num_entries h = 128" and "length tg = 16" and "\<exists>b \<in> set tg. b \<noteq> 0"
  shows "table_ok h ents'"
proof -
  note n = gpt_insert_Inr [OF assms(2-7)]
  let ?f = "max f (first_usable_lba h)" and ?l = "min l (last_usable_lba h)"
  let ?e = "new_entry tg seed ?f ?l name"
  have ef: "first_lba ?e = ?f" "last_lba ?e = ?l" by (simp_all add: new_entry_def)
  have apart: "?l < first_lba (gpt_entry_at h ents i) \<or> last_lba (gpt_entry_at h ents i) < ?f"
    if "i < 128" "\<not> guid_empty (gpt_entry_at h ents i)" for i
    using n(7) [OF that(1)] that(2) unfolding overlapping_def Let_def by (meson not_le)
  show ?thesis
    unfolding table_ok_def
  proof (intro conjI allI impI)
    fix i assume i: "i < 128" "\<not> guid_empty (gpt_entry_at h ents' i)"
    have "first_usable_lba h \<le> ?f" "?l \<le> last_usable_lba h" by simp_all
    then show "first_usable_lba h \<le> first_lba (gpt_entry_at h ents' i)"
      "first_lba (gpt_entry_at h ents' i) \<le> last_lba (gpt_entry_at h ents' i)"
      "last_lba (gpt_entry_at h ents' i) \<le> last_usable_lba h"
      using i assms(1) n(3) ef by (auto simp: n(5) table_ok_def)
  next
    fix i j assume ij: "i < 128" "j < 128" "i \<noteq> j \<and> \<not> guid_empty (gpt_entry_at h ents' i) \<and> \<not> guid_empty (gpt_entry_at h ents' j)"
    have old: "last_lba (gpt_entry_at h ents i) < first_lba (gpt_entry_at h ents j) \<or>
        last_lba (gpt_entry_at h ents j) < first_lba (gpt_entry_at h ents i)" if "i \<noteq> idx" "j \<noteq> idx"
      using assms(1) ij that unfolding table_ok_def by (auto simp: n(5))
    show "last_lba (gpt_entry_at h ents' i) < first_lba (gpt_entry_at h ents' j) \<or>
        last_lba (gpt_entry_at h ents' j) < first_lba (gpt_entry_at h ents' i)"
    proof (cases "i = idx \<or> j = idx")
      case True
      with ij apart [of i] apart [of j] ef show ?thesis by (auto simp: n(5))
    next
      case False
      with ij old show ?thesis by (simp add: n(5))
    qed
  qed
qed

section \<open>The commands on such a disk\<close>

lemma gpt_init_holds:
  assumes "holds st key G sz" and "67 \<le> unat (sz div LSEC)" and "mem 16384"
  shows "\<exists>st'. gpt_init_disk mem seed st key = (st', Initialized) \<and> gpt_disk st' key (sz div LSEC) (gen_guid seed) (zeros 16384)"
proof -
  define t where "t = sz div LSEC"
  have T: "unat t * 512 \<le> unat sz" and t67: "67 \<le> unat t" using total_sectors [of t sz] assms(2) by (simp_all add: t_def)
  have u: "unat (t - 1) = unat t - 1" "unat (t - 1 - 32) = unat t - 33"
    using t67 by (simp_all add: unat_sub_small diff_diff_eq)
  obtain G1 where h1: "holds (zero_lbas st key 2 32) key G1 sz"
    using holds_zero_lbas [OF assms(1), of 2 32] T t67 by auto
  obtain G2 where h2: "holds (zero_lbas (zero_lbas st key 2 32) key (t - 1 - 32) 32) key G2 sz"
  proof -
    have "(unat (t - 1 - 32) + 32) * 512 \<le> unat sz" unfolding u(2) using T t67 by simp
    from holds_zero_lbas [OF h1 this] that show thesis by blast
  qed
  define st2 where "st2 = zero_lbas (zero_lbas st key 2 32) key (t - 1 - 32) 32"
  from holds_pwrite_lba [OF h2 [folded st2_def], of 1 "zeros 512"] T t67 obtain st3 G3 where
    h3: "pwrite_lba512 st2 key 1 (zeros 512) = (st3, True)" "holds st3 key G3 sz" by auto
  from holds_pwrite_lba [OF h3(2), of "t - 1" "zeros 512"] T t67 u obtain st4 G4 where
    h4: "pwrite_lba512 st3 key (t - 1) (zeros 512) = (st4, True)" "holds st4 key G4 sz" by auto
  note pm = protective_mbr_facts(1) [OF t67]
  from holds_pwrite_lba [OF h4(2) _ pm, of 0] T t67 obtain st5 where
    h5: "write_protective_mbr st4 key t = (st5, True)" "holds st5 key (overlay G4 0 (protective_mbr t)) sz"
    by (auto simp: write_protective_mbr_def)
  have w: "window (overlay G4 0 (protective_mbr t)) 0 512 = protective_mbr t" using pm by (simp add: window_overlay_same)
  from gpt_disk_written [OF h5(2) t_def t67 w, of "gen_guid seed" "zeros 16384"] obtain st6 st7 where
    h6: "gpt_write_primary st5 key (gpt_primary t (gen_guid seed) (zeros 16384)) (zeros 16384) = (st6, True)"
      "gpt_write_backup st6 key (gpt_backup t (gen_guid seed) (zeros 16384)) (zeros 16384) = (st7, True)"
      "gpt_disk st7 key t (gen_guid seed) (zeros 16384)" by auto
  have big: "\<not> sz < LSEC * 35"
  proof -
    have "unat (LSEC * 35) = 17920" by (simp add: LSEC_def)
    then show ?thesis using T t67 by (simp add: word_less_nat_alt)
  qed
  have "gpt_init_disk mem seed st key = (st7, Initialized)"
    unfolding gpt_init_disk_def Let_def holds_size [OF assms(1)] t_def [symmetric] st2_def [symmetric]
    using big assms(3) h3(1) h4(1) h5(1) h6(1,2) by simp
  with h6(3) show ?thesis by (auto simp: t_def)
qed

lemma empty_entry: "length g = 16384 \<Longrightarrow> \<forall>b \<in> set g. b = 0 \<Longrightarrow> guid_empty (gpt_entry_at h g i)"
  by (auto simp: guid_empty_def gpt_entry_at_def gpt_ent_of_def bslice_def dest!: in_set_takeD in_set_dropD)

lemma table_ok_empty: "table_ok h (zeros 16384)"
  using empty_entry [of "zeros 16384" h] by (simp add: table_ok_def zeros_def)

lemma gpt_disk_readers:
  assumes "gpt_disk st key total_lbas guid ents" and "mem 92" and "mem 16384"
  shows "key_total st key = total_lbas"
    and "cmd_read_header mem st key 1 total_lbas = Some (gpt_primary total_lbas guid ents)"
    and "cmd_read_header mem st key (total_lbas - 1) total_lbas = Some (gpt_backup total_lbas guid ents)"
    and "cmd_read_entries mem st key (gpt_primary total_lbas guid ents) = Some ents"
    and "\<exists>G sz. holds st key G sz \<and> total_lbas = sz div LSEC \<and> window G 0 512 = protective_mbr total_lbas"
proof -
  from assms(1) obtain G sz where d: "length guid = 16" "length ents = 16384" "67 \<le> unat total_lbas"
    "holds st key G sz" "total_lbas = sz div LSEC" "window G 0 512 = protective_mbr total_lbas"
    "window G 512 512 = hdr_bytes (gpt_primary total_lbas guid ents) @ zeros 420" "window G 1024 16384 = ents"
    "window G ((unat total_lbas - 1) * 512) 512 = hdr_bytes (gpt_backup total_lbas guid ents) @ zeros 420"
    by (auto simp: gpt_disk_def)
  note f = fresh_header_fields [OF d(1-3)] and b = backup_fields [OF d(1-3)] and T = total_sectors [OF d(5)]
  show "key_total st key = total_lbas"
    using holds_size [OF d(4)] d(3,5) by (auto simp: key_total_def Let_def)
  have u: "unat (total_lbas - 1) = unat total_lbas - 1" using d(3) by (simp add: unat_sub_small)
  have "pread_lba512 st key 1 = Some (hdr_bytes (gpt_primary total_lbas guid ents) @ zeros 420)"
    using holds_pread_lba [OF d(4), of 1] T d(3,7) by simp
  then show "cmd_read_header mem st key 1 total_lbas = Some (gpt_primary total_lbas guid ents)"
    using cmd_read_header_good [where mem = mem, OF f(2)] assms(2) by blast
  have "pread_lba512 st key (total_lbas - 1) = Some (hdr_bytes (gpt_backup total_lbas guid ents) @ zeros 420)"
    using holds_pread_lba [OF d(4), of "total_lbas - 1"] T d(3,9) u by simp
  then show "cmd_read_header mem st key (total_lbas - 1) total_lbas = Some (gpt_backup total_lbas guid ents)"
    using cmd_read_header_good [where mem = mem, OF b(1)] assms(2) by blast
  have "diskio_pread st key (2 * LSEC) 16384 = Some ents"
    using holds_pread [OF d(4), of "2 * LSEC" 16384] T d(3,8) by (simp add: LSEC_def)
  then show "cmd_read_entries mem st key (gpt_primary total_lbas guid ents) = Some ents"
    using f assms(3) by (simp add: cmd_read_entries_def ENTRIES_MAX_BYTES_def)
  show "\<exists>G sz. holds st key G sz \<and> total_lbas = sz div LSEC \<and> window G 0 512 = protective_mbr total_lbas"
    using d(4-6) by blast
qed

lemma gpt_add_on_disk:
  assumes "gpt_disk st key total_lbas guid ents" and "mem 92" and "mem 16384" and "length tg = 16" and "\<exists>b \<in> set tg. b \<noteq> 0"
  shows "case gpt_insert seed (gpt_primary total_lbas guid ents) ents tg name f l of
      Inl m \<Rightarrow> gpt_add_disk mem tail seed st key tg name f l = (st, m)
    | Inr (ents', idx) \<Rightarrow> \<exists>st'. gpt_add_disk mem tail seed st key tg name f l = (st', Added (idx + 1)) \<and>
        gpt_disk st' key total_lbas guid ents'"
proof -
  note r = gpt_disk_readers [OF assms(1-3)]
  have d: "length guid = 16" "length ents = 16384" "67 \<le> unat total_lbas" using assms(1) by (auto simp: gpt_disk_def)
  note f = fresh_header_fields [OF d]
  show ?thesis
  proof (cases "gpt_insert seed (gpt_primary total_lbas guid ents) ents tg name f l")
    case (Inl m)
    then show ?thesis using r(1-4) f(4) by (simp add: gpt_add_disk_def Let_def)
  next
    case (Inr p)
    obtain ents' idx where p: "p = (ents', idx)" by force
    note ins = Inr [unfolded p]
    have len: "length ents' = 16384" using gpt_insert_Inr(2) [OF ins d(2) f(9,8) assms(4,5)] .
    note u = update_headers [OF d(1,2) len d(3)]
    from r(5) obtain G sz where g: "holds st key G sz" "total_lbas = sz div LSEC" "window G 0 512 = protective_mbr total_lbas" by blast
    from gpt_disk_written [OF g(1,2) d(3) g(3) d(1) len] obtain st1 st2 where
      w: "gpt_write_primary st key (gpt_primary total_lbas guid ents') ents' = (st1, True)"
        "gpt_write_backup st1 key (gpt_backup total_lbas guid ents') ents' = (st2, True)"
        "gpt_disk st2 key total_lbas guid ents'" by blast
    have "gpt_add_disk mem tail seed st key tg name f l = (st2, Added (idx + 1))"
      using r(1-4) f(4) ins u w(1,2) by (simp add: gpt_add_disk_def Let_def)
    with w(3) ins show ?thesis by auto
  qed
qed

lemma gpt_collect_all:
  "length ps + length is \<le> mx \<Longrightarrow>
   gpt_collect h t buf is ps mx = ps @ concat (map (\<lambda>i. gpt_pick h t buf i []) is)"
proof (induction "is" arbitrary: ps)
  case (Cons i "is")
  have e: "gpt_pick h t buf i ps = ps @ gpt_pick h t buf i []" by (simp add: gpt_pick_def Let_def)
  have "length (gpt_pick h t buf i []) \<le> 1" by (simp add: gpt_pick_def Let_def)
  then have "length (ps @ gpt_pick h t buf i []) + length is \<le> mx" using Cons.prems by simp
  from Cons.IH [OF this] Cons.prems e show ?case by simp
qed simp

text \<open>The ranges of the used entries, in the order of their slots.\<close>

definition used_ranges :: "gpt_hdr \<Rightarrow> byte list \<Rightarrow> parts" where
  "used_ranges h ents = map (\<lambda>i. (first_lba (gpt_entry_at h ents i), last_lba (gpt_entry_at h ents i)))
     (filter (\<lambda>i. \<not> guid_empty (gpt_entry_at h ents i)) [0..<128])"

lemma gpt_collect_used:
  assumes "table_ok h ents" and "last_usable_lba h < t"
  shows "gpt_collect h t ents [0..<128] [] 128 = used_ranges h ents"
proof -
  have "gpt_pick h t ents i [] = (if guid_empty (gpt_entry_at h ents i) then []
      else [(first_lba (gpt_entry_at h ents i), last_lba (gpt_entry_at h ents i))])" if "i < 128" for i
  proof (cases "guid_empty (gpt_entry_at h ents i)")
    case False
    with assms(1) that have "first_lba (gpt_entry_at h ents i) \<le> last_lba (gpt_entry_at h ents i)"
      "last_lba (gpt_entry_at h ents i) \<le> last_usable_lba h" unfolding table_ok_def by blast+
    with False order_le_less_trans [OF _ assms(2)] show ?thesis by (simp add: gpt_pick_def Let_def not_less not_le)
  qed (simp add: gpt_pick_def)
  then have e: "map (\<lambda>i. gpt_pick h t ents i []) [0..<128] =
      map (\<lambda>i. if guid_empty (gpt_entry_at h ents i) then []
        else [(first_lba (gpt_entry_at h ents i), last_lba (gpt_entry_at h ents i))]) [0..<128]" by (intro map_cong) auto
  have c: "concat (map (\<lambda>i. if P i then [] else [g i]) xs) = map g (filter (\<lambda>i. \<not> P i) xs)"
    for P and g :: "nat \<Rightarrow> u64 \<times> u64" and xs by (induction xs) auto
  show ?thesis by (simp only: gpt_collect_all [of "[]" "[0..<128]" 128, simplified] e c used_ranges_def append_Nil)
qed

lemma fresh_usable: "67 \<le> unat t \<Longrightarrow> length guid = 16 \<Longrightarrow> length ents = 16384 \<Longrightarrow> last_usable_lba (gpt_primary t guid ents) < t"
  using fresh_header_fields(11) [of guid ents t] by (simp add: word_less_nat_alt unat_sub_small)

text \<open>With the primary entry array damaged, the primary header fails its check, but the sector it is in still
  names the backup, which is intact.\<close>

lemma gpt_validate_entries_mismatch:
  assumes "hdr_good h total_lbas" and "read_lba512 st dev lba 1 = Some (hdr_bytes h @ zeros 420)"
    and "read_bytes st dev (entries_lba h * LSEC) (of_nat (entries_bytes h)) = Some ents" and "crc32_calc ents \<noteq> entries_crc h"
  shows "gpt_validate_at mem st dev total_lbas lba = None"
proof -
  note s = hdr_good_sector [OF assms(1) refl]
  have hs: "header_size h = 92" "gpt_hdr_fields_ok h total_lbas" using assms(1) by (simp_all add: hdr_good_def)
  show ?thesis
    unfolding gpt_validate_at_def assms(2) option.case Let_def s(3) using s(2,4,5) hs assms(3,4) by simp
qed

lemma gpt_backup_scan:
  assumes "gpt_disk st key total_lbas guid ents" and "whole_disk dev key total_lbas" and "mem 92" and "mem 16384"
    and "i < 16384" and "b \<noteq> ents ! i" and "diskio_pwrite st key (1024 + of_nat i) [b] = (st', True)"
  shows "scan_gpt mem st' dev total_lbas 128 = scan_gpt mem st dev total_lbas 128"
proof -
  from assms(1) obtain G sz where d: "length guid = 16" "length ents = 16384" "67 \<le> unat total_lbas"
    "holds st key G sz" "total_lbas = sz div LSEC"
    "window G 512 512 = hdr_bytes (gpt_primary total_lbas guid ents) @ zeros 420" "window G 1024 16384 = ents"
    "window G ((unat total_lbas - 33) * 512) 16384 = ents"
    "window G ((unat total_lbas - 1) * 512) 512 = hdr_bytes (gpt_backup total_lbas guid ents) @ zeros 420"
    by (auto simp: gpt_disk_def)
  note f = fresh_header_fields [OF d(1-3)] and bk = backup_fields [OF d(1-3)] and T = total_sectors [OF d(5)]
  have nz: "total_lbas \<noteq> 0" using d(3) by auto
  have T2: "unat total_lbas * 512 < 18446744073709551616" using T le_unat_u64 by blast
  have ui: "unat (1024 + of_nat i :: u64) = 1024 + i" using assms(5) by (simp add: unat_add_small unat_of_nat_small)
  let ?G = "overlay G (1024 + i) [b]"
  have h': "holds st' key ?G sz"
    using holds_pwrite [OF d(4), of "1024 + of_nat i" "[b]"] ui assms(5,7) T d(3) by auto
  note h = holds_device [OF h' assms(2) d(5) nz]
  have k: "34 \<le> unat total_lbas - 33" "unat total_lbas - 33 + 32 = unat total_lbas - 1" using d(3) by simp_all
  have u: "unat (total_lbas - 1) = unat total_lbas - 1" "unat (total_lbas - 33) = unat total_lbas - 33"
    using d(3) by (simp_all add: unat_sub_small)
  have w1: "window ?G 512 512 = window G 512 512" by (rule window_overlay_disjoint) simp
  have w2: "window ?G 1024 16384 = ents[i := b]"
    using assms(5) d(2,7) by (intro nth_equalityI) (auto simp: overlay_def nth_list_update dest: arg_cong [where f = "\<lambda>xs. xs ! _"])
  have w3: "window ?G ((unat total_lbas - 33) * 512) 16384 = window G ((unat total_lbas - 33) * 512) 16384"
    using k assms(5) by (intro window_overlay_disjoint) simp
  have w4: "window ?G ((unat total_lbas - 1) * 512) 512 = window G ((unat total_lbas - 1) * 512) 512"
  proof (rule window_overlay_disjoint)
    have "66 * 512 \<le> (unat total_lbas - 1) * 512" using d(3) by (intro mult_le_mono1) simp
    with assms(5) show "(unat total_lbas - 1) * 512 + 512 \<le> 1024 + i \<or> 1024 + i + length [b] \<le> (unat total_lbas - 1) * 512" by simp
  qed
  have r1: "read_lba512 st' dev 1 1 = Some (hdr_bytes (gpt_primary total_lbas guid ents) @ zeros 420)"
    using h(2) [of 1] d(3,6) w1 by simp
  have re: "read_bytes st' dev (2 * LSEC) 16384 = Some (ents[i := b])"
    using h(3) [of "2 * LSEC" 16384] d(3) w2 by (simp add: LSEC_def)
  have "crc32_calc (ents[i := b]) \<noteq> crc32_calc ents" using assms(5,6) d(2) by (intro crc32_change) simp_all
  then have v1: "gpt_validate_at mem st' dev total_lbas 1 = None"
    using gpt_validate_entries_mismatch [OF f(2) r1, of "ents[i := b]" mem] re f(5-7) by simp
  have sec: "bslice 0 8 (hdr_bytes (gpt_primary total_lbas guid ents) @ zeros 420) = bytes_of ''EFI PART''"
    "le64 (drop 32 (hdr_bytes (gpt_primary total_lbas guid ents) @ zeros 420)) = total_lbas - 1"
  proof -
    show "bslice 0 8 (hdr_bytes (gpt_primary total_lbas guid ents) @ zeros 420) = bytes_of ''EFI PART''"
      using hdr_good_sector(2) [OF f(2) refl] .
    have "backup_lba (gpt_hdr_of (hdr_bytes (gpt_primary total_lbas guid ents) @ zeros 420)) = total_lbas - 1"
      using hdr_good_sector(3) [OF f(2) refl] f(4) by simp
    then show "le64 (drop 32 (hdr_bytes (gpt_primary total_lbas guid ents) @ zeros 420)) = total_lbas - 1"
      by (simp add: gpt_hdr_of_def)
  qed
  have rb: "read_lba512 st' dev (total_lbas - 1) 1 = Some (hdr_bytes (gpt_backup total_lbas guid ents) @ zeros 420)"
    using h(2) [of "total_lbas - 1"] u d(3,9) w4 by simp
  have fit: "\<not> (total_lbas - 33) * LSEC + 16384 > total_lbas * LSEC" "unat ((total_lbas - 33) * LSEC) = (unat total_lbas - 33) * 512"
    using entries_fit [of "total_lbas - 33" total_lbas] u k T2 by simp_all
  have rbe: "read_bytes st' dev ((total_lbas - 33) * LSEC) 16384 = Some ents"
    using h(3) [of "(total_lbas - 33) * LSEC" 16384] fit(2) k w3 d(8) by simp
  have crc: "crc32_calc ents = entries_crc (gpt_backup total_lbas guid ents)"
  proof -
    have "entries_bytes (gpt_primary total_lbas guid ents) = 16384" by (rule f(6))
    then show ?thesis using d(2)
      by (simp add: backup_of_def gpt_update_header_crc_def gpt_update_entries_crc_def Let_def entries_bytes_def)
  qed
  have v2: "gpt_validate_at mem st' dev total_lbas (total_lbas - 1) = Some (gpt_backup total_lbas guid ents)"
    by (rule gpt_validate_good [where mem = mem, OF bk(1) rb _ bk(4) crc _ assms(3,4)]) (use bk rbe fit in simp_all)
  have same: "gpt_entry_at (gpt_backup total_lbas guid ents) = gpt_entry_at (gpt_primary total_lbas guid ents)"
    "num_entries (gpt_backup total_lbas guid ents) = 128"
    using f(8) by (simp_all add: fun_eq_iff gpt_entry_at_def backup_of_def gpt_update_header_crc_def gpt_update_entries_crc_def Let_def)
  have col: "gpt_collect (gpt_backup total_lbas guid ents) t buf is ps mx = gpt_collect (gpt_primary total_lbas guid ents) t buf is ps mx"
    for t buf "is" ps mx by (induction "is" arbitrary: ps) (simp_all add: gpt_pick_def same)
  have "scan_gpt mem st' dev total_lbas 128 = gpt_collect (gpt_primary total_lbas guid ents) total_lbas ents [0..<128] [] 128"
    using v1 v2 r1 sec rbe bk(3,4) same(2) assms(4) by (simp add: scan_gpt_def gpt_find_header_def ENTRIES_MAX_BYTES_def col)
  with gpt_disk_scan(3) [OF assms(1-4)] show ?thesis by simp
qed

lemma type_guid_facts:
  assumes "type_guid_for type = Some tg"
  shows "length tg = 16" and "\<exists>b \<in> set tg. b \<noteq> 0"
proof -
  have "tg \<in> {TYPE_LINUXFS, TYPE_BIOSBOOT, TYPE_MS_BASIC}"
    using assms unfolding type_guid_for_def Let_def by (simp split: if_splits)
  then show "length tg = 16" and "\<exists>b \<in> set tg. b \<noteq> 0"
    by (auto simp: TYPE_LINUXFS_def TYPE_BIOSBOOT_def TYPE_MS_BASIC_def)
qed

lemma gpt_insert_Inl: "gpt_insert seed h ents tg name f l = Inl x \<Longrightarrow> \<not> is_added x"
  by (auto simp: gpt_insert_def Let_def is_added_def split: if_splits option.splits)

lemma gpt_add_success:
  assumes "gpt_disk st key t guid ents" and "table_ok (gpt_primary t guid ents) ents" and "mem 92" and "mem 16384"
    and "type_guid_for type = Some tg" and ins: "gpt_insert seed (gpt_primary t guid ents) ents tg name f l = Inr (ents', idx)"
  shows "\<exists>st'. gpt_add_disk mem tail seed st key tg name f l = (st', Added (idx + 1)) \<and> gpt_disk st' key t guid ents'"
    and "idx < 128" and "table_ok (gpt_primary t guid ents') ents'"
    and "guid_empty (gpt_entry_at (gpt_primary t guid ents) ents idx)"
    and "\<And>i. i < 128 \<Longrightarrow> gpt_entry_at (gpt_primary t guid ents') ents' i =
          (if i = idx then new_entry tg seed (max f 34) (min l (t - 34)) name else gpt_entry_at (gpt_primary t guid ents) ents i)"
proof -
  have d: "length guid = 16" "length ents = 16384" "67 \<le> unat t" using assms(1) by (auto simp: gpt_disk_def)
  note tg = type_guid_facts [OF assms(5)]
  note f = fresh_header_fields [OF d]
  note n = gpt_insert_Inr [OF ins d(2) f(9,8) tg]
  note f' = fresh_header_fields [OF d(1) n(2) d(3)]
  show "\<exists>st'. gpt_add_disk mem tail seed st key tg name f l = (st', Added (idx + 1)) \<and> gpt_disk st' key t guid ents'"
    using gpt_add_on_disk [where mem = mem and seed = seed and name = name and f = f and l = l and tail = tail, OF assms(1,3,4) tg]
    unfolding ins sum.case prod.case .
  show "idx < 128" by (rule n(1))
  show "guid_empty (gpt_entry_at (gpt_primary t guid ents) ents idx)" by (rule n(4))
  have same: "gpt_entry_at (gpt_primary t guid ents') = gpt_entry_at (gpt_primary t guid ents)"
    by (simp only: fun_eq_iff gpt_entry_at_def f(9) f'(9)) simp
  show "gpt_entry_at (gpt_primary t guid ents') ents' i =
      (if i = idx then new_entry tg seed (max f 34) (min l (t - 34)) name else gpt_entry_at (gpt_primary t guid ents) ents i)"
    if "i < 128" for i using n(5) [OF that] unfolding same f(10,11) .
  show "table_ok (gpt_primary t guid ents') ents'"
    using table_ok_insert [OF assms(2) ins d(2) f(9,8) tg] unfolding table_ok_def same f(10,11) f'(10,11) .
qed

section \<open>Properties\<close>


text \<open>C2. \<^verbatim>\<open>gpt add\<close> keeps the table sound. On a disk with a complete table without overlaps, adding a partition
  either fails and leaves the disk exactly as it was, or succeeds and leaves a complete table (headers, checksums and
  both copies) without overlaps, in which a free slot holds the new entry, with its range clamped to the usable area, and
  every other slot is unchanged.\<close>

theorem gpt_add_keeps_table:
  assumes "gpt_disk st key t guid ents" and "table_ok (gpt_primary t guid ents) ents" and "\<forall>n. mem n"
    and "type_guid_for type = Some tg" and "gpt_add_disk mem tail seed st key tg name f l = (st', m)"
  shows "st' = st \<and> \<not> is_added m \<or>
    (\<exists>ents' idx. m = Added (idx + 1) \<and> idx < 128 \<and> gpt_disk st' key t guid ents' \<and> table_ok (gpt_primary t guid ents') ents' \<and>
       guid_empty (gpt_entry_at (gpt_primary t guid ents) ents idx) \<and>
       (\<forall>i < 128. gpt_entry_at (gpt_primary t guid ents') ents' i =
          (if i = idx then new_entry tg seed (max f 34) (min l (t - 34)) name else gpt_entry_at (gpt_primary t guid ents) ents i)))"
proof (cases "gpt_insert seed (gpt_primary t guid ents) ents tg name f l")
  case (Inl x)
  have "mem 92" "mem 16384" using assms(3) by simp_all
  from gpt_add_on_disk [where mem = mem and seed = seed and name = name and f = f and l = l and tail = tail,
      OF assms(1) this type_guid_facts [OF assms(4)]]
  have "(st', m) = (st, x)" unfolding Inl sum.case assms(5) .
  with gpt_insert_Inl [OF Inl] show ?thesis by simp
next
  case (Inr p)
  obtain ents' idx where p: "p = (ents', idx)" by force
  have m: "mem 92" "mem 16384" using assms(3) by simp_all
  note a = gpt_add_success [where mem = mem, OF assms(1,2) m assms(4) Inr [unfolded p]]
  from a(1) [where tail = tail] have "m = Added (idx + 1) \<and> gpt_disk st' key t guid ents'" unfolding assms(5) by auto
  with a(2-5) show ?thesis by blast
qed

text \<open>C17. The partition scan finds exactly what the table says. On a disk with a complete table without overlaps the
  scan of \<^verbatim>\<open>blkdev.c\<close> sees a protective MBR, accepts the primary header and returns the ranges of the used entries, all of
  them, in slot order.\<close>

theorem gpt_scan_finds_entries:
  assumes "gpt_disk st key t guid ents" and "table_ok (gpt_primary t guid ents) ents" and "\<forall>n. mem n"
    and "whole_disk dev key t"
  shows "scan_mbr st dev MAX_PARTS = Some (-1, []) \<and>
    scan_gpt mem st dev t MAX_PARTS = used_ranges (gpt_primary t guid ents) ents"
proof -
  have d: "length guid = 16" "length ents = 16384" "67 \<le> unat t" using assms(1) by (auto simp: gpt_disk_def)
  note s = gpt_disk_scan [OF assms(1,4)] and u = fresh_usable [OF d(3,1,2)]
  show ?thesis using s(2,3) assms(3) gpt_collect_used [OF assms(2) u] by (simp add: MAX_PARTS_def)
qed

text \<open>C8. A damaged entry array is survived. Change any one byte of the primary entry array of a disk with a complete
  table: the scan then rejects the primary header, falls back to the backup the sector still names, and reports the same
  partitions as before.\<close>

theorem gpt_scan_survives_damage:
  assumes "gpt_disk st key t guid ents" and "whole_disk dev key t" and "\<forall>n. mem n"
    and "i < 16384" and "b \<noteq> ents ! i" and "diskio_pwrite st key (1024 + of_nat i) [b] = (st', True)"
  shows "scan_gpt mem st' dev t MAX_PARTS = scan_gpt mem st dev t MAX_PARTS"
  using gpt_backup_scan [OF assms(1,2) _ _ assms(4-6)] assms(3) by (simp add: MAX_PARTS_def)

text \<open>C29. The scan that follows \<^verbatim>\<open>gpt init\<close> reports failure. A valid table without partitions behind a protective MBR is
  taken for an unreadable one: \<^verbatim>\<open>disk_scan_partitions\<close> returns -1 although the header was accepted.\<close>

theorem empty_gpt_reported_unreadable:
  assumes "gpt_disk st key t guid (zeros 16384)" and "\<forall>n. mem n" and "find_by_name g gname = Some i"
    and "whole_disk (fst (vblk_remove_children g gname) ! i) key t"
  shows "disk_scan_partitions mem st g gname = Some (fst (vblk_remove_children g gname), -1)"
proof -
  let ?dev = "fst (vblk_remove_children g gname) ! i"
  have d: "length guid = 16" "length (zeros 16384) = 16384" "67 \<le> unat t" using assms(1) by (auto simp: gpt_disk_def)
  note s = gpt_disk_scan [OF assms(1,4)] and u = fresh_usable [OF d(3,1,2)]
  have "used_ranges (gpt_primary t guid (zeros 16384)) (zeros 16384) = []"
    using empty_entry [of "zeros 16384"] by (simp add: used_ranges_def zeros_def)
  then have "scan_gpt mem st ?dev t MAX_PARTS = []"
    using s(3) assms(2) gpt_collect_used [OF table_ok_empty u] by (simp add: MAX_PARTS_def)
  moreover have "scan_mbr st ?dev MAX_PARTS = Some (-1, [])" using s(2) assms(2) by blast
  moreover have "(if vblk_size_bytes st ?dev \<noteq> 0 then vblk_size_bytes st ?dev div LSEC else 0) = t"
    using s(4) assms(2) by auto
  ultimately show ?thesis using assms(3) by (simp add: disk_scan_partitions_def Let_def)
qed

section \<open>Witnesses\<close>

text \<open>A created raw image of 128 sectors, attached as \<^verbatim>\<open>/dev/a\<close>.\<close>

lemma demo_holds:
  obtains st where "holds st ''/dev/a'' (\<lambda>_. 0) 65536"
proof -
  have r: "vdisk_resolve ''a.img'' VDISK_FMT_AUTO = VDISK_FMT_RAW" by code_simp
  have "\<exists>fs' d. vdisk_create_ex_uuid demo_env demo_fs ''a.img'' VDISK_FMT_AUTO 65536 0 None = (fs', Some d) \<and>
     driver d = Some VDISK_FMT_RAW \<and> size_bytes d = 65536"
    by (simp add: vdisk_create_ex_uuid_def r Let_def fopen_wbp_def demo_fs_def raw_create_def
        vdisk_calloc_def vdisk_host_write_def poke_def vdisk_host_seek_def word_le_nat_alt)
  then obtain fs' d where d: "vdisk_create_ex_uuid demo_env demo_fs ''a.img'' VDISK_FMT_AUTO 65536 0 None = (fs', Some d)"
    "driver d = Some VDISK_FMT_RAW" "size_bytes d = 65536" by blast
  from vdisk_create_blank [OF d(1) demo_fs_ok] d(2,3) have w: "vdisk_inv d" "writable d"
    "\<forall>i < 65536. vdisk_guest d i = 0" by (auto simp: vdisk_blank_def vdisk_linked_def)
  let ?st = "\<lparr>dfs = fs', g_map = [\<lparr>dkey = ''/dev/a'', dpath = ''a.img'', ddisk = Some d\<rparr>]\<rparr>"
  have "attached_disk ?st ''/dev/a'' = Some (0, d)" by (simp add: attached_disk_def map_find_index_def)
  then have "holds ?st ''/dev/a'' (\<lambda>_. 0) 65536" using w d(3) by (simp add: holds_def dio_disk_def dio_inv_def)
  with that show thesis by blast
qed

lemma demo_whole: "whole_disk (demo_part ''/dev/a'' 0 128) ''/dev/a'' 128"
  by (simp add: whole_disk_def demo_part_def vblk_backing_key_def)

lemma demo_total: "65536 div LSEC = 128"
  by (simp add: LSEC_def)

lemma demo_gpt:
  obtains st where "gpt_disk st ''/dev/a'' 128 (gen_guid 5) (zeros 16384)"
proof (rule demo_holds)
  fix st assume "holds st ''/dev/a'' (\<lambda>_. 0) 65536"
  from gpt_init_holds [OF this, of "\<lambda>n. True" 5] that show thesis by (auto simp: demo_total)
qed


text \<open>The same disk with one partition added to it, on the sectors 40 to 60.\<close>

lemma demo_insert:
  assumes "length guid = 16"
  shows "\<exists>ents'. gpt_insert 9 (gpt_primary 128 guid (zeros 16384)) (zeros 16384) TYPE_LINUXFS ''root'' 40 60 = Inr (ents', 0)"
proof -
  have d: "length (zeros 16384) = 16384" "67 \<le> unat (128 :: u64)" by simp_all
  note f = fresh_header_fields [OF assms d]
  have e: "guid_empty (gpt_entry_at h (zeros 16384) i)" for h i using empty_entry [of "zeros 16384"] by (simp add: zeros_def)
  have u: "[0..<unat (128 :: u32)] = 0 # [1..<128]" by (simp add: upt_conv_Cons)
  have o: "find (overlapping (gpt_primary 128 guid (zeros 16384)) (zeros 16384) a b) [0..<unat (128 :: u32)] = None" for a b
    using e by (simp add: find_None_iff overlapping_def)
  have k: "find (\<lambda>i. guid_empty (gpt_entry_at (gpt_primary 128 guid (zeros 16384)) (zeros 16384) i)) [0..<unat (128 :: u32)] = Some 0"
    unfolding u using e by simp
  show ?thesis unfolding gpt_insert_def Let_def f(8-11) o k by simp
qed

lemma demo_added:
  obtains st st' ents' where "gpt_disk st ''/dev/a'' 128 (gen_guid 5) (zeros 16384)"
    and "gpt_add_disk (\<lambda>n. True) [] 9 st ''/dev/a'' TYPE_LINUXFS ''root'' 40 60 = (st', Added 1)"
    and "gpt_disk st' ''/dev/a'' 128 (gen_guid 5) ents'" and "table_ok (gpt_primary 128 (gen_guid 5) ents') ents'"
    and "used_ranges (gpt_primary 128 (gen_guid 5) ents') ents' = [(40, 60)]"
proof (rule demo_gpt)
  fix st assume d: "gpt_disk st ''/dev/a'' 128 (gen_guid 5) (zeros 16384)"
  then have "length (gen_guid 5) = 16" by (simp add: gpt_disk_def)
  from demo_insert [OF this] obtain ents' where
    i: "gpt_insert 9 (gpt_primary 128 (gen_guid 5) (zeros 16384)) (zeros 16384) TYPE_LINUXFS ''root'' 40 60 = Inr (ents', 0)" by blast
  have ty: "type_guid_for ''linuxfs'' = Some TYPE_LINUXFS" by code_simp
  note a = gpt_add_success [where mem = "\<lambda>n. True", OF d table_ok_empty TrueI TrueI ty i]
  let ?h = "gpt_primary 128 (gen_guid 5) ents'" and ?e = "new_entry TYPE_LINUXFS 9 40 60 ''root''"
  have m: "(max 40 34 :: u64) = 40" "(min 60 (128 - 34) :: u64) = 60" by (simp_all add: max_def min_def)
  have e0: "gpt_entry_at ?h ents' 0 = ?e" using a(5) [of 0] unfolding m by simp
  have ne: "\<not> guid_empty ?e" using type_guid_facts(2) [OF ty] by (auto simp: guid_empty_def new_entry_def)
  have e: "guid_empty (gpt_entry_at ?h ents' i)" if "0 < i" "i < 128" for i
    using a(5) [OF that(2)] that(1) empty_entry [of "zeros 16384"] by (simp add: zeros_def)
  have "filter (\<lambda>i. \<not> guid_empty (gpt_entry_at ?h ents' i)) [1..<128] = []" using e by (simp add: filter_empty_conv)
  moreover have "[0..<128::nat] = 0 # [1..<128]" by (simp add: upt_conv_Cons)
  ultimately have "filter (\<lambda>i. \<not> guid_empty (gpt_entry_at ?h ents' i)) [0..<128] = [0]" using e0 ne by simp
  then have "used_ranges ?h ents' = [(40, 60)]" unfolding used_ranges_def using e0 by (simp add: new_entry_def)
  moreover from a(1) [where tail = "[]"] obtain st' where
    "gpt_add_disk (\<lambda>n. True) [] 9 st ''/dev/a'' TYPE_LINUXFS ''root'' 40 60 = (st', Added 1)" "gpt_disk st' ''/dev/a'' 128 (gen_guid 5) ents'"
    by auto
  ultimately show thesis using that d a(3) by blast
qed

theorem gpt_add_keeps_table_witness:
  "\<exists>st st' ents'. gpt_add_disk (\<lambda>n. True) [] 9 st ''/dev/a'' TYPE_LINUXFS ''root'' 40 60 = (st', Added 1) \<and>
     gpt_disk st' ''/dev/a'' 128 (gen_guid 5) ents' \<and> table_ok (gpt_primary 128 (gen_guid 5) ents') ents'"
proof (rule demo_added)
  fix st st' ents' assume d: "gpt_disk st ''/dev/a'' 128 (gen_guid 5) (zeros 16384)"
    and a: "gpt_add_disk (\<lambda>n. True) [] 9 st ''/dev/a'' TYPE_LINUXFS ''root'' 40 60 = (st', Added 1)"
  have ty: "type_guid_for ''linuxfs'' = Some TYPE_LINUXFS" by code_simp
  have mm: "\<forall>n::nat. (\<lambda>n. True) n" by simp
  have "is_added (Added 1)" by (simp add: is_added_def)
  with gpt_add_keeps_table [OF d table_ok_empty mm ty a] have
    "\<exists>ents'. gpt_disk st' ''/dev/a'' 128 (gen_guid 5) ents' \<and> table_ok (gpt_primary 128 (gen_guid 5) ents') ents'"
    by (elim disjE exE conjE) blast+
  with a show ?thesis by blast
qed

theorem gpt_scan_finds_entries_witness:
  "\<exists>st. scan_mbr st (demo_part ''/dev/a'' 0 128) MAX_PARTS = Some (-1, []) \<and>
     scan_gpt (\<lambda>n. True) st (demo_part ''/dev/a'' 0 128) 128 MAX_PARTS = [(40, 60)]"
proof (rule demo_added)
  fix st st' ents' assume d: "gpt_disk st' ''/dev/a'' 128 (gen_guid 5) ents'" "table_ok (gpt_primary 128 (gen_guid 5) ents') ents'"
    and u: "used_ranges (gpt_primary 128 (gen_guid 5) ents') ents' = [(40, 60)]"
  from gpt_scan_finds_entries [OF d _ demo_whole, of "\<lambda>n. True"] u show ?thesis by auto
qed

text \<open>The scan of this disk is an instance of the range property of \<^verbatim>\<open>scan_gpt\<close>, with a partition in it.\<close>

theorem scan_gpt_in_range_witness:
  "\<exists>st. set (scan_gpt (\<lambda>n. True) st (demo_part ''/dev/a'' 0 128) 128 MAX_PARTS) = {(40, 60)} \<and>
     length (scan_gpt (\<lambda>n. True) st (demo_part ''/dev/a'' 0 128) 128 MAX_PARTS) \<le> MAX_PARTS \<and> (40 :: u64) \<le> 60 \<and> (60 :: u64) < 128"
proof (rule demo_added)
  fix st st' ents' assume d: "gpt_disk st' ''/dev/a'' 128 (gen_guid 5) ents'" "table_ok (gpt_primary 128 (gen_guid 5) ents') ents'"
    and u: "used_ranges (gpt_primary 128 (gen_guid 5) ents') ents' = [(40, 60)]"
  have "67 \<le> unat (128 :: u64)" "length (gen_guid 5) = 16" "length ents' = 16384" using d(1) by (simp_all add: gpt_disk_def)
  note l = fresh_usable [OF this]
  have "scan_gpt (\<lambda>n. True) st' (demo_part ''/dev/a'' 0 128) 128 MAX_PARTS = [(40, 60)]"
    using gpt_disk_scan(3) [OF d(1) demo_whole, where mem = "\<lambda>n. True"] gpt_collect_used [OF d(2) l] u by (simp add: MAX_PARTS_def)
  with scan_gpt_in_range [of "\<lambda>n. True" st' "demo_part ''/dev/a'' 0 128" 128 MAX_PARTS] show ?thesis
    by (intro exI [of _ st']) simp
qed
theorem gpt_scan_survives_damage_witness:
  "\<exists>st st'. diskio_pwrite st ''/dev/a'' (1024 + of_nat 77) [1] = (st', True) \<and>
     scan_gpt (\<lambda>n. True) st' (demo_part ''/dev/a'' 0 128) 128 MAX_PARTS = scan_gpt (\<lambda>n. True) st (demo_part ''/dev/a'' 0 128) 128 MAX_PARTS"
proof (rule demo_gpt)
  fix st assume d: "gpt_disk st ''/dev/a'' 128 (gen_guid 5) (zeros 16384)"
  from d obtain G sz where h: "holds st ''/dev/a'' G sz" "128 = sz div LSEC" by (auto simp: gpt_disk_def)
  have "65536 \<le> unat sz" using total_sectors [OF h(2)] by simp
  with holds_pwrite [OF h(1), of "1024 + of_nat 77" "[1]"] obtain st' where
    w: "diskio_pwrite st ''/dev/a'' (1024 + of_nat 77) [1] = (st', True)" by auto
  have "1 \<noteq> zeros 16384 ! 77" by simp
  from gpt_scan_survives_damage [OF d demo_whole _ _ this w, of "\<lambda>n. True"] w show ?thesis by auto
qed

theorem empty_gpt_reported_unreadable_witness:
  "\<exists>st g. disk_scan_partitions (\<lambda>n. True) st [demo_part ''/dev/a'' 0 128] ''/dev/a'' = Some (g, -1)"
proof (rule demo_gpt)
  fix st assume d: "gpt_disk st ''/dev/a'' 128 (gen_guid 5) (zeros 16384)"
  have f: "find_by_name [demo_part ''/dev/a'' 0 128] ''/dev/a'' = Some 0" by (simp add: find_by_name_def demo_part_def)
  have "\<not> is_child_of ''/dev/a'' ''/dev/a''" by code_simp
  then have "fst (vblk_remove_children [demo_part ''/dev/a'' 0 128] ''/dev/a'') ! 0 = demo_part ''/dev/a'' 0 128"
    by (simp add: vblk_remove_children_def demo_part_def)
  with empty_gpt_reported_unreadable [OF d _ f, of "\<lambda>n. True"] demo_whole show ?thesis by auto
qed

text \<open>The header that \<^verbatim>\<open>gpt init\<close> wrote is one for the soundness of the validation.\<close>

theorem gpt_validate_at_sound_witness:
  "\<exists>st h. gpt_validate_at (\<lambda>n. True) st (demo_part ''/dev/a'' 0 128) 128 1 = Some h \<and>
     unat (entries_lba h) * 512 + entries_bytes h \<le> unat (128 :: u64) * 512"
proof (rule demo_gpt)
  fix st assume d: "gpt_disk st ''/dev/a'' 128 (gen_guid 5) (zeros 16384)"
  note s = gpt_disk_scan [OF d demo_whole, where mem = "\<lambda>n. True"]
  have "block_bytes (demo_part ''/dev/a'' 0 128) \<in> {0, 512}" by (simp add: demo_part_def)
  from gpt_validate_at_sound [OF s(1) s(5) this] s(1) show ?thesis by auto
qed

end
