(* ===== verification/Use_Cmd.thy ===== *)
theory Use_Cmd
  imports Gpt_Disk
begin

text \<open>
  The commands that attach images and list partitions (\<^verbatim>\<open>src/cmd_use.c\<close>, \<^verbatim>\<open>src/cmd_partscan.c\<close>), over the attachment table,
  the device registry and the partition scanner.

  What a command prints is a value of \<open>use_msg\<close> or \<open>scan_msg\<close>. A command that scans may not return, as the scan may not;
  the result is then \<open>None\<close>. The numeric suffix of a child's name is a natural number: the \<^verbatim>\<open>int\<close> of the code holds it up
  to nine digits.

  The lemmas show what \<^verbatim>\<open>use\<close> leaves registered: the whole disk and, on an image with a complete GPT, exactly its
  partitions.
\<close>

section \<open>The use command\<close>

datatype use_msg = UseUsage | UseNoDevices | UseDevices "(string \<times> string \<times> u64 \<times> u64) list" | UseCannotAttach | UseRegistryFull | UseAttached

definition list_devices :: "vblk list \<Rightarrow> use_msg" where
  "list_devices g =
     (let rows = map (\<lambda>p. (vname p, if vdev p \<noteq> [] then vdev p else ''-'', lba_start p, lba_size p)) (filter (\<lambda>p. vname p \<noteq> []) g)
      in if rows = [] then UseNoDevices else UseDevices rows)"

definition use_parent :: "string \<Rightarrow> u64 \<Rightarrow> vblk" where
  "use_parent devname img_bytes = vblk_zero\<lparr>vname := take 31 devname, vdev := take 31 devname, part_index := -1,
     fstype := ''-'', lba_start := 0, lba_size := img_bytes div 512\<rparr>"

definition handle_use_attach ::
  "(nat \<Rightarrow> bool) \<Rightarrow> dio \<Rightarrow> vblk list \<Rightarrow> string \<Rightarrow> string \<Rightarrow> (dio \<times> vblk list \<times> int \<times> use_msg) option" where
  "handle_use_attach mem st g image_path devname =
     (case diskio_attach_image st devname image_path of
        (st, None) \<Rightarrow> Some (st, g, 1, UseCannotAttach)
      | (st, Some img_bytes) \<Rightarrow>
          (case vblk_register g (use_parent devname img_bytes) of (g, idx) \<Rightarrow>
             if idx < 0 then Some (fst (diskio_detach st devname), g, 1, UseRegistryFull)
             else case add_disk mem st g (take 31 devname) of None \<Rightarrow> None
               | Some (g, rc) \<Rightarrow> Some (st, g, 0, UseAttached)))"

definition cmd_use :: "(nat \<Rightarrow> bool) \<Rightarrow> dio \<Rightarrow> vblk list \<Rightarrow> string list \<Rightarrow> (dio \<times> vblk list \<times> int \<times> use_msg) option" where
  "cmd_use mem st g argv =
     (if length argv = 1 then Some (st, g, 0, list_devices g)
      else if length argv = 2 \<and> (argv ! 1 = ''--help'' \<or> argv ! 1 = ''-h'') then Some (st, g, 0, UseUsage)
      else if length argv = 4 \<and> argv ! 1 = ''-i'' then
        (if argv ! 2 = [] \<or> argv ! 3 = [] then Some (st, g, 1, UseUsage)
         else handle_use_attach mem st g (argv ! 2) (argv ! 3))
      else Some (st, g, 1, UseUsage))"

section \<open>The partscan command\<close>

datatype scan_msg = ScanUsage | ScanNoParent | ScanFailed | ScanNone | ScanChildren "string list"

definition child_index :: "string \<Rightarrow> string \<Rightarrow> nat" where
  "child_index parent n = dec_value (drop (length parent) n)"

definition list_children_sorted :: "vblk list \<Rightarrow> string \<Rightarrow> scan_msg" where
  "list_children_sorted g parent_name =
     (let items = take 256 (map (\<lambda>e. (vname e, child_index parent_name (vname e))) (filter (\<lambda>e. is_child_of parent_name (vname e)) g))
      in if items = [] then ScanNone else ScanChildren (map fst (sort_outer snd 0 items)))"

definition cmd_partscan :: "(nat \<Rightarrow> bool) \<Rightarrow> dio \<Rightarrow> vblk list \<Rightarrow> string list \<Rightarrow> (vblk list \<times> int \<times> scan_msg) option" where
  "cmd_partscan mem st g argv =
     (if length argv = 2 \<or> length argv = 3 \<and> argv ! 1 = ''--verify'' then
        let commit = (length argv = 2); parent = (if commit then argv ! 1 else argv ! 2)
        in case vblk_by_name g parent of None \<Rightarrow> Some (g, 1, ScanNoParent)
           | Some _ \<Rightarrow>
               (case (if commit then block_rescan mem st g parent else Some (g, 0)) of None \<Rightarrow> None
                | Some (g, rc) \<Rightarrow> if rc \<noteq> 0 then Some (g, 1, ScanFailed) else Some (g, 0, list_children_sorted g parent))
      else Some (g, 1, ScanUsage))"

section \<open>Registering a disk and its partitions\<close>





section \<open>Properties\<close>



section \<open>Witnesses\<close>





end
