(* ===== verification/Deb_Version.thy ===== *)
theory Deb_Version
  imports Cstring
begin

text \<open>
  Debian version ordering (\<^verbatim>\<open>src/deb_version.c\<close>): the comparison of one version part, of whole versions
  \<^verbatim>\<open>epoch:upstream-revision\<close>, and the relational operators of dependencies.

  The pointers into the two texts are the texts that are left. The walk over two texts at once is shown to be the
  comparison of one key of each (\<open>verkey\<close>), so that the laws of an order follow; they are stated as the locale
  \<open>three_way\<close>, interpreted for version parts and for whole versions.
\<close>

section \<open>The comparison of a version part\<close>

definition isalnum :: "char \<Rightarrow> bool" where
  "isalnum c \<longleftrightarrow> isalpha c \<or> isdigit c"

text \<open>\<^verbatim>\<open>*s\<close>\<close>

definition cur :: "string \<Rightarrow> char" where
  "cur s = (case s of [] \<Rightarrow> CHR 0x00 | c # _ \<Rightarrow> c)"

definition order_char :: "char \<Rightarrow> int" where
  "order_char c =
     (if c = CHR 0x00 then 0
      else if c = CHR ''~'' then -1
      else if isalnum c then int (of_char c)
      else int (of_char c) + 256)"

definition at_nondigit :: "string \<Rightarrow> bool" where
  "at_nondigit s \<longleftrightarrow> s \<noteq> [] \<and> \<not> isdigit (cur s)"

function ver_alpha :: "string \<Rightarrow> string \<Rightarrow> int + (string \<times> string)" where
  "ver_alpha a b =
     (if at_nondigit a \<or> at_nondigit b then
        let oa = order_char (cur a); ob = order_char (cur b)
        in if oa \<noteq> ob then Inl (if oa < ob then -1 else 1) else ver_alpha (tl a) (tl b)
      else Inr (a, b))"
  by pat_completeness auto
termination
  by (relation "measure (\<lambda>(a, b). length a + length b)") (auto simp: at_nondigit_def neq_Nil_conv)

declare ver_alpha.simps [simp del]

text \<open>\<^verbatim>\<open>strncmp\<close> on two texts of the same length\<close>

fun strncmp_same :: "string \<Rightarrow> string \<Rightarrow> int" where
  "strncmp_same (x # a) (y # b) = (if x = y then strncmp_same a b else int (of_char x) - int (of_char y))"
| "strncmp_same _ _ = 0"

lemma ver_alpha_Inr:
  "ver_alpha a b = Inr (a', b') \<Longrightarrow>
   length a' \<le> length a \<and> length b' \<le> length b \<and> \<not> at_nondigit a' \<and> \<not> at_nondigit b'"
proof (induction a b rule: ver_alpha.induct)
  case (1 a b)
  show ?case
  proof (cases "at_nondigit a \<or> at_nondigit b")
    case True
    with "1.prems" have "ver_alpha (tl a) (tl b) = Inr (a', b')" "order_char (cur a) = order_char (cur b)"
      by (simp_all add: ver_alpha.simps [of a b] Let_def split: if_splits)
    from "1.IH" [OF True refl refl _ this(1)] this(2) show ?thesis by auto
  next
    case False
    with "1.prems" show ?thesis by (simp add: ver_alpha.simps [of a b])
  qed
qed

lemma drop_digits_shorter: "\<not> at_nondigit a \<Longrightarrow> a \<noteq> [] \<Longrightarrow> length (dropWhile isdigit a) < length a"
  by (cases a) (auto simp: at_nondigit_def cur_def less_Suc_eq_le length_dropWhile_le)

lemma drop_zeros_digits: "dropWhile isdigit (dropWhile (\<lambda>c. c = CHR ''0'') a) = dropWhile isdigit a"
  by (induction a) (auto simp: isdigit_def)

lemma verrevcmp_shorter:
  assumes "a \<noteq> [] \<or> b \<noteq> []" and "ver_alpha a b = Inr (a1, b1)"
  shows "length (dropWhile isdigit (dropWhile (\<lambda>c. c = CHR ''0'') a1)) +
    length (dropWhile isdigit (dropWhile (\<lambda>c. c = CHR ''0'') b1)) < length a + length b"
proof -
  have "length (dropWhile isdigit a1) \<le> length a1" "length (dropWhile isdigit b1) \<le> length b1"
    by (simp_all add: length_dropWhile_le)
  with ver_alpha_Inr [OF assms(2)] drop_digits_shorter [of a1] drop_digits_shorter [of b1] assms(1) show ?thesis
    unfolding drop_zeros_digits by (cases "a1 = []"; cases "b1 = []") auto
qed

function verrevcmp :: "string \<Rightarrow> string \<Rightarrow> int" where
  "verrevcmp a b =
     (if a \<noteq> [] \<or> b \<noteq> [] then
        case ver_alpha a b of
          Inl r \<Rightarrow> r
        | Inr (a, b) \<Rightarrow>
            let a = dropWhile (\<lambda>c. c = CHR ''0'') a; b = dropWhile (\<lambda>c. c = CHR ''0'') b;
                da = takeWhile isdigit a; db = takeWhile isdigit b
            in if length da \<noteq> length db then (if length da < length db then -1 else 1)
               else if da \<noteq> [] \<and> strncmp_same da db \<noteq> 0 then (if strncmp_same da db < 0 then -1 else 1)
               else verrevcmp (dropWhile isdigit a) (dropWhile isdigit b)
      else 0)"
  by pat_completeness auto
termination
  by (relation "measure (\<lambda>(a, b). length a + length b)") (auto simp: verrevcmp_shorter)

declare verrevcmp.simps [simp del]

section \<open>Whole versions\<close>

definition parse_epoch :: "string \<Rightarrow> u64 \<times> string" where
  "parse_epoch s =
     (let ds = takeWhile (\<lambda>c. c \<noteq> CHR '':'') s; r = dropWhile (\<lambda>c. c \<noteq> CHR '':'') s
      in if r = [] then (0, s)
         else if \<exists>c \<in> set ds. \<not> isdigit c then (0, s)
         else (of_nat (min (dec_value ds) (2 ^ 64 - 1)), tl r))"

definition split_dash :: "string \<Rightarrow> string \<times> string" where
  "split_dash s =
     (case split_last (\<lambda>c. c = CHR ''-'') s of
        Some (a, b) \<Rightarrow> (take 255 (butlast a), b)
      | None \<Rightarrow> (take 255 s, ''0''))"

definition deb_version_compare :: "string \<Rightarrow> string \<Rightarrow> int" where
  "deb_version_compare a b =
     (let (ae, ar) = parse_epoch a; (be, br) = parse_epoch b
      in if ae \<noteq> be then (if ae < be then -1 else 1)
         else
           let (au, ad) = split_dash ar; (bu, bd) = split_dash br;
               c = verrevcmp au bu
           in if c \<noteq> 0 then c else verrevcmp ad bd)"

definition deb_version_satisfies :: "string \<Rightarrow> string \<Rightarrow> string \<Rightarrow> bool" where
  "deb_version_satisfies have_v vop want =
     (if vop = [] \<or> want = [] then True
      else
        let c = deb_version_compare have_v want
        in if vop = ''='' then c = 0
           else if vop = ''>='' \<or> vop = ''>>='' then c \<ge> 0
           else if vop = ''<='' \<or> vop = ''<<='' then c \<le> 0
           else if vop = ''>>'' then c > 0
           else if vop = ''<<'' then c < 0
           else False)"

section \<open>Keys\<close>

text \<open>The key of a version part: for each character outside a number its order, a zero where a number starts or the
  text ends, and the value of the number. Keys compare lexicographically, as if followed by zeroes for ever.\<close>

function verkey :: "string \<Rightarrow> int list" where
  "verkey s =
     (if s = [] then []
      else let r = dropWhile (\<lambda>c. \<not> isdigit c) s
           in map order_char (takeWhile (\<lambda>c. \<not> isdigit c) s) @
              [0, int (dec_value (takeWhile isdigit r))] @ verkey (dropWhile isdigit r))"
  by pat_completeness auto
termination
proof (relation "measure length", goal_cases)
  case (2 s r)
  have l: "length r \<le> length s" "length (dropWhile isdigit r) \<le> length r" by (simp_all add: 2 length_dropWhile_le)
  show ?case
  proof (cases s)
    case (Cons c t)
    show ?thesis
    proof (cases "isdigit c")
      case True
      with Cons 2(2) show ?thesis by (simp add: less_Suc_eq_le length_dropWhile_le)
    next
      case False
      with Cons 2(2) have "length r \<le> length t" by (simp add: length_dropWhile_le)
      with Cons l show ?thesis by simp
    qed
  qed (use 2 in simp)
qed simp

declare verkey.simps [simp del]

fun pcmp :: "int list \<Rightarrow> int list \<Rightarrow> int" where
  "pcmp [] [] = 0"
| "pcmp [] (y # ys) = (if 0 < y then -1 else if y < 0 then 1 else pcmp [] ys)"
| "pcmp (x # xs) [] = (if x < 0 then -1 else if 0 < x then 1 else pcmp xs [])"
| "pcmp (x # xs) (y # ys) = (if x < y then -1 else if y < x then 1 else pcmp xs ys)"


lemma pcmp_pad [simp]: "pcmp (0 # xs) [] = pcmp xs []" "pcmp [] (0 # ys) = pcmp [] ys"
  by simp_all

lemma pcmp_zeros: "pcmp [0, 0] ys = pcmp [] ys" "pcmp xs [0, 0] = pcmp xs []"
proof -
  show "pcmp [0, 0] ys = pcmp [] ys" by (cases ys; cases "tl ys") auto
  show "pcmp xs [0, 0] = pcmp xs []" by (cases xs; cases "tl xs") auto
qed

definition block_key :: "string \<Rightarrow> int list" where
  "block_key s =
     (let r = dropWhile (\<lambda>c. \<not> isdigit c) s
      in map order_char (takeWhile (\<lambda>c. \<not> isdigit c) s) @
         0 # int (dec_value (takeWhile isdigit r)) # verkey (dropWhile isdigit r))"

lemma pcmp_block_key:
  "pcmp (verkey a) (verkey b) = pcmp (block_key a) (block_key b)"
proof -
  have k: "verkey s = (if s = [] then [] else block_key s)" for s
    by (simp add: verkey.simps [of s] block_key_def Let_def)
  have "block_key [] = [0, 0]" by (simp add: block_key_def dec_value_def verkey.simps [of "[]"])
  then show ?thesis by (simp add: k pcmp_zeros)
qed

lemma order_char_nondigit: "c \<noteq> CHR 0x00 \<Longrightarrow> \<not> isdigit c \<Longrightarrow> order_char c = -1 \<or> 65 \<le> order_char c"
  by (auto simp: order_char_def isalnum_def isalpha_def)

lemma order_char_digit: "isdigit c \<Longrightarrow> 48 \<le> order_char c \<and> order_char c \<le> 57"
  by (auto simp: order_char_def isalnum_def isdigit_def)

lemma order_char_NUL [simp]: "order_char (CHR 0x00) = 0"
  by (simp add: order_char_def)

text \<open>A text at whose head no character is to be compared: its order is that of the zero in its key.\<close>

lemma order_head:
  assumes "CHR 0x00 \<notin> set b" and "\<not> at_nondigit b" and "at_nondigit a" and "CHR 0x00 \<notin> set a"
  shows "order_char (cur a) \<noteq> order_char (cur b)" and "order_char (cur a) < order_char (cur b) \<longleftrightarrow> order_char (cur a) < 0"
    and "order_char (cur a) \<noteq> 0"
proof -
  have a: "order_char (cur a) = -1 \<or> 65 \<le> order_char (cur a)"
    using assms(3,4) order_char_nondigit [of "cur a"] by (cases a) (auto simp: at_nondigit_def cur_def)
  have b: "0 \<le> order_char (cur b) \<and> order_char (cur b) \<le> 57"
    using assms(2) order_char_digit [of "cur b"] by (cases b) (auto simp: at_nondigit_def cur_def)
  show "order_char (cur a) \<noteq> order_char (cur b)" "order_char (cur a) < order_char (cur b) \<longleftrightarrow> order_char (cur a) < 0"
    "order_char (cur a) \<noteq> 0" using a b by auto
qed

lemma nondigit_parts:
  "at_nondigit a \<Longrightarrow> takeWhile (\<lambda>c. \<not> isdigit c) a = cur a # takeWhile (\<lambda>c. \<not> isdigit c) (tl a) \<and>
     dropWhile (\<lambda>c. \<not> isdigit c) a = dropWhile (\<lambda>c. \<not> isdigit c) (tl a)"
  "\<not> at_nondigit a \<Longrightarrow> takeWhile (\<lambda>c. \<not> isdigit c) a = [] \<and> dropWhile (\<lambda>c. \<not> isdigit c) a = a"
  by (cases a; simp add: at_nondigit_def cur_def)+

lemma ver_alpha_key:
  assumes "CHR 0x00 \<notin> set a" and "CHR 0x00 \<notin> set b"
  shows "pcmp (map order_char (takeWhile (\<lambda>c. \<not> isdigit c) a) @ 0 # xs)
      (map order_char (takeWhile (\<lambda>c. \<not> isdigit c) b) @ 0 # ys) =
    (case ver_alpha a b of Inl r \<Rightarrow> r | Inr _ \<Rightarrow> pcmp xs ys)"
    and "ver_alpha a b = Inr (a', b') \<Longrightarrow> a' = dropWhile (\<lambda>c. \<not> isdigit c) a \<and> b' = dropWhile (\<lambda>c. \<not> isdigit c) b"
    and "ver_alpha a b = Inl r \<Longrightarrow> r \<noteq> 0"
proof (atomize (full), use assms in \<open>induction a b rule: ver_alpha.induct\<close>)
  case (1 a b)
  show ?case
  proof (cases "at_nondigit a \<or> at_nondigit b")
    case False
    then show ?thesis by (auto simp: ver_alpha.simps [of a b] nondigit_parts)
  next
    case True
    show ?thesis
    proof (cases "order_char (cur a) = order_char (cur b)")
      case False
      then have e: "ver_alpha a b = Inl (if order_char (cur a) < order_char (cur b) then -1 else 1)"
        using True by (simp add: ver_alpha.simps [of a b])
      show ?thesis unfolding e using False True order_head [of b a] order_head [of a b] "1.prems"
        by (cases "at_nondigit a"; cases "at_nondigit b") (auto simp: nondigit_parts)
    next
      case eq: True
      then have e: "ver_alpha a b = ver_alpha (tl a) (tl b)" using True by (simp add: ver_alpha.simps [of a b])
      have both: "at_nondigit a" "at_nondigit b" using True eq order_head(1) [of b a] order_head(1) [of a b] "1.prems" by auto
      have "CHR 0x00 \<notin> set (tl a)" "CHR 0x00 \<notin> set (tl b)" using "1.prems" by (cases a, simp_all) (cases b, simp_all)
      from "1.IH" [OF True refl refl _ this] eq show ?thesis unfolding e by (simp add: nondigit_parts both)
    qed
  qed
qed

section \<open>Numbers\<close>

lemma dec_value_Cons: "dec_value (c # s) = (of_char c - 48) * 10 ^ length s + dec_value s"
proof -
  have "foldl (\<lambda>v c. v * 10 + (of_char c - 48)) n s = n * 10 ^ length s + foldl (\<lambda>v c. v * 10 + (of_char c - 48)) 0 s" for n :: nat
  proof (induction s arbitrary: n)
    case (Cons c s)
    show ?case using Cons.IH [of "n * 10 + (of_char c - 48)"] Cons.IH [of "of_char c - 48"] by (simp add: algebra_simps)
  qed simp
  from this [of "of_char c - 48"] show ?thesis by (simp add: dec_value_def)
qed

lemma dec_value_less: "\<forall>c \<in> set s. isdigit c \<Longrightarrow> dec_value s < 10 ^ length s"
proof (induction s)
  case (Cons c s)
  then have "(of_char c :: nat) - 48 \<le> 9" "dec_value s < 10 ^ length s" by (auto simp: isdigit_def)
  then have "(of_char c - 48) * 10 ^ length s + dec_value s < 9 * 10 ^ length s + 10 ^ length s"
    by (intro add_le_less_mono mult_le_mono1) auto
  then show ?case by (simp add: dec_value_Cons)
qed (simp add: dec_value_def)

lemma dec_value_zeros: "dec_value (dropWhile (\<lambda>c. c = CHR ''0'') s) = dec_value s"
  by (induction s) (auto simp: dec_value_Cons)

lemma dec_value_ge:
  assumes "\<forall>c \<in> set s. isdigit c" and "s \<noteq> []" and "hd s \<noteq> CHR ''0''"
  shows "10 ^ (length s - 1) \<le> dec_value s"
proof -
  obtain c t where s: "s = c # t" using assms(2) by (cases s) auto
  have "(of_char c :: nat) \<noteq> 48"
  proof
    assume "(of_char c :: nat) = 48"
    then have "(of_char c :: nat) = of_char (CHR ''0'')" by simp
    then have "c = CHR ''0''" by (simp only: of_char_eq_iff)
    with assms(3) s show False by simp
  qed
  then have "1 \<le> (of_char c :: nat) - 48" using assms(1) s by (auto simp: isdigit_def)
  then have "1 * 10 ^ length t \<le> ((of_char c :: nat) - 48) * 10 ^ length t" by (rule mult_le_mono1)
  from trans_le_add1 [OF this, of "dec_value t"] show ?thesis by (simp add: s dec_value_Cons)
qed

lemma strncmp_same_value:
  assumes "length a = length b" and "\<forall>c \<in> set a. isdigit c" and "\<forall>c \<in> set b. isdigit c"
  shows "sgn (strncmp_same a b) = sgn (int (dec_value a) - int (dec_value b))"
  using assms
proof (induction a b rule: list_induct2)
  case (Cons x a y b)
  show ?case
  proof (cases "x = y")
    case True
    with Cons show ?thesis by (simp add: dec_value_Cons)
  next
    case False
    have v: "dec_value a < 10 ^ length b" "dec_value b < 10 ^ length b"
      using dec_value_less [of a] dec_value_less [of b] Cons by simp_all
    have d: "48 \<le> (of_char x :: nat)" "48 \<le> (of_char y :: nat)" using Cons.prems by (auto simp: isdigit_def)
    have ne: "(of_char x :: nat) \<noteq> of_char y" using False by simp
    consider "(of_char x :: nat) < of_char y" | "(of_char y :: nat) < of_char x" using ne by linarith
    then show ?thesis
    proof cases
      case 1
      with d have "(of_char x - 48) + 1 \<le> (of_char y :: nat) - 48" by linarith
      then have "((of_char x - 48) + 1) * 10 ^ length b \<le> ((of_char y :: nat) - 48) * 10 ^ length b" by (rule mult_le_mono1)
      with v have "dec_value (x # a) < dec_value (y # b)" using Cons.hyps by (simp add: dec_value_Cons algebra_simps)
      with 1 False show ?thesis by simp
    next
      case 2
      with d have "(of_char y - 48) + 1 \<le> (of_char x :: nat) - 48" by linarith
      then have "((of_char y - 48) + 1) * 10 ^ length b \<le> ((of_char x :: nat) - 48) * 10 ^ length b" by (rule mult_le_mono1)
      with v have "dec_value (y # b) < dec_value (x # a)" using Cons.hyps by (simp add: dec_value_Cons algebra_simps)
      with 2 False show ?thesis by simp
    qed
  qed
qed simp


lemma takeWhile_digits_zeros:
  "takeWhile isdigit (dropWhile (\<lambda>c. c = CHR ''0'') s) = dropWhile (\<lambda>c. c = CHR ''0'') (takeWhile isdigit s)"
  by (induction s) (auto simp: isdigit_def)

text \<open>Numbers without leading zeroes compare by their lengths first.\<close>

lemma number_longer:
  assumes "\<forall>c \<in> set a. isdigit c" and "\<forall>c \<in> set b. isdigit c" and "b \<noteq> [] \<longrightarrow> hd b \<noteq> CHR ''0''" and "length a < length b"
  shows "dec_value a < dec_value b"
proof -
  have "b \<noteq> []" using assms(4) by auto
  with assms have "10 ^ (length b - 1) \<le> dec_value b" by (intro dec_value_ge) auto
  moreover have "(10 :: nat) ^ length a \<le> 10 ^ (length b - 1)" using assms(4) by (intro power_increasing) auto
  ultimately show ?thesis using dec_value_less [OF assms(1)] by linarith
qed

lemma number_cmp:
  fixes a b :: string
  defines "da \<equiv> takeWhile isdigit (dropWhile (\<lambda>c. c = CHR ''0'') a)" and "db \<equiv> takeWhile isdigit (dropWhile (\<lambda>c. c = CHR ''0'') b)"
  shows "pcmp (int (dec_value (takeWhile isdigit a)) # xs) (int (dec_value (takeWhile isdigit b)) # ys) =
    (if length da \<noteq> length db then (if length da < length db then -1 else 1)
     else if da \<noteq> [] \<and> strncmp_same da db \<noteq> 0 then (if strncmp_same da db < 0 then -1 else 1)
     else pcmp xs ys)"
proof -
  have v: "dec_value (takeWhile isdigit a) = dec_value da" "dec_value (takeWhile isdigit b) = dec_value db"
    by (simp_all add: da_def db_def takeWhile_digits_zeros dec_value_zeros)
  have d: "\<forall>c \<in> set da. isdigit c" "\<forall>c \<in> set db. isdigit c" by (auto simp: da_def db_def dest: set_takeWhileD)
  have h: "s \<noteq> [] \<longrightarrow> hd s \<noteq> CHR ''0''" if "s = dropWhile (\<lambda>c. c = CHR ''0'') t" for s t :: string
    using that hd_dropWhile [of "\<lambda>c. c = CHR ''0''" t] by auto
  have hz: "da \<noteq> [] \<longrightarrow> hd da \<noteq> CHR ''0''" "db \<noteq> [] \<longrightarrow> hd db \<noteq> CHR ''0''"
    by (rule h, simp add: da_def db_def takeWhile_digits_zeros)+
  show ?thesis
  proof (cases "length da = length db")
    case True
    have s: "sgn (strncmp_same da db) = sgn (int (dec_value da) - int (dec_value db))" by (rule strncmp_same_value [OF True d])
    have e: "da = [] \<Longrightarrow> strncmp_same da db = 0" by simp
    show ?thesis using True s e unfolding v by (auto simp: sgn_if split: if_splits)
  next
    case False
    then consider "length da < length db" | "length db < length da" by linarith
    then show ?thesis
      by cases (use number_longer [OF d hz(2)] number_longer [OF d(2,1) hz(1)] False in \<open>auto simp: v\<close>)
  qed
qed

section \<open>The walk compares keys\<close>

definition cstrings :: "string set" where
  "cstrings = {s. CHR 0x00 \<notin> set s}"

lemma verrevcmp_key: "CHR 0x00 \<notin> set a \<Longrightarrow> CHR 0x00 \<notin> set b \<Longrightarrow> verrevcmp a b = pcmp (verkey a) (verkey b)"
proof (induction a b rule: verrevcmp.induct)
  case (1 a b)
  let ?z = "dropWhile (\<lambda>c. c = CHR ''0'')" and ?d = "dropWhile (\<lambda>c. \<not> isdigit c)"
  show ?case
  proof (cases "a = [] \<and> b = []")
    case True
    then show ?thesis by (simp add: verrevcmp.simps [of "[]" "[]"] verkey.simps [of "[]"])
  next
    case False
    have k: "pcmp (verkey a) (verkey b) = (case ver_alpha a b of Inl r \<Rightarrow> r | Inr _ \<Rightarrow>
        pcmp (int (dec_value (takeWhile isdigit (?d a))) # verkey (dropWhile isdigit (?d a)))
          (int (dec_value (takeWhile isdigit (?d b))) # verkey (dropWhile isdigit (?d b))))"
      unfolding pcmp_block_key by (simp add: block_key_def Let_def ver_alpha_key(1) [OF "1.prems"])
    show ?thesis
    proof (cases "ver_alpha a b")
      case (Inl r)
      with False k show ?thesis by (simp add: verrevcmp.simps [of a b])
    next
      case (Inr p)
      obtain a' b' where p: "p = (a', b')" by force
      with ver_alpha_key(2) [OF "1.prems"] Inr have e: "a' = ?d a" "b' = ?d b" by auto
      have n: "CHR 0x00 \<notin> set (dropWhile isdigit (?z a'))" "CHR 0x00 \<notin> set (dropWhile isdigit (?z b'))"
        using "1.prems" e by (auto dest!: set_dropWhileD)
      note IH = "1.IH" [OF _ Inr p [symmetric] refl refl refl refl _ _ n]
      have f: "a \<noteq> [] \<or> b \<noteq> []" using False by blast
      show ?thesis
        unfolding verrevcmp.simps [of a b] k Inr p sum.case prod.case e [symmetric] number_cmp Let_def using f IH
        by (simp add: drop_zeros_digits)
    qed
  qed
qed


section \<open>Three-way comparisons\<close>

locale three_way =
  fixes carrier :: "'a set" and cmp :: "'a \<Rightarrow> 'a \<Rightarrow> int"
  assumes cmp_range: "a \<in> carrier \<Longrightarrow> b \<in> carrier \<Longrightarrow> cmp a b \<in> {-1, 0, 1}"
    and cmp_anti: "a \<in> carrier \<Longrightarrow> b \<in> carrier \<Longrightarrow> cmp b a = - cmp a b"
    and cmp_trans: "a \<in> carrier \<Longrightarrow> b \<in> carrier \<Longrightarrow> c \<in> carrier \<Longrightarrow> cmp a b \<le> 0 \<Longrightarrow> cmp b c \<le> 0 \<Longrightarrow> cmp a c \<le> 0"
begin

lemma cmp_refl: "a \<in> carrier \<Longrightarrow> cmp a a = 0"
  using cmp_anti [of a a] by simp

lemma cmp_equal_left:
  assumes "a \<in> carrier" and "b \<in> carrier" and "c \<in> carrier" and "cmp a b = 0"
  shows "cmp a c = cmp b c"
proof -
  have "cmp x z \<le> 0 \<longleftrightarrow> cmp y z \<le> 0" if "x \<in> carrier" "y \<in> carrier" "z \<in> carrier" "cmp x y = 0" for x y z
    using cmp_trans [OF that(2,1,3)] cmp_trans [OF that(1-3)] cmp_anti [OF that(1,2)] that(4) by auto
  moreover have "cmp z x \<le> 0 \<longleftrightarrow> cmp z y \<le> 0" if "x \<in> carrier" "y \<in> carrier" "z \<in> carrier" "cmp x y = 0" for x y z
    using cmp_trans [OF that(3,2,1)] cmp_trans [OF that(3,1,2)] cmp_anti [OF that(1,2)] that(4) by auto
  ultimately have "cmp a c \<le> 0 \<longleftrightarrow> cmp b c \<le> 0" "cmp c a \<le> 0 \<longleftrightarrow> cmp c b \<le> 0" using assms by blast+
  with cmp_anti [OF assms(1,3)] cmp_anti [OF assms(2,3)] cmp_range [OF assms(1,3)] cmp_range [OF assms(2,3)] show ?thesis by auto
qed

lemma cmp_less_trans:
  assumes "a \<in> carrier" and "b \<in> carrier" and "c \<in> carrier" and "cmp a b < 0" and "cmp b c \<le> 0"
  shows "cmp a c < 0"
proof (rule ccontr)
  assume "\<not> cmp a c < 0"
  then have "cmp c a \<le> 0" using cmp_anti [OF assms(1,3)] by simp
  from cmp_trans [OF assms(2,3,1,5) this] cmp_anti [OF assms(1,2)] assms(4) show False by simp
qed

end

text \<open>A comparison of keys is one, and so is the comparison by one key first and another where that one is equal.\<close>

definition then_cmp :: "('a \<Rightarrow> 'a \<Rightarrow> int) \<Rightarrow> ('a \<Rightarrow> 'a \<Rightarrow> int) \<Rightarrow> 'a \<Rightarrow> 'a \<Rightarrow> int" where
  "then_cmp f g a b = (if f a b \<noteq> 0 then f a b else g a b)"

locale two_way = f: three_way carrier f + g: three_way carrier g
  for carrier :: "'a set" and f g :: "'a \<Rightarrow> 'a \<Rightarrow> int"

sublocale two_way \<subseteq> three_way carrier "then_cmp f g"
proof
  fix a b assume ab: "a \<in> carrier" "b \<in> carrier"
  show "then_cmp f g a b \<in> {-1, 0, 1}" using f.cmp_range [OF ab] g.cmp_range [OF ab] by (auto simp: then_cmp_def)
  show "then_cmp f g b a = - then_cmp f g a b" using f.cmp_anti [OF ab] g.cmp_anti [OF ab] by (simp add: then_cmp_def)
next
  fix a b c assume c: "a \<in> carrier" "b \<in> carrier" "c \<in> carrier"
    and t: "then_cmp f g a b \<le> 0" "then_cmp f g b c \<le> 0"
  have "f a b \<le> 0" "f b c \<le> 0" using t by (auto simp: then_cmp_def split: if_splits)
  then have fac: "f a c \<le> 0" using f.cmp_trans c by blast
  show "then_cmp f g a c \<le> 0"
  proof (cases "f a c = 0")
    case True
    have "f a b = 0"
    proof (rule ccontr)
      assume "f a b \<noteq> 0"
      with \<open>f a b \<le> 0\<close> \<open>f b c \<le> 0\<close> f.cmp_less_trans [OF c] True show False by simp
    qed
    moreover have "f b c = 0" using f.cmp_equal_left [OF c] calculation True by simp
    ultimately show ?thesis using t True g.cmp_trans [OF c] by (simp add: then_cmp_def)
  qed (use fac in \<open>simp add: then_cmp_def\<close>)
qed

lemma pcmp_range: "pcmp xs ys \<in> {-1, 0, 1}"
  by (induction xs ys rule: pcmp.induct) auto

lemma pcmp_anti: "pcmp ys xs = - pcmp xs ys"
  by (induction xs ys rule: pcmp.induct) auto

definition head0 :: "int list \<Rightarrow> int" where
  "head0 xs = (case xs of [] \<Rightarrow> 0 | x # _ \<Rightarrow> x)"

lemma pcmp_step:
  "pcmp xs ys = (if xs = [] \<and> ys = [] then 0 else if head0 xs < head0 ys then -1
     else if head0 ys < head0 xs then 1 else pcmp (tl xs) (tl ys))"
  by (cases xs; cases ys) (auto simp: head0_def)

lemma pcmp_trans: "pcmp xs ys \<le> 0 \<Longrightarrow> pcmp ys zs \<le> 0 \<Longrightarrow> pcmp xs zs \<le> 0"
proof (induction "length xs + length ys + length zs" arbitrary: xs ys zs rule: less_induct)
  case less
  show ?case
  proof (cases "xs = [] \<and> ys = [] \<or> ys = [] \<and> zs = [] \<or> xs = [] \<and> zs = []")
    case True
    then show ?thesis using less.prems by auto
  next
    case False
    have l: "head0 xs \<le> head0 ys" "head0 ys \<le> head0 zs"
      using less.prems False pcmp_step [of xs ys] pcmp_step [of ys zs] by (auto split: if_splits)
    show ?thesis
    proof (cases "head0 xs < head0 zs")
      case True
      then show ?thesis using False by (simp add: pcmp_step [of xs zs])
    next
      case f: False
      with l have "head0 xs = head0 ys" "head0 ys = head0 zs" by linarith+
      then have "pcmp (tl xs) (tl ys) \<le> 0" "pcmp (tl ys) (tl zs) \<le> 0"
        using less.prems False pcmp_step [of xs ys] pcmp_step [of ys zs] by (auto split: if_splits)
      moreover have "length (tl xs) + length (tl ys) + length (tl zs) < length xs + length ys + length zs"
        using False by (cases xs; cases ys; cases zs) auto
      ultimately have "pcmp (tl xs) (tl zs) \<le> 0" using less.hyps by blast
      then show ?thesis using f l by (simp add: pcmp_step [of xs zs])
    qed
  qed
qed

lemma three_way_key: "three_way UNIV (\<lambda>a b. pcmp (k a) (k b))"
  by unfold_locales (use pcmp_range pcmp_anti pcmp_trans in blast)+


section \<open>Versions as keys\<close>

definition epoch_cmp :: "string \<Rightarrow> string \<Rightarrow> int" where
  "epoch_cmp a b = (let ae = fst (parse_epoch a); be = fst (parse_epoch b) in if ae < be then -1 else if be < ae then 1 else 0)"

definition upstream_of :: "string \<Rightarrow> string" where
  "upstream_of s = fst (split_dash (snd (parse_epoch s)))"

definition revision_of :: "string \<Rightarrow> string" where
  "revision_of s = snd (split_dash (snd (parse_epoch s)))"

text \<open>The order of versions by keys: epoch, upstream version, revision.\<close>

definition key_compare :: "string \<Rightarrow> string \<Rightarrow> int" where
  "key_compare = then_cmp epoch_cmp
     (then_cmp (\<lambda>a b. pcmp (verkey (upstream_of a)) (verkey (upstream_of b)))
               (\<lambda>a b. pcmp (verkey (revision_of a)) (verkey (revision_of b))))"

lemma parse_epoch_no_NUL: "CHR 0x00 \<notin> set s \<Longrightarrow> CHR 0x00 \<notin> set (snd (parse_epoch s))"
  by (auto simp: parse_epoch_def Let_def dest!: list.set_sel(2) [rotated] set_dropWhileD)

lemma split_dash_no_NUL:
  assumes "CHR 0x00 \<notin> set s"
  shows "CHR 0x00 \<notin> set (fst (split_dash s)) \<and> CHR 0x00 \<notin> set (snd (split_dash s))"
proof (cases "split_last (\<lambda>c. c = CHR ''-'') s")
  case None
  with assms show ?thesis by (auto simp: split_dash_def dest: in_set_takeD)
next
  case (Some p)
  obtain a b where p: "p = (a, b)" by force
  from split_last_Some [OF Some [unfolded p]] have "set (butlast a) \<subseteq> set s" "set b \<subseteq> set s" by (auto dest: in_set_butlastD)
  with assms Some p show ?thesis by (auto simp: split_dash_def dest: in_set_takeD)
qed

lemma deb_version_compare_parts:
  "deb_version_compare a b =
     (if fst (parse_epoch a) \<noteq> fst (parse_epoch b) then (if fst (parse_epoch a) < fst (parse_epoch b) then -1 else 1)
      else if verrevcmp (upstream_of a) (upstream_of b) \<noteq> 0 then verrevcmp (upstream_of a) (upstream_of b)
      else verrevcmp (revision_of a) (revision_of b))"
proof -
  obtain ae ar be br where p: "parse_epoch a = (ae, ar)" "parse_epoch b = (be, br)" by fastforce
  obtain au ad bu bd where d: "split_dash ar = (au, ad)" "split_dash br = (bu, bd)" by fastforce
  have "upstream_of a = au" "upstream_of b = bu" "revision_of a = ad" "revision_of b = bd"
    by (simp_all add: upstream_of_def revision_of_def p d)
  then show ?thesis by (simp add: deb_version_compare_def p d Let_def)
qed

lemma version_parts_no_NUL:
  "s \<in> cstrings \<Longrightarrow> CHR 0x00 \<notin> set (upstream_of s) \<and> CHR 0x00 \<notin> set (revision_of s)"
  unfolding cstrings_def upstream_of_def revision_of_def mem_Collect_eq
  by (intro split_dash_no_NUL parse_epoch_no_NUL)

lemma deb_version_compare_key:
  assumes "a \<in> cstrings" and "b \<in> cstrings"
  shows "deb_version_compare a b = key_compare a b"
proof -
  have e: "epoch_cmp a b = (if fst (parse_epoch a) \<noteq> fst (parse_epoch b) then if fst (parse_epoch a) < fst (parse_epoch b) then -1 else 1 else 0)"
    by (auto simp: epoch_cmp_def Let_def)
  have v: "verrevcmp (upstream_of a) (upstream_of b) = pcmp (verkey (upstream_of a)) (verkey (upstream_of b))"
    "verrevcmp (revision_of a) (revision_of b) = pcmp (verkey (revision_of a)) (verkey (revision_of b))"
    using version_parts_no_NUL assms verrevcmp_key by blast+
  show ?thesis unfolding deb_version_compare_parts v key_compare_def then_cmp_def e by simp
qed

interpretation part_key: two_way UNIV "\<lambda>a b. pcmp (verkey (upstream_of a)) (verkey (upstream_of b))"
    "\<lambda>a b. pcmp (verkey (revision_of a)) (verkey (revision_of b))"
  by (intro two_way.intro three_way_key)

interpretation version_key: two_way UNIV epoch_cmp
    "then_cmp (\<lambda>a b. pcmp (verkey (upstream_of a)) (verkey (upstream_of b))) (\<lambda>a b. pcmp (verkey (revision_of a)) (verkey (revision_of b)))"
  by unfold_locales (auto simp: epoch_cmp_def Let_def split: if_splits)

interpretation deb_version: three_way cstrings deb_version_compare
proof
  fix a b :: string
  assume ab: "a \<in> cstrings" "b \<in> cstrings"
  show "deb_version_compare a b \<in> {-1, 0, 1}" "deb_version_compare b a = - deb_version_compare a b"
    unfolding deb_version_compare_key [OF ab] deb_version_compare_key [OF ab(2,1)] key_compare_def
    by (intro version_key.cmp_range version_key.cmp_anti UNIV_I)+
next
  fix a b c :: string
  assume c: "a \<in> cstrings" "b \<in> cstrings" "c \<in> cstrings" and "deb_version_compare a b \<le> 0" "deb_version_compare b c \<le> 0"
  then show "deb_version_compare a c \<le> 0"
    unfolding deb_version_compare_key [OF c(1,2)] deb_version_compare_key [OF c(2,3)] deb_version_compare_key [OF c(1,3)]
      key_compare_def using version_key.cmp_trans UNIV_I by blast
qed

section \<open>Properties\<close>

text \<open>C16. The walk of \<^verbatim>\<open>deb_version_compare\<close> over two versions is the comparison of their keys: the epochs as numbers,
  then the upstream versions, then the revisions, each as the sequence of its characters (a tilde before the end of the
  text, letters before other characters) and of the values of its numbers, whatever their leading zeroes.\<close>

theorem deb_version_compare_is_key_order:
  assumes "CHR 0x00 \<notin> set a" and "CHR 0x00 \<notin> set b"
  shows "deb_version_compare a b = key_compare a b"
  using assms by (intro deb_version_compare_key) (simp_all add: cstrings_def)

text \<open>Version comparison is a total preorder: it is reflexive, swapping the arguments swaps the sign, and it is
  transitive; so the relations of \<^verbatim>\<open>deb_version_satisfies\<close> are those of an order (exactly one of earlier, equal and
  later holds, and at least is the negation of earlier).\<close>

theorem deb_version_order:
  assumes "CHR 0x00 \<notin> set a" and "CHR 0x00 \<notin> set b" and "CHR 0x00 \<notin> set c"
  shows "deb_version_compare a a = 0 \<and> deb_version_compare b a = - deb_version_compare a b \<and>
    (deb_version_compare a b \<le> 0 \<and> deb_version_compare b c \<le> 0 \<longrightarrow> deb_version_compare a c \<le> 0) \<and>
    (b \<noteq> [] \<longrightarrow> (deb_version_satisfies a ''>='' b \<longleftrightarrow> \<not> deb_version_satisfies a ''<<'' b) \<and>
       (deb_version_satisfies a ''='' b \<longleftrightarrow> deb_version_satisfies a ''<='' b \<and> deb_version_satisfies a ''>='' b))"
proof -
  have c: "a \<in> cstrings" "b \<in> cstrings" "c \<in> cstrings" using assms by (simp_all add: cstrings_def)
  show ?thesis using deb_version.cmp_refl [OF c(1)] deb_version.cmp_anti [OF c(1,2)] deb_version.cmp_trans [OF c]
    by (auto simp: deb_version_satisfies_def Let_def)
qed

section \<open>Witnesses\<close>

theorem deb_version_compare_is_key_order_witness:
  "deb_version_compare ''1.0~rc1-2'' ''1.0-1'' = -1 \<and> key_compare ''1.0~rc1-2'' ''1.0-1'' = -1"
proof -
  have "deb_version_compare ''1.0~rc1-2'' ''1.0-1'' = -1" by code_simp
  with deb_version_compare_is_key_order [of "''1.0~rc1-2''" "''1.0-1''"] show ?thesis by simp
qed

theorem deb_version_order_witness:
  "deb_version_compare ''1.9'' ''1.10'' = -1 \<and> deb_version_compare ''1.10'' ''2.0'' = -1 \<and> deb_version_compare ''1.9'' ''2.0'' \<le> 0"
proof -
  have "deb_version_compare ''1.9'' ''1.10'' = -1" "deb_version_compare ''1.10'' ''2.0'' = -1" by code_simp+
  with deb_version_order [of "''1.9''" "''1.10''" "''2.0''"] show ?thesis by simp
qed

end
