(* ===== verification/Deb_Dep.thy ===== *)
theory Deb_Dep
  imports Deb_Version
begin

text \<open>
  Debian relationship fields (\<^verbatim>\<open>src/deb_dep.c\<close>): comma-separated groups of alternatives, each a package name with an
  optional architecture, version relation and restrictions.

  The text between two pointers is a \<open>string\<close>; a result array with its count is a list. An array of characters holds
  at most one character less than its size. The walks keep the counters of open parentheses, brackets and profile
  angles (\<open>nest\<close>). What was stored before an error is kept, as in the code. The lemmas show that every result fits its
  arrays and that printing a list of dependencies and parsing it gives the list back.
\<close>

definition DEB_DEP_MAX_GROUPS :: nat where
  "DEB_DEP_MAX_GROUPS = 128"

definition DEB_DEP_MAX_ALTS :: nat where
  "DEB_DEP_MAX_ALTS = 8"

record deb_dep_alt =
  dd_name :: string
  dd_arch_qual :: string
  dd_op :: string
  dd_version :: string
  dd_restrictions :: string

definition alt_zero :: deb_dep_alt where
  "alt_zero = \<lparr>dd_name = [], dd_arch_qual = [], dd_op = [], dd_version = [], dd_restrictions = []\<rparr>"

definition rtrim :: "string \<Rightarrow> string" where
  "rtrim s = rev (dropWhile isspace (rev s))"

definition trimcopy :: "nat \<Rightarrow> string \<Rightarrow> string" where
  "trimcopy cap s = take (cap - 1) (rtrim (dropWhile isspace s))"

definition name_char :: "char \<Rightarrow> bool" where
  "name_char c \<longleftrightarrow> isalnum c \<or> c = CHR ''+'' \<or> c = CHR ''-'' \<or> c = CHR ''.''"

definition arch_char :: "char \<Rightarrow> bool" where
  "arch_char c \<longleftrightarrow> isalnum c \<or> c = CHR ''-''"

definition op_char :: "char \<Rightarrow> bool" where
  "op_char c \<longleftrightarrow> c = CHR ''<'' \<or> c = CHR ''>'' \<or> c = CHR ''=''"

text \<open>The architecture qualifier, if there is one, and what follows it.\<close>

definition parse_arch :: "string \<Rightarrow> deb_dep_alt \<Rightarrow> string \<times> deb_dep_alt" where
  "parse_arch p alt =
     (if p \<noteq> [] \<and> hd p = CHR '':'' then
        (dropWhile arch_char (tl p), alt\<lparr>dd_arch_qual := trimcopy 32 (takeWhile arch_char (tl p))\<rparr>)
      else (p, alt))"

text \<open>The version relation in parentheses; \<open>None\<close> when the parenthesis is not closed.\<close>

definition parse_relation :: "string \<Rightarrow> deb_dep_alt \<Rightarrow> string option \<times> deb_dep_alt" where
  "parse_relation p alt =
     (if p \<noteq> [] \<and> hd p = CHR ''('' then
        let p = dropWhile isspace (tl p);
            alt = alt\<lparr>dd_op := trimcopy 4 (takeWhile op_char p)\<rparr>;
            p = dropWhile isspace (dropWhile op_char p);
            v = takeWhile (\<lambda>c. c \<noteq> CHR '')'') p; r = dropWhile (\<lambda>c. c \<noteq> CHR '')'') p
        in if r = [] then (None, alt)
           else (Some (tl r), alt\<lparr>dd_version := trimcopy 128 (rtrim v)\<rparr>)
      else (Some p, alt))"

definition parse_alt :: "string \<Rightarrow> int \<times> deb_dep_alt" where
  "parse_alt s =
     (let p = dropWhile isspace s; nm = takeWhile name_char p
      in if nm = [] then (-1, alt_zero)
         else case parse_arch (dropWhile name_char p) (alt_zero\<lparr>dd_name := trimcopy 128 nm\<rparr>) of
           (p, alt) \<Rightarrow>
             (case parse_relation (dropWhile isspace p) alt of
                (None, alt) \<Rightarrow> (-2, alt)
              | (Some p, alt) \<Rightarrow>
                  let p = dropWhile isspace p
                  in if p \<noteq> [] then (0, alt\<lparr>dd_restrictions := trimcopy 256 p\<rparr>) else (0, alt)))"

text \<open>The counters \<^verbatim>\<open>par\<close>, \<^verbatim>\<open>br\<close>, \<^verbatim>\<open>profile\<close> after one character\<close>

type_synonym nest = "nat \<times> nat \<times> nat"

definition nest_step :: "char \<Rightarrow> nest \<Rightarrow> nest" where
  "nest_step c n = (case n of (par, br, profile) \<Rightarrow>
     if c = CHR ''('' then (par + 1, br, profile)
      else if c = CHR '')'' \<and> par \<noteq> 0 then (par - 1, br, profile)
      else if c = CHR ''['' then (par, br + 1, profile)
      else if c = CHR '']'' \<and> br \<noteq> 0 then (par, br - 1, profile)
      else if c = CHR ''<'' \<and> par = 0 then (par, br, profile + 1)
      else if c = CHR ''>'' \<and> profile \<noteq> 0 \<and> par = 0 then (par, br, profile - 1)
      else (par, br, profile))"

text \<open>The inner loop: the alternatives of one group. \<open>seg\<close> is the text since the last bar.\<close>

definition alt_end :: "string \<Rightarrow> deb_dep_alt list \<Rightarrow> int \<times> deb_dep_alt list" where
  "alt_end seg alts =
     (if length alts \<ge> DEB_DEP_MAX_ALTS then (-3, alts)
      else case parse_alt seg of (rc, alt) \<Rightarrow> (if rc \<noteq> 0 then -4 else 0, alts @ [alt]))"

primrec alt_walk :: "string \<Rightarrow> string \<Rightarrow> nest \<Rightarrow> deb_dep_alt list \<Rightarrow> int \<times> deb_dep_alt list" where
  "alt_walk [] seg n alts = (if n = (0, 0, 0) then alt_end seg alts else (0, alts))"
| "alt_walk (z # s) seg n alts =
     (let n = nest_step z n
      in if z = CHR ''|'' \<and> n = (0, 0, 0) then
           (case alt_end seg alts of (rc, alts) \<Rightarrow> if rc \<noteq> 0 then (rc, alts) else alt_walk s [] n alts)
         else alt_walk s (seg @ [z]) n alts)"

definition group_end :: "string \<Rightarrow> deb_dep_alt list list \<Rightarrow> int \<times> deb_dep_alt list list" where
  "group_end seg groups =
     (if length groups \<ge> DEB_DEP_MAX_GROUPS then (-2, groups)
      else case alt_walk seg [] (0, 0, 0) [] of (rc, alts) \<Rightarrow> (rc, groups @ [alts]))"

primrec dep_walk :: "string \<Rightarrow> string \<Rightarrow> nest \<Rightarrow> deb_dep_alt list list \<Rightarrow> int \<times> deb_dep_alt list list" where
  "dep_walk [] seg n groups = (if n = (0, 0, 0) then group_end seg groups else (0, groups))"
| "dep_walk (c # s) seg n groups =
     (let n = nest_step c n
      in if c = CHR '','' \<and> n = (0, 0, 0) then
           (case group_end seg groups of (rc, groups) \<Rightarrow> if rc \<noteq> 0 then (rc, groups) else dep_walk s [] n groups)
         else dep_walk s (seg @ [c]) n groups)"

definition deb_dep_parse :: "string \<Rightarrow> int \<times> deb_dep_alt list list" where
  "deb_dep_parse fld = (if fld = [] then (0, []) else dep_walk fld [] (0, 0, 0) [])"

section \<open>Everything fits\<close>

definition alt_fits :: "deb_dep_alt \<Rightarrow> bool" where
  "alt_fits a \<longleftrightarrow> length (dd_name a) < 128 \<and> length (dd_arch_qual a) < 32 \<and> length (dd_op a) < 4 \<and>
     length (dd_version a) < 128 \<and> length (dd_restrictions a) < 256"

definition deps_fit :: "deb_dep_alt list list \<Rightarrow> bool" where
  "deps_fit gs \<longleftrightarrow> length gs \<le> DEB_DEP_MAX_GROUPS \<and> (\<forall>g \<in> set gs. length g \<le> DEB_DEP_MAX_ALTS \<and> (\<forall>a \<in> set g. alt_fits a))"

lemma length_trimcopy: "0 < cap \<Longrightarrow> length (trimcopy cap s) < cap"
  by (simp add: trimcopy_def)

lemma alt_fits_zero [simp]: "alt_fits alt_zero"
  by (simp add: alt_fits_def alt_zero_def)

lemma parse_arch_fits: "alt_fits a \<Longrightarrow> alt_fits (snd (parse_arch p a)) \<and> dd_name (snd (parse_arch p a)) = dd_name a"
  by (simp add: parse_arch_def alt_fits_def length_trimcopy)

lemma parse_relation_fits:
  "alt_fits a \<Longrightarrow> alt_fits (snd (parse_relation p a)) \<and> dd_name (snd (parse_relation p a)) = dd_name a"
  by (simp add: parse_relation_def alt_fits_def length_trimcopy Let_def)

lemma not_space_name: "name_char c \<Longrightarrow> \<not> isspace c"
  by (auto simp: name_char_def isspace_def isalnum_def isalpha_def isdigit_def)

lemma trimcopy_solid:
  assumes "\<forall>c \<in> set s. \<not> isspace c"
  shows "trimcopy cap s = take (cap - 1) s"
proof -
  have d: "dropWhile isspace t = t" if "\<forall>c \<in> set t. \<not> isspace c" for t using that by (cases t) auto
  have "dropWhile isspace (rev s) = rev s" by (rule d) (use assms in simp)
  then show ?thesis using d [OF assms] by (simp add: trimcopy_def rtrim_def)
qed

lemma parse_alt_fits: "parse_alt s = (rc, a) \<Longrightarrow> alt_fits a \<and> (rc = 0 \<longrightarrow> dd_name a \<noteq> [])"
proof -
  assume a: "parse_alt s = (rc, a)"
  let ?nm = "takeWhile name_char (dropWhile isspace s)"
  let ?a1 = "alt_zero\<lparr>dd_name := trimcopy 128 ?nm\<rparr>"
  show ?thesis
  proof (cases "?nm = []")
    case True
    with a show ?thesis by (auto simp: parse_alt_def Let_def)
  next
    case False
    have "\<forall>c \<in> set ?nm. \<not> isspace c" using not_space_name by (auto dest: set_takeWhileD)
    then have nm: "trimcopy 128 ?nm \<noteq> []" using False by (simp add: trimcopy_solid)
    have f: "alt_fits ?a1" using length_trimcopy [of 128 ?nm] by (simp add: alt_fits_def alt_zero_def)
    obtain p a2 where p: "parse_arch (dropWhile name_char (dropWhile isspace s)) ?a1 = (p, a2)" by force
    obtain q a3 where q: "parse_relation (dropWhile isspace p) a2 = (q, a3)" by force
    have f3: "alt_fits a3" "dd_name a3 = trimcopy 128 ?nm"
      using parse_arch_fits [OF f, of "dropWhile name_char (dropWhile isspace s)"] parse_relation_fits [of a2 "dropWhile isspace p"] p q by auto
    have "a = a3 \<or> (\<exists>x. a = a3\<lparr>dd_restrictions := trimcopy 256 x\<rparr>)"
      using a False by (auto simp: parse_alt_def Let_def p q split: option.splits if_splits)
    with f3 nm show ?thesis by (auto simp: alt_fits_def length_trimcopy)
  qed
qed

text \<open>What closing a segment keeps, the walks keep.\<close>

lemma alt_walk_inv:
  assumes "\<And>seg alts. P alts \<Longrightarrow> P (snd (alt_end seg alts))" and "P alts"
  shows "P (snd (alt_walk s seg n alts))"
  using assms(2)
proof (induction s arbitrary: seg n alts)
  case (Cons z s)
  with assms(1) [of alts seg] show ?case by (simp add: Let_def split_beta)
qed (simp add: assms(1))

lemma dep_walk_inv:
  assumes "\<And>seg gs. P gs \<Longrightarrow> P (snd (group_end seg gs))" and "P gs"
  shows "P (snd (dep_walk s seg n gs))"
  using assms(2)
proof (induction s arbitrary: seg n gs)
  case (Cons c s)
  with assms(1) [of gs seg] show ?case by (simp add: Let_def split_beta)
qed (simp add: assms(1))

lemma alt_walk_ok_inv:
  assumes "\<And>seg alts alts'. Q alts \<Longrightarrow> alt_end seg alts = (0, alts') \<Longrightarrow> Q alts'" and "Q alts"
    and "alt_walk s seg n alts = (0, alts')"
  shows "Q alts'"
  using assms(2,3)
proof (induction s arbitrary: seg n alts)
  case (Cons z s)
  obtain rc alts2 where e: "alt_end seg alts = (rc, alts2)" by force
  with Cons assms(1) [of alts seg] show ?case by (auto simp: Let_def split: if_splits)
qed (auto split: if_splits intro: assms(1))

lemma dep_walk_ok_inv:
  assumes "\<And>seg gs gs'. Q gs \<Longrightarrow> group_end seg gs = (0, gs') \<Longrightarrow> Q gs'" and "Q gs"
    and "dep_walk s seg n gs = (0, gs')"
  shows "Q gs'"
  using assms(2,3)
proof (induction s arbitrary: seg n gs)
  case (Cons z s)
  obtain rc gs2 where e: "group_end seg gs = (rc, gs2)" by force
  with Cons assms(1) [of gs seg] show ?case by (auto simp: Let_def split: if_splits)
qed (auto split: if_splits intro: assms(1))

lemma alt_walk_fits:
  "length (snd (alt_walk s seg n [])) \<le> DEB_DEP_MAX_ALTS \<and> (\<forall>a \<in> set (snd (alt_walk s seg n [])). alt_fits a)"
  by (rule alt_walk_inv [where P = "\<lambda>alts. length alts \<le> DEB_DEP_MAX_ALTS \<and> (\<forall>a \<in> set alts. alt_fits a)"])
    (auto simp: alt_end_def split_beta parse_alt_fits [OF surjective_pairing])

lemma alt_walk_names: "alt_walk s seg n [] = (0, alts) \<Longrightarrow> \<forall>a \<in> set alts. dd_name a \<noteq> []"
  by (rule alt_walk_ok_inv [where Q = "\<lambda>alts. \<forall>a \<in> set alts. dd_name a \<noteq> []" and alts = "[]"])
    (auto simp: alt_end_def split: if_splits prod.splits dest: parse_alt_fits)

lemma deb_dep_parse_fits: "deps_fit (snd (deb_dep_parse fld))"
proof -
  have "deps_fit (snd (dep_walk fld [] (0, 0, 0) []))"
    by (rule dep_walk_inv) (use alt_walk_fits in \<open>auto simp: deps_fit_def group_end_def split_beta\<close>)
  then show ?thesis by (simp add: deb_dep_parse_def deps_fit_def)
qed

lemma deb_dep_parse_names: "deb_dep_parse fld = (0, gs) \<Longrightarrow> \<forall>g \<in> set gs. \<forall>a \<in> set g. dd_name a \<noteq> []"
proof (cases "fld = []")
  case False
  assume "deb_dep_parse fld = (0, gs)"
  with False have "dep_walk fld [] (0, 0, 0) [] = (0, gs)" by (simp add: deb_dep_parse_def)
  then show ?thesis
    by (rule dep_walk_ok_inv [where Q = "\<lambda>gs. \<forall>g \<in> set gs. \<forall>a \<in> set g. dd_name a \<noteq> []", rotated 2])
      (fastforce simp: group_end_def split: if_splits prod.splits dest: alt_walk_names)+
qed (simp add: deb_dep_parse_def)

section \<open>Printing\<close>

definition alt_print :: "deb_dep_alt \<Rightarrow> string" where
  "alt_print a = dd_name a @ (if dd_arch_qual a = [] then [] else CHR '':'' # dd_arch_qual a) @
     (if dd_op a = [] then [] else '' ('' @ dd_op a @ '' '' @ dd_version a @ '')'') @
     (if dd_restrictions a = [] then [] else CHR '' '' # dd_restrictions a)"

fun join :: "string \<Rightarrow> string list \<Rightarrow> string" where
  "join sep [] = []"
| "join sep [x] = x"
| "join sep (x # y # zs) = x @ sep @ join sep (y # zs)"

definition group_print :: "deb_dep_alt list \<Rightarrow> string" where
  "group_print g = join '' | '' (map alt_print g)"

definition deb_dep_print :: "deb_dep_alt list list \<Rightarrow> string" where
  "deb_dep_print gs = join '', '' (map group_print gs)"

text \<open>A text that keeps the counters and does not show a separator at depth zero.\<close>

primrec quiet :: "char set \<Rightarrow> nest \<Rightarrow> string \<Rightarrow> nest option" where
  "quiet S n [] = Some n"
| "quiet S n (c # s) = (if c \<in> S \<and> nest_step c n = (0, 0, 0) then None else quiet S (nest_step c n) s)"

definition solid :: "string \<Rightarrow> bool" where
  "solid s \<longleftrightarrow> s \<noteq> [] \<and> \<not> isspace (hd s) \<and> \<not> isspace (last s)"

definition alt_ok :: "deb_dep_alt \<Rightarrow> bool" where
  "alt_ok a \<longleftrightarrow> alt_fits a \<and> dd_name a \<noteq> [] \<and> (\<forall>c \<in> set (dd_name a). name_char c) \<and>
     (\<forall>c \<in> set (dd_arch_qual a). arch_char c) \<and> (\<forall>c \<in> set (dd_op a). op_char c) \<and>
     (if dd_op a = [] then dd_version a = []
      else solid (dd_version a) \<and> \<not> op_char (hd (dd_version a)) \<and> set (dd_version a) \<inter> {CHR ''('', CHR '')'', CHR ''['', CHR '']''} = {}) \<and>
     (dd_restrictions a = [] \<or> solid (dd_restrictions a) \<and> hd (dd_restrictions a) \<in> {CHR ''['', CHR ''<''} \<and>
        quiet {CHR '','', CHR ''|''} (0, 0, 0) (dd_restrictions a) = Some (0, 0, 0))"

lemma quiet_append:
  "quiet S n (s @ t) = (case quiet S n s of None \<Rightarrow> None | Some m \<Rightarrow> quiet S m t)"
  by (induction s arbitrary: n) auto

lemma quiet_mono: "quiet S n s = Some m \<Longrightarrow> T \<subseteq> S \<Longrightarrow> quiet T n s = Some m"
  by (induction s arbitrary: n) (auto split: if_splits)

lemma alt_walk_quiet: "quiet {CHR ''|''} n s = Some m \<Longrightarrow> alt_walk (s @ t) seg n alts = alt_walk t (seg @ s) m alts"
  by (induction s arbitrary: n seg) (auto simp: Let_def split: if_splits)

lemma dep_walk_quiet: "quiet {CHR '',''} n s = Some m \<Longrightarrow> dep_walk (s @ t) seg n gs = dep_walk t (seg @ s) m gs"
  by (induction s arbitrary: n seg) (auto simp: Let_def split: if_splits)


lemma span_append:
  assumes "\<forall>c \<in> set xs. P c" and "r = [] \<or> \<not> P (hd r)"
  shows "takeWhile P (xs @ r) = xs" and "dropWhile P (xs @ r) = r"
  using assms by (cases r; simp add: takeWhile_append dropWhile_append)+

lemma trimcopy_padded:
  assumes "solid s" and "\<forall>c \<in> set w. isspace c" and "length s < cap"
  shows "trimcopy cap (s @ w) = s"
proof -
  have l: "dropWhile isspace (s @ w) = s @ w" using assms(1) by (cases s) (auto simp: solid_def)
  have "rev s \<noteq> []" "\<not> isspace (hd (rev s))" using assms(1) by (auto simp: solid_def hd_rev)
  then have "dropWhile isspace (rev w @ rev s) = rev s" using assms(2) by (intro span_append) auto
  then show ?thesis using assms(3) by (simp add: trimcopy_def rtrim_def l)
qed

lemma rtrim_solid: "solid s \<Longrightarrow> rtrim s = s"
  by (cases s rule: rev_cases) (auto simp: rtrim_def solid_def)

lemma arch_not_space: "arch_char c \<Longrightarrow> \<not> isspace c"
  by (auto simp: arch_char_def isspace_def isalnum_def isalpha_def isdigit_def)

lemma op_not_space: "op_char c \<Longrightarrow> \<not> isspace c"
  by (auto simp: op_char_def isspace_def)

lemma trimcopy_short: "\<forall>c \<in> set s. \<not> isspace c \<Longrightarrow> length s < cap \<Longrightarrow> trimcopy cap s = s"
  by (simp add: trimcopy_solid)

lemma punct [simp]:
  "\<not> name_char (CHR '' '')" "\<not> name_char (CHR '':'')" "\<not> arch_char (CHR '' '')" "\<not> op_char (CHR '' '')" "isspace (CHR '' '')"
  "\<not> isspace (CHR ''('')" "\<not> isspace (CHR ''['')" "\<not> isspace (CHR ''<'')"
  by (simp_all add: name_char_def arch_char_def op_char_def isspace_def isalnum_def isalpha_def isdigit_def)

text \<open>The parts of an alternative that follow its name, each with what comes after it.\<close>

lemma parse_arch_print:
  assumes "\<forall>c \<in> set arch. arch_char c" and "length arch < 32" and "r = [] \<or> hd r = CHR '' ''" and "dd_arch_qual a = []"
  shows "parse_arch ((if arch = [] then [] else CHR '':'' # arch) @ r) a = (r, a\<lparr>dd_arch_qual := arch\<rparr>)"
proof (cases "arch = []")
  case True
  with assms show ?thesis by (auto simp: parse_arch_def)
next
  case False
  have "r = [] \<or> \<not> arch_char (hd r)" using assms(3) by auto
  from span_append [OF assms(1) this] False assms(1,2) show ?thesis
    by (simp add: parse_arch_def trimcopy_short arch_not_space)
qed

lemma parse_relation_print:
  assumes "\<forall>c \<in> set vop. op_char c" and "vop \<noteq> []" and "length vop < 4" and "length v < 128"
    and "solid v" and "\<not> op_char (hd v)" and "CHR '')'' \<notin> set v"
  shows "parse_relation (dropWhile isspace ('' ('' @ vop @ '' '' @ v @ '')'' @ r)) a =
    (Some r, a\<lparr>dd_op := vop, dd_version := v\<rparr>)"
proof -
  have o: "dropWhile isspace (vop @ '' '' @ v @ '')'' @ r) = vop @ '' '' @ v @ '')'' @ r"
    using assms(1,2) by (cases vop) (auto simp: op_not_space)
  have s: "takeWhile op_char (vop @ '' '' @ v @ '')'' @ r) = vop" "dropWhile op_char (vop @ '' '' @ v @ '')'' @ r) = '' '' @ v @ '')'' @ r"
    using assms(1) by (intro span_append; simp)+
  have d: "dropWhile isspace ('' '' @ v @ '')'' @ r) = v @ '')'' @ r" using assms(5) by (cases v) (auto simp: solid_def)
  have t: "takeWhile (\<lambda>c. c \<noteq> CHR '')'') (v @ '')'' @ r) = v" "dropWhile (\<lambda>c. c \<noteq> CHR '')'') (v @ '')'' @ r) = '')'' @ r"
    using assms(7) by (intro span_append; auto)+
  have c: "trimcopy 4 vop = vop" "trimcopy 128 (rtrim v) = v"
    using assms trimcopy_padded [of v "[]" 128] by (simp_all add: trimcopy_short op_not_space rtrim_solid)
  have h: "dropWhile isspace ('' ('' @ vop @ '' '' @ v @ '')'' @ r) = CHR ''('' # vop @ '' '' @ v @ '')'' @ r" by simp
  show ?thesis unfolding h parse_relation_def list.sel Let_def o s d t c by simp
qed

lemma parse_alt_print:
  assumes "alt_ok a" and "\<forall>c \<in> set w1. isspace c" and "w2 = [] \<or> w2 = '' ''"
  shows "parse_alt (w1 @ alt_print a @ w2) = (0, a)"
proof -
  define r3 where "r3 = (if dd_restrictions a = [] then [] else CHR '' '' # dd_restrictions a) @ w2"
  define r2 where "r2 = (if dd_op a = [] then [] else '' ('' @ dd_op a @ '' '' @ dd_version a @ '')'') @ r3"
  define r1 where "r1 = (if dd_arch_qual a = [] then [] else CHR '':'' # dd_arch_qual a) @ r2"
  note ok = assms(1) [unfolded alt_ok_def alt_fits_def]
  have r3: "r3 = [] \<or> hd r3 = CHR '' ''" using assms(3) by (auto simp: r3_def)
  have r2: "r2 = [] \<or> hd r2 = CHR '' ''" using r3 by (auto simp: r2_def)
  have r1: "r1 = [] \<or> \<not> name_char (hd r1)" using r2 by (auto simp: r1_def)
  have p: "alt_print a @ w2 = dd_name a @ r1" by (simp add: alt_print_def r1_def r2_def r3_def)
  have n: "\<forall>c \<in> set (dd_name a). name_char c" "dd_name a \<noteq> []" "\<forall>c \<in> set (dd_name a). \<not> isspace c"
    using ok not_space_name by auto
  have d: "dropWhile isspace (w1 @ alt_print a @ w2) = dd_name a @ r1"
    unfolding p using assms(2) n(2,3) by (intro span_append) (cases "dd_name a"; auto)+
  note s = span_append [OF n(1) r1]
  let ?a1 = "alt_zero\<lparr>dd_name := dd_name a\<rparr>" and ?a2 = "alt_zero\<lparr>dd_name := dd_name a, dd_arch_qual := dd_arch_qual a\<rparr>"
  have a1: "parse_arch r1 ?a1 = (r2, ?a2)"
    using parse_arch_print [of "dd_arch_qual a" r2 ?a1] r2 ok by (simp add: r1_def alt_zero_def)
  have e3: "dropWhile isspace r3 = (if dd_restrictions a = [] then [] else dd_restrictions a @ w2)"
    using ok assms(3) by (auto simp: r3_def solid_def) (cases "dd_restrictions a"; auto)+
  have a2: "\<exists>q. parse_relation (dropWhile isspace r2) ?a2 = (Some q, ?a2\<lparr>dd_op := dd_op a, dd_version := dd_version a\<rparr>) \<and>
      dropWhile isspace q = dropWhile isspace r3"
  proof (cases "dd_op a = []")
    case True
    have "dropWhile isspace r3 = [] \<or> hd (dropWhile isspace r3) \<noteq> CHR ''(''" using ok by (cases "dd_restrictions a") (auto simp: e3)
    then have "parse_relation (dropWhile isspace r2) ?a2 = (Some (dropWhile isspace r3), ?a2)"
      using True by (auto simp: r2_def parse_relation_def)
    with True ok show ?thesis by (simp add: alt_zero_def)
  next
    case False
    with parse_relation_print [of "dd_op a" "dd_version a" r3 ?a2] ok show ?thesis by (auto simp: r2_def)
  qed
  then obtain q where q: "parse_relation (dropWhile isspace r2) ?a2 = (Some q, ?a2\<lparr>dd_op := dd_op a, dd_version := dd_version a\<rparr>)"
    "dropWhile isspace q = dropWhile isspace r3" by blast
  have t: "trimcopy 128 (dd_name a) = dd_name a" using n(3) ok by (simp add: trimcopy_short)
  have w: "\<forall>c \<in> set w2. isspace c" using assms(3) by auto
  have tr: "dd_restrictions a \<noteq> [] \<Longrightarrow> trimcopy 256 (dd_restrictions a @ w2) = dd_restrictions a"
    using trimcopy_padded [OF _ w] ok by blast
  show ?thesis
    unfolding parse_alt_def Let_def d s t a1 prod.case q e3 option.case using n(2) tr by (auto simp: alt_zero_def)
qed


definition plain :: "char \<Rightarrow> bool" where
  "plain c \<longleftrightarrow> c \<notin> {CHR ''('', CHR '')'', CHR ''['', CHR '']'', CHR ''<'', CHR ''>'', CHR '','', CHR ''|''}"

abbreviation separators :: "char set" where
  "separators \<equiv> {CHR '','', CHR ''|''}"

lemma quiet_plain: "\<forall>c \<in> set s. plain c \<Longrightarrow> quiet separators n s = Some n"
  by (induction s arbitrary: n) (auto simp: plain_def nest_step_def split: prod.splits)

lemma quiet_inner:
  "set s \<inter> {CHR ''('', CHR '')'', CHR ''['', CHR '']''} = {} \<Longrightarrow> quiet separators (Suc 0, 0, 0) s = Some (Suc 0, 0, 0)"
  by (induction s) (auto simp: nest_step_def)

lemma plain_chars: "name_char c \<Longrightarrow> plain c" "arch_char c \<Longrightarrow> plain c"
  by (auto simp: plain_def name_char_def arch_char_def isalnum_def isalpha_def isdigit_def)

lemma quiet_alt_print:
  assumes "alt_ok a"
  shows "quiet separators (0, 0, 0) (alt_print a) = Some (0, 0, 0)"
proof -
  note ok = assms [unfolded alt_ok_def]
  have n: "quiet separators (0, 0, 0) (dd_name a) = Some (0, 0, 0)" using ok plain_chars by (intro quiet_plain) blast
  have ar: "quiet separators (0, 0, 0) (if dd_arch_qual a = [] then [] else CHR '':'' # dd_arch_qual a) = Some (0, 0, 0)"
    using ok plain_chars by (intro quiet_plain) (auto simp: plain_def)
  have "quiet separators (Suc 0, 0, 0) (dd_op a @ '' '' @ dd_version a) = Some (Suc 0, 0, 0)" if "dd_op a \<noteq> []"
    using ok that by (intro quiet_inner) (auto simp: op_char_def)
  then have "quiet separators (Suc 0, 0, 0) (dd_op a @ '' '' @ dd_version a @ '')'') = Some (0, 0, 0)" if "dd_op a \<noteq> []"
    using that quiet_append [of separators "(Suc 0, 0, 0)" "dd_op a @ '' '' @ dd_version a" "'')''"] by (simp add: nest_step_def)
  then have r: "quiet separators (0, 0, 0) (if dd_op a = [] then [] else '' ('' @ dd_op a @ '' '' @ dd_version a @ '')'') = Some (0, 0, 0)"
    by (simp add: nest_step_def)
  have "quiet separators (0, 0, 0) (if dd_restrictions a = [] then [] else CHR '' '' # dd_restrictions a) = Some (0, 0, 0)"
    using ok by (auto simp: nest_step_def)
  with n ar r show ?thesis by (simp add: alt_print_def quiet_append)
qed

definition group_ok :: "deb_dep_alt list \<Rightarrow> bool" where
  "group_ok g \<longleftrightarrow> g \<noteq> [] \<and> length g \<le> DEB_DEP_MAX_ALTS \<and> (\<forall>a \<in> set g. alt_ok a)"

definition deps_ok :: "deb_dep_alt list list \<Rightarrow> bool" where
  "deps_ok gs \<longleftrightarrow> gs \<noteq> [] \<and> length gs \<le> DEB_DEP_MAX_GROUPS \<and> (\<forall>g \<in> set gs. group_ok g)"

lemma alt_walk_print:
  assumes "g \<noteq> []" and "length alts + length g \<le> DEB_DEP_MAX_ALTS" and "\<forall>a \<in> set g. alt_ok a" and "\<forall>c \<in> set w. isspace c"
  shows "alt_walk (join '' | '' (map alt_print g)) w (0, 0, 0) alts = (0, alts @ g)"
  using assms
proof (induction g arbitrary: alts w)
  case (Cons a g)
  have q: "quiet {CHR ''|''} (0, 0, 0) (alt_print a) = Some (0, 0, 0)"
    using Cons.prems by (intro quiet_mono [OF quiet_alt_print]) auto
  show ?case
  proof (cases g)
    case Nil
    have "parse_alt (w @ alt_print a) = (0, a)" using parse_alt_print [of a w "[]"] Cons.prems by simp
    with Nil Cons.prems alt_walk_quiet [OF q, of "[]" w alts] show ?thesis by (simp add: alt_end_def)
  next
    case (Cons b h)
    have p: "parse_alt (w @ alt_print a @ '' '') = (0, a)" using parse_alt_print [of a w "'' ''"] Cons.prems by simp
    have "alt_walk (join '' | '' (map alt_print g)) '' '' (0, 0, 0) (alts @ [a]) = (0, (alts @ [a]) @ g)"
      by (rule Cons.IH) (use Cons Cons.prems in auto)
    then show ?thesis using Cons p Cons.prems alt_walk_quiet [OF q, of "'' | '' @ join '' | '' (map alt_print g)" w alts]
      by (simp add: nest_step_def Let_def alt_end_def)
  qed
qed simp

lemma group_end_print:
  assumes "group_ok g" and "\<forall>c \<in> set w. isspace c" and "length gs < DEB_DEP_MAX_GROUPS" and "CHR ''|'' \<notin> set w" and "\<forall>c \<in> set w. plain c"
  shows "group_end (w @ group_print g) gs = (0, gs @ [g])"
proof -
  have "quiet {CHR ''|''} (0, 0, 0) w = Some (0, 0, 0)" using assms(5) by (intro quiet_mono [OF quiet_plain]) auto
  from alt_walk_quiet [OF this, of "group_print g" "[]" "[]"] alt_walk_print [of g "[]" w] assms show ?thesis
    by (simp add: group_end_def group_print_def group_ok_def)
qed

lemma quiet_group_print: "\<forall>a \<in> set g. alt_ok a \<Longrightarrow> quiet {CHR '',''} (0, 0, 0) (group_print g) = Some (0, 0, 0)"
proof (induction g)
  case (Cons a g)
  have q: "quiet {CHR '',''} (0, 0, 0) (alt_print a) = Some (0, 0, 0)"
    using Cons.prems by (intro quiet_mono [OF quiet_alt_print]) auto
  with Cons show ?case by (cases g) (auto simp: group_print_def quiet_append nest_step_def)
qed (simp add: group_print_def)

lemma dep_walk_print:
  assumes "gs \<noteq> []" and "length acc + length gs \<le> DEB_DEP_MAX_GROUPS" and "\<forall>g \<in> set gs. group_ok g" and "w = [] \<or> w = '' ''"
  shows "dep_walk (join '', '' (map group_print gs)) w (0, 0, 0) acc = (0, acc @ gs)"
  using assms
proof (induction gs arbitrary: acc w)
  case (Cons g gs)
  have w: "\<forall>c \<in> set w. isspace c" "CHR ''|'' \<notin> set w" "\<forall>c \<in> set w. plain c" using Cons.prems(4) by (auto simp: plain_def)
  have q: "quiet {CHR '',''} (0, 0, 0) (group_print g) = Some (0, 0, 0)" using Cons.prems by (intro quiet_group_print) (auto simp: group_ok_def)
  have e: "group_end (w @ group_print g) acc = (0, acc @ [g])" using Cons.prems w by (intro group_end_print) auto
  show ?case
  proof (cases gs)
    case Nil
    with e dep_walk_quiet [OF q, of "[]" w acc] show ?thesis by simp
  next
    case (Cons h hs)
    have "dep_walk (join '', '' (map group_print gs)) '' '' (0, 0, 0) (acc @ [g]) = (0, (acc @ [g]) @ gs)"
      by (rule Cons.IH) (use Cons Cons.prems in auto)
    then show ?thesis using Cons e dep_walk_quiet [OF q, of "'', '' @ join '', '' (map group_print gs)" w acc]
      by (simp add: nest_step_def Let_def)
  qed
qed simp

lemma deb_dep_parse_print: "deps_ok gs \<Longrightarrow> deb_dep_parse (deb_dep_print gs) = (0, gs)"
proof -
  assume ok: "deps_ok gs"
  then obtain a g hs where gs: "gs = (a # g) # hs" "dd_name a \<noteq> []"
    by (cases gs; cases "hd gs") (auto simp: deps_ok_def group_ok_def alt_ok_def)
  have "alt_print a \<noteq> []" using gs(2) by (simp add: alt_print_def)
  then have "deb_dep_print gs \<noteq> []" by (cases g; cases hs) (auto simp: gs(1) deb_dep_print_def group_print_def)
  with ok dep_walk_print [of gs "[]" "[]"] show ?thesis by (simp add: deb_dep_parse_def deb_dep_print_def deps_ok_def)
qed

section \<open>Properties\<close>

text \<open>C30. Printing a list of dependencies and parsing it gives the list back: every group, every alternative and
  every field of it, for lists within the limits whose fields are made of the characters each part allows.\<close>

theorem deb_dep_roundtrip:
  assumes "deps_ok gs"
  shows "deb_dep_parse (deb_dep_print gs) = (0, gs)"
  using assms by (rule deb_dep_parse_print)

text \<open>C31. Whatever the text, the parser stays within its arrays: at most 128 groups of at most 8 alternatives, each
  field shorter than its array; and when it reports success every alternative names a package.\<close>

theorem deb_dep_parse_within_arrays:
  "deps_fit (snd (deb_dep_parse fld)) \<and>
   (fst (deb_dep_parse fld) = 0 \<longrightarrow> (\<forall>g \<in> set (snd (deb_dep_parse fld)). \<forall>a \<in> set g. dd_name a \<noteq> []))"
  using deb_dep_parse_fits [of fld] deb_dep_parse_names [of fld "snd (deb_dep_parse fld)"] by (cases "deb_dep_parse fld") auto

text \<open>C32. A relationship that is not closed disappears without an error: when the text of a dependency ends inside
  its parenthesis, the parser reports success with no dependency at all.\<close>

theorem deb_dep_unclosed_dropped:
  assumes "nm \<noteq> []" and "\<forall>c \<in> set nm. name_char c" and "set v \<inter> {CHR ''('', CHR '')'', CHR ''['', CHR '']''} = {}"
  shows "deb_dep_parse (nm @ '' ('' @ v) = (0, [])"
proof -
  have "quiet separators (0, 0, 0) nm = Some (0, 0, 0)" using assms(2) plain_chars by (intro quiet_plain) blast
  with quiet_inner [OF assms(3)] have "quiet separators (0, 0, 0) (nm @ '' ('' @ v) = Some (Suc 0, 0, 0)"
    by (simp add: quiet_append nest_step_def)
  then have "quiet {CHR '',''} (0, 0, 0) (nm @ '' ('' @ v) = Some (Suc 0, 0, 0)" by (rule quiet_mono) simp
  from dep_walk_quiet [OF this, of "[]" "[]" "[]"] assms(1) show ?thesis by (simp add: deb_dep_parse_def)
qed

section \<open>Witnesses\<close>

definition demo_deps :: "deb_dep_alt list list" where
  "demo_deps =
     [[\<lparr>dd_name = ''libc6'', dd_arch_qual = ''any'', dd_op = ''>='', dd_version = ''2.34'', dd_restrictions = []\<rparr>],
      [\<lparr>dd_name = ''default-mta'', dd_arch_qual = [], dd_op = [], dd_version = [], dd_restrictions = ''[!armel]''\<rparr>,
       \<lparr>dd_name = ''exim4'', dd_arch_qual = [], dd_op = ''<<'', dd_version = ''5'', dd_restrictions = ''<!nocheck>''\<rparr>]]"

theorem deb_dep_roundtrip_witness:
  "deb_dep_print demo_deps = ''libc6:any (>= 2.34), default-mta [!armel] | exim4 (<< 5) <!nocheck>'' \<and>
   deb_dep_parse ''libc6:any (>= 2.34), default-mta [!armel] | exim4 (<< 5) <!nocheck>'' = (0, demo_deps)"
proof -
  have p: "deb_dep_print demo_deps = ''libc6:any (>= 2.34), default-mta [!armel] | exim4 (<< 5) <!nocheck>''" by code_simp
  have "deps_ok demo_deps" by code_simp
  from deb_dep_roundtrip [OF this] p show ?thesis by simp
qed

theorem deb_dep_parse_within_arrays_witness:
  "\<exists>a b. deb_dep_parse ''a | b (= 1)'' = (0, [[a, b]]) \<and> deps_fit [[a, b]] \<and> dd_name a \<noteq> [] \<and> dd_name b \<noteq> []"
proof -
  let ?a = "alt_zero\<lparr>dd_name := ''a''\<rparr>" and ?b = "alt_zero\<lparr>dd_name := ''b'', dd_op := ''='', dd_version := ''1''\<rparr>"
  have "deb_dep_parse ''a | b (= 1)'' = (0, [[?a, ?b]])" by code_simp
  with deb_dep_parse_within_arrays [of "''a | b (= 1)''"] show ?thesis by (intro exI [of _ ?a] exI [of _ ?b]) simp
qed

theorem deb_dep_unclosed_dropped_witness: "deb_dep_parse ''libc6 (>= 2.34'' = (0, [])"
proof -
  have n: "\<forall>c \<in> set ''libc6''. name_char c" by code_simp
  from deb_dep_unclosed_dropped [OF _ n, of "''>= 2.34''"] show ?thesis by simp
qed

end
