(* ===== verification/Deb_Control.thy ===== *)
theory Deb_Control
  imports Deb_Dep
begin

text \<open>
  Debian control files (\<^verbatim>\<open>src/deb_control.c\<close>): \<^verbatim>\<open>Name: value\<close> lines with continuation lines, parsed into a structure of
  character arrays.

  The structure is a record of strings; a pointer to one of its arrays is a \<open>deb_field\<close>, with the array's size in
  \<open>field_cap\<close>. A value ends at its first zero byte. The lemmas show that every value fits its array and that printing a
  structure and parsing it gives it back, continuation lines included.
\<close>

record deb_control =
  c_package :: string
  c_version :: string
  c_architecture :: string
  c_essential :: string
  c_priority :: string
  c_section :: string
  c_maintainer :: string
  c_installed_size :: string
  c_pre_depends :: string
  c_depends :: string
  c_recommends :: string
  c_suggests :: string
  c_description :: string

datatype deb_field = F_package | F_version | F_architecture | F_essential | F_priority | F_section | F_maintainer
  | F_installed_size | F_pre_depends | F_depends | F_recommends | F_suggests | F_description

primrec field_name :: "deb_field \<Rightarrow> string" where
  "field_name F_package = ''Package''"
| "field_name F_version = ''Version''"
| "field_name F_architecture = ''Architecture''"
| "field_name F_essential = ''Essential''"
| "field_name F_priority = ''Priority''"
| "field_name F_section = ''Section''"
| "field_name F_maintainer = ''Maintainer''"
| "field_name F_installed_size = ''Installed-Size''"
| "field_name F_pre_depends = ''Pre-Depends''"
| "field_name F_depends = ''Depends''"
| "field_name F_recommends = ''Recommends''"
| "field_name F_suggests = ''Suggests''"
| "field_name F_description = ''Description''"

primrec field_cap :: "deb_field \<Rightarrow> nat" where
  "field_cap F_package = 128"
| "field_cap F_version = 128"
| "field_cap F_architecture = 64"
| "field_cap F_essential = 32"
| "field_cap F_priority = 64"
| "field_cap F_section = 128"
| "field_cap F_maintainer = 256"
| "field_cap F_installed_size = 64"
| "field_cap F_pre_depends = 2048"
| "field_cap F_depends = 4096"
| "field_cap F_recommends = 2048"
| "field_cap F_suggests = 2048"
| "field_cap F_description = 4096"

primrec get_field :: "deb_field \<Rightarrow> deb_control \<Rightarrow> string" where
  "get_field F_package c = c_package c"
| "get_field F_version c = c_version c"
| "get_field F_architecture c = c_architecture c"
| "get_field F_essential c = c_essential c"
| "get_field F_priority c = c_priority c"
| "get_field F_section c = c_section c"
| "get_field F_maintainer c = c_maintainer c"
| "get_field F_installed_size c = c_installed_size c"
| "get_field F_pre_depends c = c_pre_depends c"
| "get_field F_depends c = c_depends c"
| "get_field F_recommends c = c_recommends c"
| "get_field F_suggests c = c_suggests c"
| "get_field F_description c = c_description c"

primrec put_field :: "deb_field \<Rightarrow> string \<Rightarrow> deb_control \<Rightarrow> deb_control" where
  "put_field F_package v c = c\<lparr>c_package := v\<rparr>"
| "put_field F_version v c = c\<lparr>c_version := v\<rparr>"
| "put_field F_architecture v c = c\<lparr>c_architecture := v\<rparr>"
| "put_field F_essential v c = c\<lparr>c_essential := v\<rparr>"
| "put_field F_priority v c = c\<lparr>c_priority := v\<rparr>"
| "put_field F_section v c = c\<lparr>c_section := v\<rparr>"
| "put_field F_maintainer v c = c\<lparr>c_maintainer := v\<rparr>"
| "put_field F_installed_size v c = c\<lparr>c_installed_size := v\<rparr>"
| "put_field F_pre_depends v c = c\<lparr>c_pre_depends := v\<rparr>"
| "put_field F_depends v c = c\<lparr>c_depends := v\<rparr>"
| "put_field F_recommends v c = c\<lparr>c_recommends := v\<rparr>"
| "put_field F_suggests v c = c\<lparr>c_suggests := v\<rparr>"
| "put_field F_description v c = c\<lparr>c_description := v\<rparr>"

definition all_fields :: "deb_field list" where
  "all_fields = [F_package, F_version, F_architecture, F_essential, F_priority, F_section, F_maintainer,
     F_installed_size, F_pre_depends, F_depends, F_recommends, F_suggests, F_description]"

definition control_zero :: deb_control where
  "control_zero = \<lparr>c_package = [], c_version = [], c_architecture = [], c_essential = [], c_priority = [], c_section = [],
     c_maintainer = [], c_installed_size = [], c_pre_depends = [], c_depends = [], c_recommends = [], c_suggests = [],
     c_description = []\<rparr>"

definition ctl_field :: "string \<Rightarrow> deb_field option" where
  "ctl_field nm = find (\<lambda>f. field_name f = nm) all_fields"

definition isblank :: "char \<Rightarrow> bool" where
  "isblank c \<longleftrightarrow> c = CHR '' '' \<or> c = CHR 0x09"

definition iseol :: "char \<Rightarrow> bool" where
  "iseol c \<longleftrightarrow> c = CHR 0x0D \<or> c = CHR 0x0A"

definition drop_end :: "(char \<Rightarrow> bool) \<Rightarrow> string \<Rightarrow> string" where
  "drop_end P s = rev (dropWhile P (rev s))"

definition cstr :: "string \<Rightarrow> string" where
  "cstr s = takeWhile (\<lambda>c. c \<noteq> CHR 0x00) s"

definition copy_value :: "nat \<Rightarrow> string \<Rightarrow> string" where
  "copy_value cap s = cstr (take (cap - 1) (drop_end (\<lambda>c. iseol c \<or> isblank c) (dropWhile isblank s)))"

definition append_continuation :: "nat \<Rightarrow> string \<Rightarrow> string \<Rightarrow> string" where
  "append_continuation cap dst s =
     (let p = drop_end iseol (dropWhile isblank s);
          dst = (if dst \<noteq> [] \<and> length dst + 1 < cap then dst @ [CHR 0x0A] else dst)
      in cstr (dst @ take (cap - length dst - 1) p))"

text \<open>One line of the text, without its newline.\<close>

definition ctl_line :: "string \<Rightarrow> deb_field option \<Rightarrow> deb_control \<Rightarrow> deb_field option \<times> deb_control" where
  "ctl_line raw f0 out =
     (let l = (if raw \<noteq> [] \<and> last raw = CHR 0x0D then butlast raw else raw)
      in if l = [] then (None, out)
         else if isblank (hd l) then
           (case f0 of None \<Rightarrow> (None, out)
            | Some f \<Rightarrow> (f0, put_field f (append_continuation (field_cap f) (get_field f out) l) out))
         else
           let k = takeWhile (\<lambda>c. c \<noteq> CHR '':'') l; r = dropWhile (\<lambda>c. c \<noteq> CHR '':'') l
           in if r = [] then (None, out)
              else case ctl_field k of
                  None \<Rightarrow> (None, out)
                | Some f \<Rightarrow> (Some f, put_field f (copy_value (field_cap f) (tl r)) out))"

function ctl_loop :: "string \<Rightarrow> deb_field option \<Rightarrow> deb_control \<Rightarrow> deb_control" where
  "ctl_loop s f out =
     (if s = [] then out
      else let l = takeWhile (\<lambda>c. c \<noteq> CHR 0x0A) s
           in case ctl_line l f out of (f', out') \<Rightarrow> ctl_loop (drop (length l + 1) s) f' out')"
  by pat_completeness auto
termination by (relation "measure (\<lambda>(s, f, out). length s)") auto

declare ctl_loop.simps [simp del]

definition deb_control_parse :: "string \<Rightarrow> int \<times> deb_control" where
  "deb_control_parse s =
     (let out = ctl_loop s None control_zero
      in (if c_package out \<noteq> [] \<and> c_version out \<noteq> [] then 0 else -2, out))"

section \<open>Everything fits\<close>

definition control_fits :: "deb_control \<Rightarrow> bool" where
  "control_fits c \<longleftrightarrow> (\<forall>f. length (get_field f c) < field_cap f)"

lemma get_put_field: "get_field f (put_field g v c) = (if f = g then v else get_field f c)"
  by (cases f; cases g; simp)

lemma field_cap_pos [simp]: "0 < field_cap f" "1 < field_cap f" "2 \<le> field_cap f"
  by (cases f; simp)+

lemma length_cstr_le: "length (cstr s) \<le> length s"
  by (simp add: cstr_def length_takeWhile_le)

lemma copy_value_fits: "0 < cap \<Longrightarrow> length (copy_value cap s) < cap"
proof -
  assume "0 < cap"
  have "length (copy_value cap s) \<le> cap - 1"
    unfolding copy_value_def by (rule order_trans [OF length_cstr_le]) simp
  with \<open>0 < cap\<close> show ?thesis by simp
qed

lemma append_continuation_fits:
  assumes "length dst < cap"
  shows "length (append_continuation cap dst s) < cap"
proof -
  define d2 where "d2 = (if dst \<noteq> [] \<and> length dst + 1 < cap then dst @ [CHR 0x0A] else dst)"
  have "length d2 < cap" using assms by (simp add: d2_def)
  then have "length (d2 @ take (cap - length d2 - 1) p) < cap" for p by simp
  from le_less_trans [OF length_cstr_le this] show ?thesis by (simp add: append_continuation_def d2_def Let_def)
qed

lemma ctl_line_fits: "control_fits out \<Longrightarrow> control_fits (snd (ctl_line raw f out))"
  by (auto simp: ctl_line_def control_fits_def Let_def get_put_field copy_value_fits append_continuation_fits
      split: option.splits if_splits)

lemma ctl_loop_fits: "control_fits out \<Longrightarrow> control_fits (ctl_loop s f out)"
proof (induction s f out rule: ctl_loop.induct)
  case (1 s f out)
  show ?case
    using "1.IH" "1.prems" ctl_line_fits [OF "1.prems", of "takeWhile (\<lambda>c. c \<noteq> CHR 0x0A) s" f]
    by (subst ctl_loop.simps) (auto simp: Let_def split: prod.splits)
qed

lemma control_fits_zero: "control_fits control_zero"
proof -
  have "get_field f control_zero = []" for f by (cases f) (simp_all add: control_zero_def)
  then show ?thesis by (simp add: control_fits_def)
qed

section \<open>Printing\<close>

definition field_print :: "deb_field \<Rightarrow> string \<Rightarrow> string" where
  "field_print f v = field_name f @ '': '' @ concat (map (\<lambda>c. if c = CHR 0x0A then [c, CHR '' ''] else [c]) v) @ [CHR 0x0A]"

definition control_print :: "deb_control \<Rightarrow> string" where
  "control_print c = concat (map (\<lambda>f. if get_field f c = [] then [] else field_print f (get_field f c)) all_fields)"

fun split_nl :: "string \<Rightarrow> string list" where
  "split_nl [] = [[]]"
| "split_nl (c # s) = (if c = CHR 0x0A then [] # split_nl s else case split_nl s of l # ls \<Rightarrow> (c # l) # ls | [] \<Rightarrow> [[c]])"

definition line_ok :: "string \<Rightarrow> bool" where
  "line_ok l \<longleftrightarrow> l \<noteq> [] \<and> \<not> isblank (hd l) \<and> \<not> iseol (last l)"

definition value_ok :: "nat \<Rightarrow> string \<Rightarrow> bool" where
  "value_ok cap v \<longleftrightarrow> length v < cap \<and> CHR 0x00 \<notin> set v \<and> (\<forall>l \<in> set (split_nl v). line_ok l) \<and>
     \<not> isblank (last (hd (split_nl v)))"

definition control_ok :: "deb_control \<Rightarrow> bool" where
  "control_ok c \<longleftrightarrow> c_package c \<noteq> [] \<and> c_version c \<noteq> [] \<and>
     (\<forall>f \<in> set all_fields. get_field f c = [] \<or> value_ok (field_cap f) (get_field f c))"


text \<open>A value is its first line and its continuation lines.\<close>

lemma split_nl_lines:
  "split_nl v = l # ls \<Longrightarrow> v = l @ concat (map (\<lambda>l. CHR 0x0A # l) ls) \<and>
     concat (map (\<lambda>c. if c = CHR 0x0A then [c, CHR '' ''] else [c]) v) @ [CHR 0x0A] =
       l @ CHR 0x0A # concat (map (\<lambda>l. CHR '' '' # l @ [CHR 0x0A]) ls) \<and>
     (\<forall>x \<in> set (l # ls). CHR 0x0A \<notin> set x)"
proof (induction v arbitrary: l ls)
  case (Cons c v)
  obtain k ks where k: "split_nl v = k # ks" by (cases "split_nl v") (use split_nl.simps in \<open>cases v; auto split: list.splits if_splits\<close>)+
  note IH = Cons.IH [OF k]
  show ?case
  proof (cases "c = CHR 0x0A")
    case True
    with Cons.prems k have "l = []" "ls = k # ks" by auto
    have e: "concat (map (\<lambda>c. if c = CHR 0x0A then [c, CHR '' ''] else [c]) (c # v)) @ [CHR 0x0A] =
        l @ CHR 0x0A # concat (map (\<lambda>l. CHR '' '' # l @ [CHR 0x0A]) ls)"
      using IH [THEN conjunct2, THEN conjunct1] True \<open>l = []\<close> \<open>ls = k # ks\<close> by simp
    show ?thesis unfolding e using IH True \<open>l = []\<close> \<open>ls = k # ks\<close> by simp
  next
    case False
    with Cons.prems k have "l = c # k" "ls = ks" by auto
    have e: "concat (map (\<lambda>c. if c = CHR 0x0A then [c, CHR '' ''] else [c]) (c # v)) @ [CHR 0x0A] =
        l @ CHR 0x0A # concat (map (\<lambda>l. CHR '' '' # l @ [CHR 0x0A]) ls)"
      using IH [THEN conjunct2, THEN conjunct1] False \<open>l = c # k\<close> \<open>ls = ks\<close> by simp
    show ?thesis unfolding e using IH False \<open>l = c # k\<close> \<open>ls = ks\<close> by simp
  qed
qed auto

lemma ctl_loop_line:
  assumes "CHR 0x0A \<notin> set l" and "ctl_line l f out = (f', out')"
  shows "ctl_loop (l @ CHR 0x0A # rest) f out = ctl_loop rest f' out'"
proof -
  have "takeWhile (\<lambda>c. c \<noteq> CHR 0x0A) (l @ CHR 0x0A # rest) = l" using assms(1) by (intro span_append(1)) auto
  then show ?thesis using assms(2) by (subst ctl_loop.simps) (simp add: Let_def)
qed

lemma drop_end_keep: "s \<noteq> [] \<Longrightarrow> \<not> P (last s) \<Longrightarrow> drop_end P s = s"
  by (cases s rule: rev_cases) (auto simp: drop_end_def)

lemma cstr_id: "CHR 0x00 \<notin> set s \<Longrightarrow> cstr s = s"
  unfolding cstr_def takeWhile_eq_all_conv by auto

lemma dropWhile_head: "l \<noteq> [] \<Longrightarrow> \<not> P (hd l) \<Longrightarrow> dropWhile P l = l"
  by (cases l) auto

lemma blank_space [simp]: "isblank (CHR '' '')"
  by (simp add: isblank_def)

lemma copy_value_line:
  assumes "line_ok l" and "\<not> isblank (last l)" and "CHR 0x00 \<notin> set l" and "length l < cap"
  shows "copy_value cap (CHR '' '' # l) = l"
  using assms by (simp add: copy_value_def line_ok_def dropWhile_head drop_end_keep cstr_id)

lemma append_continuation_line:
  assumes "line_ok l" and "CHR 0x00 \<notin> set l" and "CHR 0x00 \<notin> set dst" and "dst \<noteq> []" and "length dst + 1 + length l < cap"
  shows "append_continuation cap dst (CHR '' '' # l) = dst @ CHR 0x0A # l"
  using assms by (simp add: append_continuation_def Let_def line_ok_def dropWhile_head drop_end_keep cstr_id)

lemma ctl_line_continuation:
  assumes "line_ok l" and "CHR 0x00 \<notin> set l" and "get_field f out = dst" and "CHR 0x00 \<notin> set dst" and "dst \<noteq> []"
    and "length dst + 1 + length l < field_cap f"
  shows "ctl_line (CHR '' '' # l) (Some f) out = (Some f, put_field f (dst @ CHR 0x0A # l) out)"
proof -
  have "last (CHR '' '' # l) \<noteq> CHR 0x0D" using assms(1) by (auto simp: line_ok_def iseol_def)
  with assms append_continuation_line [OF assms(1,2,4-6)] show ?thesis by (simp add: ctl_line_def)
qed

lemma put_put_field [simp]: "put_field f w (put_field f v c) = put_field f w c"
  by (cases f) simp_all

lemma get_put_same [simp]: "get_field f (put_field f v c) = v"
  by (simp add: get_put_field)

lemma put_get_field [simp]: "put_field f (get_field f c) c = c"
  by (cases f) simp_all

lemma ctl_loop_continuation:
  assumes "\<forall>l \<in> set ls. line_ok l \<and> CHR 0x0A \<notin> set l \<and> CHR 0x00 \<notin> set l" and "CHR 0x00 \<notin> set dst" and "dst \<noteq> []"
    and "length (dst @ concat (map (\<lambda>l. CHR 0x0A # l) ls)) < field_cap f" and "get_field f out = dst"
  shows "ctl_loop (concat (map (\<lambda>l. CHR '' '' # l @ [CHR 0x0A]) ls) @ rest) (Some f) out =
    ctl_loop rest (Some f) (put_field f (dst @ concat (map (\<lambda>l. CHR 0x0A # l) ls)) out)"
  using assms
proof (induction ls arbitrary: dst out)
  case (Cons l ls)
  let ?d = "dst @ CHR 0x0A # l" and ?o = "put_field f (dst @ CHR 0x0A # l) out"
  have c: "ctl_line (CHR '' '' # l) (Some f) out = (Some f, ?o)" using Cons.prems by (intro ctl_line_continuation) auto
  have n: "CHR 0x0A \<notin> set (CHR '' '' # l)" using Cons.prems(1) by simp
  have "ctl_loop (concat (map (\<lambda>l. CHR '' '' # l @ [CHR 0x0A]) ls) @ rest) (Some f) ?o =
      ctl_loop rest (Some f) (put_field f (?d @ concat (map (\<lambda>l. CHR 0x0A # l) ls)) ?o)"
    by (rule Cons.IH) (use Cons.prems in auto)
  with ctl_loop_line [OF n c, of "concat (map (\<lambda>l. CHR '' '' # l @ [CHR 0x0A]) ls) @ rest"] show ?case by simp
qed (use put_get_field in auto)

lemma field_name_facts: "\<forall>c \<in> set (field_name f). c \<noteq> CHR '':'' \<and> c \<noteq> CHR 0x0A" "field_name f \<noteq> []"
  "\<not> isblank (hd (field_name f))" "ctl_field (field_name f) = Some f"
  by (cases f; simp add: isblank_def ctl_field_def all_fields_def)+

lemma ctl_loop_field:
  assumes "value_ok (field_cap f) v"
  shows "ctl_loop (field_print f v @ rest) g out = ctl_loop rest (Some f) (put_field f v out)"
proof -
  have "split_nl v \<noteq> []" by (cases v) (auto split: list.splits)
  then obtain l ls where s: "split_nl v = l # ls" by (cases "split_nl v") auto
  note v = split_nl_lines [OF s]
  note ok = assms [unfolded value_ok_def s]
  have z: "CHR 0x00 \<notin> set l" "\<forall>l \<in> set ls. CHR 0x00 \<notin> set l"
  proof -
    have "CHR 0x00 \<notin> set (l @ concat (map (\<lambda>l. CHR 0x0A # l) ls))" using v ok by metis
    then show "CHR 0x00 \<notin> set l" "\<forall>l \<in> set ls. CHR 0x00 \<notin> set l" by (auto split: if_splits)
  qed
  have len: "length (l @ concat (map (\<lambda>l. CHR 0x0A # l) ls)) < field_cap f" using v ok by metis
  let ?r = "field_name f @ '': '' @ l"
  have lr: "last ?r \<noteq> CHR 0x0D" "hd ?r = hd (field_name f)" using ok field_name_facts(2) [of f] by (auto simp: line_ok_def iseol_def)
  have sp: "takeWhile (\<lambda>c. c \<noteq> CHR '':'') ?r = field_name f" "dropWhile (\<lambda>c. c \<noteq> CHR '':'') ?r = '': '' @ l"
    using field_name_facts(1) [of f] by (intro span_append; simp)+
  have "copy_value (field_cap f) (CHR '' '' # l) = l" using ok z(1) len by (intro copy_value_line) auto
  then have c: "ctl_line ?r g out = (Some f, put_field f l out)"
    unfolding ctl_line_def using lr field_name_facts [of f] by (simp add: sp [simplified])
  have n: "CHR 0x0A \<notin> set ?r" using v field_name_facts(1) [of f] by auto
  have p: "field_print f v = ?r @ CHR 0x0A # concat (map (\<lambda>l. CHR '' '' # l @ [CHR 0x0A]) ls)"
    using v [THEN conjunct2, THEN conjunct1] by (simp add: field_print_def)
  have "ctl_loop (concat (map (\<lambda>l. CHR '' '' # l @ [CHR 0x0A]) ls) @ rest) (Some f) (put_field f l out) =
      ctl_loop rest (Some f) (put_field f (l @ concat (map (\<lambda>l. CHR 0x0A # l) ls)) (put_field f l out))"
    by (rule ctl_loop_continuation) (use v ok z len in \<open>auto simp: line_ok_def\<close>)
  with ctl_loop_line [OF n c, of "concat (map (\<lambda>l. CHR '' '' # l @ [CHR 0x0A]) ls) @ rest"] v show ?thesis unfolding p by simp
qed

lemma ctl_loop_print:
  assumes "\<forall>f \<in> set fs. get_field f c = [] \<or> value_ok (field_cap f) (get_field f c)"
  shows "ctl_loop (concat (map (\<lambda>f. if get_field f c = [] then [] else field_print f (get_field f c)) fs)) g out =
    fold (\<lambda>f o'. if get_field f c = [] then o' else put_field f (get_field f c) o') fs out"
  using assms
proof (induction fs arbitrary: g out)
  case Nil
  then show ?case by (subst ctl_loop.simps) simp
next
  case (Cons f fs)
  then show ?case by (cases "get_field f c = []") (simp_all add: ctl_loop_field)
qed

lemma get_field_fold:
  "get_field g (fold (\<lambda>f o'. if get_field f c = [] then o' else put_field f (get_field f c) o') fs out) =
     (if g \<in> set fs \<and> get_field g c \<noteq> [] then get_field g c else get_field g out)"
  by (induction fs arbitrary: out) (auto simp: get_put_field)

lemma control_eqI:
  assumes "\<And>f. get_field f a = get_field f b"
  shows "a = (b :: deb_control)"
  using assms [of F_package] assms [of F_version] assms [of F_architecture] assms [of F_essential] assms [of F_priority]
    assms [of F_section] assms [of F_maintainer] assms [of F_installed_size] assms [of F_pre_depends] assms [of F_depends]
    assms [of F_recommends] assms [of F_suggests] assms [of F_description]
  by (cases a, cases b) simp

lemma all_fields_UNIV: "f \<in> set all_fields"
  by (cases f) (simp_all add: all_fields_def)

lemma deb_control_parse_print:
  assumes "control_ok c"
  shows "deb_control_parse (control_print c) = (0, c)"
proof -
  have "fold (\<lambda>f o'. if get_field f c = [] then o' else put_field f (get_field f c) o') all_fields control_zero = c"
  proof (rule control_eqI)
    fix f
    have "get_field f control_zero = []" by (cases f) (simp_all add: control_zero_def)
    then show "get_field f (fold (\<lambda>f o'. if get_field f c = [] then o' else put_field f (get_field f c) o') all_fields control_zero) = get_field f c"
      using all_fields_UNIV [of f] by (auto simp: get_field_fold)
  qed
  with ctl_loop_print [of all_fields c None control_zero] assms show ?thesis
    by (simp add: deb_control_parse_def control_print_def control_ok_def)
qed

section \<open>Properties\<close>

text \<open>Printing a control structure and parsing the text gives the structure back, values of several lines
  included.\<close>

theorem deb_control_roundtrip:
  assumes "control_ok c"
  shows "deb_control_parse (control_print c) = (0, c)"
  using assms by (rule deb_control_parse_print)

text \<open>Whatever the text, every value the parser stores fits its array with the terminating zero, and it reports
  success exactly when a package name and a version were found.\<close>

theorem deb_control_parse_within_arrays:
  "control_fits (snd (deb_control_parse s)) \<and>
   fst (deb_control_parse s) = (if c_package (snd (deb_control_parse s)) \<noteq> [] \<and> c_version (snd (deb_control_parse s)) \<noteq> [] then 0 else -2)"
  using ctl_loop_fits [OF control_fits_zero, of s None] by (simp add: deb_control_parse_def Let_def)

section \<open>Witnesses\<close>

definition demo_control :: deb_control where
  "demo_control = control_zero\<lparr>c_package := ''hello'', c_version := ''2.10-3'', c_depends := ''libc6 (>= 2.34)'',
     c_description := ''a greeting'' @ [CHR 0x0A] @ ''on two lines''\<rparr>"

theorem deb_control_roundtrip_witness:
  "deb_control_parse (control_print demo_control) = (0, demo_control) \<and>
   c_description (snd (deb_control_parse (control_print demo_control))) = ''a greeting'' @ [CHR 0x0A] @ ''on two lines''"
proof -
  have "control_ok demo_control"
    by (simp add: control_ok_def demo_control_def control_zero_def all_fields_def value_ok_def line_ok_def isblank_def iseol_def)
  from deb_control_roundtrip [OF this] show ?thesis by (simp add: demo_control_def)
qed

end
