(* ===== verification/Pkg_State.thy ===== *)
theory Pkg_State
  imports Deb_Control
begin

text \<open>
  The package database of the target (\<^verbatim>\<open>src/pkg_state.c\<close>): looking a package up in \<^verbatim>\<open>/var/lib/dpkg/status\<close>, listing it, and
  marking a package as installed.

  The database is its text, \<open>None\<close> where the file cannot be read. \<^verbatim>\<open>pkg_state_set_installed\<close> returns the text that it writes back, or
  its error code; the write itself belongs to the file system, and so does its failure. Memory is taken to be available: the -1 that the code returns
  when \<^verbatim>\<open>malloc\<close> or \<^verbatim>\<open>realloc\<close> fails is left out.

  On a database made of paragraphs that each end in a blank line, the lemmas give the operations on the list of paragraphs: lookup finds the first
  paragraph of the name, and marking changes the status lines of that package and nothing else.
\<close>

section \<open>Paragraphs\<close>

abbreviation NL :: char where "NL \<equiv> CHR 0x0A"

record pkg_state_entry =
  ps_package :: string
  ps_version :: string
  ps_state :: string

definition state_zero :: pkg_state_entry where
  "state_zero = \<lparr>ps_package = [], ps_version = [], ps_state = []\<rparr>"

definition cp :: "nat \<Rightarrow> string \<Rightarrow> string" where
  "cp cap a = cstr (take (cap - 1) (drop_end isspace (dropWhile isspace a)))"

definition para_line :: "string \<Rightarrow> pkg_state_entry \<Rightarrow> pkg_state_entry" where
  "para_line l e =
     (let k = takeWhile (\<lambda>c. c \<noteq> CHR '':'') l; v = drop (length k + 1) l
      in if k = l then e
         else if k = ''Package'' then e\<lparr>ps_package := cp 128 v\<rparr>
         else if k = ''Version'' then e\<lparr>ps_version := cp 128 v\<rparr>
         else if k = ''Status'' then e\<lparr>ps_state := cp 64 v\<rparr>
         else e)"

text \<open>The lines of a text, each without its newline; a newline at the end starts no further line.\<close>

function text_lines :: "string \<Rightarrow> string list" where
  "text_lines s = (if s = [] then [] else let l = takeWhile (\<lambda>c. c \<noteq> NL) s in l # text_lines (drop (length l + 1) s))"
  by pat_completeness auto
termination by (relation "measure length") auto

declare text_lines.simps [simp del]

definition parse_para :: "string \<Rightarrow> pkg_state_entry" where
  "parse_para s = fold para_line (text_lines s) state_zero"

text \<open>\<^verbatim>\<open>strstr (p, "\\n\\n")\<close>.\<close>

fun nlnl :: "string \<Rightarrow> nat option" where
  "nlnl (a # b # s) = (if a = CHR 0x00 then None else if a = NL \<and> b = NL then Some 0 else map_option Suc (nlnl (b # s)))"
| "nlnl s = None"

definition first_para :: "string \<Rightarrow> string" where
  "first_para s = (case nlnl s of None \<Rightarrow> s | Some k \<Rightarrow> take k s)"

definition after_para :: "string \<Rightarrow> string" where
  "after_para s = (case nlnl s of None \<Rightarrow> [] | Some k \<Rightarrow> drop (k + 2) s)"

lemma after_para_shorter: "s \<noteq> [] \<Longrightarrow> length (after_para s) < length s"
  by (auto simp: after_para_def split: option.splits)

section \<open>Operations\<close>

function paras :: "string \<Rightarrow> string list" where
  "paras s = (if s = [] then [] else first_para s # paras (after_para s))"
  by pat_completeness auto
termination by (relation "measure length") (auto simp: after_para_shorter)

declare paras.simps [simp del]

definition pkg_state_lookup :: "string option \<Rightarrow> string \<Rightarrow> int + pkg_state_entry" where
  "pkg_state_lookup status pkg =
     (case status of None \<Rightarrow> Inl (-1)
      | Some s \<Rightarrow> (case find (\<lambda>x. ps_package x = pkg) (map parse_para (paras s)) of None \<Rightarrow> Inl 1 | Some x \<Rightarrow> Inr x))"

text \<open>What \<^verbatim>\<open>pkg_state_list\<close> prints: package, version and the last word of the state.\<close>

definition state_word :: "string \<Rightarrow> string" where
  "state_word s = (case split_last (\<lambda>c. c = CHR '' '') s of None \<Rightarrow> s | Some (a, w) \<Rightarrow> if w = [] then s else w)"

definition pkg_state_list :: "string option \<Rightarrow> (string \<times> string \<times> string) list option" where
  "pkg_state_list status =
     (case status of None \<Rightarrow> None
      | Some s \<Rightarrow> Some (map (\<lambda>x. (ps_package x, ps_version x, state_word (ps_state x))) (filter (\<lambda>x. ps_package x \<noteq> []) (map parse_para (paras s)))))"

definition installed_line :: string where
  "installed_line = ''Status: install ok installed'' @ [NL]"

function mark_lines :: "string \<Rightarrow> string" where
  "mark_lines s =
     (if s = [] then []
      else let l = takeWhile (\<lambda>c. c \<noteq> NL) s; r = drop (length l) s
           in (if take 7 l = ''Status:'' then installed_line else l @ take 1 r) @ mark_lines (drop (length l + 1) s))"
  by pat_completeness auto
termination by (relation "measure length") auto

declare mark_lines.simps [simp del]

definition end_nl :: "string \<Rightarrow> string" where
  "end_nl out = (if out = [] \<or> last out \<noteq> NL then out @ [NL] else out)"

function mark_loop :: "string \<Rightarrow> string \<Rightarrow> string \<Rightarrow> bool \<Rightarrow> string \<times> bool" where
  "mark_loop pkg s out found =
     (if s = [] then (out, found)
      else let p = first_para s; m = (ps_package (parse_para p) = pkg);
               out = (if m then out @ mark_lines p else end_nl (out @ p));
               out = (if nlnl s \<noteq> None then end_nl out @ [NL] else out)
           in mark_loop pkg (after_para s) out (found \<or> m))"
  by pat_completeness auto
termination by (relation "measure (\<lambda>(pkg, s, out, found). length s)") (auto simp: after_para_shorter)

declare mark_loop.simps [simp del]

definition pkg_state_set_installed :: "string option \<Rightarrow> string \<Rightarrow> int + string" where
  "pkg_state_set_installed status pkg =
     (case status of None \<Rightarrow> Inl (-1)
      | Some s \<Rightarrow> (case mark_loop pkg s [] False of (out, found) \<Rightarrow> if found then Inr out else Inl 1))"

section \<open>A database as a list of paragraphs\<close>

definition line_fine :: "string \<Rightarrow> bool" where
  "line_fine l \<longleftrightarrow> l \<noteq> [] \<and> NL \<notin> set l \<and> CHR 0x00 \<notin> set l"

definition para_fine :: "string list \<Rightarrow> bool" where
  "para_fine p \<longleftrightarrow> p \<noteq> [] \<and> (\<forall>l \<in> set p. line_fine l)"

definition para_text :: "string list \<Rightarrow> string" where
  "para_text p = concat (map (\<lambda>l. l @ [NL]) p)"

definition db_text :: "string list list \<Rightarrow> string" where
  "db_text ps = concat (map (\<lambda>p. para_text p @ [NL]) ps)"

text \<open>A paragraph without its last newline, which is what the loops see of it.\<close>

fun para_body :: "string list \<Rightarrow> string" where
  "para_body [] = []"
| "para_body [l] = l"
| "para_body (l # m # p) = l @ NL # para_body (m # p)"

definition para_entry :: "string list \<Rightarrow> pkg_state_entry" where
  "para_entry p = fold para_line p state_zero"

definition mark_line :: "string \<Rightarrow> string" where
  "mark_line l = (if take 7 l = ''Status:'' then ''Status: install ok installed'' else l)"

lemma para_text_body: "p \<noteq> [] \<Longrightarrow> para_text p = para_body p @ [NL]"
  by (induction p rule: para_body.induct) (simp_all add: para_text_def)

lemma nlnl_line: "NL \<notin> set l \<Longrightarrow> CHR 0x00 \<notin> set l \<Longrightarrow> l \<noteq> [] \<Longrightarrow> nlnl (l @ b # s) = map_option ((+) (length l)) (nlnl (b # s))"
proof (induction l)
  case (Cons x l)
  show ?case
  proof (cases "l = []")
    case True
    then show ?thesis using Cons.prems by (cases "nlnl (b # s)") auto
  next
    case False
    then have ih: "nlnl (l @ b # s) = map_option ((+) (length l)) (nlnl (b # s))" using Cons.IH Cons.prems by simp
    obtain y ys where "l = y # ys" using False by (cases l) auto
    then have "nlnl ((x # l) @ b # s) = map_option Suc (nlnl (l @ b # s))" using Cons.prems by auto
    then show ?thesis unfolding ih by (cases "nlnl (b # s)") simp_all
  qed
qed simp

lemma nlnl_para: "para_fine p \<Longrightarrow> nlnl (para_body p @ NL # NL # r) = Some (length (para_body p))"
proof (induction p rule: para_body.induct)
  case (2 l)
  then show ?case using nlnl_line [of l NL "NL # r"] by (simp add: para_fine_def line_fine_def)
next
  case (3 l m p)
  have ok: "line_fine l" "para_fine (m # p)" using 3(2) by (auto simp: para_fine_def)
  obtain x xs where x: "para_body (m # p) = x # xs" "x \<noteq> NL"
    using ok(2) by (cases m; cases p) (auto simp: para_fine_def line_fine_def)
  have "nlnl (l @ NL # x # xs @ NL # NL # r) = map_option ((+) (length l)) (nlnl (NL # x # xs @ NL # NL # r))"
    using nlnl_line [of l NL "x # xs @ NL # NL # r"] ok(1) by (simp add: line_fine_def)
  also have "nlnl (NL # x # xs @ NL # NL # r) = map_option Suc (nlnl (x # xs @ NL # NL # r))" using x(2) by simp
  finally show ?case using 3(1) [OF ok(2)] x(1) by simp
qed (simp add: para_fine_def)

lemma takeWhile_line: "NL \<notin> set l \<Longrightarrow> takeWhile (\<lambda>c. c \<noteq> NL) (l @ NL # s) = l" "NL \<notin> set l \<Longrightarrow> takeWhile (\<lambda>c. c \<noteq> NL) l = l"
  by (auto simp: takeWhile_append takeWhile_eq_all_conv)

lemma text_lines_body: "para_fine p \<Longrightarrow> text_lines (para_body p) = p"
proof (induction p rule: para_body.induct)
  case (2 l)
  then have "l \<noteq> []" "NL \<notin> set l" by (auto simp: para_fine_def line_fine_def)
  then show ?case by (simp add: text_lines.simps [of l] text_lines.simps [of "[]"] takeWhile_line)
next
  case (3 l m p)
  have ok: "line_fine l" "para_fine (m # p)" using 3(2) by (auto simp: para_fine_def)
  then show ?case using 3(1)
    by (simp add: text_lines.simps [of "l @ NL # para_body (m # p)"] takeWhile_line line_fine_def Let_def)
qed (simp add: para_fine_def)

lemma mark_lines_body: "para_fine p \<Longrightarrow> end_nl (out @ mark_lines (para_body p)) = out @ para_text (map mark_line p)"
proof (induction p arbitrary: out rule: para_body.induct)
  case (2 l)
  then have l: "l \<noteq> []" "NL \<notin> set l" by (auto simp: para_fine_def line_fine_def)
  then have e: "mark_lines l = (if take 7 l = ''Status:'' then installed_line else l)"
    by (simp add: mark_lines.simps [of l] mark_lines.simps [of "[]"] takeWhile_line)
  have "last l \<noteq> NL" using l by (metis last_in_set)
  with l show ?case by (simp add: e end_nl_def mark_line_def installed_line_def para_text_def)
next
  case (3 l m p)
  have ok: "line_fine l" "para_fine (m # p)" using 3(2) by (auto simp: para_fine_def)
  have e: "mark_lines (l @ NL # para_body (m # p)) = mark_line l @ [NL] @ mark_lines (para_body (m # p))"
    using ok(1) by (simp add: mark_lines.simps [of "l @ NL # para_body (m # p)"] takeWhile_line line_fine_def Let_def mark_line_def installed_line_def)
  have "end_nl (out @ mark_lines (para_body (l # m # p))) = (out @ mark_line l @ [NL]) @ para_text (map mark_line (m # p))"
    unfolding para_body.simps e using 3(1) [OF ok(2), of "out @ mark_line l @ [NL]"] by (simp only: append_assoc)
  then show ?case by (simp add: para_text_def)
qed (simp add: para_fine_def)

lemma db_step:
  assumes "para_fine p"
  shows "nlnl (db_text (p # ps)) = Some (length (para_body p))" and "first_para (db_text (p # ps)) = para_body p"
    and "after_para (db_text (p # ps)) = db_text ps" and "db_text (p # ps) \<noteq> []"
proof -
  have t: "db_text (p # ps) = para_body p @ NL # NL # db_text ps"
    using assms by (simp add: db_text_def para_text_body para_fine_def)
  show n: "nlnl (db_text (p # ps)) = Some (length (para_body p))" unfolding t by (rule nlnl_para [OF assms])
  show "first_para (db_text (p # ps)) = para_body p" "after_para (db_text (p # ps)) = db_text ps" "db_text (p # ps) \<noteq> []"
    unfolding first_para_def after_para_def n unfolding t by simp_all
qed

lemma parse_para_body: "para_fine p \<Longrightarrow> parse_para (para_body p) = para_entry p"
  by (simp add: parse_para_def para_entry_def text_lines_body)

lemma paras_db: "\<forall>p \<in> set ps. para_fine p \<Longrightarrow> map parse_para (paras (db_text ps)) = map para_entry ps"
proof (induction ps)
  case (Cons p ps)
  then show ?case using db_step [of p ps] by (simp add: paras.simps [of "db_text (p # ps)"] parse_para_body)
qed (simp add: paras.simps db_text_def)

definition mark_para :: "string \<Rightarrow> string list \<Rightarrow> string list" where
  "mark_para pkg p = (if ps_package (para_entry p) = pkg then map mark_line p else p)"

lemma mark_loop_db:
  "\<forall>p \<in> set ps. para_fine p \<Longrightarrow>
   mark_loop pkg (db_text ps) out found = (out @ db_text (map (mark_para pkg) ps), found \<or> (\<exists>p \<in> set ps. ps_package (para_entry p) = pkg))"
proof (induction ps arbitrary: out found)
  case (Cons p ps)
  have ok: "para_fine p" using Cons.prems by simp
  note st = db_step [OF ok, of ps]
  have ne: "p \<noteq> []" "para_body p \<noteq> []" "last (para_body p) \<noteq> NL"
  proof -
    show "p \<noteq> []" using ok by (simp add: para_fine_def)
    show "para_body p \<noteq> []" "last (para_body p) \<noteq> NL" using ok
      by (induction p rule: para_body.induct) (auto simp: para_fine_def line_fine_def dest: last_in_set)
  qed
  have nm: "end_nl (end_nl (out @ para_body p)) = out @ para_text p"
    using ne by (simp add: end_nl_def para_text_body)
  let ?m = "ps_package (para_entry p) = pkg"
  have "mark_loop pkg (db_text (p # ps)) out found =
     mark_loop pkg (db_text ps) (out @ para_text (mark_para pkg p) @ [NL]) (found \<or> ?m)"
    using st nm mark_lines_body [OF ok, of out]
    by (simp add: mark_loop.simps [of pkg "db_text (p # ps)"] parse_para_body [OF ok] Let_def mark_para_def)
  then show ?case using Cons by (auto simp: db_text_def)
qed (simp add: mark_loop.simps db_text_def)

section \<open>What marking changes\<close>

definition INSTALLED :: string where
  "INSTALLED = ''install ok installed''"

definition has_status :: "string list \<Rightarrow> bool" where
  "has_status p \<longleftrightarrow> list_ex (\<lambda>l. take 7 l = ''Status:'') p"

lemma colon_split: "CHR '':'' \<in> set l \<Longrightarrow> \<exists>k r. l = k @ CHR '':'' # r \<and> CHR '':'' \<notin> set k"
  using split_list_first by fastforce

lemma key_of: "CHR '':'' \<notin> set k \<Longrightarrow> takeWhile (\<lambda>c. c \<noteq> CHR '':'') (k @ CHR '':'' # r) = k"
  by (auto simp: takeWhile_append takeWhile_eq_all_conv)

lemma no_key: "CHR '':'' \<notin> set l \<Longrightarrow> takeWhile (\<lambda>c. c \<noteq> CHR '':'') l = l"
  by (auto simp: takeWhile_eq_all_conv)

lemma para_line_key:
  "CHR '':'' \<notin> set k \<Longrightarrow> para_line (k @ CHR '':'' # r) e =
     (if k = ''Package'' then e\<lparr>ps_package := cp 128 r\<rparr> else if k = ''Version'' then e\<lparr>ps_version := cp 128 r\<rparr>
      else if k = ''Status'' then e\<lparr>ps_state := cp 64 r\<rparr> else e)"
  unfolding para_line_def Let_def key_of by simp

lemma para_line_no_key: "CHR '':'' \<notin> set l \<Longrightarrow> para_line l e = e"
  by (simp add: para_line_def no_key)

lemma status_key: "CHR '':'' \<notin> set k \<Longrightarrow> take 7 (k @ CHR '':'' # r) = ''Status:'' \<longleftrightarrow> k = ''Status''"
proof
  assume k: "CHR '':'' \<notin> set k" and t: "take 7 (k @ CHR '':'' # r) = ''Status:''"
  have "k @ CHR '':'' # r = ''Status'' @ CHR '':'' # drop 7 (k @ CHR '':'' # r)"
    using append_take_drop_id [of 7 "k @ CHR '':'' # r"] unfolding t by simp
  then have "takeWhile (\<lambda>c. c \<noteq> CHR '':'') (k @ CHR '':'' # r) = ''Status''" by simp
  then show "k = ''Status''" unfolding key_of [OF k] .
qed simp

lemma status_no_key: "CHR '':'' \<notin> set l \<Longrightarrow> take 7 l \<noteq> ''Status:''"
  by (metis in_set_takeD list.set_intros)

lemma para_line_mark:
  fixes e :: pkg_state_entry
  shows "para_line (mark_line l) (e\<lparr>ps_state := s\<rparr>) = (para_line l e)\<lparr>ps_state := if take 7 l = ''Status:'' then INSTALLED else s\<rparr>"
proof (cases "CHR '':'' \<in> set l")
  case True
  then obtain k r where l: "l = k @ CHR '':'' # r" and k: "CHR '':'' \<notin> set k" using colon_split by blast
  have i: "cp 64 '' install ok installed'' = INSTALLED" by code_simp
  have "para_line ''Status: install ok installed'' e' = e'\<lparr>ps_state := INSTALLED\<rparr>" for e'
    using para_line_key [of "''Status''" "'' install ok installed''" e'] by (simp add: i)
  moreover have "para_line (k @ CHR '':'' # r) (e\<lparr>ps_state := s\<rparr>) = (para_line (k @ CHR '':'' # r) e)\<lparr>ps_state := s\<rparr>" if "k \<noteq> ''Status''"
    unfolding para_line_key [OF k] using that by simp
  moreover have "para_line (k @ CHR '':'' # r) e = e\<lparr>ps_state := cp 64 r\<rparr>" if "k = ''Status''"
    unfolding para_line_key [OF k] using that by simp
  ultimately show ?thesis unfolding l mark_line_def status_key [OF k] by (cases "k = ''Status''") simp_all
next
  case False
  then show ?thesis using status_no_key [OF False] by (simp add: mark_line_def para_line_no_key)
qed

lemma fold_mark:
  fixes e :: pkg_state_entry
  shows "fold para_line (map mark_line p) (e\<lparr>ps_state := s\<rparr>) = (fold para_line p e)\<lparr>ps_state := if has_status p then INSTALLED else s\<rparr>"
  by (induction p arbitrary: e s) (simp_all add: has_status_def para_line_mark)

lemma para_entry_mark: "para_entry (map mark_line p) = (para_entry p)\<lparr>ps_state := if has_status p then INSTALLED else []\<rparr>"
  using fold_mark [of p "[]" state_zero] by (simp add: para_entry_def state_zero_def)

lemma para_fine_mark: "para_fine p \<Longrightarrow> para_fine (mark_para pkg p)"
  by (auto simp: para_fine_def mark_para_def line_fine_def mark_line_def)

lemma find_mark: "q \<noteq> pkg \<Longrightarrow> find (\<lambda>x. ps_package x = q) (map (para_entry \<circ> mark_para pkg) ps) = find (\<lambda>x. ps_package x = q) (map para_entry ps)"
  by (induction ps) (auto simp: mark_para_def para_entry_mark)

lemma find_marked:
  "find (\<lambda>p. ps_package (para_entry p) = pkg) ps = Some p \<Longrightarrow>
   find (\<lambda>x. ps_package x = pkg) (map (para_entry \<circ> mark_para pkg) ps) = Some ((para_entry p)\<lparr>ps_state := if has_status p then INSTALLED else []\<rparr>)"
  by (induction ps) (auto simp: mark_para_def para_entry_mark split: if_splits)

section \<open>Properties\<close>

text \<open>C37. \<^verbatim>\<open>pkg_state_set_installed\<close> marks one package and nothing else. On a database of paragraphs in which the package occurs,
  the text written back is the same paragraphs with the status lines of that package replaced. Reading it, the package is found with its version
  as before; its state is \<^verbatim>\<open>install ok installed\<close> when its paragraph has a \<^verbatim>\<open>Status\<close> line, and empty when it has none, as no line is
  added then although the call succeeds. Every other package is found exactly as before.\<close>

theorem set_installed_exact:
  assumes "\<forall>p \<in> set ps. para_fine p" and "find (\<lambda>p. ps_package (para_entry p) = pkg) ps = Some p"
  shows "\<exists>t. pkg_state_set_installed (Some (db_text ps)) pkg = Inr t \<and> t = db_text (map (mark_para pkg) ps) \<and>
    pkg_state_lookup (Some t) pkg = Inr ((para_entry p)\<lparr>ps_state := if has_status p then INSTALLED else []\<rparr>) \<and>
    (\<forall>q. q \<noteq> pkg \<longrightarrow> pkg_state_lookup (Some t) q = pkg_state_lookup (Some (db_text ps)) q)"
proof -
  let ?t = "db_text (map (mark_para pkg) ps)"
  have ex: "\<exists>p \<in> set ps. ps_package (para_entry p) = pkg" using assms(2) by (auto simp: find_Some_iff)
  have m: "map parse_para (paras ?t) = map (para_entry \<circ> mark_para pkg) ps"
    using paras_db [of "map (mark_para pkg) ps"] para_fine_mark assms(1) by simp
  have "pkg_state_set_installed (Some (db_text ps)) pkg = Inr ?t"
    using mark_loop_db [OF assms(1), of pkg "[]" False] ex by (simp add: pkg_state_set_installed_def)
  then show ?thesis
    using find_marked [OF assms(2)] find_mark [of _ pkg ps] paras_db [OF assms(1)] by (simp add: pkg_state_lookup_def m)
qed

definition demo_db :: "string list list" where
  "demo_db = [[''Package: a'', ''Status: install ok unpacked'', ''Version: 1.0''], [''Package: b'', ''Version: 2'', ''Status: deinstall ok'']]"

theorem set_installed_exact_witness:
  "\<exists>t. pkg_state_set_installed (Some (db_text demo_db)) ''b'' = Inr t \<and>
     pkg_state_lookup (Some t) ''b'' = Inr \<lparr>ps_package = ''b'', ps_version = ''2'', ps_state = ''install ok installed''\<rparr> \<and>
     pkg_state_lookup (Some t) ''a'' = Inr \<lparr>ps_package = ''a'', ps_version = ''1.0'', ps_state = ''install ok unpacked''\<rparr>"
proof -
  let ?p = "[''Package: b'', ''Version: 2'', ''Status: deinstall ok'']"
  have e: "para_entry ?p = \<lparr>ps_package = ''b'', ps_version = ''2'', ps_state = ''deinstall ok''\<rparr>"
    "para_entry [''Package: a'', ''Status: install ok unpacked'', ''Version: 1.0''] = \<lparr>ps_package = ''a'', ps_version = ''1.0'', ps_state = ''install ok unpacked''\<rparr>"
    by code_simp+
  have f: "find (\<lambda>p. ps_package (para_entry p) = ''b'') demo_db = Some ?p" by (simp add: demo_db_def e)
  have ok: "\<forall>p \<in> set demo_db. para_fine p" by (simp add: demo_db_def para_fine_def line_fine_def)
  have h: "has_status ?p" by code_simp
  have a: "pkg_state_lookup (Some (db_text demo_db)) ''a'' = Inr \<lparr>ps_package = ''a'', ps_version = ''1.0'', ps_state = ''install ok unpacked''\<rparr>"
    using paras_db [OF ok] by (simp add: pkg_state_lookup_def) (simp add: demo_db_def e)
  from set_installed_exact [OF ok f] h a e(1) show ?thesis by (auto simp: INSTALLED_def)
qed

end
