(* ===== verification/Deflate.thy ===== *)
theory Deflate
  imports Inflate
begin

text \<open>
  A reference encoder for DEFLATE streams, as RFC 1951 describes the format, and the theorem that \<^verbatim>\<open>inflate_raw\<close> of
  \<^verbatim>\<open>src/gu_gzip.c\<close> decodes what it writes: stored blocks, blocks with the fixed codes and blocks that carry their own codes,
  in any order, with literals and matches, overlapping ones included.

  The encoder leaves every choice to its caller: which symbols stand for the data, which code lengths and which symbols of the code
  length code a dynamic block uses. The theorem holds for all choices that the format allows.
\<close>

section \<open>Bits of numbers\<close>

definition lsb_bits :: "nat \<Rightarrow> nat \<Rightarrow> bool list" where
  "lsb_bits n v = map (bit v) [0..<n]"

lemma length_lsb_bits [simp]: "length (lsb_bits n v) = n"
  by (simp add: lsb_bits_def)

lemma lsb_lsb_bits: "v < 2 ^ n \<Longrightarrow> lsb (lsb_bits n v) = v"
  by (simp add: lsb_def lsb_bits_def horner_sum_bit_eq_take_bit take_bit_nat_eq_self)

lemma getbits_lsb:
  assumes "reads br (lsb_bits n v @ rest)" and "v < 2 ^ n" and "n \<le> 16"
  shows "\<exists>br'. getbits br n = Some (v, br') \<and> reads br' rest"
  using getbits_reads [OF assms(1)] assms(2,3) by (simp add: lsb_lsb_bits)

lemma get_extra_lsb:
  assumes "reads br (lsb_bits n v @ rest)" and "v < 2 ^ n" and "n \<le> 16"
  shows "\<exists>br'. get_extra br n = Some (v, br') \<and> reads br' rest"
  using getbits_lsb [OF assms] assms(1,2) by (cases "n = 0") (simp_all add: get_extra_def lsb_bits_def)

section \<open>Literals and matches\<close>

datatype token = Literal byte | Match nat nat nat nat

text \<open>A match is a length code, its extra bits, a distance code and its extra bits.\<close>

definition match_len :: "nat \<Rightarrow> nat \<Rightarrow> nat" where
  "match_len li e = lbase ! li + e"

definition match_dist :: "nat \<Rightarrow> nat \<Rightarrow> nat" where
  "match_dist di de = dbase ! di + de"

fun tok_bits :: "nat list \<Rightarrow> nat list \<Rightarrow> token \<Rightarrow> bool list" where
  "tok_bits ll dl (Literal b) = code_bits ll (unat b)"
| "tok_bits ll dl (Match li e di de) =
     code_bits ll (257 + li) @ lsb_bits (lext ! li) e @ code_bits dl di @ lsb_bits (dext ! di) de"

text \<open>What a match stands for: the bytes \<open>dist\<close> back, repeated as often as the length asks.\<close>

fun tok_out :: "byte list \<Rightarrow> token \<Rightarrow> byte list" where
  "tok_out out (Literal b) = out @ [b]"
| "tok_out out (Match li e di de) =
     out @ map (\<lambda>k. out ! (length out - match_dist di de + k mod match_dist di de)) [0..<match_len li e]"

fun tok_ok :: "nat list \<Rightarrow> nat list \<Rightarrow> byte list \<Rightarrow> token \<Rightarrow> bool" where
  "tok_ok ll dl out (Literal b) \<longleftrightarrow> ll ! unat b \<noteq> 0"
| "tok_ok ll dl out (Match li e di de) \<longleftrightarrow>
     li < 29 \<and> 257 + li < length ll \<and> ll ! (257 + li) \<noteq> 0 \<and> e < 2 ^ (lext ! li) \<and>
     di < 30 \<and> di < length dl \<and> dl ! di \<noteq> 0 \<and> de < 2 ^ (dext ! di) \<and> match_dist di de \<le> length out"

fun toks_ok :: "nat list \<Rightarrow> nat list \<Rightarrow> byte list \<Rightarrow> token list \<Rightarrow> bool" where
  "toks_ok ll dl out [] \<longleftrightarrow> True"
| "toks_ok ll dl out (t # ts) \<longleftrightarrow> tok_ok ll dl out t \<and> toks_ok ll dl (tok_out out t) ts"

lemma tok_out_grows: "length out \<le> length (tok_out out t)"
  by (cases t) simp_all

lemma toks_out_grows: "length out \<le> length (foldl tok_out out ts)"
  by (induction ts arbitrary: out) (auto intro: order_trans [OF tok_out_grows])

lemma copy_match_periodic:
  assumes "0 < d" and "d \<le> length out"
  shows "copy_match n (length out - d + k) (out @ map (\<lambda>k. out ! (length out - d + k mod d)) [0..<k]) =
    out @ map (\<lambda>k. out ! (length out - d + k mod d)) [0..<k + n]"
proof (induction n arbitrary: k)
  case (Suc n)
  let ?f = "\<lambda>k. out ! (length out - d + k mod d)"
  have "(out @ map ?f [0..<k]) ! (length out - d + k) = ?f k"
  proof (cases "k < d")
    case True
    then have "length out - d + k < length out" using assms by simp
    then show ?thesis using True by (simp only: nth_append if_True mod_less)
  next
    case False
    then have "length out - d + k = length out + (k - d)" "k - d < k" using assms by simp_all
    then show ?thesis using False by (simp add: nth_append le_mod_geq)
  qed
  then show ?case using Suc.IH [of "Suc k"] by simp
qed simp

lemma copy_match_spec:
  "0 < d \<Longrightarrow> d \<le> length out \<Longrightarrow> copy_match n (length out - d) out = out @ map (\<lambda>k. out ! (length out - d + k mod d)) [0..<n]"
  using copy_match_periodic [of d out n 0] by simp

lemma extra_small: "li < 29 \<Longrightarrow> lext ! li \<le> 16" "di < 30 \<Longrightarrow> dext ! di \<le> 16" "di < 30 \<Longrightarrow> 0 < dbase ! di"
proof -
  have "\<forall>x \<in> set lext. x \<le> 16" "\<forall>x \<in> set dext. x \<le> 16" "\<forall>x \<in> set dbase. 0 < x" by (simp_all add: lext_def dext_def dbase_def)
  moreover have "length lext = 29" "length dext = 30" "length dbase = 30" by (simp_all add: lext_def dext_def dbase_def)
  ultimately show "li < 29 \<Longrightarrow> lext ! li \<le> 16" "di < 30 \<Longrightarrow> dext ! di \<le> 16" "di < 30 \<Longrightarrow> 0 < dbase ! di"
    by (metis nth_mem)+
qed

section \<open>Decoding the symbols of a block\<close>

definition tables_for :: "nat list \<Rightarrow> nat list \<Rightarrow> huffman \<Rightarrow> huffman \<Rightarrow> bool" where
  "tables_for ll dl litlen dist \<longleftrightarrow> fst (huff_build ll) = litlen \<and> 0 \<le> snd (huff_build ll) \<and>
     fst (huff_build dl) = dist \<and> 0 \<le> snd (huff_build dl) \<and>
     257 \<le> length ll \<and> length ll \<le> MAXCODES \<and> length dl \<le> MAXCODES \<and> ll ! 256 \<noteq> 0"

lemma tables_decode:
  assumes "tables_for ll dl litlen dist"
  shows "s < length ll \<Longrightarrow> ll ! s \<noteq> 0 \<Longrightarrow> reads br (code_bits ll s @ rest) \<Longrightarrow> \<exists>br'. huff_decode br litlen = Some (s, br') \<and> reads br' rest"
    and "s < length dl \<Longrightarrow> dl ! s \<noteq> 0 \<Longrightarrow> reads br (code_bits dl s @ rest) \<Longrightarrow> \<exists>br'. huff_decode br dist = Some (s, br') \<and> reads br' rest"
  using huff_decode_canon [of ll litlen "snd (huff_build ll)" s br rest] huff_decode_canon [of dl dist "snd (huff_build dl)" s br rest] assms
  by (auto simp: tables_for_def prod_eq_iff)

lemma read_match_bits:
  assumes "tables_for ll dl litlen dist" and "tok_ok ll dl out (Match li e di de)"
    and "reads br (lsb_bits (lext ! li) e @ code_bits dl di @ lsb_bits (dext ! di) de @ rest)"
    and "length (tok_out out (Match li e di de)) \<le> outcap"
  shows "\<exists>br'. read_match br dist outcap out (257 + li) = Inr (br', tok_out out (Match li e di de)) \<and> reads br' rest"
proof -
  from assms(2) have t: "li < 29" "e < 2 ^ (lext ! li)" "di < 30" "di < length dl" "dl ! di \<noteq> 0" "de < 2 ^ (dext ! di)" "match_dist di de \<le> length out"
    by simp_all
  obtain br1 where b1: "get_extra br (lext ! li) = Some (e, br1)" "reads br1 (code_bits dl di @ lsb_bits (dext ! di) de @ rest)"
    using get_extra_lsb [OF assms(3) t(2) extra_small(1) [OF t(1)]] by blast
  obtain br2 where b2: "huff_decode br1 dist = Some (di, br2)" "reads br2 (lsb_bits (dext ! di) de @ rest)"
    using tables_decode(2) [OF assms(1) t(4,5) b1(2)] by blast
  obtain br3 where b3: "get_extra br2 (dext ! di) = Some (de, br3)" "reads br3 rest"
    using get_extra_lsb [OF b2(2) t(6) extra_small(2) [OF t(3)]] by blast
  have d: "0 < match_dist di de" using extra_small(3) [OF t(3)] by (simp add: match_dist_def)
  have "lbase ! li + e \<le> outcap - length out" using assms(4) by (simp add: match_len_def)
  with b1(1) b2(1) b3 t(3,7) d copy_match_spec [OF d t(7)] show ?thesis
    by (auto simp: read_match_def match_len_def match_dist_def Let_def)
qed

lemma inflate_codes_bits:
  assumes "tables_for ll dl litlen dist"
  shows "toks_ok ll dl out ts \<Longrightarrow> length (foldl tok_out out ts) \<le> outcap \<Longrightarrow>
     reads br (concat (map (tok_bits ll dl) ts) @ code_bits ll 256 @ rest) \<Longrightarrow>
     \<exists>br'. inflate_codes br litlen dist outcap out = Inr (br', foldl tok_out out ts) \<and> reads br' rest"
proof (induction ts arbitrary: br out)
  case Nil
  have "256 < length ll" "ll ! 256 \<noteq> 0" using assms by (simp_all add: tables_for_def)
  from tables_decode(1) [OF assms this] Nil show ?case by (force simp: inflate_codes.simps [of br])
next
  case (Cons t ts)
  let ?rest = "concat (map (tok_bits ll dl) ts) @ code_bits ll 256 @ rest"
  have cap: "length (tok_out out t) \<le> outcap" using toks_out_grows [of "tok_out out t" ts] Cons.prems(2) by simp
  show ?case
  proof (cases t)
    case (Literal b)
    have b: "unat b < length ll" "ll ! unat b \<noteq> 0" "unat b < 256"
      using assms Cons.prems(1) Literal order_less_le_trans [OF unat_u8_less [of b]] by (auto simp: tables_for_def)
    obtain br1 where "huff_decode br litlen = Some (unat b, br1)" "reads br1 ?rest"
      using tables_decode(1) [OF assms b(1,2), of br ?rest] Cons.prems(3) Literal by auto
    with Cons.IH [of "out @ [b]" br1] Cons.prems Literal cap b(3) show ?thesis
      by (simp add: inflate_codes.simps [of br])
  next
    case (Match li e di de)
    have l: "257 + li < length ll" "ll ! (257 + li) \<noteq> 0" "li < 29" using Cons.prems(1) Match by simp_all
    obtain br1 where b1: "huff_decode br litlen = Some (257 + li, br1)"
      "reads br1 (lsb_bits (lext ! li) e @ code_bits dl di @ lsb_bits (dext ! di) de @ ?rest)"
      using tables_decode(1) [OF assms l(1,2), of br] Cons.prems(3) Match by auto
    obtain br2 where b2: "read_match br1 dist outcap out (257 + li) = Inr (br2, tok_out out t)" "reads br2 ?rest"
      using read_match_bits [OF assms _ b1(2), of out outcap] Cons.prems(1) Match cap by auto
    obtain br' where "inflate_codes br2 litlen dist outcap (tok_out out t) = Inr (br', foldl tok_out (tok_out out t) ts)" "reads br' rest"
      using Cons.IH [OF _ _ b2(2)] Cons.prems(1,2) by auto
    with b1(1) b2(1) l(3) show ?thesis by (simp add: inflate_codes.simps [of br])
  qed
qed


section \<open>The header of a dynamic block\<close>

datatype clop = LenIs nat | LenRepeat nat | ZeroShort nat | ZeroLong nat

fun clop_bits :: "nat list \<Rightarrow> clop \<Rightarrow> bool list" where
  "clop_bits cl (LenIs n) = code_bits cl n"
| "clop_bits cl (LenRepeat e) = code_bits cl 16 @ lsb_bits 2 e"
| "clop_bits cl (ZeroShort e) = code_bits cl 17 @ lsb_bits 3 e"
| "clop_bits cl (ZeroLong e) = code_bits cl 18 @ lsb_bits 7 e"

fun clop_out :: "nat list \<Rightarrow> clop \<Rightarrow> nat list" where
  "clop_out lens (LenIs n) = lens @ [n]"
| "clop_out lens (LenRepeat e) = lens @ replicate (3 + e) (last lens)"
| "clop_out lens (ZeroShort e) = lens @ replicate (3 + e) 0"
| "clop_out lens (ZeroLong e) = lens @ replicate (11 + e) 0"

fun clop_ok :: "nat list \<Rightarrow> nat list \<Rightarrow> clop \<Rightarrow> bool" where
  "clop_ok cl lens (LenIs n) \<longleftrightarrow> n \<le> 15 \<and> cl ! n \<noteq> 0"
| "clop_ok cl lens (LenRepeat e) \<longleftrightarrow> lens \<noteq> [] \<and> e < 4 \<and> cl ! 16 \<noteq> 0"
| "clop_ok cl lens (ZeroShort e) \<longleftrightarrow> e < 8 \<and> cl ! 17 \<noteq> 0"
| "clop_ok cl lens (ZeroLong e) \<longleftrightarrow> e < 128 \<and> cl ! 18 \<noteq> 0"

fun clops_ok :: "nat list \<Rightarrow> nat list \<Rightarrow> clop list \<Rightarrow> bool" where
  "clops_ok cl lens [] \<longleftrightarrow> True"
| "clops_ok cl lens (c # cs) \<longleftrightarrow> clop_ok cl lens c \<and> clops_ok cl (clop_out lens c) cs"

lemma clop_out_grows: "length lens < length (clop_out lens c)"
  by (cases c) simp_all

lemma clops_out_grows: "length lens \<le> length (foldl clop_out lens cs)"
  by (induction cs arbitrary: lens) (auto intro: order_trans [OF less_imp_le [OF clop_out_grows]])

definition cl_table :: "nat list \<Rightarrow> huffman \<Rightarrow> bool" where
  "cl_table cl ch \<longleftrightarrow> length cl = 19 \<and> fst (huff_build cl) = ch \<and> 0 \<le> snd (huff_build cl)"

lemma cl_decode:
  "cl_table cl ch \<Longrightarrow> s < 19 \<Longrightarrow> cl ! s \<noteq> 0 \<Longrightarrow> reads br (code_bits cl s @ rest) \<Longrightarrow> \<exists>br'. huff_decode br ch = Some (s, br') \<and> reads br' rest"
  using huff_decode_canon [of cl ch "snd (huff_build cl)" s br rest] by (auto simp: cl_table_def prod_eq_iff MAXCODES_def)

lemma lens_step_bits:
  assumes "cl_table cl ch" and "clop_ok cl lens c" and "length (clop_out lens c) \<le> tot" and "reads br (clop_bits cl c @ rest)"
  shows "\<exists>br'. lens_step ch tot br lens = Some (clop_out lens c, br') \<and> reads br' rest"
proof -
  have extra: "\<exists>br' br''. huff_decode br ch = Some (s, br') \<and> getbits br' n = Some (e, br'') \<and> reads br'' rest"
    if "s < 19" "cl ! s \<noteq> 0" "reads br (code_bits cl s @ lsb_bits n e @ rest)" "e < 2 ^ n" "n \<le> 16" for s n e
    using cl_decode [OF assms(1) that(1-3)] getbits_lsb [OF _ that(4,5)] by blast
  show ?thesis
  proof (cases c)
    case (LenIs n)
    with cl_decode [OF assms(1), of n br rest] assms(2,4) show ?thesis by (auto simp: lens_step_def)
  next
    case (LenRepeat e)
    with extra [of 16 2 e] assms(2-4) show ?thesis by (auto simp: lens_step_def)
  next
    case (ZeroShort e)
    with extra [of 17 3 e] assms(2-4) show ?thesis by (auto simp: lens_step_def)
  next
    case (ZeroLong e)
    with extra [of 18 7 e] assms(2-4) show ?thesis by (auto simp: lens_step_def)
  qed
qed

lemma read_lens_bits:
  assumes "cl_table cl ch"
  shows "clops_ok cl lens cs \<Longrightarrow> length (foldl clop_out lens cs) = tot \<Longrightarrow> reads br (concat (map (clop_bits cl) cs) @ rest) \<Longrightarrow>
    \<exists>br'. read_lens ch tot br lens = Some (foldl clop_out lens cs, br') \<and> reads br' rest"
proof (induction cs arbitrary: lens br)
  case Nil
  then show ?case by (simp add: read_lens.simps [of ch])
next
  case (Cons c cs)
  have l: "length lens < tot" "length (clop_out lens c) \<le> tot"
    using clops_out_grows [of "clop_out lens c" cs] clop_out_grows [of lens c] Cons.prems(2) by simp_all
  obtain br1 where b: "lens_step ch tot br lens = Some (clop_out lens c, br1)" "reads br1 (concat (map (clop_bits cl) cs) @ rest)"
    using lens_step_bits [OF assms _ l(2), of br "concat (map (clop_bits cl) cs) @ rest"] Cons.prems by auto
  with Cons.IH [OF _ _ b(2)] Cons.prems l(1) show ?case by (simp add: read_lens.simps [of ch tot br])
qed

lemma read_clen_bits:
  "\<forall>k \<in> set ks. f k < 8 \<Longrightarrow> reads br (concat (map (\<lambda>k. lsb_bits 3 (f k)) ks) @ rest) \<Longrightarrow>
   \<exists>br'. read_clen ks br clen = Some (foldl (\<lambda>cl k. cl[k := f k]) clen ks, br') \<and> reads br' rest"
proof (induction ks arbitrary: br clen)
  case (Cons k ks)
  obtain br1 where b: "getbits br 3 = Some (f k, br1)" "reads br1 (concat (map (\<lambda>k. lsb_bits 3 (f k)) ks) @ rest)"
    using getbits_lsb [of br 3 "f k"] Cons.prems by auto
  with Cons.IH [OF _ b(2)] Cons.prems show ?case by simp
qed simp

text \<open>The order in which the code length code lengths come is a permutation, so writing them puts each at its place.\<close>

lemma foldl_upd:
  "i < length cl \<Longrightarrow> foldl (\<lambda>cl k. cl[k := f k]) cl ks ! i = (if i \<in> set ks then f i else cl ! i)"
  by (induction ks arbitrary: cl) (auto simp: nth_list_update)

lemma length_foldl_upd [simp]: "length (foldl (\<lambda>cl k. cl[k := f k]) cl ks) = length cl"
  by (induction ks arbitrary: cl) auto

record dyn_header =
  dyn_ll :: "nat list"
  dyn_dl :: "nat list"
  dyn_cl :: "nat list"
  dyn_hclen :: nat
  dyn_ops :: "clop list"

definition dyn_bits :: "dyn_header \<Rightarrow> bool list" where
  "dyn_bits d = lsb_bits 5 (length (dyn_ll d) - 257) @ lsb_bits 5 (length (dyn_dl d) - 1) @ lsb_bits 4 (dyn_hclen d - 4) @
     concat (map (\<lambda>k. lsb_bits 3 (dyn_cl d ! k)) (take (dyn_hclen d) clen_order)) @ concat (map (clop_bits (dyn_cl d)) (dyn_ops d))"

definition dyn_ok :: "dyn_header \<Rightarrow> bool" where
  "dyn_ok d \<longleftrightarrow> 257 \<le> length (dyn_ll d) \<and> length (dyn_ll d) \<le> 286 \<and> 1 \<le> length (dyn_dl d) \<and> length (dyn_dl d) \<le> 32 \<and>
     4 \<le> dyn_hclen d \<and> dyn_hclen d \<le> 19 \<and> length (dyn_cl d) = 19 \<and>
     list_all (\<lambda>n. n < 8) (dyn_cl d) \<and> list_all (\<lambda>k. dyn_cl d ! k = 0) (drop (dyn_hclen d) clen_order) \<and>
     0 \<le> snd (huff_build (dyn_cl d)) \<and> clops_ok (dyn_cl d) [] (dyn_ops d) \<and> foldl clop_out [] (dyn_ops d) = dyn_ll d @ dyn_dl d \<and>
     dyn_ll d ! 256 \<noteq> 0 \<and> 0 \<le> snd (huff_build (dyn_ll d)) \<and> 0 \<le> snd (huff_build (dyn_dl d))"

lemma clen_order_perm: "set clen_order = {..<19}"
proof (intro set_eqI iffI)
  fix i :: nat assume "i \<in> {..<19}"
  then show "i \<in> set clen_order" by (simp add: clen_order_def numeral_eq_Suc less_Suc_eq) blast
qed (auto simp: clen_order_def)

lemma clen_order_place:
  assumes "i < 19"
  shows "i \<in> set (take n clen_order) \<or> i \<in> set (drop n clen_order)"
proof -
  have "i \<in> set (take n clen_order @ drop n clen_order)" using assms clen_order_perm by simp
  then show ?thesis by (simp only: set_append Un_iff)
qed

lemma dynamic_tables_bits:
  assumes "dyn_ok d" and "reads br (dyn_bits d @ rest)"
  shows "\<exists>br'. dynamic_tables br = Some (fst (huff_build (dyn_ll d)), fst (huff_build (dyn_dl d)), br') \<and> reads br' rest"
proof -
  let ?ll = "dyn_ll d" and ?dl = "dyn_dl d" and ?cl = "dyn_cl d" and ?n = "dyn_hclen d"
  let ?ops = "concat (map (clop_bits ?cl) (dyn_ops d)) @ rest"
  let ?cls = "concat (map (\<lambda>k. lsb_bits 3 (?cl ! k)) (take ?n clen_order)) @ ?ops"
  note ok = assms(1) [unfolded dyn_ok_def]
  have nb: "length ?ll - 257 < 2 ^ 5" "length ?dl - 1 < 2 ^ 5" "?n - 4 < 2 ^ 4" using ok by (simp_all, linarith+)
  obtain b1 where b1: "getbits br 5 = Some (length ?ll - 257, b1)" "reads b1 (lsb_bits 5 (length ?dl - 1) @ lsb_bits 4 (?n - 4) @ ?cls)"
    using getbits_lsb [OF assms(2) [unfolded dyn_bits_def append_assoc] nb(1)] by auto
  obtain b2 where b2: "getbits b1 5 = Some (length ?dl - 1, b2)" "reads b2 (lsb_bits 4 (?n - 4) @ ?cls)"
    using getbits_lsb [OF b1(2) nb(2)] by auto
  obtain b3 where b3: "getbits b2 4 = Some (?n - 4, b3)" "reads b3 ?cls" using getbits_lsb [OF b2(2) nb(3)] by auto
  have small: "\<forall>k \<in> set (take ?n clen_order). ?cl ! k < 8"
    using ok clen_order_perm by (auto simp: list_all_length dest!: in_set_takeD)
  obtain b4 where b4: "read_clen (take ?n clen_order) b3 (replicate 19 0) = Some (foldl (\<lambda>cl k. cl[k := ?cl ! k]) (replicate 19 0) (take ?n clen_order), b4)"
    "reads b4 ?ops" using read_clen_bits [OF small b3(2), of "replicate 19 0"] by auto
  have cl: "foldl (\<lambda>cl k. cl[k := ?cl ! k]) (replicate 19 0) (take ?n clen_order) = ?cl"
  proof (rule nth_equalityI)
    fix i assume "i < length (foldl (\<lambda>cl k. cl[k := ?cl ! k]) (replicate 19 0) (take ?n clen_order))"
    then have i: "i < 19" by simp
    from clen_order_place [OF this, of ?n] show "foldl (\<lambda>cl k. cl[k := ?cl ! k]) (replicate 19 0) (take ?n clen_order) ! i = ?cl ! i"
      using i ok by (auto simp: foldl_upd list_all_iff)
  qed (use ok in simp)
  have tab: "cl_table ?cl (fst (huff_build ?cl))" using ok by (simp add: cl_table_def)
  obtain br' where r: "read_lens (fst (huff_build ?cl)) (length ?ll + length ?dl) b4 [] = Some (?ll @ ?dl, br')" "reads br' rest"
    using read_lens_bits [OF tab _ _ b4(2), of "[]" "length ?ll + length ?dl"] ok by auto
  have n: "length ?ll - 257 + 257 = length ?ll" "length ?dl - 1 + 1 = length ?dl" "?n - 4 + 4 = ?n"
    using conjunct1 [OF ok] ok by (elim conjE, linarith)+
  show ?thesis
    unfolding dynamic_tables_def b1(1) b2(1) b3(1) option.case prod.case Let_def n
    using b4(1) r ok unfolding cl by (auto simp: nth_append split: prod.split)
qed


section \<open>Streams of blocks\<close>

datatype dblock = StoredBlock "byte list" | FixedBlock "token list" | DynBlock dyn_header "token list"

definition pad_to_byte :: "nat \<Rightarrow> nat" where
  "pad_to_byte pos = (8 - pos mod 8) mod 8"

definition stored_bytes :: "byte list \<Rightarrow> byte list" where
  "stored_bytes bs = put16 (of_nat (length bs)) @ put16 (of_nat (length bs) XOR 0xffff) @ bs"

definition toks_bits :: "nat list \<Rightarrow> nat list \<Rightarrow> token list \<Rightarrow> bool list" where
  "toks_bits ll dl ts = concat (map (tok_bits ll dl) ts) @ code_bits ll 256"

abbreviation fixed_dl :: "nat list" where
  "fixed_dl \<equiv> replicate 32 5"

text \<open>A block that starts at bit \<open>pos\<close> of the stream.\<close>

fun block_bits :: "nat \<Rightarrow> nat \<Rightarrow> dblock \<Rightarrow> bool list" where
  "block_bits pos fin (StoredBlock bs) =
     lsb_bits 1 fin @ lsb_bits 2 0 @ replicate (pad_to_byte (pos + 3)) False @ concat (map byte_bits (stored_bytes bs))"
| "block_bits pos fin (FixedBlock ts) = lsb_bits 1 fin @ lsb_bits 2 1 @ toks_bits fixed_ll fixed_dl ts"
| "block_bits pos fin (DynBlock d ts) = lsb_bits 1 fin @ lsb_bits 2 2 @ dyn_bits d @ toks_bits (dyn_ll d) (dyn_dl d) ts"

fun block_out :: "byte list \<Rightarrow> dblock \<Rightarrow> byte list" where
  "block_out out (StoredBlock bs) = out @ bs"
| "block_out out (FixedBlock ts) = foldl tok_out out ts"
| "block_out out (DynBlock d ts) = foldl tok_out out ts"

fun block_ok :: "byte list \<Rightarrow> dblock \<Rightarrow> bool" where
  "block_ok out (StoredBlock bs) \<longleftrightarrow> length bs < 65536"
| "block_ok out (FixedBlock ts) \<longleftrightarrow> toks_ok fixed_ll fixed_dl out ts"
| "block_ok out (DynBlock d ts) \<longleftrightarrow> dyn_ok d \<and> toks_ok (dyn_ll d) (dyn_dl d) out ts"

fun blocks_ok :: "byte list \<Rightarrow> dblock list \<Rightarrow> bool" where
  "blocks_ok out [] \<longleftrightarrow> True"
| "blocks_ok out (b # bs) \<longleftrightarrow> block_ok out b \<and> blocks_ok (block_out out b) bs"

fun stream_bits :: "nat \<Rightarrow> dblock list \<Rightarrow> bool list" where
  "stream_bits pos [] = []"
| "stream_bits pos [b] = block_bits pos 1 b"
| "stream_bits pos (b # c # bs) = block_bits pos 0 b @ stream_bits (pos + length (block_bits pos 0 b)) (c # bs)"

function pack :: "bool list \<Rightarrow> byte list" where
  "pack bs = (if bs = [] then [] else horner_sum of_bool 2 (take 8 bs) # pack (drop 8 bs))"
  by pat_completeness auto

termination pack
  by (relation "measure length") auto

declare pack.simps [simp del]

lemma byte_bits_inj: "byte_bits a = byte_bits b \<Longrightarrow> a = b"
proof (rule bit_word_eqI)
  fix n assume e: "byte_bits a = byte_bits b" and n: "n < LENGTH(8)"
  from arg_cong [OF e, of "\<lambda>xs. xs ! n"] n show "bit a n = bit b n" by (simp add: byte_bits_def)
qed

lemma byte_bits_nonempty [simp]: "byte_bits b \<noteq> []"
  by (simp add: byte_bits_def)

lemma bytes_bits_prefix:
  "concat (map byte_bits xs) = concat (map byte_bits ys) @ r \<Longrightarrow> \<exists>zs. xs = ys @ zs \<and> r = concat (map byte_bits zs)"
proof (induction ys arbitrary: xs)
  case (Cons y ys)
  then obtain x xs' where x: "xs = x # xs'" by (cases xs) auto
  with Cons.prems have "byte_bits x = byte_bits y" "concat (map byte_bits xs') = concat (map byte_bits ys) @ r"
    by (simp_all add: append_eq_append_conv)
  with Cons.IH [of xs'] x byte_bits_inj [of x y] show ?case by auto
qed simp

lemma byte_bits_pack: "length bs \<le> 8 \<Longrightarrow> byte_bits (horner_sum of_bool 2 bs) = bs @ replicate (8 - length bs) False"
  by (rule nth_equalityI) (auto simp: byte_bits_def bit_horner_sum_bit_word_iff nth_append)

lemma pack_bits: "\<exists>k. concat (map byte_bits (pack bs)) = bs @ replicate k False"
proof (induction bs rule: pack.induct)
  case (1 bs)
  show ?case
  proof (cases "bs = []")
    case False
    then obtain k where k: "concat (map byte_bits (pack (drop 8 bs))) = drop 8 bs @ replicate k False" using 1 by blast
    show ?thesis
    proof (cases "length bs \<le> 8")
      case True
      with False k show ?thesis
        by (auto simp: pack.simps [of bs] byte_bits_pack replicate_add [symmetric])
    next
      case f: False
      have "concat (map byte_bits (pack bs)) = (take 8 bs @ drop 8 bs) @ replicate k False"
        using False f k by (simp add: pack.simps [of bs] byte_bits_pack del: append_take_drop_id)
      then show ?thesis unfolding append_take_drop_id by blast
    qed
  qed (simp add: pack.simps)
qed

lemma pad_align:
  assumes "(pos + n) mod 8 = 0"
  shows "n mod 8 = pad_to_byte pos"
proof -
  let ?a = "pos mod 8" and ?b = "n mod 8"
  have s: "(?a + ?b) mod 8 = 0" using assms by (simp add: mod_add_eq)
  have "?a + ?b = 0 \<or> ?a + ?b = 8"
  proof (cases "?a + ?b < 8")
    case False
    moreover have "?a + ?b < 16" using mod_less_divisor [of 8 pos] mod_less_divisor [of 8 n] by linarith
    ultimately show ?thesis using s by (simp add: le_mod_geq)
  qed (use s in simp)
  then show ?thesis unfolding pad_to_byte_def by auto
qed

lemma le16_append [simp]: "2 \<le> length p \<Longrightarrow> le16 (p @ q) = le16 p"
  by (auto simp: le16_def nth_append)

lemma read_stored_bits:
  assumes "reads br (replicate (pad_to_byte pos) False @ concat (map byte_bits (stored_bytes bs)) @ rest)"
    and "(pos + length (bits_of br)) mod 8 = 0" and "length bs < 65536" and "length out + length bs \<le> outcap"
  shows "\<exists>br'. read_stored br outcap out = Inr (br', out @ bs) \<and> reads br' rest"
proof -
  have ok: "br_ok br" and bits: "bits_of br = replicate (pad_to_byte pos) False @ concat (map byte_bits (stored_bytes bs)) @ rest"
    using assms(1) by (simp_all add: reads_def)
  have "bitcnt br = bits_left br mod 8" using ok by (simp add: br_ok_def bits_left_def)
  then have p: "bitcnt br = pad_to_byte pos" using pad_align [OF assms(2)] by (simp add: length_bits_of)
  have "concat (map byte_bits (drop (bpos br) (bsrc br))) = concat (map byte_bits (stored_bytes bs)) @ rest"
    using arg_cong [OF bits, of "drop (bitcnt br)"] p by (simp add: bits_of_def)
  from bytes_bits_prefix [OF this] obtain zs where zs: "drop (bpos br) (bsrc br) = stored_bytes bs @ zs" "rest = concat (map byte_bits zs)"
    by blast
  let ?len = "of_nat (length bs) :: u16"
  have un: "unat ?len = length bs" using assms(3) by (simp add: unat_of_nat)
  have l: "length (bsrc br) - bpos br = 4 + length bs + length zs" using arg_cong [OF zs(1), of length] by (simp add: stored_bytes_def)
  have d2: "drop (bpos br + 2) (bsrc br) = put16 (?len XOR 0xffff) @ bs @ zs"
  proof -
    have "drop (bpos br + 2) (bsrc br) = drop 2 (drop (bpos br) (bsrc br))" by (simp add: ac_simps)
    then show ?thesis unfolding zs(1) by (simp add: stored_bytes_def)
  qed
  have d4: "drop (bpos br + 4) (bsrc br) = bs @ zs"
  proof -
    have "drop (bpos br + 4) (bsrc br) = drop 2 (drop (bpos br + 2) (bsrc br))"
      unfolding drop_drop by (rule arg_cong [of _ _ "\<lambda>n. drop n (bsrc br)"]) simp
    then show ?thesis unfolding d2 by simp
  qed
  have le: "le16 (drop (bpos br) (bsrc br)) = ?len" "le16 (drop (bpos br + 2) (bsrc br)) = ?len XOR 0xffff"
    unfolding zs(1) d2 stored_bytes_def by simp_all
  have sl: "bslice (bpos br + 4) (length bs) (bsrc br) = bs" unfolding bslice_def d4 by simp
  have dz: "drop (bpos br + 4 + length bs) (bsrc br) = zs"
  proof -
    have "drop (bpos br + 4 + length bs) (bsrc br) = drop (length bs) (drop (bpos br + 4) (bsrc br))" by (simp add: ac_simps)
    then show ?thesis unfolding d4 by simp
  qed
  let ?br = "br\<lparr>bitbuf := 0, bitcnt := 0, bpos := bpos br + 4 + length bs\<rparr>"
  have "read_stored br outcap out = Inr (?br, out @ bs)"
    using l un le sl assms(4) by (auto simp: read_stored_def byte_align_def Let_def)
  moreover have "reads ?br rest" using dz zs(2) l by (simp add: reads_def br_ok_def buf_ok_def bits_of_def)
  ultimately show ?thesis by blast
qed


lemma huff_build_accepts:
  "huff_counts lens (hcount huff_zero) = Some c \<Longrightarrow> 0 \<le> huff_left c [1..<MAXBITS + 1] 1 \<Longrightarrow> 0 \<le> snd (huff_build lens)"
  by (simp add: huff_build_def Let_def)

lemma fixed_tables_for: "tables_for fixed_ll fixed_dl (fst fixed_tables) (snd fixed_tables)"
proof -
  have "huff_counts fixed_ll (hcount huff_zero) = Some [0, 0, 0, 0, 0, 0, 0, 24, 152, 112, 0, 0, 0, 0, 0, 0]"
    "huff_counts fixed_dl (hcount huff_zero) = Some [0, 0, 0, 0, 0, 32, 0, 0, 0, 0, 0, 0, 0, 0, 0, 0]" by code_simp+
  moreover have "0 \<le> huff_left [0, 0, 0, 0, 0, 0, 0, 24, 152, 112, 0, 0, 0, 0, 0, 0] [1..<MAXBITS + 1] 1"
    "0 \<le> huff_left [0, 0, 0, 0, 0, 32, 0, 0, 0, 0, 0, 0, 0, 0, 0, 0] [1..<MAXBITS + 1] 1" by code_simp+
  ultimately have "0 \<le> snd (huff_build fixed_ll)" "0 \<le> snd (huff_build fixed_dl)" using huff_build_accepts by blast+
  moreover have "fixed_ll ! 256 \<noteq> 0" by (simp add: fixed_ll_def nth_append)
  ultimately show ?thesis by (simp add: tables_for_def fixed_tables_def fixed_ll_def MAXCODES_def)
qed

lemma block_out_grows: "length out \<le> length (block_out out b)"
  by (cases b) (simp_all add: toks_out_grows)

lemma blocks_out_grows: "length out \<le> length (foldl block_out out bs)"
  by (induction bs arbitrary: out) (auto intro: order_trans [OF block_out_grows])

lemma read_block_bits:
  assumes "reads br (block_bits pos fin b @ rest)" and "(pos + length (bits_of br)) mod 8 = 0" and "fin < 2"
    and "block_ok out b" and "length (block_out out b) \<le> outcap"
  shows "\<exists>b1 b2 br' t. getbits br 1 = Some (fin, b1) \<and> getbits b1 2 = Some (t, b2) \<and>
    read_block b2 t outcap out = Inr (br', block_out out b) \<and> reads br' rest"
proof -
  have hd: "\<exists>b1 b2. getbits br 1 = Some (fin, b1) \<and> getbits b1 2 = Some (t, b2) \<and> reads b2 body"
    if b: "reads br (lsb_bits 1 fin @ lsb_bits 2 t @ body)" and t: "t < 4" for t body
  proof -
    obtain b1 where b1: "getbits br 1 = Some (fin, b1)" "reads b1 (lsb_bits 2 t @ body)"
      using getbits_lsb [OF b] assms(3) by auto
    from getbits_lsb [OF b1(2)] t b1(1) show ?thesis by auto
  qed
  show ?thesis
  proof (cases b)
    case (StoredBlock bs)
    let ?body = "replicate (pad_to_byte (pos + 3)) False @ concat (map byte_bits (stored_bytes bs)) @ rest"
    obtain b1 b2 where h: "getbits br 1 = Some (fin, b1)" "getbits b1 2 = Some (0, b2)" "reads b2 ?body"
      using hd [of 0 ?body] assms(1) StoredBlock by auto
    have "length (bits_of br) = 3 + length (bits_of b2)" using assms(1) h(3) StoredBlock by (simp add: reads_def)
    then have "(pos + 3 + length (bits_of b2)) mod 8 = 0" using assms(2) by (simp add: ac_simps)
    from read_stored_bits [OF h(3) this] assms(4,5) StoredBlock h(1,2) show ?thesis by (auto simp: read_block_def)
  next
    case (FixedBlock ts)
    let ?body = "concat (map (tok_bits fixed_ll fixed_dl) ts) @ code_bits fixed_ll 256 @ rest"
    obtain b1 b2 where h: "getbits br 1 = Some (fin, b1)" "getbits b1 2 = Some (1, b2)" "reads b2 ?body"
      using hd [of 1 ?body] assms(1) FixedBlock by (auto simp: toks_bits_def)
    from inflate_codes_bits [OF fixed_tables_for _ _ h(3), of out outcap] assms(4,5) FixedBlock h(1,2) show ?thesis
      by (auto simp: read_block_def)
  next
    case (DynBlock d ts)
    let ?toks = "concat (map (tok_bits (dyn_ll d) (dyn_dl d)) ts) @ code_bits (dyn_ll d) 256 @ rest"
    obtain b1 b2 where h: "getbits br 1 = Some (fin, b1)" "getbits b1 2 = Some (2, b2)" "reads b2 (dyn_bits d @ ?toks)"
      using hd [of 2 "dyn_bits d @ ?toks"] assms(1) DynBlock by (auto simp: toks_bits_def)
    have d: "dyn_ok d" "toks_ok (dyn_ll d) (dyn_dl d) out ts" using assms(4) DynBlock by simp_all
    obtain b3 where b3: "dynamic_tables b2 = Some (fst (huff_build (dyn_ll d)), fst (huff_build (dyn_dl d)), b3)" "reads b3 ?toks"
      using dynamic_tables_bits [OF d(1) h(3)] by blast
    have "tables_for (dyn_ll d) (dyn_dl d) (fst (huff_build (dyn_ll d))) (fst (huff_build (dyn_dl d)))"
      using d(1) by (auto simp: tables_for_def dyn_ok_def MAXCODES_def)
    from inflate_codes_bits [OF this d(2) _ b3(2), of outcap] assms(5) DynBlock h(1,2) b3(1) show ?thesis
      by (auto simp: read_block_def)
  qed
qed

lemma inflate_blocks_bits:
  "blocks_ok out bs \<Longrightarrow> bs \<noteq> [] \<Longrightarrow> reads br (stream_bits pos bs @ rest) \<Longrightarrow> (pos + length (bits_of br)) mod 8 = 0 \<Longrightarrow>
   length (foldl block_out out bs) \<le> outcap \<Longrightarrow> inflate_blocks br outcap out 0 = Inr (foldl block_out out bs)"
proof (induction pos bs arbitrary: br out rule: stream_bits.induct)
  case (2 pos b)
  from read_block_bits [of br pos 1 b rest out outcap] 2 obtain b1 b2 br' t where
    "getbits br 1 = Some (1, b1)" "getbits b1 2 = Some (t, b2)" "read_block b2 t outcap out = Inr (br', block_out out b)" by auto
  then show ?case by (simp add: inflate_blocks.simps)
next
  case (3 pos b c bs)
  let ?x = "block_bits pos 0 b"
  have cap: "length (block_out out b) \<le> outcap" using blocks_out_grows [of "block_out out b" "c # bs"] "3.prems"(5) by simp
  from read_block_bits [of br pos 0 b "stream_bits (pos + length ?x) (c # bs) @ rest" out outcap] "3.prems" cap obtain b1 b2 br' t where
    r: "getbits br 1 = Some (0, b1)" "getbits b1 2 = Some (t, b2)" "read_block b2 t outcap out = Inr (br', block_out out b)"
    "reads br' (stream_bits (pos + length ?x) (c # bs) @ rest)" by auto
  have "length (bits_of br) = length ?x + length (bits_of br')" using "3.prems"(3) r(4) by (simp add: reads_def)
  then have "(pos + length ?x + length (bits_of br')) mod 8 = 0" using "3.prems"(4) by (simp add: ac_simps)
  from "3.IH" [OF _ _ r(4) this] "3.prems"(1,5) r(1-3) show ?case by (simp add: inflate_blocks.simps [of br])
qed simp

lemma inflate_raw_stream:
  assumes "blocks_ok [] bs" and "bs \<noteq> []" and "length (foldl block_out [] bs) \<le> outcap"
  shows "inflate_raw (pack (stream_bits 0 bs)) outcap = Inr (foldl block_out [] bs)"
proof -
  obtain k where k: "concat (map byte_bits (pack (stream_bits 0 bs))) = stream_bits 0 bs @ replicate k False" using pack_bits by blast
  let ?br = "\<lparr>bsrc = pack (stream_bits 0 bs), bpos = 0, bitbuf = 0, bitcnt = 0\<rparr> :: bit_reader"
  have r: "reads ?br (stream_bits 0 bs @ replicate k False)" using k by (simp add: reads_def br_ok_def buf_ok_def bits_of_def)
  have "(0 + length (bits_of ?br)) mod 8 = 0" by (simp add: length_bits_of bits_left_def)
  from inflate_blocks_bits [OF assms(1,2) r this assms(3)] show ?thesis by (simp add: inflate_raw_def)
qed

section \<open>Properties\<close>

text \<open>C5. \<^verbatim>\<open>inflate_raw\<close> decodes DEFLATE: for every sequence of stored, fixed and dynamic blocks that the format allows, the packed
  bit stream is accepted and decodes to exactly the bytes the blocks stand for, as long as they fit the output buffer.\<close>

theorem inflate_decodes_deflate:
  assumes "blocks_ok [] bs" and "bs \<noteq> []" and "length (foldl block_out [] bs) \<le> outcap"
  shows "inflate_raw (pack (stream_bits 0 bs)) outcap = Inr (foldl block_out [] bs)"
  using inflate_raw_stream [OF assms] .


text \<open>Three blocks, one of each kind: stored bytes, a literal and an overlapping match under the fixed code, and a
  dynamic block whose code has the letter \<^verbatim>\<open>a\<close> and the end mark only.\<close>

definition demo_dyn :: dyn_header where
  "demo_dyn = \<lparr>dyn_ll = replicate 97 0 @ [1] @ replicate 158 0 @ [1], dyn_dl = [1],
     dyn_cl = [0, 1] @ replicate 16 0 @ [1], dyn_hclen = 18,
     dyn_ops = [ZeroLong 86, LenIs 1, ZeroLong 127, ZeroLong 9, LenIs 1, LenIs 1]\<rparr>"

definition demo_blocks :: "dblock list" where
  "demo_blocks = [StoredBlock [1, 2, 3], FixedBlock [Literal 98, Match 2 0 0 0], DynBlock demo_dyn [Literal 97, Literal 97]]"

lemma demo_dyn_ok: "dyn_ok demo_dyn"
proof -
  have "huff_counts (dyn_cl demo_dyn) (hcount huff_zero) = Some [17, 2, 0, 0, 0, 0, 0, 0, 0, 0, 0, 0, 0, 0, 0, 0]"
    "huff_counts (dyn_ll demo_dyn) (hcount huff_zero) = Some [255, 2, 0, 0, 0, 0, 0, 0, 0, 0, 0, 0, 0, 0, 0, 0]"
    "huff_counts (dyn_dl demo_dyn) (hcount huff_zero) = Some [0, 1, 0, 0, 0, 0, 0, 0, 0, 0, 0, 0, 0, 0, 0, 0]" by code_simp+
  moreover have "0 \<le> huff_left [17, 2, 0, 0, 0, 0, 0, 0, 0, 0, 0, 0, 0, 0, 0, 0] [1..<MAXBITS + 1] 1"
    "0 \<le> huff_left [255, 2, 0, 0, 0, 0, 0, 0, 0, 0, 0, 0, 0, 0, 0, 0] [1..<MAXBITS + 1] 1"
    "0 \<le> huff_left [0, 1, 0, 0, 0, 0, 0, 0, 0, 0, 0, 0, 0, 0, 0, 0] [1..<MAXBITS + 1] 1" by code_simp+
  ultimately have c: "0 \<le> snd (huff_build (dyn_cl demo_dyn))" "0 \<le> snd (huff_build (dyn_ll demo_dyn))" "0 \<le> snd (huff_build (dyn_dl demo_dyn))"
    using huff_build_accepts by blast+
  have o: "clops_ok (dyn_cl demo_dyn) [] (dyn_ops demo_dyn)" by code_simp
  have f: "foldl clop_out [] (dyn_ops demo_dyn) = dyn_ll demo_dyn @ dyn_dl demo_dyn" by code_simp
  have l: "list_all (\<lambda>k. dyn_cl demo_dyn ! k = 0) (drop (dyn_hclen demo_dyn) clen_order)" "list_all (\<lambda>n. n < 8) (dyn_cl demo_dyn)" by code_simp+
  show ?thesis using c o f l by (simp add: dyn_ok_def) (simp add: demo_dyn_def nth_append)
qed

theorem inflate_decodes_deflate_witness:
  "inflate_raw (pack (stream_bits 0 demo_blocks)) 11 = Inr [1, 2, 3, 98, 98, 98, 98, 98, 98, 97, 97]"
proof -
  have m: "match_len 2 0 = 5" "match_dist 0 0 = 1" by (simp_all add: match_len_def match_dist_def lbase_def dbase_def)
  have f: "toks_ok fixed_ll fixed_dl [1, 2, 3] [Literal 98, Match 2 0 0 0]"
    by (simp add: m fixed_ll_def nth_append lext_def dext_def)
  have o: "block_out [1, 2, 3] (FixedBlock [Literal 98, Match 2 0 0 0]) = [1, 2, 3, 98, 98, 98, 98, 98, 98]"
    by (simp add: m upt_conv_Cons)
  have d: "toks_ok (dyn_ll demo_dyn) (dyn_dl demo_dyn) out [Literal 97, Literal 97]" for out
    by (simp add: demo_dyn_def nth_append)
  have ok: "blocks_ok [] demo_blocks" using f d demo_dyn_ok by (simp add: demo_blocks_def)
  have out: "foldl block_out [] demo_blocks = [1, 2, 3, 98, 98, 98, 98, 98, 98, 97, 97]"
    using o by (simp add: demo_blocks_def)
  have ne: "demo_blocks \<noteq> []" by (simp add: demo_blocks_def)
  have cap: "length (foldl block_out [] demo_blocks) \<le> 11" unfolding out by simp
  show ?thesis using inflate_decodes_deflate [OF ok ne cap] unfolding out .
qed

end
