(* ===== verification/Tar.thy ===== *)
theory Tar
  imports Deb_Control "HOL-Library.Sublist"
begin

text \<open>
  Tar archives (\<^verbatim>\<open>src/tar_write.c\<close>, \<^verbatim>\<open>src/tar.c\<close>): writing ustar headers, files and directories, and walking an archive.

  An output stream is the bytes written and the room the host has left; a write that does not fit is short. An input
  stream is the bytes that are left. A \<^verbatim>\<open>FILE\<close> that is only read at absolute positions is its content. The callback of
  the walk is a function on its context; the walk seeks after every call, so that a callback that moves the position
  changes nothing else. Positions are natural numbers: after each round \<^verbatim>\<open>off + pos\<close> is at most \<^verbatim>\<open>LONG_MAX\<close> and a size field
  of twelve octal digits is below \<open>2 ^ 36\<close>, so no sum of the code wraps.

  The lemmas show that walking a written archive visits the entries that were written, with their names, modes, sizes,
  types and the places of their data.
\<close>

section \<open>Streams\<close>

record ostream =
  odata :: "byte list"
  oroom :: nat

definition stream_write :: "ostream \<Rightarrow> byte list \<Rightarrow> ostream \<times> bool" where
  "stream_write out bs =
     (out\<lparr>odata := odata out @ take (oroom out) bs, oroom := oroom out - length bs\<rparr>, length bs \<le> oroom out)"

function copy_bytes :: "byte list \<Rightarrow> ostream \<Rightarrow> nat \<Rightarrow> ostream \<times> bool" where
  "copy_bytes inp out remaining =
     (if remaining = 0 then (out, True)
      else let count = (if remaining < 32768 then remaining else 32768)
           in if length inp < count then (out, False)
              else case stream_write out (take count inp) of
                  (out', False) \<Rightarrow> (out', False)
                | (out', True) \<Rightarrow> copy_bytes (drop count inp) out' (remaining - count))"
  by pat_completeness auto
termination by (relation "measure (\<lambda>(inp, out, remaining). remaining)") auto

declare copy_bytes.simps [simp del]

section \<open>Writing\<close>

fun oct_fill :: "nat \<Rightarrow> u64 \<Rightarrow> byte list \<Rightarrow> byte list" where
  "oct_fill 0 v d = d"
| "oct_fill (Suc i) v d =
     (if v = 0 then d else oct_fill i (drop_bit 3 v) (d[i := 0x30 + ucast (v AND 7)]))"

definition oct_field :: "nat \<Rightarrow> u64 \<Rightarrow> byte list option" where
  "oct_field width v =
     (if (drop_bit 3 ^^ (width - 1)) v \<noteq> 0 then None
      else Some (oct_fill (width - 1) v (replicate (width - 1) 0x30 @ [0])))"

definition bad_path :: "string \<Rightarrow> bool" where
  "bad_path path \<longleftrightarrow> path = [] \<or> hd path = CHR ''/'' \<or> CHR 0x5C \<in> set path \<or>
     sublist ''../'' path \<or> path = ''..'' \<or> sublist ''/./'' path \<or> path = ''.''"

definition split_points :: "string \<Rightarrow> nat list" where
  "split_points path =
     filter (\<lambda>i. path ! i = CHR ''/'' \<and> i \<le> 155 \<and> length path - i - 1 \<le> 100) [0..<length path]"

definition name_fields :: "byte list \<Rightarrow> string \<Rightarrow> byte list option" where
  "name_fields hdr path =
     (if bad_path path then None
      else if length path \<le> 100 then Some (blit hdr 0 (bytes_of path))
      else if split_points path = [] then None
      else let i = last (split_points path)
           in if i = 0 \<or> i + 1 = length path then None
              else Some (blit (blit hdr 0 (bytes_of (drop (i + 1) path))) 345 (bytes_of (take i path))))"

definition ustar_block :: "byte list \<Rightarrow> byte list \<Rightarrow> byte list \<Rightarrow> byte list \<Rightarrow> byte list \<Rightarrow> byte \<Rightarrow> byte list" where
  "ustar_block b fmode fid fsize ftime type =
     (let b = blit b 100 fmode; b = blit b 108 fid; b = blit b 116 fid; b = blit b 124 fsize; b = blit b 136 ftime;
          b = blit b 148 (replicate 8 0x20); b = blit b 156 [type]; b = blit b 257 (bytes_of ''ustar'');
          b = blit b 262 [0]
      in blit b 263 (bytes_of ''00''))"

definition header_block :: "string \<Rightarrow> u64 \<Rightarrow> u32 \<Rightarrow> byte \<Rightarrow> byte list option" where
  "header_block path sz mode type =
     (case (name_fields (zeros 512) path, oct_field 8 (ucast (mode AND 0xFFF)), oct_field 8 0, oct_field 12 sz, oct_field 12 0) of
        (Some b, Some fmode, Some fid, Some fsize, Some ftime) \<Rightarrow>
          let b = ustar_block b fmode fid fsize ftime type; checksum = (\<Sum>x\<leftarrow>b. ucast x :: u32)
          in (case oct_field 7 (ucast checksum) of None \<Rightarrow> None
              | Some fsum \<Rightarrow> Some (blit (blit b 148 fsum) 155 [0x20]))
      | _ \<Rightarrow> None)"

definition tar_header :: "ostream \<Rightarrow> string \<Rightarrow> u64 \<Rightarrow> u32 \<Rightarrow> byte \<Rightarrow> ostream \<times> bool" where
  "tar_header out path sz mode type =
     (case header_block path sz mode type of None \<Rightarrow> (out, False) | Some b \<Rightarrow> stream_write out b)"

definition gu_tar_write_file :: "ostream \<Rightarrow> string \<Rightarrow> byte list \<Rightarrow> u64 \<Rightarrow> u32 \<Rightarrow> ostream \<times> bool" where
  "gu_tar_write_file out path inp sz mode =
     (case tar_header out path sz mode 0x30 of (out, False) \<Rightarrow> (out, False)
      | (out, True) \<Rightarrow>
          (case copy_bytes inp out (unat sz) of (out, False) \<Rightarrow> (out, False)
           | (out, True) \<Rightarrow>
               let padding = (512 - unat sz mod 512) mod 512
               in if padding \<noteq> 0 then stream_write out (zeros padding) else (out, True)))"

definition gu_tar_write_dir :: "ostream \<Rightarrow> string \<Rightarrow> u32 \<Rightarrow> ostream \<times> bool" where
  "gu_tar_write_dir out path mode =
     (if path = [] \<or> length path \<ge> 255 then (out, False)
      else tar_header out (if last path \<noteq> CHR ''/'' then path @ ''/'' else path) 0 mode 0x35)"

definition gu_tar_write_end :: "ostream \<Rightarrow> ostream \<times> bool" where
  "gu_tar_write_end out = stream_write out (zeros 1024)"

section \<open>Walking\<close>

definition LONG_MAX :: nat where
  "LONG_MAX = 2 ^ 63 - 1"

definition octal :: "byte list \<Rightarrow> u64" where
  "octal p = foldl (\<lambda>v b. push_bit 3 v + ucast (b - 0x30)) 0
     (takeWhile (\<lambda>b. 0x30 \<le> b \<and> b \<le> 0x37) (dropWhile (\<lambda>b. b = 0x20 \<or> b = 0) p))"

record gu_tar_entry =
  te_path :: string
  te_linkname :: string
  te_size :: u64
  te_mode :: u32
  te_type :: byte
  te_data_offset :: nat

definition entry_of :: "byte list \<Rightarrow> nat \<Rightarrow> gu_tar_entry" where
  "entry_of h data_offset =
     \<lparr>te_path = (if h ! 345 \<noteq> 0 then cstr (text_of (bslice 345 155 h)) @ ''/'' @ cstr (text_of (bslice 0 100 h))
                else cstr (text_of (bslice 0 100 h))),
      te_linkname = cstr (text_of (bslice 157 100 h)),
      te_size = octal (bslice 124 12 h), te_mode = ucast (octal (bslice 100 8 h)),
      te_type = (if h ! 156 \<noteq> 0 then h ! 156 else 0x30), te_data_offset = data_offset\<rparr>"

text \<open>\<^verbatim>\<open>(e.size + 511u) & ~511u\<close>: the mask is a 32-bit number, widened with zeroes.\<close>

definition tar_padded :: "u64 \<Rightarrow> u64" where
  "tar_padded sz = (sz + 511) AND 0xFFFFFE00"

function tar_walk :: "byte list \<Rightarrow> nat \<Rightarrow> nat \<Rightarrow> ('c \<Rightarrow> gu_tar_entry \<Rightarrow> 'c \<times> bool) \<Rightarrow> 'c \<Rightarrow> nat \<Rightarrow> int \<times> 'c" where
  "tar_walk f off len cb ctx pos =
     (if \<not> pos + 512 \<le> len then (0, ctx)
      else
        let h = bslice (off + pos) 512 f; pos = pos + 512
        in if length h \<noteq> 512 then (-2, ctx)
           else if \<forall>b \<in> set h. b = 0 then (0, ctx)
           else
             let e = entry_of h (off + pos)
             in if unat (te_size e) > len - pos then (-3, ctx)
                else case cb ctx e of
                    (ctx, True) \<Rightarrow> (-4, ctx)
                  | (ctx, False) \<Rightarrow>
                      let padded = unat (tar_padded (te_size e))
                      in if padded > len - pos then (-5, ctx)
                         else if off + (pos + padded) > LONG_MAX then (-6, ctx)
                         else tar_walk f off len cb ctx (pos + padded))"
  by pat_completeness auto
termination by (relation "measure (\<lambda>(f, off, len, cb, ctx, pos). len - pos)") auto

declare tar_walk.simps [simp del]

definition gu_tar_walk :: "byte list \<Rightarrow> nat \<Rightarrow> nat \<Rightarrow> ('c \<Rightarrow> gu_tar_entry \<Rightarrow> 'c \<times> bool) \<Rightarrow> 'c \<Rightarrow> int \<times> 'c" where
  "gu_tar_walk f off len cb ctx = (if off > LONG_MAX then (-1, ctx) else tar_walk f off len cb ctx 0)"

definition gu_tar_walk_stream :: "byte list \<Rightarrow> ('c \<Rightarrow> gu_tar_entry \<Rightarrow> 'c \<times> bool) \<Rightarrow> 'c \<Rightarrow> int \<times> 'c" where
  "gu_tar_walk_stream f cb ctx = gu_tar_walk f 0 (length f) cb ctx"


section \<open>Octal fields\<close>

abbreviation is_oct :: "byte \<Rightarrow> bool" where
  "is_oct b \<equiv> 0x30 \<le> b \<and> b \<le> 0x37"

definition oct_value :: "byte list \<Rightarrow> u64" where
  "oct_value = foldl (\<lambda>v b. push_bit 3 v + ucast (b - 0x30)) 0"

lemma oct_value_snoc: "oct_value (ds @ [b]) = push_bit 3 (oct_value ds) + ucast (b - 0x30)"
  by (simp add: oct_value_def)

lemma oct_value_zeros: "oct_value (replicate n 0x30) = 0"
  by (induction n) (simp_all add: oct_value_def replicate_append_same [symmetric] del: replicate.simps(2), simp_all add: oct_value_def)


lemma drop_bit_pow: "(drop_bit 3 ^^ n) (v :: u64) = drop_bit (3 * n) v"
  by (induction n) (simp_all add: drop_bit_drop_bit ac_simps)

lemma low_octal: "(v :: u64) AND 7 = take_bit 3 v"
  by (simp add: take_bit_eq_mask mask_numeral)

lemma octal_digit:
  fixes v :: u64
  shows "is_oct (0x30 + ucast (v AND 7))" and "ucast ((0x30 + ucast (v AND 7) :: byte) - 0x30) = v AND 7"
proof -
  have lt: "unat (v AND 7) < 8"
    unfolding low_octal by (simp add: take_bit_eq_mod unat_mod)
  then have u: "unat (ucast (v AND 7) :: byte) = unat (v AND 7)" by (simp add: unat_ucast_narrow)
  have "unat (0x30 + ucast (v AND 7) :: byte) = 48 + unat (v AND 7)" using u lt by (subst unat_add_small) simp_all
  then show "is_oct (0x30 + ucast (v AND 7))" using lt by (simp add: word_le_nat_alt)
  have "unat (ucast (ucast (v AND 7) :: byte) :: u64) = unat (v AND 7)" using u by (simp add: unat_ucast_8_64)
  then show "ucast ((0x30 + ucast (v AND 7) :: byte) - 0x30) = v AND 7" by (simp add: word_unat_eq_iff)
qed

lemma oct_fill_spec:
  assumes "i \<le> length d" and "take i d = replicate i 0x30" and "drop_bit (3 * i) v = 0"
  shows "length (oct_fill i v d) = length d \<and> drop i (oct_fill i v d) = drop i d \<and>
    oct_value (take i (oct_fill i v d)) = v \<and> (\<forall>b \<in> set (take i (oct_fill i v d)). is_oct b)"
  using assms
proof (induction i arbitrary: v d)
  case 0
  then show ?case by (simp add: oct_value_def)
next
  case (Suc i)
  show ?case
  proof (cases "v = 0")
    case True
    then show ?thesis unfolding oct_fill.simps Suc.prems(2) by (simp add: Suc.prems(2) oct_value_zeros del: replicate.simps)
  next
    case False
    let ?b = "0x30 + ucast (v AND 7) :: byte" and ?r = "oct_fill i (drop_bit 3 v) (d[i := 0x30 + ucast (v AND 7)])"
    have t: "take i d = replicate i 0x30" using arg_cong [OF Suc.prems(2), of "take i"] by (simp del: replicate.simps)
    have "drop_bit (3 * i) (drop_bit 3 v) = 0" using Suc.prems(3) by (simp add: drop_bit_drop_bit ac_simps)
    with Suc.IH [of "d[i := ?b]" "drop_bit 3 v"] Suc.prems(1) t have IH: "length ?r = length d"
      "drop i ?r = drop i (d[i := ?b])" "oct_value (take i ?r) = drop_bit 3 v" "\<forall>b \<in> set (take i ?r). is_oct b" by auto
    have n: "?r ! i = ?b" using arg_cong [OF IH(2), of hd] Suc.prems(1) IH(1) by (simp add: hd_drop_conv_nth)
    then have tk: "take (Suc i) ?r = take i ?r @ [?b]" using Suc.prems(1) IH(1) by (simp add: take_Suc_conv_app_nth)
    have "drop (Suc i) ?r = drop (Suc i) d" using arg_cong [OF IH(2), of "drop 1"] by (simp add: drop_update_cancel)
    moreover have "oct_value (take (Suc i) ?r) = v"
      unfolding tk oct_value_snoc IH(3) octal_digit(2) unfolding low_octal by (rule bits_ident)
    ultimately show ?thesis using False IH(1,4) octal_digit(1) tk by simp
  qed
qed

text \<open>What \<^verbatim>\<open>oct\<close> writes, \<^verbatim>\<open>octal\<close> reads.\<close>

lemma oct_field_facts:
  assumes "oct_field width v = Some d" and "1 < width"
  shows "length d = width" and "octal d = v" and "\<forall>b \<in> set (butlast d). is_oct b"
proof -
  let ?d0 = "replicate (width - 1) (0x30 :: byte) @ [0]"
  have d: "d = oct_fill (width - 1) v ?d0" and z: "drop_bit (3 * (width - 1)) v = 0"
    using assms(1) by (auto simp: oct_field_def drop_bit_pow split: if_splits)
  have s: "length d = length ?d0" "drop (width - 1) d = [0]" "oct_value (take (width - 1) d) = v"
    "\<forall>b \<in> set (take (width - 1) d). is_oct b"
    using oct_fill_spec [of "width - 1" ?d0 v] z unfolding d by simp_all
  show l: "length d = width" using s(1) assms(2) by simp
  have dd: "d = take (width - 1) d @ [0]" using s(2) append_take_drop_id [of "width - 1" d] by simp
  then show "\<forall>b \<in> set (butlast d). is_oct b" using s(4) by (metis butlast_snoc)
  have ne: "take (width - 1) d \<noteq> []" using l assms(2) by auto
  then have "\<not> (hd (take (width - 1) d) = 0x20 \<or> hd (take (width - 1) d) = 0)" using s(4) by (cases "take (width - 1) d") auto
  then have dw: "dropWhile (\<lambda>b. b = 0x20 \<or> b = 0) d = d"
    by (subst (1 2) dd) (cases "take (width - 1) d"; use ne in simp)
  have tw: "takeWhile is_oct d = take (width - 1) d"
    by (subst dd, rule span_append(1)) (use s(4) in auto)
  show "octal d = v" unfolding octal_def dw tw using s(3) by (simp add: oct_value_def)
qed

lemma oct_field_some: "unat v < 8 ^ (width - 1) \<Longrightarrow> \<exists>d. oct_field width v = Some d"
proof -
  assume "unat v < 8 ^ (width - 1)"
  then have "unat v < 2 ^ (3 * (width - 1))" by (simp add: power_mult)
  then have "drop_bit (3 * (width - 1)) (unat v) = 0" unfolding drop_bit_eq_div by simp
  then have "drop_bit (3 * (width - 1)) v = 0" by (simp only: word_unat_eq_iff unat_drop_bit_eq unsigned_0)
  then show ?thesis by (simp add: oct_field_def drop_bit_pow)
qed


section \<open>Headers\<close>

lemma cstr_append_zero: "CHR 0x00 \<notin> set s \<Longrightarrow> cstr (s @ CHR 0x00 # t) = s"
  unfolding cstr_def by (intro span_append(1)) auto

lemma text_of_append [simp]: "text_of (a @ b) = text_of a @ text_of b"
  by (simp add: text_of_def)

lemma text_zeros: "text_of (zeros n) = replicate n (CHR 0x00)"
  by (simp add: text_of_def zeros_def char_of_def)

lemma cstr_padded: "CHR 0x00 \<notin> set s \<Longrightarrow> cstr (s @ replicate n (CHR 0x00)) = s"
  by (cases n) (simp_all add: cstr_id cstr_append_zero)

text \<open>A name in an otherwise zero field reads back.\<close>

lemma field_text:
  assumes "CHR 0x00 \<notin> set s" and "length s \<le> n"
  shows "cstr (text_of (bytes_of s @ zeros (n - length s))) = s"
  using assms by (simp add: text_zeros cstr_padded)

lemma blit_zeros_slice:
  assumes "off + length ys \<le> m" and "length ys \<le> n" and "off + n \<le> m"
  shows "bslice off n (blit (zeros m) off ys) = ys @ zeros (n - length ys)"
  using assms by (intro nth_equalityI) (auto simp: buf_simps nth_append)

lemma bslice_zeros: "off + n \<le> m \<Longrightarrow> bslice off n (zeros m) = zeros n"
  by (intro nth_equalityI) (auto simp: buf_simps)

definition hdr_path :: "byte list \<Rightarrow> string" where
  "hdr_path h = (if h ! 345 \<noteq> 0 then cstr (text_of (bslice 345 155 h)) @ ''/'' @ cstr (text_of (bslice 0 100 h))
                else cstr (text_of (bslice 0 100 h)))"

lemma split_point_facts:
  assumes "split_points path \<noteq> []"
  defines "i \<equiv> last (split_points path)"
  shows "i < length path" and "path ! i = CHR ''/''" and "i \<le> 155" and "length path - i - 1 \<le> 100"
proof -
  have "i \<in> set (split_points path)" using assms(1) by (simp add: i_def)
  then show "i < length path" "path ! i = CHR ''/''" "i \<le> 155" "length path - i - 1 \<le> 100"
    by (auto simp: split_points_def)
qed

lemma name_fields_facts:
  assumes "name_fields (zeros 512) path = Some b" and "CHR 0x00 \<notin> set path"
  shows "length b = 512" and "hdr_path b = path" and "b ! 0 \<noteq> 0" and "bslice 157 100 b = zeros 100"
proof -
  have ne: "path \<noteq> []" using assms(1) by (auto simp: name_fields_def bad_path_def)
  have nz: "bytes_of s ! 0 \<noteq> 0" if "s \<noteq> []" "CHR 0x00 \<notin> set s" for s
  proof -
    have "hd s \<noteq> CHR 0x00" using that by (cases s) auto
    then have "(of_char (hd s) :: nat) \<noteq> of_char (CHR 0x00)" by (simp only: of_char_eq_iff not_False_eq_True)
    moreover have "(of_char (hd s) :: nat) < 256" using range_nat_of_char by auto
    ultimately have "unat (of_nat (of_char (hd s)) :: byte) \<noteq> 0" by (simp add: unat_of_nat_small)
    then show ?thesis using that(1) by (cases s) (auto simp: bytes_of_def)
  qed
  have *: "length b = 512 \<and> hdr_path b = path \<and> b ! 0 \<noteq> 0 \<and> bslice 157 100 b = zeros 100"
  proof (cases "length path \<le> 100")
    case True
    then have b: "b = blit (zeros 512) 0 (bytes_of path)" using assms(1) by (auto simp: name_fields_def split: if_splits)
    have "bslice 0 100 b = bytes_of path @ zeros (100 - length path)" unfolding b using True blit_zeros_slice [of 0 "bytes_of path" 512 100] by simp
    moreover have "b ! 345 = 0" using True by (simp add: b nth_blit)
    moreover have "b ! 0 \<noteq> 0" using True ne nz [OF ne assms(2)] by (simp add: b nth_blit)
    moreover have "bslice 157 100 b = zeros 100" unfolding b using True by (simp add: bslice_blit_other bslice_zeros)
    ultimately show ?thesis using True field_text [OF assms(2) True] by (simp add: hdr_path_def b)
  next
    case False
    let ?i = "last (split_points path)"
    let ?n = "drop (?i + 1) path" and ?p = "take ?i path"
    have sp: "split_points path \<noteq> []" "?i \<noteq> 0" "?i + 1 \<noteq> length path"
      and b: "b = blit (blit (zeros 512) 0 (bytes_of ?n)) 345 (bytes_of ?p)"
      using assms(1) False by (auto simp: name_fields_def Let_def split: if_splits)
    note f = split_point_facts [OF sp(1)]
    have l: "length ?n \<le> 100" "length ?p \<le> 155" "?n \<noteq> []" "?p \<noteq> []" using f sp by auto
    have z: "CHR 0x00 \<notin> set ?n" "CHR 0x00 \<notin> set ?p" using assms(2) by (auto dest: in_set_dropD in_set_takeD)
    have "bslice 0 100 b = bytes_of ?n @ zeros (100 - length ?n)"
      unfolding b using l blit_zeros_slice [of 0 "bytes_of ?n" 512 100] by (subst bslice_blit_other) simp_all
    moreover have "bslice 345 155 b = bytes_of ?p @ zeros (155 - length ?p)"
    proof (rule nth_equalityI)
      show "length (bslice 345 155 b) = length (bytes_of ?p @ zeros (155 - length ?p))" using l by (simp add: b)
      fix j assume "j < length (bslice 345 155 b)"
      then have "j < 155" by simp
      then show "bslice 345 155 b ! j = (bytes_of ?p @ zeros (155 - length ?p)) ! j"
        using l by (auto simp: b buf_simps nth_append)
    qed
    moreover have "b ! 345 \<noteq> 0" using l nz [OF l(4) z(2)] by (simp add: b nth_blit)
    moreover have "b ! 0 \<noteq> 0" using l nz [OF l(3) z(1)] by (simp add: b nth_blit)
    moreover have "bslice 157 100 b = zeros 100" unfolding b using l by (simp add: bslice_blit_other bslice_zeros)
    moreover have "?p @ ''/'' @ ?n = path" using f(1,2) id_take_nth_drop [of ?i path] by simp
    moreover have "length b = 512" using l by (simp add: b)
    ultimately show ?thesis using field_text [OF z(1) l(1)] field_text [OF z(2) l(2)] by (simp add: hdr_path_def)
  qed
  show "length b = 512" "hdr_path b = path" "b ! 0 \<noteq> 0" "bslice 157 100 b = zeros 100" using * by blast+
qed

text \<open>Updates inside a block of 512 bytes.\<close>

lemma block_blit:
  assumes "length xs = 512" and "off + length ys \<le> 512"
  shows "length (blit xs off ys) = 512"
    and "o2 + n \<le> 512 \<Longrightarrow> o2 + n \<le> off \<or> off + length ys \<le> o2 \<Longrightarrow> bslice o2 n (blit xs off ys) = bslice o2 n xs"
    and "n = length ys \<Longrightarrow> bslice off n (blit xs off ys) = ys"
    and "i < 512 \<Longrightarrow> blit xs off ys ! i = (if off \<le> i \<and> i < off + length ys then ys ! (i - off) else xs ! i)"
  using assms by (simp_all add: bslice_blit_other bslice_blit_same nth_blit)

lemma header_block_facts:
  assumes "header_block path sz mode type = Some b" and "CHR 0x00 \<notin> set path" and "type \<noteq> 0"
  shows "length b = 512" and "b ! 0 \<noteq> 0"
    and "entry_of b off = \<lparr>te_path = path, te_linkname = [], te_size = sz, te_mode = mode AND 0xFFF, te_type = type, te_data_offset = off\<rparr>"
proof -
  from assms(1) obtain b0 fmode fid fsize ftime fsum c where
    f: "name_fields (zeros 512) path = Some b0" "oct_field 8 (ucast (mode AND 0xFFF)) = Some fmode" "oct_field 8 0 = Some fid"
      "oct_field 12 sz = Some fsize" "oct_field 12 0 = Some ftime" "oct_field 7 c = Some fsum"
    and b: "b = blit (blit (ustar_block b0 fmode fid fsize ftime type) 148 fsum) 155 [0x20]"
    by (auto simp: header_block_def Let_def split: option.splits)
  note b1 = ustar_block_def Let_def
  note n = name_fields_facts [OF f(1) assms(2)]
  have l: "length fmode = 8" "length fid = 8" "length fsize = 12" "length ftime = 12" "length fsum = 7"
    using oct_field_facts(1) [OF f(2)] oct_field_facts(1) [OF f(3)] oct_field_facts(1) [OF f(4)] oct_field_facts(1) [OF f(5)]
      oct_field_facts(1) [OF f(6)] by auto
  show "length b = 512" by (simp add: b b1 l n(1) block_blit(1) del: length_blit)
  show "b ! 0 \<noteq> 0" using n(1,3) by (simp add: b b1 l block_blit(1,4) del: length_blit)
  have s: "bslice 0 100 b = bslice 0 100 b0" "bslice 345 155 b = bslice 345 155 b0" "bslice 157 100 b = bslice 157 100 b0"
    "bslice 100 8 b = fmode" "bslice 124 12 b = fsize"
    unfolding b b1 by (simp_all add: l n(1) block_blit(1-3) del: length_blit)
  have h: "b ! 345 = b0 ! 345" "b ! 156 = type" by (simp_all add: b b1 l n(1) block_blit(1,4) del: length_blit)
  have "hdr_path b = hdr_path b0" unfolding hdr_path_def s h ..
  then have p: "te_path (entry_of b off) = path" using n(2) by (simp add: entry_of_def hdr_path_def split: if_splits)
  have "ucast (ucast (mode AND 0xFFF) :: u64) = mode AND 0xFFF" by (simp add: word_unat_eq_iff unat_ucast_64_32 unat_ucast_32_64)
  then show "entry_of b off = \<lparr>te_path = path, te_linkname = [], te_size = sz, te_mode = mode AND 0xFFF, te_type = type, te_data_offset = off\<rparr>"
    using oct_field_facts(2) [OF f(2)] oct_field_facts(2) [OF f(4)] assms(3) n(4) p
    by (simp add: entry_of_def s h text_zeros cstr_def)
qed


section \<open>Writing succeeds where there is room\<close>

lemma stream_write_ok:
  "length bs \<le> oroom out \<Longrightarrow> stream_write out bs = (out\<lparr>odata := odata out @ bs, oroom := oroom out - length bs\<rparr>, True)"
  by (simp add: stream_write_def)

lemma copy_bytes_ok:
  "n \<le> length inp \<Longrightarrow> n \<le> oroom out \<Longrightarrow>
   copy_bytes inp out n = (out\<lparr>odata := odata out @ take n inp, oroom := oroom out - n\<rparr>, True)"
proof (induction inp out n rule: copy_bytes.induct)
  case (1 inp out n)
  show ?case
  proof (cases "n = 0")
    case False
    let ?c = "if n < 32768 then n else 32768"
    have c: "?c \<le> n" by simp
    have w: "stream_write out (take ?c inp) = (out\<lparr>odata := odata out @ take ?c inp, oroom := oroom out - ?c\<rparr>, True)"
      using c "1.prems" by (simp add: stream_write_ok)
    have t: "take ?c inp @ take (n - ?c) (drop ?c inp) = take n inp" using c take_add [of ?c "n - ?c" inp] by simp
    show ?thesis
      unfolding copy_bytes.simps [of inp out n] Let_def w using False c "1.prems" "1.IH" [OF False refl _ w [symmetric] refl]
      by (simp add: t)
  qed (simp add: copy_bytes.simps [of inp out 0])
qed

lemma byte_sum_bound: "unat (\<Sum>x\<leftarrow>b. ucast (x :: byte) :: u32) \<le> 255 * length b" if "255 * length b < 4294967296"
  using that
proof (induction b)
  case (Cons x b)
  then have IH: "unat (\<Sum>x\<leftarrow>b. ucast x :: u32) \<le> 255 * length b" by simp
  have "unat x \<le> 255" using unat_u8_less [of x] by linarith
  with IH Cons.prems show ?case by (simp add: unat_add_small u_simps)
qed simp

lemma header_block_some:
  assumes "name_fields (zeros 512) path = Some b0" and "CHR 0x00 \<notin> set path" and "unat sz < 8 ^ 11"
  shows "\<exists>b. header_block path sz mode type = Some b"
proof -
  have "unat (ucast (mode AND 0xFFF) :: u64) < 8 ^ 7"
  proof -
    have "mode AND 0xFFF = take_bit 12 mode" by (simp add: take_bit_eq_mask mask_numeral)
    then have "unat (mode AND 0xFFF) < 4096" by (simp add: take_bit_eq_mod unat_mod)
    then show ?thesis by (simp add: u_simps)
  qed
  then obtain fmode where fm: "oct_field 8 (ucast (mode AND 0xFFF)) = Some fmode" using oct_field_some [of "ucast (mode AND 0xFFF)" 8] by auto
  obtain fid where fi: "oct_field 8 0 = Some fid" using oct_field_some [of 0 8] by auto
  obtain fsize where fs: "oct_field 12 sz = Some fsize" using oct_field_some [of sz 12] assms(3) by auto
  obtain ftime where ft: "oct_field 12 0 = Some ftime" using oct_field_some [of 0 12] by auto
  have l: "length b0 = 512" "length fmode = 8" "length fid = 8" "length fsize = 12" "length ftime = 12"
    using name_fields_facts(1) [OF assms(1,2)] oct_field_facts(1) [OF fm] oct_field_facts(1) [OF fi] oct_field_facts(1) [OF fs]
      oct_field_facts(1) [OF ft] by auto
  let ?b = "ustar_block b0 fmode fid fsize ftime type"
  have "length ?b = 512" by (simp add: ustar_block_def Let_def l block_blit(1) del: length_blit)
  then have "unat (\<Sum>x\<leftarrow>?b. ucast x :: u32) \<le> 130560" using byte_sum_bound [of ?b] by simp
  then have "unat (ucast (\<Sum>x\<leftarrow>?b. ucast x :: u32) :: u64) < 8 ^ 6" by (simp add: u_simps)
  then obtain fsum where "oct_field 7 (ucast (\<Sum>x\<leftarrow>?b. ucast x :: u32)) = Some fsum" using oct_field_some [of _ 7] by fastforce
  with assms(1) fm fi fs ft show ?thesis by (simp add: header_block_def Let_def)
qed

text \<open>What an archive is made of\<close>

datatype tar_item = TFile string u32 "byte list" | TDir string u32

primrec item_path :: "tar_item \<Rightarrow> string" where
  "item_path (TFile p m c) = p"
| "item_path (TDir p m) = (if last p \<noteq> CHR ''/'' then p @ ''/'' else p)"

primrec item_data :: "tar_item \<Rightarrow> byte list" where
  "item_data (TFile p m c) = c"
| "item_data (TDir p m) = []"

primrec item_mode :: "tar_item \<Rightarrow> u32" where
  "item_mode (TFile p m c) = m"
| "item_mode (TDir p m) = m"

primrec item_type :: "tar_item \<Rightarrow> byte" where
  "item_type (TFile p m c) = 0x30"
| "item_type (TDir p m) = 0x35"

primrec write_item :: "ostream \<Rightarrow> tar_item \<Rightarrow> ostream \<times> bool" where
  "write_item out (TFile p m c) = gu_tar_write_file out p c (of_nat (length c)) m"
| "write_item out (TDir p m) = gu_tar_write_dir out p m"

fun write_items :: "ostream \<Rightarrow> tar_item list \<Rightarrow> ostream \<times> bool" where
  "write_items out [] = gu_tar_write_end out"
| "write_items out (it # its) = (case write_item out it of (out, False) \<Rightarrow> (out, False) | (out, True) \<Rightarrow> write_items out its)"

definition item_ok :: "tar_item \<Rightarrow> bool" where
  "item_ok it \<longleftrightarrow> name_fields (zeros 512) (item_path it) \<noteq> None \<and> CHR 0x00 \<notin> set (item_path it) \<and>
     length (item_data it) < 2 ^ 32 - 511 \<and> (case it of TDir p m \<Rightarrow> p \<noteq> [] \<and> length p < 255 | TFile p m c \<Rightarrow> True)"

definition item_header :: "tar_item \<Rightarrow> byte list" where
  "item_header it = the (header_block (item_path it) (of_nat (length (item_data it))) (item_mode it) (item_type it))"

definition item_bytes :: "tar_item \<Rightarrow> byte list" where
  "item_bytes it = item_header it @ item_data it @ zeros ((512 - length (item_data it) mod 512) mod 512)"

definition item_entry :: "tar_item \<Rightarrow> nat \<Rightarrow> gu_tar_entry" where
  "item_entry it off = \<lparr>te_path = item_path it, te_linkname = [], te_size = of_nat (length (item_data it)),
     te_mode = item_mode it AND 0xFFF, te_type = item_type it, te_data_offset = off\<rparr>"

lemma item_header_facts:
  assumes "item_ok it"
  shows "header_block (item_path it) (of_nat (length (item_data it))) (item_mode it) (item_type it) = Some (item_header it)"
    and "length (item_header it) = 512" and "item_header it ! 0 \<noteq> 0" and "entry_of (item_header it) off = item_entry it off"
    and "unat (of_nat (length (item_data it)) :: u64) = length (item_data it)"
proof -
  note ok = assms [unfolded item_ok_def]
  obtain b0 where b0: "name_fields (zeros 512) (item_path it) = Some b0" using ok by auto
  show u: "unat (of_nat (length (item_data it)) :: u64) = length (item_data it)" using ok by (simp add: unat_of_nat_small)
  have "unat (of_nat (length (item_data it)) :: u64) < 8 ^ 11" using ok by (simp add: u)
  from header_block_some [OF b0 _ this] ok show h: "header_block (item_path it) (of_nat (length (item_data it))) (item_mode it) (item_type it) = Some (item_header it)"
    by (auto simp: item_header_def)
  have t: "item_type it \<noteq> 0" by (cases it) simp_all
  have z: "CHR 0x00 \<notin> set (item_path it)" using ok by blast
  show "length (item_header it) = 512" "item_header it ! 0 \<noteq> 0" "entry_of (item_header it) off = item_entry it off"
    using header_block_facts [OF h z t] by (simp_all add: item_entry_def)
qed

lemma write_item_ok:
  assumes "item_ok it" and "length (item_bytes it) \<le> oroom out"
  shows "write_item out it = (out\<lparr>odata := odata out @ item_bytes it, oroom := oroom out - length (item_bytes it)\<rparr>, True)"
proof -
  note h = item_header_facts [OF assms(1)]
  let ?o1 = "out\<lparr>odata := odata out @ item_header it, oroom := oroom out - 512\<rparr>"
  have th: "tar_header out (item_path it) (of_nat (length (item_data it))) (item_mode it) (item_type it) = (?o1, True)"
    using assms(2) h(1,2) by (simp add: tar_header_def stream_write_ok item_bytes_def)
  show ?thesis
  proof (cases it)
    case (TFile p m c)
    let ?pad = "(512 - length c mod 512) mod 512"
    have cp: "copy_bytes c ?o1 (length c) = (?o1\<lparr>odata := (odata out @ item_header it) @ c, oroom := oroom out - 512 - length c\<rparr>, True)"
      using copy_bytes_ok [of "length c" c ?o1] assms(2) h(2) TFile by (simp add: item_bytes_def)
    let ?o2 = "?o1\<lparr>odata := (odata out @ item_header it) @ c, oroom := oroom out - 512 - length c\<rparr>"
    have "?pad \<le> oroom ?o2" using assms(2) h(2) TFile by (simp add: item_bytes_def)
    then have pw: "stream_write ?o2 (zeros ?pad) = (?o2\<lparr>odata := odata ?o2 @ zeros ?pad, oroom := oroom ?o2 - ?pad\<rparr>, True)"
      by (simp add: stream_write_ok)
    have "write_item out it = (if ?pad \<noteq> 0 then stream_write ?o2 (zeros ?pad) else (?o2, True))"
      using th cp h(5) TFile by (simp add: gu_tar_write_file_def Let_def)
    then show ?thesis unfolding pw using h(2) TFile by (simp add: item_bytes_def zeros_def add.assoc)
  next
    case (TDir p m)
    then have "p \<noteq> []" "length p < 255" using assms(1) by (simp_all add: item_ok_def)
    with th TDir h(2) show ?thesis by (simp add: gu_tar_write_dir_def item_bytes_def zeros_def)
  qed
qed

lemma write_items_ok:
  assumes "\<forall>it \<in> set its. item_ok it" and "length (concat (map item_bytes its)) + 1024 \<le> oroom out"
  shows "\<exists>out'. write_items out its = (out', True) \<and> odata out' = odata out @ concat (map item_bytes its) @ zeros 1024"
  using assms
proof (induction its arbitrary: out)
  case Nil
  then show ?case by (simp add: gu_tar_write_end_def stream_write_ok)
next
  case (Cons it its)
  let ?o = "out\<lparr>odata := odata out @ item_bytes it, oroom := oroom out - length (item_bytes it)\<rparr>"
  have w: "write_item out it = (?o, True)" using Cons.prems by (intro write_item_ok) simp_all
  from Cons.IH [of ?o] Cons.prems w show ?case by simp
qed


section \<open>Walking what was written\<close>

lemma unat_tar_padded: "unat (tar_padded sz) = unat (sz + 511) div 512 mod 8388608 * 512"
proof -
  have "(0xFFFFFE00 :: u64) = mask (23 + 9) AND NOT (mask 9)" by (simp add: mask_numeral)
  then have "tar_padded sz = push_bit 9 (take_bit 23 (drop_bit 9 (sz + 511)))"
    by (simp add: tar_padded_def slice_eq_mask and.assoc)
  moreover have t: "unat (take_bit 23 (drop_bit 9 (sz + 511))) = unat (sz + 511) div 512 mod 8388608"
    by (simp add: unsigned_take_bit_eq unat_drop_bit_eq take_bit_eq_mod drop_bit_eq_div unat_mod unat_div)
  moreover have "unat (sz + 511) div 512 mod 8388608 < 8388608" by simp
  ultimately show ?thesis
    by (simp only: push_bit_eq_mult) (subst unat_mult_small; simp)
qed

lemma round_up_512: "(n + 511) div 512 * 512 = n + (512 - n mod 512) mod (512 :: nat)"
proof -
  define q r where "q = n div 512" and "r = n mod 512"
  have n: "n = 512 * q + r" "r < 512" by (simp_all add: q_def r_def)
  have "(512 * q + r + 511) div 512 = q + (r + 511) div 512" by simp
  moreover have "(r + 511) div 512 = (if r = 0 then 0 else 1)" using n(2) by (auto simp: div_nat_eqI)
  ultimately show ?thesis using n by (cases "r = 0") auto
qed

lemma tar_padded_small:
  assumes "unat sz < 2 ^ 32 - 511"
  shows "unat (tar_padded sz) = unat sz + (512 - unat sz mod 512) mod 512"
proof -
  have a: "unat (sz + 511) = unat sz + 511" using assms by (simp add: unat_add_small)
  have "(unat sz + 511) div 512 < 8388608" using assms by (simp add: div_less_iff_less_mult)
  then show ?thesis unfolding unat_tar_padded a using round_up_512 by simp
qed

fun item_entries :: "nat \<Rightarrow> tar_item list \<Rightarrow> gu_tar_entry list" where
  "item_entries pos [] = []"
| "item_entries pos (it # its) = item_entry it (pos + 512) # item_entries (pos + length (item_bytes it)) its"

lemma bslice_at: "bslice (length a) n (a @ b) = take n b"
  by (simp add: bslice_def)

lemma tar_walk_item:
  assumes "item_ok it" and "f = a @ item_bytes it @ b" and "length a = off + pos" and "pos + length (item_bytes it) \<le> len"
    and "length f \<le> LONG_MAX" and "cb ctx (item_entry it (off + pos + 512)) = (ctx', False)"
  shows "tar_walk f off len cb ctx pos = tar_walk f off len cb ctx' (pos + length (item_bytes it))"
proof -
  note h = item_header_facts [OF assms(1)]
  let ?d = "item_data it" and ?pad = "(512 - length (item_data it) mod 512) mod 512"
  have l: "length (item_bytes it) = 512 + length ?d + ?pad" using h(2) by (simp add: item_bytes_def)
  have b: "bslice (off + pos) 512 f = item_header it"
    using h(2) bslice_at [of a 512 "item_bytes it @ b"] by (simp add: assms(2,3) item_bytes_def)
  have nz: "(\<forall>b \<in> set (item_header it). b = 0) \<longleftrightarrow> False" using h(2,3) nth_mem [of 0 "item_header it"] by fastforce
  have small: "unat (of_nat (length ?d) :: u64) < 2 ^ 32 - 511" using assms(1) h(5) by (simp add: item_ok_def)
  have p: "unat (tar_padded (of_nat (length ?d))) = length ?d + ?pad" using tar_padded_small [OF small] h(5) by simp
  have fit: "pos + 512 \<le> len" "length ?d + ?pad \<le> len - (pos + 512)" using assms(4) l by linarith+
  have lm: "\<not> off + (pos + 512 + (length ?d + ?pad)) > LONG_MAX" using assms(2,3,5) l by simp
  have c: "cb ctx (item_entry it (off + (pos + 512))) = (ctx', False)" using assms(6) by (simp add: add.assoc)
  have sz: "te_size (item_entry it x) = of_nat (length ?d)" for x by (simp add: item_entry_def)
  show ?thesis
    unfolding tar_walk.simps [of f off len cb ctx pos] Let_def b h(4) sz h(5) p c nz if_False
    using fit h(2) lm l by (simp add: add.assoc)
qed

lemma tar_walk_end:
  assumes "f = a @ zeros n @ b" and "512 \<le> n" and "length a = off + pos" and "pos + 512 \<le> len"
  shows "tar_walk f off len cb ctx pos = (0, ctx)"
proof -
  have "bslice (off + pos) 512 f = zeros 512" using assms(1-3) bslice_at [of a 512 "zeros n @ b"] by (simp add: zeros_def)
  then show ?thesis using assms(4) by (subst tar_walk.simps) (simp add: Let_def zeros_def)
qed

text \<open>A callback that never stops the walk sees the entries in their order.\<close>

lemma tar_walk_items:
  assumes "\<forall>it \<in> set its. item_ok it" and "f = a @ concat (map item_bytes its) @ zeros 1024 @ b" and "length a = off + pos"
    and "pos + length (concat (map item_bytes its)) + 1024 \<le> len" and "length f \<le> LONG_MAX"
  shows "tar_walk f off len (\<lambda>c e. (g c e, False)) ctx pos = (0, foldl g ctx (item_entries (off + pos) its))"
  using assms
proof (induction its arbitrary: a pos ctx)
  case Nil
  have "tar_walk f off len (\<lambda>c e. (g c e, False)) ctx pos = (0, ctx)"
    by (rule tar_walk_end [where a = a and n = 1024 and b = b]) (use Nil in simp_all)
  then show ?case by simp
next
  case (Cons it its)
  have "tar_walk f off len (\<lambda>c e. (g c e, False)) ctx pos =
      tar_walk f off len (\<lambda>c e. (g c e, False)) (g ctx (item_entry it (off + pos + 512))) (pos + length (item_bytes it))"
    by (rule tar_walk_item [where a = a and b = "concat (map item_bytes its) @ zeros 1024 @ b"]) (use Cons.prems in simp_all)
  also have "\<dots> = (0, foldl g (g ctx (item_entry it (off + pos + 512))) (item_entries (off + (pos + length (item_bytes it))) its))"
    by (rule Cons.IH [where a = "a @ item_bytes it"]) (use Cons.prems in simp_all)
  finally show ?case by (simp add: add.assoc)
qed

lemma item_entries_data:
  assumes "\<forall>it \<in> set its. item_ok it" and "f = a @ concat (map item_bytes its) @ b" and "i < length its"
  shows "bslice (te_data_offset (item_entries (length a) its ! i)) (length (item_data (its ! i))) f = item_data (its ! i)"
  using assms
proof (induction its arbitrary: a i)
  case (Cons it its)
  show ?case
  proof (cases i)
    case 0
    have "length (item_header it) = 512" using item_header_facts(2) Cons.prems(1) by simp
    then have f: "f = (a @ item_header it) @ item_data it @ zeros ((512 - length (item_data it) mod 512) mod 512) @ concat (map item_bytes its) @ b"
      "length a + 512 = length (a @ item_header it)" using Cons.prems(2) by (simp_all add: item_bytes_def [of it])
    have "bslice (length (a @ item_header it)) (length (item_data it)) f = item_data it" unfolding f(1) bslice_at by simp
    then show ?thesis unfolding 0 by (simp add: item_entry_def f(2))
  next
    case (Suc j)
    have "f = (a @ item_bytes it) @ concat (map item_bytes its) @ b" using Cons.prems(2) by simp
    from Cons.IH [OF _ this, of j] Cons.prems Suc show ?thesis by simp
  qed
qed simp

lemma length_item_entries [simp]: "length (item_entries pos its) = length its"
  by (induction its arbitrary: pos) simp_all

section \<open>Properties\<close>

text \<open>C11. A written archive is walked as it was written. Given names that fit a header, contents shorter than \<open>2 ^ 32 - 511\<close>
  bytes (from 4 GiB on the walk goes wrong, see \<open>tar_walk_large_entry\<close>) and room on the host, writing
  files and directories and the end mark succeeds, and \<^verbatim>\<open>gu_tar_walk_stream\<close> over the result returns 0 and visits
  exactly these entries in order: path, size, permission bits, type, and the place where the content lies.\<close>

theorem tar_roundtrip:
  assumes "\<forall>it \<in> set its. item_ok it" and "length (concat (map item_bytes its)) + 1024 \<le> r" and "r \<le> LONG_MAX"
  shows "\<exists>out es. write_items \<lparr>odata = [], oroom = r\<rparr> its = (out, True) \<and>
    gu_tar_walk_stream (odata out) (\<lambda>es e. (es @ [e], False)) [] = (0, es) \<and> length es = length its \<and>
    (\<forall>i < length its. te_path (es ! i) = item_path (its ! i) \<and> te_mode (es ! i) = item_mode (its ! i) AND 0xFFF \<and>
       te_type (es ! i) = item_type (its ! i) \<and> unat (te_size (es ! i)) = length (item_data (its ! i)) \<and>
       bslice (te_data_offset (es ! i)) (unat (te_size (es ! i))) (odata out) = item_data (its ! i))"
proof -
  from write_items_ok [OF assms(1), of "\<lparr>odata = [], oroom = r\<rparr>"] assms(2) obtain out where
    w: "write_items \<lparr>odata = [], oroom = r\<rparr> its = (out, True)" "odata out = concat (map item_bytes its) @ zeros 1024" by auto
  let ?es = "item_entries 0 its"
  have lm: "length (odata out) \<le> LONG_MAX" using w(2) assms(2,3) by simp
  have fl: "foldl (\<lambda>es e. es @ [e]) xs ys = xs @ ys" for xs ys :: "gu_tar_entry list" by (induction ys arbitrary: xs) simp_all
  have "tar_walk (odata out) 0 (length (odata out)) (\<lambda>es e. (es @ [e], False)) [] 0 = (0, foldl (\<lambda>es e. es @ [e]) [] (item_entries (0 + 0) its))"
    by (rule tar_walk_items [where a = "[]" and b = "[]"]) (use assms(1) w(2) lm in simp_all)
  then have k: "gu_tar_walk_stream (odata out) (\<lambda>es e. (es @ [e], False)) [] = (0, ?es)"
    by (simp add: gu_tar_walk_stream_def gu_tar_walk_def fl)
  have e: "\<exists>p. item_entries q its ! i = item_entry (its ! i) p" if "i < length its" for q i
    using that by (induction its arbitrary: q i) (auto simp: nth_Cons split: nat.split)
  have "te_path (?es ! i) = item_path (its ! i) \<and> te_mode (?es ! i) = item_mode (its ! i) AND 0xFFF \<and>
      te_type (?es ! i) = item_type (its ! i) \<and> unat (te_size (?es ! i)) = length (item_data (its ! i)) \<and>
      bslice (te_data_offset (?es ! i)) (unat (te_size (?es ! i))) (odata out) = item_data (its ! i)" if i: "i < length its" for i
    using e [OF i, of 0] item_entries_data [OF assms(1), of "odata out" "[]" "zeros 1024" i] i w(2) item_header_facts(5) assms(1) nth_mem [OF i]
    by (auto simp: item_entry_def)
  with w(1) k show ?thesis using length_item_entries by blast
qed


text \<open>C35. An entry of 4 GiB loses the walk. The rounding of its size keeps 32 bits only, so that after an entry of
  exactly 4 GiB the next header is read where the content of the entry starts.\<close>

theorem tar_walk_large_entry:
  assumes "pos + 512 + 2 ^ 32 \<le> len" and "off + len \<le> length f" and "length f \<le> LONG_MAX"
    and "\<exists>b \<in> set (bslice (off + pos) 512 f). b \<noteq> 0" and "te_size (entry_of (bslice (off + pos) 512 f) (off + pos + 512)) = 2 ^ 32"
    and "cb ctx (entry_of (bslice (off + pos) 512 f) (off + pos + 512)) = (ctx', False)"
  shows "tar_walk f off len cb ctx pos = tar_walk f off len cb ctx' (pos + 512)"
proof -
  have l: "length (bslice (off + pos) 512 f) = 512" using assms(1,2) by simp
  have p: "unat (tar_padded (2 ^ 32)) = 0" by (simp add: tar_padded_def)
  have nz: "(\<forall>b \<in> set (bslice (off + pos) 512 f). b = 0) \<longleftrightarrow> False" using assms(4) by blast
  note e = assms(5,6) [unfolded add.assoc]
  have room: "\<not> len - (pos + 512) < 4294967296" using assms(1) by simp
  show ?thesis
    unfolding tar_walk.simps [of f off len cb ctx pos] Let_def nz if_False e p l
    using assms(1-3) room by (simp add: add.assoc)
qed

section \<open>Witnesses\<close>

definition demo_items :: "tar_item list" where
  "demo_items = [TDir ''usr'' 0x1ED, TFile ''usr/hello'' 0x81A4 [0x68, 0x69]]"

theorem tar_roundtrip_witness:
  "\<exists>out es. write_items \<lparr>odata = [], oroom = 4096\<rparr> demo_items = (out, True) \<and>
    gu_tar_walk_stream (odata out) (\<lambda>es e. (es @ [e], False)) [] = (0, es) \<and> length es = 2 \<and>
    te_path (es ! 0) = ''usr/'' \<and> te_path (es ! 1) = ''usr/hello'' \<and>
    bslice (te_data_offset (es ! 1)) (unat (te_size (es ! 1))) (odata out) = [0x68, 0x69]"
proof -
  have "\<not> bad_path ''usr/''" "\<not> bad_path ''usr/hello''" by code_simp+
  then have ok: "\<forall>it \<in> set demo_items. item_ok it" by (simp add: demo_items_def item_ok_def name_fields_def)
  then have "length (item_header it) = 512" if "it \<in> set demo_items" for it using that item_header_facts(2) by blast
  then have "length (concat (map item_bytes demo_items)) + 1024 \<le> 4096" by (simp add: demo_items_def item_bytes_def)
  from tar_roundtrip [OF ok this] obtain out es where
    "write_items \<lparr>odata = [], oroom = 4096\<rparr> demo_items = (out, True)"
    "gu_tar_walk_stream (odata out) (\<lambda>es e. (es @ [e], False)) [] = (0, es)" "length es = length demo_items"
    and e: "\<forall>i < length demo_items. te_path (es ! i) = item_path (demo_items ! i) \<and> te_mode (es ! i) = item_mode (demo_items ! i) AND 0xFFF \<and>
       te_type (es ! i) = item_type (demo_items ! i) \<and> unat (te_size (es ! i)) = length (item_data (demo_items ! i)) \<and>
       bslice (te_data_offset (es ! i)) (unat (te_size (es ! i))) (odata out) = item_data (demo_items ! i)"
    by (auto simp: LONG_MAX_def)
  moreover have "length demo_items = 2" by (simp add: demo_items_def)
  ultimately show ?thesis using e [rule_format, of 0] e [rule_format, of 1]
    by (intro exI [of _ out] exI [of _ es]) (simp add: demo_items_def)
qed


text \<open>A file that consists of a header for 4 GiB and that content.\<close>

theorem tar_walk_large_entry_witness:
  "\<exists>f :: byte list. length f = 512 + 2 ^ 32 \<and>
     tar_walk f 0 (length f) (\<lambda>n e. (n + 1, False)) (0 :: nat) 0 = tar_walk f 0 (length f) (\<lambda>n e. (n + 1, False)) 1 512"
proof -
  obtain m :: nat where m: "m = 2 ^ 32" by blast
  have "\<not> bad_path ''big''" by code_simp
  then obtain b0 where n: "name_fields (zeros 512) ''big'' = Some b0" by (simp add: name_fields_def)
  have u: "unat (2 ^ 32 :: u64) < 8 ^ 11" by simp
  from header_block_some [OF n _ u, of 0 "0x30"] obtain h where h: "header_block ''big'' (2 ^ 32) 0 0x30 = Some h" by auto
  have hf: "length h = 512" "h ! 0 \<noteq> 0" "te_size (entry_of h 512) = 2 ^ 32" using header_block_facts [OF h] by simp_all
  let ?f = "h @ zeros m"
  have s: "bslice (0 + 0) 512 ?f = h" using hf(1) by (simp add: bslice_def)
  have "h ! 0 \<in> set h" using hf(1) by (intro nth_mem) simp
  then have nz: "\<exists>b \<in> set (bslice (0 + 0) 512 ?f). b \<noteq> 0" unfolding s using hf(2) by blast
  have sz: "te_size (entry_of (bslice (0 + 0) 512 ?f) (0 + 0 + 512)) = 2 ^ 32" unfolding s using hf(3) by simp
  have "0 + 512 + 2 ^ 32 \<le> length ?f" "0 + length ?f \<le> length ?f" "length ?f \<le> LONG_MAX" using hf(1) by (simp_all add: m LONG_MAX_def)
  from tar_walk_large_entry [OF this nz sz, of "\<lambda>n e. (n + 1, False)" "0 :: nat" 1] have
    "tar_walk ?f 0 (length ?f) (\<lambda>n e. (n + 1, False)) (0 :: nat) 0 = tar_walk ?f 0 (length ?f) (\<lambda>n e. (n + 1, False)) 1 512" by simp
  with hf(1) m show ?thesis by (intro exI [of _ ?f]) simp
qed

end
