(* ===== verification/Deb_Package.thy ===== *)
theory Deb_Package
  imports Tar
begin

text \<open>
  The outer container of a Debian package (\<^verbatim>\<open>src/ar_write.c\<close>, \<^verbatim>\<open>src/deb.c\<close>): writing the members of an \<^verbatim>\<open>ar\<close> archive,
  and finding the version, the control member and the data member of a package.

  The loop over the members may not end, since the position after a member is a sum modulo \<open>2 ^ 64\<close> with a size field
  that \<^verbatim>\<open>strtoull\<close> accepts with a minus sign; it is a partial function, so that \<open>None\<close> means it runs for ever.

  The lemmas show that a package that was written opens with its members in place, that the loop ends when no size is
  negative, and an archive on which it does not end.
\<close>

section \<open>Writing\<close>

fun octs :: "nat \<Rightarrow> string" where
  "octs n = (if n < 8 then [digit n] else octs (n div 8) @ [digit (n mod 8)])"

declare octs.simps [simp del]

definition gu_ar_write_begin :: "ostream \<Rightarrow> ostream \<times> bool" where
  "gu_ar_write_begin out = stream_write out (bytes_of (''!<arch>'' @ [CHR 0x0A]))"

definition ar_field :: "nat \<Rightarrow> string \<Rightarrow> string option" where
  "ar_field width v = (if length v > width then None else Some (v @ replicate (width - length v) (CHR '' '')))"

definition ar_header :: "string \<Rightarrow> u64 \<Rightarrow> u32 \<Rightarrow> string option" where
  "ar_header nm sz mode =
     (case (ar_field 16 (nm @ ''/''), ar_field 12 ''0'', ar_field 6 ''0'', ar_field 8 (octs (unat (mode AND 0xFFF))), ar_field 10 (dec (unat sz))) of
        (Some fname, Some ftime, Some fid, Some fmode, Some fsize) \<Rightarrow>
          Some (fname @ ftime @ fid @ fid @ fmode @ fsize @ [CHR 0x60, CHR 0x0A])
      | _ \<Rightarrow> None)"

definition gu_ar_write_member :: "ostream \<Rightarrow> string \<Rightarrow> byte list \<Rightarrow> u64 \<Rightarrow> u32 \<Rightarrow> ostream \<times> bool" where
  "gu_ar_write_member out nm inp sz mode =
     (if nm = [] \<or> length nm > 15 \<or> CHR ''/'' \<in> set nm \<or> CHR 0x0A \<in> set nm \<or> CHR '' '' \<in> set nm then (out, False)
      else case ar_header nm sz mode of None \<Rightarrow> (out, False)
        | Some h \<Rightarrow>
            (case stream_write out (bytes_of h) of (out, False) \<Rightarrow> (out, False)
             | (out, True) \<Rightarrow>
                 (case copy_bytes inp out (unat sz) of (out, False) \<Rightarrow> (out, False)
                  | (out, True) \<Rightarrow> if sz AND 1 \<noteq> 0 then stream_write out [0x0A] else (out, True))))"

section \<open>Reading\<close>

record deb_member =
  m_name :: string
  m_offset :: u64
  m_size :: u64

record deb_package =
  p_version :: string
  p_control :: deb_member
  p_data :: deb_member

definition member_zero :: deb_member where
  "member_zero = \<lparr>m_name = [], m_offset = 0, m_size = 0\<rparr>"

definition package_zero :: deb_package where
  "package_zero = \<lparr>p_version = [], p_control = member_zero, p_data = member_zero\<rparr>"

definition trim :: "string \<Rightarrow> string" where
  "trim s = (let s = rtrim s in if s \<noteq> [] \<and> last s = CHR ''/'' then butlast s else s)"

definition ar_dec :: "string \<Rightarrow> u64 option" where
  "ar_dec p =
     (let b = trim (cstr p)
      in if b = [] then None
         else case scan_ull b of None \<Rightarrow> None | Some (v, e) \<Rightarrow> if e \<noteq> [] then None else Some v)"

definition next_member :: "nat \<Rightarrow> u64 \<Rightarrow> u64" where
  "next_member pos sz = of_nat pos + sz + (sz AND 1)"

text \<open>What a member of the given name adds to the package; \<open>None\<close> when its content cannot be read. The code then returns -8, with the
  bytes it could read left in the version buffer; its callers drop the package, and the model returns it as it was.\<close>

definition deb_note :: "byte list \<Rightarrow> string \<Rightarrow> nat \<Rightarrow> u64 \<Rightarrow> deb_package \<Rightarrow> deb_package option" where
  "deb_note f nm pos sz pkg =
     (if nm = ''debian-binary'' then
        let n = (if unat sz < 31 then unat sz else 31)
        in if length (bslice pos n f) \<noteq> n then None
           else Some (pkg\<lparr>p_version := trim (cstr (text_of (bslice pos n f)))\<rparr>)
      else if take 11 nm = ''control.tar'' then Some (pkg\<lparr>p_control := \<lparr>m_name = take 63 nm, m_offset = of_nat pos, m_size = sz\<rparr>\<rparr>)
      else if take 8 nm = ''data.tar'' then Some (pkg\<lparr>p_data := \<lparr>m_name = take 63 nm, m_offset = of_nat pos, m_size = sz\<rparr>\<rparr>)
      else Some pkg)"

partial_function (option) deb_walk :: "byte list \<Rightarrow> nat \<Rightarrow> deb_package \<Rightarrow> (int \<times> deb_package) option" where
  "deb_walk f pos pkg =
     (let h = bslice pos 60 f
      in if h = [] then Some (if p_version pkg \<noteq> [] \<and> m_name (p_control pkg) \<noteq> [] \<and> m_name (p_data pkg) \<noteq> [] then 0 else -10, pkg)
         else if length h \<noteq> 60 then Some (-4, pkg)
         else if h ! 58 \<noteq> 0x60 \<or> h ! 59 \<noteq> 0x0A then Some (-5, pkg)
         else case ar_dec (text_of (bslice 48 10 h)) of None \<Rightarrow> Some (-6, pkg)
           | Some sz \<Rightarrow>
               (case deb_note f (trim (cstr (text_of (bslice 0 16 h)))) (pos + 60) sz pkg of None \<Rightarrow> Some (-8, pkg)
                | Some pkg \<Rightarrow>
                    if unat (next_member (pos + 60) sz) > LONG_MAX then Some (-9, pkg)
                    else deb_walk f (unat (next_member (pos + 60) sz)) pkg))"

definition deb_open_fp :: "byte list \<Rightarrow> (int \<times> deb_package) option" where
  "deb_open_fp f =
     (if bslice 0 8 f \<noteq> bytes_of (''!<arch>'' @ [CHR 0x0A]) then Some (-3, package_zero) else deb_walk f 8 package_zero)"

definition deb_open :: "(string \<Rightarrow> byte list option) \<Rightarrow> string \<Rightarrow> (int \<times> deb_package) option" where
  "deb_open fs p = (case fs p of None \<Rightarrow> Some (-2, package_zero) | Some f \<Rightarrow> deb_open_fp f)"

definition deb_copy_member :: "byte list \<Rightarrow> deb_member \<Rightarrow> ostream \<Rightarrow> ostream \<times> bool" where
  "deb_copy_member f m out =
     (if unat (m_offset m) > LONG_MAX then (out, False) else copy_bytes (drop (unat (m_offset m)) f) out (unat (m_size m)))"

section \<open>Members\<close>

definition member_ok :: "string \<Rightarrow> byte list \<Rightarrow> bool" where
  "member_ok nm c \<longleftrightarrow> nm \<noteq> [] \<and> length nm \<le> 15 \<and> (\<forall>x \<in> set nm. \<not> isspace x \<and> x \<noteq> CHR ''/'' \<and> x \<noteq> CHR 0x00) \<and> length c < 10 ^ 10"

definition pad_to :: "nat \<Rightarrow> string \<Rightarrow> string" where
  "pad_to w v = v @ replicate (w - length v) (CHR '' '')"

lemma ar_field_pad: "length v \<le> w \<Longrightarrow> ar_field w v = Some (pad_to w v)"
  by (simp add: ar_field_def pad_to_def)

lemma length_pad_to: "length v \<le> w \<Longrightarrow> length (pad_to w v) = w"
  by (simp add: pad_to_def)

definition member_header :: "string \<Rightarrow> nat \<Rightarrow> u32 \<Rightarrow> string" where
  "member_header nm n mode = pad_to 16 (nm @ ''/'') @ pad_to 12 ''0'' @ pad_to 6 ''0'' @ pad_to 6 ''0'' @
     pad_to 8 (octs (unat (mode AND 0xFFF))) @ pad_to 10 (dec n) @ [CHR 0x60, CHR 0x0A]"

lemma length_octs: "n < 8 ^ Suc k \<Longrightarrow> length (octs n) \<le> Suc k"
proof (induction k arbitrary: n)
  case (Suc k)
  have "n div 8 < 8 ^ Suc k" using Suc.prems by (simp add: div_less_iff_less_mult)
  from Suc.IH [OF this] show ?case by (subst octs.simps) simp
qed (subst octs.simps, simp)

lemma mode_bits: "unat (mode AND 0xFFF :: u32) < 4096"
proof -
  have "mode AND 0xFFF = take_bit 12 mode" by (simp add: take_bit_eq_mask mask_numeral)
  then show ?thesis by (simp add: take_bit_eq_mod unat_mod)
qed

lemma ar_header_member:
  assumes "member_ok nm c"
  shows "ar_header nm (of_nat (length c)) mode = Some (member_header nm (length c) mode)"
    and "unat (of_nat (length c) :: u64) = length c"
    and "length (member_header nm (length c) mode) = 60"
    and "length (dec (length c)) \<le> 10" and "length (octs (unat (mode AND 0xFFF))) \<le> 8"
proof -
  note ok = assms [unfolded member_ok_def]
  show u: "unat (of_nat (length c) :: u64) = length c" using ok by (simp add: unat_of_nat_small)
  have "unat (mode AND 0xFFF) < 8 ^ Suc 3" using mode_bits [of mode] by simp
  from length_octs [OF this] show o: "length (octs (unat (mode AND 0xFFF))) \<le> 8" by simp
  show d: "length (dec (length c)) \<le> 10" using length_dec_less [of "length c" 9] ok by simp
  show "ar_header nm (of_nat (length c)) mode = Some (member_header nm (length c) mode)"
    using ok o d by (simp add: ar_header_def ar_field_pad u member_header_def)
  show "length (member_header nm (length c) mode) = 60" using ok o d by (simp add: member_header_def length_pad_to)
qed


lemma text_bslice: "text_of (bslice off n (bytes_of s)) = bslice off n s"
proof -
  have "bslice off n (bytes_of s) = bytes_of (bslice off n s)" by (simp add: bslice_def bytes_of_def take_map drop_map)
  then show ?thesis by simp
qed

lemma rtrim_padded: "s \<noteq> [] \<Longrightarrow> \<not> isspace (last s) \<Longrightarrow> rtrim (s @ replicate k (CHR '' '')) = s"
proof -
  assume s: "s \<noteq> []" "\<not> isspace (last s)"
  have "dropWhile isspace (replicate k (CHR '' '') @ rev s) = rev s" using s by (intro span_append(2)) (auto simp: hd_rev)
  then show ?thesis by (simp add: rtrim_def)
qed

lemma scan_ull_dec_end:
  assumes "n < 2 ^ 64"
  shows "scan_ull (dec n) = Some (of_nat n, [])"
proof -
  obtain d ds where d: "dec n = d # ds" by (cases "dec n") auto
  with dec_digits [of n] have dg: "isdigit d" "\<forall>c \<in> set (dec n). isdigit c" by auto
  then have nd: "d \<noteq> CHR ''-''" "d \<noteq> CHR ''+''" "\<not> isspace d" by (auto simp: isdigit_def isspace_def)
  have t: "takeWhile isdigit (d # ds) = d # ds" "dropWhile isdigit (d # ds) = []" using dg(2) d by (auto simp: takeWhile_eq_all_conv)
  have "dec_value (d # ds) = n" using dec_value_dec [of n] d by simp
  with assms nd t show ?thesis by (simp add: scan_ull_def d Let_def)
qed

lemma member_header_parts:
  fixes mode :: u32
  assumes "member_ok nm c"
  defines "h \<equiv> bytes_of (member_header nm (length c) mode)"
  shows "length h = 60" and "h ! 58 = 0x60" and "h ! 59 = 0x0A"
    and "trim (cstr (text_of (bslice 0 16 h))) = nm" and "ar_dec (text_of (bslice 48 10 h)) = Some (of_nat (length c))"
proof -
  note ok = assms(1) [unfolded member_ok_def] and a = ar_header_member [OF assms(1)]
  show "length h = 60" using a(3) by (simp add: h_def)
  have l: "length (pad_to 16 (nm @ ''/'')) = 16" "length (pad_to 8 (octs (unat (mode AND 0xFFF)))) = 8" "length (pad_to 10 (dec (length c))) = 10"
    "length (pad_to 12 ''0'') = 12" "length (pad_to 6 ''0'') = 6"
    using ok a(4,5) by (simp_all add: length_pad_to)
  define x where "x = pad_to 16 (nm @ ''/'') @ pad_to 12 ''0'' @ pad_to 6 ''0'' @ pad_to 6 ''0'' @ pad_to 8 (octs (unat (mode AND 0xFFF)))"
  have x: "length x = 48" "member_header nm (length c) mode = x @ pad_to 10 (dec (length c)) @ [CHR 0x60, CHR 0x0A]"
    by (simp_all add: x_def l member_header_def)
  show "h ! 58 = 0x60" "h ! 59 = 0x0A"
    unfolding h_def x(2) by (simp_all add: nth_append x(1) l bytes_of_def)
  have "bslice 0 16 (member_header nm (length c) mode) = pad_to 16 (nm @ ''/'')" using l(1) by (simp add: member_header_def bslice_def)
  moreover have "CHR 0x00 \<notin> set (pad_to 16 (nm @ ''/''))" using ok by (auto simp: pad_to_def)
  moreover have "rtrim (pad_to 16 (nm @ ''/'')) = nm @ ''/''" unfolding pad_to_def by (rule rtrim_padded) (simp_all add: isspace_def)
  ultimately show "trim (cstr (text_of (bslice 0 16 h))) = nm" by (simp add: h_def text_bslice cstr_id trim_def)
  have dg: "\<forall>ch \<in> set (dec (length c)). isdigit ch" by (rule dec_digits)
  then have ld: "isdigit (last (dec (length c)))" by simp
  have "bslice 48 10 (member_header nm (length c) mode) = pad_to 10 (dec (length c))" unfolding x(2) x(1) [symmetric] bslice_at using l(3) by simp
  moreover have "CHR 0x00 \<notin> set (pad_to 10 (dec (length c)))" using dg by (auto simp: pad_to_def isdigit_def)
  moreover have "rtrim (pad_to 10 (dec (length c))) = dec (length c)"
    unfolding pad_to_def using ld isdigit_not_space by (intro rtrim_padded) auto
  moreover have "last (dec (length c)) \<noteq> CHR ''/''" using ld by (auto simp: isdigit_def)
  moreover have "length c < 2 ^ 64" using ok by simp
  ultimately show "ar_dec (text_of (bslice 48 10 h)) = Some (of_nat (length c))"
    by (simp add: h_def text_bslice ar_dec_def Let_def cstr_id trim_def scan_ull_dec_end)
qed

definition member_bytes :: "string \<Rightarrow> byte list \<Rightarrow> u32 \<Rightarrow> byte list" where
  "member_bytes nm c mode = bytes_of (member_header nm (length c) mode) @ c @ (if odd (length c) then [0x0A] else [])"

lemma sz_odd:
  assumes "n < 2 ^ 64"
  shows "(of_nat n AND 1 :: u64) = (if odd n then 1 else 0)"
proof -
  have "unat (of_nat n AND 1 :: u64) = n mod 2" using assms by (simp add: and_one_eq unat_mod unat_of_nat_small)
  then show ?thesis by (cases "odd n") (simp_all add: word_unat_eq_iff odd_iff_mod_2_eq_one)
qed

lemma gu_ar_write_member_ok:
  assumes "member_ok nm c" and "length (member_bytes nm c mode) \<le> oroom out"
  shows "gu_ar_write_member out nm c (of_nat (length c)) mode =
    (out\<lparr>odata := odata out @ member_bytes nm c mode, oroom := oroom out - length (member_bytes nm c mode)\<rparr>, True)"
proof -
  note ok = assms(1) [unfolded member_ok_def] and a = ar_header_member [OF assms(1)]
  have nm: "\<not> (nm = [] \<or> length nm > 15 \<or> CHR ''/'' \<in> set nm \<or> CHR 0x0A \<in> set nm \<or> CHR '' '' \<in> set nm)"
    using ok by (auto simp: isspace_def)
  have lb: "length (member_bytes nm c mode) = 60 + length c + (if odd (length c) then 1 else 0)"
    using a(3) by (simp add: member_bytes_def)
  let ?h = "bytes_of (member_header nm (length c) mode)"
  let ?o1 = "out\<lparr>odata := odata out @ ?h, oroom := oroom out - 60\<rparr>"
  have w: "stream_write out ?h = (?o1, True)" using a(3) assms(2) lb by (simp add: stream_write_ok)
  have cp: "copy_bytes c ?o1 (length c) = (?o1\<lparr>odata := (odata out @ ?h) @ c, oroom := oroom out - 60 - length c\<rparr>, True)"
    using copy_bytes_ok [of "length c" c ?o1] assms(2) lb by simp
  have z: "(of_nat (length c) AND 1 :: u64) = (if odd (length c) then 1 else 0)" using ok by (intro sz_odd) simp
  show ?thesis
  proof (cases "odd (length c)")
    case True
    then show ?thesis using nm w cp a(1,2) z assms(2) lb
      by (simp add: gu_ar_write_member_def stream_write_ok member_bytes_def a(3))
  next
    case False
    then show ?thesis using nm w cp a(1,2) z lb
      by (simp add: gu_ar_write_member_def member_bytes_def a(3))
  qed
qed

lemma deb_walk_member:
  assumes "member_ok nm c" and "f = a @ member_bytes nm c mode @ b" and "length f \<le> LONG_MAX"
  shows "deb_walk f (length a) pkg =
    (case deb_note f nm (length a + 60) (of_nat (length c)) pkg of None \<Rightarrow> Some (-8, pkg)
     | Some pkg \<Rightarrow> deb_walk f (length a + length (member_bytes nm c mode)) pkg)"
proof -
  note h = member_header_parts [OF assms(1), of mode] and ok = assms(1) [unfolded member_ok_def]
  have bs: "bslice (length a) 60 f = bytes_of (member_header nm (length c) mode)"
    using bslice_at [of a 60 "member_bytes nm c mode @ b"] h(1) by (simp add: assms(2) member_bytes_def)
  have lb: "length (member_bytes nm c mode) = 60 + length c + (if odd (length c) then 1 else 0)" using h(1) by (simp add: member_bytes_def)
  have lm: "length a + length (member_bytes nm c mode) \<le> LONG_MAX" using assms(2,3) by simp
  have nx: "unat (next_member (length a + 60) (of_nat (length c))) = length a + length (member_bytes nm c mode)"
  proof -
    have "(of_nat (length c) AND 1 :: u64) = of_nat (if odd (length c) then 1 else 0)" using ok sz_odd [of "length c"] by simp
    then have "next_member (length a + 60) (of_nat (length c)) = of_nat (length a + length (member_bytes nm c mode))"
      unfolding next_member_def lb by (simp only: of_nat_add [symmetric]) (simp add: add.assoc)
    moreover have "length a + length (member_bytes nm c mode) < 2 ^ LENGTH(64)" using lm by (simp add: LONG_MAX_def)
    ultimately show ?thesis by (simp only: unat_of_nat_small)
  qed
  have ne: "bytes_of (member_header nm (length c) mode) \<noteq> []" using h(1) by (metis list.size(3) zero_neq_numeral)
  show ?thesis
    unfolding deb_walk.simps [of f "length a"] Let_def bs h(4,5) using ne h(1-3) lm by (simp add: nx split: option.splits)
qed

lemma deb_walk_end: "deb_walk f (length f) pkg =
  Some (if p_version pkg \<noteq> [] \<and> m_name (p_control pkg) \<noteq> [] \<and> m_name (p_data pkg) \<noteq> [] then 0 else -10, pkg)"
  by (subst deb_walk.simps) (simp add: bslice_def)


section \<open>Packages\<close>

text \<open>Writing a package: the signature, then the members in order.\<close>

fun write_members :: "ostream \<Rightarrow> (string \<times> byte list) list \<Rightarrow> u32 \<Rightarrow> ostream \<times> bool" where
  "write_members out [] mode = (out, True)"
| "write_members out ((nm, c) # ms) mode =
     (case gu_ar_write_member out nm c (of_nat (length c)) mode of (out, False) \<Rightarrow> (out, False)
      | (out, True) \<Rightarrow> write_members out ms mode)"

definition write_package :: "ostream \<Rightarrow> (string \<times> byte list) list \<Rightarrow> u32 \<Rightarrow> ostream \<times> bool" where
  "write_package out ms mode =
     (case gu_ar_write_begin out of (out, False) \<Rightarrow> (out, False) | (out, True) \<Rightarrow> write_members out ms mode)"

abbreviation ar_magic :: "byte list" where
  "ar_magic \<equiv> bytes_of (''!<arch>'' @ [CHR 0x0A])"

abbreviation members_bytes :: "(string \<times> byte list) list \<Rightarrow> u32 \<Rightarrow> byte list" where
  "members_bytes ms mode \<equiv> concat (map (\<lambda>(nm, c). member_bytes nm c mode) ms)"

lemma write_members_ok:
  assumes "\<forall>(nm, c) \<in> set ms. member_ok nm c" and "length (members_bytes ms mode) \<le> oroom out"
  shows "\<exists>out'. write_members out ms mode = (out', True) \<and> odata out' = odata out @ members_bytes ms mode"
  using assms
proof (induction ms arbitrary: out)
  case (Cons m ms)
  obtain nm c where m: "m = (nm, c)" by force
  let ?o = "out\<lparr>odata := odata out @ member_bytes nm c mode, oroom := oroom out - length (member_bytes nm c mode)\<rparr>"
  have "gu_ar_write_member out nm c (of_nat (length c)) mode = (?o, True)"
    using Cons.prems by (intro gu_ar_write_member_ok) (simp_all add: m)
  with Cons.IH [of ?o] Cons.prems m show ?case by simp
qed simp

lemma write_package_ok:
  assumes "\<forall>(nm, c) \<in> set ms. member_ok nm c" and "8 + length (members_bytes ms mode) \<le> r"
  shows "\<exists>out. write_package \<lparr>odata = [], oroom = r\<rparr> ms mode = (out, True) \<and> odata out = ar_magic @ members_bytes ms mode"
proof -
  let ?o = "\<lparr>odata = ar_magic, oroom = r - 8\<rparr>"
  have "gu_ar_write_begin \<lparr>odata = [], oroom = r\<rparr> = (?o, True)" using assms(2) by (simp add: gu_ar_write_begin_def stream_write_ok)
  with write_members_ok [OF assms(1), of mode ?o] assms(2) show ?thesis by (simp add: write_package_def)
qed

text \<open>Reading the content of a member back.\<close>

lemma deb_copy_member_content:
  assumes "f = a @ c @ b" and "length f \<le> LONG_MAX" and "length c \<le> oroom out"
  shows "\<exists>out'. deb_copy_member f \<lparr>m_name = nm, m_offset = of_nat (length a), m_size = of_nat (length c)\<rparr> out = (out', True) \<and>
    odata out' = odata out @ c"
proof -
  have u: "unat (of_nat (length a) :: u64) = length a" "unat (of_nat (length c) :: u64) = length c"
    using assms(1,2) by (simp_all add: unat_of_nat_small LONG_MAX_def)
  have "length a \<le> LONG_MAX" using assms(1,2) by simp
  with copy_bytes_ok [of "length c" "c @ b" out] assms(1,3) u show ?thesis by (simp add: deb_copy_member_def)
qed

definition version_ok :: "string \<Rightarrow> bool" where
  "version_ok v \<longleftrightarrow> v \<noteq> [] \<and> length v < 31 \<and> CHR 0x00 \<notin> set v \<and> \<not> isspace (last v) \<and> last v \<noteq> CHR ''/''"

lemma deb_note_version:
  assumes "version_ok v" and "f = a @ bytes_of (v @ [CHR 0x0A]) @ b"
  shows "deb_note f ''debian-binary'' (length a) (of_nat (length (v @ [CHR 0x0A]))) pkg = Some (pkg\<lparr>p_version := v\<rparr>)"
proof -
  note ok = assms(1) [unfolded version_ok_def]
  let ?n = "Suc (length v)"
  have u: "unat (of_nat ?n :: u64) = ?n" using ok by (simp add: unat_of_nat_small del: of_nat_Suc)
  have n: "(if unat (of_nat ?n :: u64) < 31 then unat (of_nat ?n :: u64) else 31) = ?n" unfolding u using ok by simp
  have bs: "bslice (length a) ?n f = bytes_of (v @ [CHR 0x0A])" using bslice_at [of a ?n "bytes_of (v @ [CHR 0x0A]) @ b"] by (simp add: assms(2))
  have "rtrim (v @ [CHR 0x0A]) = v"
  proof -
    have "dropWhile isspace (rev (v @ [CHR 0x0A])) = rev v" using ok by (simp add: isspace_def hd_rev dropWhile_head)
    then show ?thesis by (simp add: rtrim_def)
  qed
  moreover have "CHR 0x00 \<notin> set (v @ [CHR 0x0A])" using ok by simp
  ultimately have "trim (cstr (v @ [CHR 0x0A])) = v" using ok by (simp add: cstr_id trim_def)
  moreover have "length (v @ [CHR 0x0A]) = ?n" by simp
  ultimately show ?thesis unfolding deb_note_def Let_def by (simp only: n bs text_of_bytes_of length_bytes_of if_True refl not_True_eq_False if_False)
qed

lemma deb_note_members:
  "take 11 cn = ''control.tar'' \<Longrightarrow> length cn \<le> 15 \<Longrightarrow>
    deb_note f cn pos sz pkg = Some (pkg\<lparr>p_control := \<lparr>m_name = cn, m_offset = of_nat pos, m_size = sz\<rparr>\<rparr>)"
  "take 8 dn = ''data.tar'' \<Longrightarrow> length dn \<le> 15 \<Longrightarrow>
    deb_note f dn pos sz pkg = Some (pkg\<lparr>p_data := \<lparr>m_name = dn, m_offset = of_nat pos, m_size = sz\<rparr>\<rparr>)"
proof -
  assume c: "take 11 cn = ''control.tar''" "length cn \<le> 15"
  then have "cn \<noteq> ''debian-binary''" by auto
  with c show "deb_note f cn pos sz pkg = Some (pkg\<lparr>p_control := \<lparr>m_name = cn, m_offset = of_nat pos, m_size = sz\<rparr>\<rparr>)"
    by (simp add: deb_note_def)
next
  assume d: "take 8 dn = ''data.tar''" "length dn \<le> 15"
  then have "dn \<noteq> ''debian-binary''" by auto
  moreover have "take 11 dn \<noteq> ''control.tar''"
  proof
    assume "take 11 dn = ''control.tar''"
    then have "take 8 (take 11 dn) = take 8 ''control.tar''" by simp
    with d(1) show False by simp
  qed
  ultimately show "deb_note f dn pos sz pkg = Some (pkg\<lparr>p_data := \<lparr>m_name = dn, m_offset = of_nat pos, m_size = sz\<rparr>\<rparr>)"
    using d by (simp add: deb_note_def)
qed

text \<open>The walk over three members, for any text before them.\<close>

lemma deb_walk_three:
  assumes "member_ok vn vb" and "member_ok cn cc" and "member_ok dn dc" and "take 11 cn = ''control.tar''" and "take 8 dn = ''data.tar''"
    and "f = a @ member_bytes vn vb mode @ member_bytes cn cc mode @ member_bytes dn dc mode" and "length f \<le> LONG_MAX"
    and "deb_note f vn (length a + 60) (of_nat (length vb)) pkg = Some (pkg\<lparr>p_version := v\<rparr>)" and "v \<noteq> []"
  shows "deb_walk f (length a) pkg = Some (0, pkg\<lparr>p_version := v,
     p_control := \<lparr>m_name = cn, m_offset = of_nat (length (a @ member_bytes vn vb mode) + 60), m_size = of_nat (length cc)\<rparr>,
     p_data := \<lparr>m_name = dn, m_offset = of_nat (length (a @ member_bytes vn vb mode @ member_bytes cn cc mode) + 60), m_size = of_nat (length dc)\<rparr>\<rparr>)"
proof -
  let ?m1 = "member_bytes vn vb mode" and ?m2 = "member_bytes cn cc mode" and ?m3 = "member_bytes dn dc mode"
  have f2: "f = (a @ ?m1) @ ?m2 @ ?m3" and f3: "f = (a @ ?m1 @ ?m2) @ ?m3 @ []" using assms(6) by simp_all
  have cl: "length cn \<le> 15" "length dn \<le> 15" "cn \<noteq> []" "dn \<noteq> []" using assms(2,3) by (simp_all add: member_ok_def)
  have l: "length a + length ?m1 = length (a @ ?m1)" "length (a @ ?m1) + length ?m2 = length (a @ ?m1 @ ?m2)"
    "length (a @ ?m1 @ ?m2) + length ?m3 = length f" using assms(6) by simp_all
  show ?thesis
    unfolding deb_walk_member [OF assms(1,6,7)] assms(8) option.case l(1)
      deb_walk_member [OF assms(2) f2 assms(7)] deb_note_members(1) [OF assms(4) cl(1)] l(2)
      deb_walk_member [OF assms(3) f3 assms(7)] deb_note_members(2) [OF assms(5) cl(2)] l(3) deb_walk_end
    using assms(9) cl(3,4) by simp
qed

text \<open>The place of a member's content in the archive.\<close>

lemma member_content:
  assumes "member_ok nm c"
  shows "\<exists>h t. member_bytes nm c mode = h @ c @ t \<and> length h = 60"
  using ar_header_member(3) [OF assms, of mode] unfolding member_bytes_def by (metis length_bytes_of)

section \<open>Does the loop end?\<close>

definition size_field :: "byte list \<Rightarrow> nat \<Rightarrow> u64 option" where
  "size_field f pos = ar_dec (text_of (bslice 48 10 (bslice pos 60 f)))"

text \<open>The sizes the loop reads, and the positions of the headers it visits: the first one, and the one after each member
  whose header is complete, whose content can be read and whose end is a file position.\<close>

definition member_size :: "byte list \<Rightarrow> nat \<Rightarrow> u64 option" where
  "member_size f pos =
     (let h = bslice pos 60 f in if length h \<noteq> 60 \<or> h ! 58 \<noteq> 0x60 \<or> h ! 59 \<noteq> 0x0A then None else size_field f pos)"

definition member_read :: "byte list \<Rightarrow> nat \<Rightarrow> u64 \<Rightarrow> bool" where
  "member_read f pos sz \<longleftrightarrow> deb_note f (trim (cstr (text_of (bslice 0 16 (bslice pos 60 f))))) (pos + 60) sz package_zero \<noteq> None"

inductive header_at :: "byte list \<Rightarrow> nat \<Rightarrow> bool" for f where
  header_first: "header_at f 8"
| header_next: "header_at f pos \<Longrightarrow> member_size f pos = Some sz \<Longrightarrow> member_read f pos sz \<Longrightarrow>
    unat (next_member (pos + 60) sz) \<le> LONG_MAX \<Longrightarrow> header_at f (unat (next_member (pos + 60) sz))"

lemma next_member_grows:
  assumes "pos < length f" and "length f \<le> LONG_MAX" and "unat sz < 2 ^ 63 - 62"
  shows "pos < unat (next_member (pos + 60) sz)"
proof -
  obtain q :: u64 where q: "q = of_nat (pos + 60)" by blast
  have p: "unat q = pos + 60" unfolding q using assms(1,2) by (intro unat_of_nat_small) (simp add: LONG_MAX_def)
  have o: "unat (sz AND 1) \<le> 1" by (simp add: and_one_eq unat_mod)
  have s: "unat (q + sz) = pos + 60 + unat sz" using assms p by (subst unat_add_small) (simp_all add: LONG_MAX_def)
  have "unat (q + sz + (sz AND 1)) = pos + 60 + unat sz + unat (sz AND 1)"
    using s o assms by (subst unat_add_small) (simp_all add: LONG_MAX_def)
  then show ?thesis by (simp add: next_member_def q)
qed

lemma deb_note_read: "deb_note f (trim (cstr (text_of (bslice 0 16 (bslice pos 60 f))))) (pos + 60) sz pkg = Some q \<Longrightarrow> member_read f pos sz"
  by (simp add: member_read_def deb_note_def Let_def split: if_splits)

lemma deb_walk_returns:
  assumes "length f \<le> LONG_MAX" and "\<forall>p sz. header_at f p \<longrightarrow> member_size f p = Some sz \<longrightarrow> unat sz < 2 ^ 63 - 62"
    and "header_at f pos"
  shows "\<exists>r. deb_walk f pos pkg = Some r"
  using assms(3)
proof (induction "length f - pos" arbitrary: pos pkg rule: less_induct)
  case less
  let ?h = "bslice pos 60 f"
  show ?case
  proof (cases "pos < length f")
    case False
    then have "?h = []" by (simp add: bslice_def)
    then show ?thesis by (subst deb_walk.simps) simp
  next
    case True
    have "\<exists>r. deb_walk f (unat (next_member (pos + 60) sz)) pkg' = Some r"
      if m: "member_size f pos = Some sz" "member_read f pos sz" "unat (next_member (pos + 60) sz) \<le> LONG_MAX" for sz pkg'
    proof (rule less.hyps)
      have "pos < unat (next_member (pos + 60) sz)" using next_member_grows [OF True assms(1)] assms(2) less.prems m(1) by blast
      with True show "length f - unat (next_member (pos + 60) sz) < length f - pos" by simp
    qed (rule header_next [OF less.prems m])
    then show ?thesis by (subst deb_walk.simps) (auto simp: Let_def member_size_def size_field_def dest: deb_note_read split: option.splits)
  qed
qed

lemma deb_walk_loops:
  assumes "pos + 60 \<le> length f" and "length f \<le> LONG_MAX" and "f ! (pos + 58) = 0x60" and "f ! (pos + 59) = 0x0A"
    and "size_field f pos = Some (- 61)" and "deb_note f (trim (cstr (text_of (bslice 0 16 (bslice pos 60 f))))) (pos + 60) (- 61) pkg = Some pkg"
  shows "deb_walk f pos pkg = None"
proof -
  let ?h = "bslice pos 60 f"
  have h: "length ?h = 60" "?h ! 58 = 0x60" "?h ! 59 = 0x0A" using assms(1,3,4) by (simp_all add: nth_bslice)
  have "(- 61 AND 1 :: u64) = 1" by (simp add: and_one_eq)
  then have "next_member (pos + 60) (- 61) = of_nat pos" by (simp add: next_member_def)
  then have nx: "unat (next_member (pos + 60) (- 61)) = pos" using assms(1,2) by (simp add: unat_of_nat_small LONG_MAX_def)
  have lm: "pos \<le> LONG_MAX" using assms(1,2) by simp
  have "\<not> (f = f \<and> pos = pos \<and> pkg = pkg)" if "deb_walk f pos pkg = Some y" for y
  proof (rule deb_walk.raw_induct [where P = "\<lambda>f' pos' pkg' y. \<not> (f' = f \<and> pos' = pos \<and> pkg' = pkg)", OF _ that])
    fix rec f' pos' pkg' y'
    assume ih: "\<And>f' pos' pkg' y'. rec f' pos' pkg' = Some y' \<Longrightarrow> \<not> (f' = f \<and> pos' = pos \<and> pkg' = pkg)"
      and body: "(let h = bslice pos' 60 f'
      in if h = [] then Some (if p_version pkg' \<noteq> [] \<and> m_name (p_control pkg') \<noteq> [] \<and> m_name (p_data pkg') \<noteq> [] then 0 else -10, pkg')
         else if length h \<noteq> 60 then Some (-4, pkg')
         else if h ! 58 \<noteq> 0x60 \<or> h ! 59 \<noteq> 0x0A then Some (-5, pkg')
         else case ar_dec (text_of (bslice 48 10 h)) of None \<Rightarrow> Some (-6, pkg')
           | Some sz \<Rightarrow>
               (case deb_note f' (trim (cstr (text_of (bslice 0 16 h)))) (pos' + 60) sz pkg' of None \<Rightarrow> Some (-8, pkg')
                | Some pkg \<Rightarrow>
                    if unat (next_member (pos' + 60) sz) > LONG_MAX then Some (-9, pkg)
                    else rec f' (unat (next_member (pos' + 60) sz)) pkg)) = Some y'"
    show "\<not> (f' = f \<and> pos' = pos \<and> pkg' = pkg)"
    proof
      assume e: "f' = f \<and> pos' = pos \<and> pkg' = pkg"
      have "?h \<noteq> []" using h(1) by (metis list.size(3) zero_neq_numeral)
      with body e h assms(5,6) nx lm have "rec f pos pkg = Some y'" by (simp add: Let_def size_field_def)
      with ih show False by blast
    qed
  qed
  then show ?thesis by (cases "deb_walk f pos pkg") auto
qed

section \<open>Properties\<close>

text \<open>C14. A package that was written opens. Writing the version member, a control member and a data member with room
  on the host succeeds; \<^verbatim>\<open>deb_open_fp\<close> on the result returns 0 with the version, the names and the sizes of the two
  members, and \<^verbatim>\<open>deb_copy_member\<close> gives their contents.\<close>

theorem deb_package_roundtrip:
  assumes "version_ok v" and "member_ok cn cc" and "member_ok dn dc" and "take 11 cn = ''control.tar''" and "take 8 dn = ''data.tar''"
    and "8 + length (members_bytes [(''debian-binary'', bytes_of (v @ [CHR 0x0A])), (cn, cc), (dn, dc)] mode) \<le> r" and "r \<le> LONG_MAX"
  shows "\<exists>out pkg. write_package \<lparr>odata = [], oroom = r\<rparr> [(''debian-binary'', bytes_of (v @ [CHR 0x0A])), (cn, cc), (dn, dc)] mode = (out, True) \<and>
    deb_open_fp (odata out) = Some (0, pkg) \<and> p_version pkg = v \<and> m_name (p_control pkg) = cn \<and> m_name (p_data pkg) = dn \<and>
    (\<forall>o1. length cc \<le> oroom o1 \<longrightarrow> (\<exists>o2. deb_copy_member (odata out) (p_control pkg) o1 = (o2, True) \<and> odata o2 = odata o1 @ cc)) \<and>
    (\<forall>o1. length dc \<le> oroom o1 \<longrightarrow> (\<exists>o2. deb_copy_member (odata out) (p_data pkg) o1 = (o2, True) \<and> odata o2 = odata o1 @ dc))"
proof -
  let ?vb = "bytes_of (v @ [CHR 0x0A])"
  let ?m1 = "member_bytes ''debian-binary'' ?vb mode" and ?m2 = "member_bytes cn cc mode" and ?m3 = "member_bytes dn dc mode"
  have vk: "member_ok ''debian-binary'' ?vb" using assms(1) by (simp add: member_ok_def version_ok_def isspace_def)
  from write_package_ok [of "[(''debian-binary'', ?vb), (cn, cc), (dn, dc)]" mode r] assms(2,3,6) vk obtain out where
    w: "write_package \<lparr>odata = [], oroom = r\<rparr> [(''debian-binary'', ?vb), (cn, cc), (dn, dc)] mode = (out, True)"
      "odata out = ar_magic @ members_bytes [(''debian-binary'', ?vb), (cn, cc), (dn, dc)] mode" by auto
  obtain a where a: "a = ar_magic" by blast
  have la: "length a = 8" by (simp add: a)
  have f: "odata out = a @ ?m1 @ ?m2 @ ?m3" using w(2) by (simp add: a)
  have lm: "length (odata out) \<le> LONG_MAX" using w(2) assms(6,7) by simp
  obtain h1 t1 where h1: "?m1 = h1 @ ?vb @ t1" "length h1 = 60" using member_content [OF vk] by blast
  obtain h2 t2 where h2: "?m2 = h2 @ cc @ t2" "length h2 = 60" using member_content [OF assms(2)] by blast
  obtain h3 t3 where h3: "?m3 = h3 @ dc @ t3" "length h3 = 60" using member_content [OF assms(3)] by blast
  have "odata out = (a @ h1) @ ?vb @ (t1 @ ?m2 @ ?m3)" using f h1(1) by simp
  from deb_note_version [OF assms(1) this, of package_zero] h1(2) have n: "deb_note (odata out) ''debian-binary'' (length a + 60)
      (of_nat (length ?vb)) package_zero = Some (package_zero\<lparr>p_version := v\<rparr>)" by simp
  have v: "v \<noteq> []" using assms(1) by (simp add: version_ok_def)
  note k = deb_walk_three [OF vk assms(2-5) f lm n v, unfolded la]
  let ?c = "\<lparr>m_name = cn, m_offset = of_nat (length (a @ ?m1) + 60), m_size = of_nat (length cc)\<rparr>"
  let ?d = "\<lparr>m_name = dn, m_offset = of_nat (length (a @ ?m1 @ ?m2) + 60), m_size = of_nat (length dc)\<rparr>"
  have "bslice 0 8 (odata out) = ar_magic" using f la a by (simp add: bslice_def)
  then have o: "deb_open_fp (odata out) = Some (0, package_zero\<lparr>p_version := v, p_control := ?c, p_data := ?d\<rparr>)"
    using k by (simp add: deb_open_fp_def)
  have c: "\<exists>o2. deb_copy_member (odata out) ?c o1 = (o2, True) \<and> odata o2 = odata o1 @ cc" if "length cc \<le> oroom o1" for o1
    using deb_copy_member_content [of "odata out" "a @ ?m1 @ h2" cc "t2 @ ?m3" o1 cn] f h2 lm that by (simp add: add.assoc)
  have d: "\<exists>o2. deb_copy_member (odata out) ?d o1 = (o2, True) \<and> odata o2 = odata o1 @ dc" if "length dc \<le> oroom o1" for o1
    using deb_copy_member_content [of "odata out" "a @ ?m1 @ ?m2 @ h3" dc t3 o1 dn] f h3 lm that by (simp add: add.assoc)
  show ?thesis
    by (rule exI [of _ out], rule exI [of _ "package_zero\<lparr>p_version := v, p_control := ?c, p_data := ?d\<rparr>"])
      (use w(1) o c d in simp)
qed


text \<open>C33. Opening a package ends on every file in which no member has a negative size: when every header that the loop visits
  has a size field that \<^verbatim>\<open>strtoull\<close> reads as a number below \<open>2 ^ 63 - 62\<close>, whatever the contents of the members are,
  \<^verbatim>\<open>deb_open_fp\<close> returns a result.\<close>

theorem deb_open_terminates:
  assumes "length f \<le> LONG_MAX" and "\<forall>p sz. header_at f p \<longrightarrow> member_size f p = Some sz \<longrightarrow> unat sz < 2 ^ 63 - 62"
  shows "\<exists>r. deb_open_fp f = Some r"
  using deb_walk_returns [OF assms header_first, of package_zero] by (simp add: deb_open_fp_def)

text \<open>C34. A member whose size field is \<^verbatim>\<open>-61\<close> makes \<^verbatim>\<open>deb_open_fp\<close> run for ever: the position after the member is
  computed modulo \<open>2 ^ 64\<close> and is the start of the same header.\<close>

theorem deb_open_diverges:
  assumes "bslice 0 8 f = bytes_of (''!<arch>'' @ [CHR 0x0A])" and "68 \<le> length f" and "length f \<le> LONG_MAX"
    and "f ! 66 = 0x60" and "f ! 67 = 0x0A" and "size_field f 8 = Some (- 61)"
    and "trim (cstr (text_of (bslice 0 16 (bslice 8 60 f)))) = ''x''"
  shows "deb_open_fp f = None"
proof -
  have "deb_note f ''x'' 68 (- 61) package_zero = Some package_zero" by (simp add: deb_note_def)
  then have "deb_walk f 8 package_zero = None" using assms(2-7) by (intro deb_walk_loops) simp_all
  then show ?thesis using assms(1) by (simp add: deb_open_fp_def)
qed

section \<open>Witnesses\<close>

theorem deb_package_roundtrip_witness:
  "\<exists>out pkg. write_package \<lparr>odata = [], oroom = 1000\<rparr>
       [(''debian-binary'', bytes_of (''2.0'' @ [CHR 0x0A])), (''control.tar.gz'', [1, 2, 3]), (''data.tar.xz'', [4, 5])] 0x1A4 = (out, True) \<and>
     deb_open_fp (odata out) = Some (0, pkg) \<and> p_version pkg = ''2.0'' \<and> m_name (p_control pkg) = ''control.tar.gz''"
proof -
  have v: "version_ok ''2.0''" by (simp add: version_ok_def isspace_def)
  have m: "member_ok ''control.tar.gz'' [1, 2, 3]" "member_ok ''data.tar.xz'' [4, 5]" "member_ok ''debian-binary'' (bytes_of (''2.0'' @ [CHR 0x0A]))"
    by (simp_all add: member_ok_def isspace_def)
  have l: "8 + length (members_bytes [(''debian-binary'', bytes_of (''2.0'' @ [CHR 0x0A])), (''control.tar.gz'', [1, 2, 3]), (''data.tar.xz'', [4, 5])] 0x1A4) \<le> 1000"
    using ar_header_member(3) [OF m(1), of "0x1A4"] ar_header_member(3) [OF m(2), of "0x1A4"] ar_header_member(3) [OF m(3), of "0x1A4"]
    by (simp add: member_bytes_def)
  have "(1000 :: nat) \<le> LONG_MAX" by (simp add: LONG_MAX_def)
  from deb_package_roundtrip [OF v m(1,2) _ _ l this] show ?thesis by auto
qed

text \<open>An archive with one member, whose content has the text of a negative number.\<close>

definition one_member :: string where
  "one_member = ''!<arch>'' @ [CHR 0x0A] @ pad_to 48 ''x/'' @ pad_to 10 ''12'' @ [CHR 0x60, CHR 0x0A] @ pad_to 12 ''-61''"

theorem deb_open_terminates_witness: "\<exists>r. deb_open_fp (bytes_of one_member) = Some r"
proof -
  have l: "length one_member = 80" by (simp add: one_member_def pad_to_def)
  have b: "bslice o2 n (bslice p m (bytes_of t)) = bytes_of (bslice o2 n (bslice p m t))" for o2 n p m t
    by (simp add: bslice_def bytes_of_def take_map drop_map)
  have "bslice 48 10 (bslice 8 60 one_member) = pad_to 10 ''12''" by (simp add: one_member_def bslice_def pad_to_def)
  moreover have "ar_dec (pad_to 10 ''12'') = Some 12"
  proof -
    have "trim (cstr (pad_to 10 ''12'')) = ''12''" by code_simp
    moreover have "skip_ws ''12'' = ''12''" "takeWhile isdigit ''12'' = ''12''" "dropWhile isdigit ''12'' = []" "dec_value ''12'' = 12"
      by code_simp+
    ultimately show ?thesis by (simp add: ar_dec_def scan_ull_def)
  qed
  ultimately have z: "size_field (bytes_of one_member) 8 = Some 12" by (simp add: size_field_def b)
  have v: "p = 8 \<or> p = 80" if "header_at (bytes_of one_member) p" for p
    using that
  proof induction
    case (header_next pos sz)
    have "member_size (bytes_of one_member) 80 = None" by (simp add: member_size_def bslice_def l)
    then have "pos = 8" "sz = 12" using header_next z by (auto simp: member_size_def Let_def split: if_splits)
    then show ?case by (simp add: next_member_def)
  qed simp
  have "\<forall>p sz. header_at (bytes_of one_member) p \<longrightarrow> member_size (bytes_of one_member) p = Some sz \<longrightarrow> unat sz < 2 ^ 63 - 62"
  proof (intro allI impI)
    fix p sz assume a: "header_at (bytes_of one_member) p" "member_size (bytes_of one_member) p = Some sz"
    from v [OF a(1)] a(2) z show "unat sz < 2 ^ 63 - 62" by (auto simp: member_size_def Let_def bslice_def l split: if_splits)
  qed
  moreover have "length (bytes_of one_member) \<le> LONG_MAX" by (simp add: l LONG_MAX_def)
  ultimately show ?thesis by (intro deb_open_terminates)
qed
theorem deb_open_diverges_witness:
  "deb_open_fp (bytes_of (''!<arch>'' @ [CHR 0x0A] @ pad_to 48 ''x/'' @ pad_to 10 ''-61'' @ [CHR 0x60, CHR 0x0A])) = None"
proof -
  define t where "t = ''!<arch>'' @ [CHR 0x0A] @ pad_to 48 ''x/'' @ pad_to 10 ''-61'' @ [CHR 0x60, CHR 0x0A]"
  have l: "length t = 68" by (simp add: t_def pad_to_def)
  have s: "bslice 8 60 t = pad_to 48 ''x/'' @ pad_to 10 ''-61'' @ [CHR 0x60, CHR 0x0A]" by (simp add: t_def bslice_def pad_to_def)
  have b: "bslice o2 n (bslice 8 60 (bytes_of t)) = bytes_of (bslice o2 n (bslice 8 60 t))" for o2 n
    by (simp add: bslice_def bytes_of_def take_map drop_map)
  have "bslice 48 10 (bslice 8 60 t) = pad_to 10 ''-61''" "bslice 0 16 (bslice 8 60 t) = pad_to 16 ''x/''"
    unfolding s by (simp_all add: bslice_def pad_to_def)
  moreover have "ar_dec (pad_to 10 ''-61'') = Some (- 61)"
  proof -
    have "trim (cstr (pad_to 10 ''-61'')) = ''-61''" by code_simp
    moreover have "skip_ws ''-61'' = ''-61''" "takeWhile isdigit ''61'' = ''61''" "dropWhile isdigit ''61'' = []" "dec_value ''61'' = 61"
      by code_simp+
    ultimately show ?thesis by (simp add: ar_dec_def scan_ull_def)
  qed
  moreover have "trim (cstr (pad_to 16 ''x/'')) = ''x''" by code_simp
  ultimately have z: "size_field (bytes_of t) 8 = Some (- 61)" "trim (cstr (text_of (bslice 0 16 (bslice 8 60 (bytes_of t))))) = ''x''"
    by (simp_all add: size_field_def b)
  have m: "bslice 0 8 (bytes_of t) = bytes_of (''!<arch>'' @ [CHR 0x0A])" "bytes_of t ! 66 = 0x60" "bytes_of t ! 67 = 0x0A"
    by (simp_all add: t_def bslice_def pad_to_def bytes_of_def nth_append)
  have "deb_open_fp (bytes_of t) = None"
    by (rule deb_open_diverges) (use l z m in \<open>simp_all add: LONG_MAX_def\<close>)
  then show ?thesis by (simp only: t_def)
qed

end
