(* ===== verification/Gzip.thy ===== *)
theory Gzip
  imports Deflate Deb_Package Crc32
begin

text \<open>
  The gzip wrapper of \<^verbatim>\<open>src/gu_gzip.c\<close>: \<^verbatim>\<open>gu_gzip_decode_member\<close> reads one member of a file, checks its header,
  decompresses it and checks the length and the CRC-32 of the result.

  The file is the list of its bytes; the temporary file that the C function returns is the list of the
  bytes written to it. The outcomes of \<^verbatim>\<open>malloc\<close> and of the calls that make the temporary file are parameters. The error
  texts are values of \<open>gz_error\<close>.

  The lemmas show that a member written as RFC 1952 describes is decoded to the bytes it holds, whatever optional fields its header has,
  and that nothing is returned whose length and checksum are not those of the trailer.
\<close>

datatype gz_error =
    GzRange | GzNoInput | GzShortRead | GzNotGzip | GzFlags | GzMalformed | GzZeroSize | GzNoOutput | GzExceeds | GzCorrupt
  | GzBadCrc | GzNoTmp | GzTmpWrite | GzTmpRewind

definition GZ_FHCRC :: byte where "GZ_FHCRC = 2"
definition GZ_FEXTRA :: byte where "GZ_FEXTRA = 4"
definition GZ_FNAME :: byte where "GZ_FNAME = 8"
definition GZ_FCOMMENT :: byte where "GZ_FCOMMENT = 16"
definition GZ_RESERVED :: byte where "GZ_RESERVED = 0xE0"

definition gz_crc_step :: "u32 \<Rightarrow> u32" where
  "gz_crc_step crc = drop_bit 1 crc XOR (0xedb88320 AND (0 - (crc AND 1)))"

definition crc32_bytes :: "byte list \<Rightarrow> u32" where
  "crc32_bytes p = NOT (foldl (\<lambda>crc b. (gz_crc_step ^^ 8) (crc XOR ucast b)) 0xffffffff p)"

function skip_zstr :: "byte list \<Rightarrow> nat \<Rightarrow> nat \<Rightarrow> nat option" where
  "skip_zstr buf limit pos =
     (if pos < limit then if buf ! pos = 0 then Some (pos + 1) else skip_zstr buf limit (pos + 1) else None)"
  by pat_completeness auto

termination skip_zstr
  by (relation "measure (\<lambda>(buf, limit, pos). limit - pos)") auto

declare skip_zstr.simps [simp del]

text \<open>The optional header fields, one step each: the position after the field, or \<open>None\<close> where the header is malformed.\<close>

definition gz_extra :: "byte list \<Rightarrow> byte \<Rightarrow> nat \<Rightarrow> nat \<Rightarrow> nat option" where
  "gz_extra buf flags payload_end pos =
     (if flags AND GZ_FEXTRA \<noteq> 0 then
        if pos + 2 > payload_end then None
        else let xlen = unat (le16 (drop pos buf)); pos = pos + 2
             in if pos + xlen > payload_end then None else Some (pos + xlen)
      else Some pos)"

definition gz_zstr :: "byte \<Rightarrow> byte list \<Rightarrow> byte \<Rightarrow> nat \<Rightarrow> nat \<Rightarrow> nat option" where
  "gz_zstr flag buf flags payload_end pos = (if flags AND flag \<noteq> 0 then skip_zstr buf payload_end pos else Some pos)"

definition gz_hcrc :: "byte \<Rightarrow> nat \<Rightarrow> nat \<Rightarrow> nat option" where
  "gz_hcrc flags payload_end pos =
     (if flags AND GZ_FHCRC \<noteq> 0 then if pos + 2 > payload_end then None else Some (pos + 2) else Some pos)"

definition gz_payload_pos :: "byte list \<Rightarrow> byte \<Rightarrow> nat \<Rightarrow> nat option" where
  "gz_payload_pos buf flags payload_end =
     (case gz_extra buf flags payload_end 10 of None \<Rightarrow> None | Some pos \<Rightarrow>
      case gz_zstr GZ_FNAME buf flags payload_end pos of None \<Rightarrow> None | Some pos \<Rightarrow>
      case gz_zstr GZ_FCOMMENT buf flags payload_end pos of None \<Rightarrow> None | Some pos \<Rightarrow>
      case gz_hcrc flags payload_end pos of None \<Rightarrow> None | Some pos \<Rightarrow>
        if pos > payload_end then None else Some pos)"

definition gz_body :: "(nat \<Rightarrow> bool) \<Rightarrow> byte list \<Rightarrow> nat \<Rightarrow> gz_error + byte list" where
  "gz_body mem buf pos =
     (let n = length buf; expected_crc = le32 (drop (n - 8) buf); expected_size = le32 (drop (n - 4) buf)
      in if expected_size = 0 then Inl GzZeroSize
         else if \<not> mem (unat expected_size) then Inl GzNoOutput
         else case inflate_raw (bslice pos (n - 8 - pos) buf) (unat expected_size) of
             Inl rc \<Rightarrow> Inl (if rc = -2 then GzExceeds else GzCorrupt)
           | Inr outbuf \<Rightarrow>
               if length outbuf \<noteq> unat expected_size then Inl GzCorrupt
               else if crc32_bytes outbuf \<noteq> expected_crc then Inl GzBadCrc
               else Inr outbuf)"

definition gu_gzip_decode_member :: "(nat \<Rightarrow> bool) \<Rightarrow> gz_error option \<Rightarrow> byte list \<Rightarrow> u64 \<Rightarrow> u64 \<Rightarrow> gz_error + byte list" where
  "gu_gzip_decode_member mem tmp src off len =
     (if unat len < 18 \<or> unat off > LONG_MAX then Inl GzRange
      else if \<not> mem (unat len) then Inl GzNoInput
      else let buf = bslice (unat off) (unat len) src
           in if length buf \<noteq> unat len then Inl GzShortRead
              else if buf ! 0 \<noteq> 0x1f \<or> buf ! 1 \<noteq> 0x8b \<or> buf ! 2 \<noteq> 8 then Inl GzNotGzip
              else if buf ! 3 AND GZ_RESERVED \<noteq> 0 then Inl GzFlags
              else case gz_payload_pos buf (buf ! 3) (length buf - 8) of None \<Rightarrow> Inl GzMalformed
                | Some pos \<Rightarrow>
                    case gz_body mem buf pos of Inl e \<Rightarrow> Inl e
                    | Inr outbuf \<Rightarrow> case tmp of Some e \<Rightarrow> Inl e | None \<Rightarrow> Inr outbuf)"

section \<open>The checksum\<close>

lemma gz_crc_step_eq: "gz_crc_step = crc_step"
proof
  fix c :: u32
  have "c AND 1 = of_bool (bit c 0)" by (simp add: and_one_eq mod_2_eq_odd bit_0)
  then show "gz_crc_step c = crc_step c" by (cases "bit c 0") (simp_all add: gz_crc_step_def crc_step_def xor.commute)
qed

lemma crc32_bytes_eq: "crc32_bytes = crc32_calc"
proof
  fix p
  have ones: "(0xffffffff :: u32) = - 1" by simp
  have "NOT x = x XOR 0xffffffff" for x :: u32 unfolding ones by (rule bit_word_eqI) (simp add: bit_simps)
  then show "crc32_bytes p = crc32_calc p" by (simp add: crc32_bytes_def gz_crc_step_eq crc32_calc_ref crc32_ref_def)
qed

section \<open>A member as the format describes it\<close>

record gz_header =
  gz_meta :: "byte list"
  gz_xtra :: "byte list option"
  gz_name :: "byte list option"
  gz_comment :: "byte list option"
  gz_crc16 :: "byte list option"
  gz_ftext :: bool

definition gz_flags :: "gz_header \<Rightarrow> byte" where
  "gz_flags h = (if gz_ftext h then 1 else 0) OR (if gz_crc16 h \<noteq> None then GZ_FHCRC else 0) OR (if gz_xtra h \<noteq> None then GZ_FEXTRA else 0) OR
     (if gz_name h \<noteq> None then GZ_FNAME else 0) OR (if gz_comment h \<noteq> None then GZ_FCOMMENT else 0)"

definition xtra_bytes :: "byte list option \<Rightarrow> byte list" where
  "xtra_bytes x = (case x of None \<Rightarrow> [] | Some b \<Rightarrow> put16 (of_nat (length b)) @ b)"

definition zstr_bytes :: "byte list option \<Rightarrow> byte list" where
  "zstr_bytes x = (case x of None \<Rightarrow> [] | Some b \<Rightarrow> b @ [0])"

definition gz_head_bytes :: "gz_header \<Rightarrow> byte list" where
  "gz_head_bytes h = [0x1f, 0x8b, 8, gz_flags h] @ gz_meta h @ xtra_bytes (gz_xtra h) @ zstr_bytes (gz_name h) @ zstr_bytes (gz_comment h) @
     (case gz_crc16 h of None \<Rightarrow> [] | Some b \<Rightarrow> b)"

definition gz_header_ok :: "gz_header \<Rightarrow> bool" where
  "gz_header_ok h \<longleftrightarrow> length (gz_meta h) = 6 \<and> (case gz_xtra h of None \<Rightarrow> True | Some b \<Rightarrow> length b < 65536) \<and>
     (case gz_name h of None \<Rightarrow> True | Some b \<Rightarrow> 0 \<notin> set b) \<and> (case gz_comment h of None \<Rightarrow> True | Some b \<Rightarrow> 0 \<notin> set b) \<and>
     (case gz_crc16 h of None \<Rightarrow> True | Some b \<Rightarrow> length b = 2)"

definition gz_member :: "gz_header \<Rightarrow> dblock list \<Rightarrow> byte list" where
  "gz_member h bs = (let out = foldl block_out [] bs
     in gz_head_bytes h @ pack (stream_bits 0 bs) @ put32 (crc32_calc out) @ put32 (of_nat (length out)))"

lemma gz_flags_bits:
  "gz_flags h AND GZ_FEXTRA \<noteq> 0 \<longleftrightarrow> gz_xtra h \<noteq> None" "gz_flags h AND GZ_FNAME \<noteq> 0 \<longleftrightarrow> gz_name h \<noteq> None"
  "gz_flags h AND GZ_FCOMMENT \<noteq> 0 \<longleftrightarrow> gz_comment h \<noteq> None" "gz_flags h AND GZ_FHCRC \<noteq> 0 \<longleftrightarrow> gz_crc16 h \<noteq> None"
  "gz_flags h AND GZ_RESERVED = 0"
  by (cases "gz_ftext h"; cases "gz_xtra h"; cases "gz_name h"; cases "gz_comment h"; cases "gz_crc16 h";
      simp add: gz_flags_def GZ_FEXTRA_def GZ_FNAME_def GZ_FCOMMENT_def GZ_FHCRC_def GZ_RESERVED_def)+

lemma skip_zstr_spec:
  "0 \<notin> set z \<Longrightarrow> buf = a @ z @ 0 # r \<Longrightarrow> length a + length z < limit \<Longrightarrow> skip_zstr buf limit (length a) = Some (length a + length z + 1)"
proof (induction z arbitrary: a)
  case Nil
  then show ?case by (simp add: skip_zstr.simps nth_append)
next
  case (Cons x z)
  have "buf ! length a = x" using Cons.prems(2) by (simp add: nth_append)
  moreover have "skip_zstr buf limit (length (a @ [x])) = Some (length (a @ [x]) + length z + 1)"
    using Cons.prems by (intro Cons.IH) simp_all
  ultimately show ?case using Cons.prems(1,3) by (simp add: skip_zstr.simps [of buf limit "length a"])
qed

lemma gz_extra_spec:
  assumes "buf = a @ xtra_bytes x @ r" and "flags AND GZ_FEXTRA \<noteq> 0 \<longleftrightarrow> x \<noteq> None" and "case x of None \<Rightarrow> True | Some b \<Rightarrow> length b < 65536"
    and "length a + length (xtra_bytes x) \<le> limit"
  shows "gz_extra buf flags limit (length a) = Some (length a + length (xtra_bytes x))"
proof (cases x)
  case (Some b)
  then have d: "drop (length a) buf = put16 (of_nat (length b)) @ b @ r" using assms(1) by (simp add: xtra_bytes_def)
  then have "unat (le16 (drop (length a) buf)) = length b" using assms(3) Some by (simp add: unat_of_nat)
  then show ?thesis using assms(2,4) Some by (simp add: gz_extra_def xtra_bytes_def Let_def)
qed (use assms in \<open>simp add: gz_extra_def xtra_bytes_def\<close>)

lemma gz_zstr_spec:
  assumes "buf = a @ zstr_bytes x @ r" and "flags AND flag \<noteq> 0 \<longleftrightarrow> x \<noteq> None" and "case x of None \<Rightarrow> True | Some b \<Rightarrow> 0 \<notin> set b"
    and "length a + length (zstr_bytes x) \<le> limit"
  shows "gz_zstr flag buf flags limit (length a) = Some (length a + length (zstr_bytes x))"
  using assms skip_zstr_spec [of _ buf a r limit] by (cases x) (simp_all add: gz_zstr_def zstr_bytes_def)

lemma gz_payload_pos_spec:
  assumes "gz_header_ok h" and "buf = gz_head_bytes h @ r" and "length (gz_head_bytes h) \<le> limit"
  shows "gz_payload_pos buf (gz_flags h) limit = Some (length (gz_head_bytes h))"
proof -
  note ok = assms(1) [unfolded gz_header_ok_def]
  let ?a = "[0x1f, 0x8b, 8, gz_flags h] @ gz_meta h"
  let ?x = "xtra_bytes (gz_xtra h)" and ?n = "zstr_bytes (gz_name h)" and ?c = "zstr_bytes (gz_comment h)" and ?k = "case gz_crc16 h of None \<Rightarrow> [] | Some b \<Rightarrow> b"
  have a: "length ?a = 10" using ok by simp
  have b: "buf = ?a @ ?x @ (?n @ ?c @ ?k @ r)" "buf = (?a @ ?x) @ ?n @ (?c @ ?k @ r)" "buf = (?a @ ?x @ ?n) @ ?c @ (?k @ r)"
    using assms(2) by (simp_all add: gz_head_bytes_def)
  have l: "length (gz_head_bytes h) = 10 + length ?x + length ?n + length ?c + length ?k" using a by (simp add: gz_head_bytes_def)
  have lim: "length ?a + length ?x \<le> limit" "length (?a @ ?x) + length ?n \<le> limit" "length (?a @ ?x @ ?n) + length ?c \<le> limit"
    using assms(3) l a by simp_all
  note f = gz_flags_bits
  have e: "gz_extra buf (gz_flags h) limit 10 = Some (10 + length ?x)"
    using gz_extra_spec [OF b(1) f(1) _ lim(1)] ok unfolding a by simp
  have n: "gz_zstr GZ_FNAME buf (gz_flags h) limit (10 + length ?x) = Some (10 + length ?x + length ?n)"
    using gz_zstr_spec [OF b(2) f(2) _ lim(2)] ok a by simp
  have c: "gz_zstr GZ_FCOMMENT buf (gz_flags h) limit (10 + length ?x + length ?n) = Some (10 + length ?x + length ?n + length ?c)"
    using gz_zstr_spec [OF b(3) f(3) _ lim(3)] ok a by (simp add: add.assoc)
  have k: "gz_hcrc (gz_flags h) limit (10 + length ?x + length ?n + length ?c) = Some (length (gz_head_bytes h))"
    using f(4) ok assms(3) unfolding l by (cases "gz_crc16 h") (simp_all add: gz_hcrc_def)
  show ?thesis unfolding gz_payload_pos_def e option.case n c k using assms(3) by simp
qed


lemma length_gz_head: "gz_header_ok h \<Longrightarrow> 10 \<le> length (gz_head_bytes h)"
  by (simp add: gz_header_ok_def gz_head_bytes_def)

lemma gz_body_spec:
  assumes "blocks_ok [] bs" and "bs \<noteq> []" and "out = foldl block_out [] bs" and "out \<noteq> []" and "length out < 4294967296"
    and "mem (length out)" and "buf = a @ pack (stream_bits 0 bs) @ put32 (crc32_calc out) @ put32 (of_nat (length out))"
  shows "gz_body mem buf (length a) = Inr out"
proof -
  let ?p = "pack (stream_bits 0 bs)"
  have n: "length buf = length a + length ?p + 8" using assms(7) by simp
  have c: "drop (length buf - 8) buf = put32 (crc32_calc out) @ put32 (of_nat (length out))" unfolding n assms(7) by simp
  have z: "drop (length buf - 4) buf = put32 (of_nat (length out))" unfolding n assms(7) by simp
  have u: "unat (of_nat (length out) :: u32) = length out" using assms(5) by (simp add: unat_of_nat)
  then have nz: "(of_nat (length out) :: u32) \<noteq> 0" using assms(4) by (metis length_0_conv unat_0)
  have i: "inflate_raw ?p (length out) = Inr out" using inflate_raw_stream [OF assms(1,2), of "length out"] assms(3) by simp
  have b: "bslice (length a) (length buf - 8 - length a) buf = ?p" unfolding n assms(7) bslice_def by simp
  show ?thesis unfolding gz_body_def Let_def c z b using i u nz assms(6) by (simp add: crc32_bytes_eq)
qed

lemma gu_gzip_decode_member_spec:
  assumes "gz_header_ok h" and "blocks_ok [] bs" and "bs \<noteq> []" and "foldl block_out [] bs \<noteq> []" and "length (foldl block_out [] bs) < 4294967296"
    and "\<forall>k. mem k" and "length pre + length (gz_member h bs) \<le> LONG_MAX"
  shows "gu_gzip_decode_member mem None (pre @ gz_member h bs @ post) (of_nat (length pre)) (of_nat (length (gz_member h bs))) =
    Inr (foldl block_out [] bs)"
proof -
  let ?m = "gz_member h bs" and ?out = "foldl block_out [] bs" and ?p = "pack (stream_bits 0 bs)"
  let ?r = "?p @ put32 (crc32_calc ?out) @ put32 (of_nat (length ?out))"
  have m: "?m = gz_head_bytes h @ ?r" by (simp add: gz_member_def Let_def)
  have "length ?m \<le> LONG_MAX" "length pre \<le> LONG_MAX" using assms(7) by simp_all
  then have u: "unat (of_nat (length pre) :: u64) = length pre" "unat (of_nat (length ?m) :: u64) = length ?m"
    by (simp_all add: LONG_MAX_def unat_of_nat_small)
  have h: "10 \<le> length (gz_head_bytes h)" by (rule length_gz_head [OF assms(1)])
  then have l: "18 \<le> length ?m" "length (gz_head_bytes h) \<le> length ?m - 8" unfolding m by simp_all
  have s: "bslice (length pre) (length ?m) (pre @ ?m @ post) = ?m" by (simp add: bslice_def)
  have f: "?m ! 0 = 0x1f" "?m ! 1 = 0x8b" "?m ! 2 = 8" "?m ! 3 = gz_flags h" unfolding m gz_head_bytes_def by (simp_all add: numeral_eq_Suc)
  have "gz_payload_pos ?m (gz_flags h) (length ?m - 8) = Some (length (gz_head_bytes h))"
    by (rule gz_payload_pos_spec [OF assms(1) m l(2)])
  moreover have "gz_body mem ?m (length (gz_head_bytes h)) = Inr ?out"
    using assms(6) by (intro gz_body_spec [OF assms(2,3) refl assms(4,5) _ m]) simp
  ultimately show ?thesis
    unfolding gu_gzip_decode_member_def u Let_def s f using l(1) assms(6,7) gz_flags_bits(5) [of h] by simp
qed

section \<open>Properties\<close>

text \<open>C12. \<^verbatim>\<open>gu_gzip_decode_member\<close> decodes gzip: a member written with any combination of the optional header fields around any
  DEFLATE stream the format allows, anywhere in a file, is decoded to exactly the bytes it holds (between one and \<open>2\<^sup>3\<^sup>2 - 1\<close> of them).\<close>

theorem gzip_member_roundtrip:
  assumes "gz_header_ok h" and "blocks_ok [] bs" and "bs \<noteq> []" and "foldl block_out [] bs \<noteq> []" and "length (foldl block_out [] bs) < 4294967296"
    and "\<forall>k. mem k" and "length pre + length (gz_member h bs) \<le> LONG_MAX"
  shows "gu_gzip_decode_member mem None (pre @ gz_member h bs @ post) (of_nat (length pre)) (of_nat (length (gz_member h bs))) =
    Inr (foldl block_out [] bs)"
  using gu_gzip_decode_member_spec [OF assms] .

text \<open>C36. Nothing unchecked comes out: whatever the bytes of the member, what \<^verbatim>\<open>gu_gzip_decode_member\<close> returns has exactly the length and the
  CRC-32 that the last eight bytes of the member state, is not empty, and stands in a member that lies inside the file.\<close>

theorem gzip_output_checked:
  assumes "gu_gzip_decode_member mem tmp src off len = Inr out"
  defines "m \<equiv> bslice (unat off) (unat len) src"
  shows "length m = unat len \<and> out \<noteq> [] \<and> length out = unat (le32 (drop (unat len - 4) m)) \<and> crc32_calc out = le32 (drop (unat len - 8) m)"
proof -
  obtain pos where b: "gz_body mem m pos = Inr out" and l: "length m = unat len"
    using assms by (auto simp: gu_gzip_decode_member_def Let_def split: if_splits option.splits sum.splits)
  from b have "le32 (drop (unat len - 4) m) \<noteq> 0" "length out = unat (le32 (drop (unat len - 4) m))" "crc32_bytes out = le32 (drop (unat len - 8) m)"
    unfolding gz_body_def Let_def l by (auto split: if_splits sum.splits)
  then show ?thesis using l by (auto simp: crc32_bytes_eq unat_eq_0)
qed

definition demo_gz :: gz_header where
  "demo_gz = \<lparr>gz_meta = zeros 6, gz_xtra = Some [1, 2], gz_name = Some [97], gz_comment = None, gz_crc16 = Some [7, 7], gz_ftext = True\<rparr>"


definition demo_member :: "byte list" where
  "demo_member = gz_member demo_gz [StoredBlock [104, 105]]"

lemma demo_stream: "pack (stream_bits 0 [StoredBlock [104, 105]]) = [1, 2, 0, 0xfd, 0xff, 104, 105]"
proof -
  have b: "stream_bits 0 [StoredBlock [104, 105]] = concat (map byte_bits [1, 2, 0, 0xfd, 0xff, 104, 105])" by code_simp
  show ?thesis unfolding b by code_simp
qed

lemma demo_member_facts:
  "gz_header_ok demo_gz" "blocks_ok [] [StoredBlock [104, 105]]" "foldl block_out [] [StoredBlock [104, 105]] = [104, 105]"
  "length demo_member = 33" "length [9 :: byte] + length (gz_member demo_gz [StoredBlock [104, 105]]) \<le> LONG_MAX"
proof -
  have l: "length (gz_member demo_gz [StoredBlock [104, 105]]) = 33"
    unfolding gz_member_def Let_def demo_stream by (simp add: gz_head_bytes_def demo_gz_def xtra_bytes_def zstr_bytes_def)
  then show "length demo_member = 33" "length [9 :: byte] + length (gz_member demo_gz [StoredBlock [104, 105]]) \<le> LONG_MAX"
    by (simp_all add: demo_member_def LONG_MAX_def)
qed (simp_all add: gz_header_ok_def demo_gz_def)

theorem gzip_member_roundtrip_witness:
  "gu_gzip_decode_member (\<lambda>k. True) None ([9] @ demo_member @ [8]) 1 33 = Inr [104, 105]"
  using gzip_member_roundtrip [OF demo_member_facts(1,2) _ _ _ _ demo_member_facts(5), of "\<lambda>k. True" "[8]"] demo_member_facts(3,4)
  by (simp add: demo_member_def)

theorem gzip_output_checked_witness:
  "length [104 :: byte, 105] = unat (le32 (drop 29 demo_member)) \<and> crc32_calc [104, 105] = le32 (drop 25 demo_member)"
proof -
  have "gu_gzip_decode_member (\<lambda>k. True) None ([9] @ demo_member @ [8]) 1 33 = Inr [104, 105]"
    using gu_gzip_decode_member_spec [OF demo_member_facts(1,2) _ _ _ _ demo_member_facts(5), of "\<lambda>k. True" "[8]"] demo_member_facts(3,4)
    by (simp add: demo_member_def)
  from gzip_output_checked [OF this] show ?thesis using demo_member_facts(4) by (simp add: bslice_def)
qed

end
