(* ===== verification/Pkg_Repo.thy ===== *)
theory Pkg_Repo
  imports Pkg_State Gzip
begin

text \<open>
  The package repositories (\<^verbatim>\<open>src/pkg_repo.c\<close>): the registered roots, the records read from their \<^verbatim>\<open>Packages\<close> indexes, and the
  queries of the planner.

  The state is the list of records and the list of roots. What the file system holds, and the XZ decoder, are an environment
  (\<open>repo_env\<close>); the gzip decoder is that of theory \<open>Gzip\<close>, here with its \<^verbatim>\<open>malloc\<close> and \<^verbatim>\<open>tmpfile\<close> succeeding. Memory is taken to be
  available: the -1 of \<^verbatim>\<open>append_entry\<close> and \<^verbatim>\<open>parse_index\<close> when \<^verbatim>\<open>realloc\<close> fails is left out. The lemmas show that no record is
  registered twice, that the queries return a record of the latest version, that the parser of \<^verbatim>\<open>Provides\<close> finds the names
  listed, and that removing a repository undoes adding it.
\<close>

section \<open>Records\<close>

definition PKG_REPO_MAX :: nat where "PKG_REPO_MAX = 8"

record pkg_repo_entry =
  re_package :: string
  re_version :: string
  re_architecture :: string
  re_depends :: string
  re_pre_depends :: string
  re_provides :: string
  re_conflicts :: string
  re_breaks :: string
  re_replaces :: string
  re_filename :: string
  re_sha256 :: string
  re_size :: u64
  re_index_path :: string
  re_repo_root :: string

definition entry_zero :: pkg_repo_entry where
  "entry_zero = \<lparr>re_package = [], re_version = [], re_architecture = [], re_depends = [], re_pre_depends = [], re_provides = [],
     re_conflicts = [], re_breaks = [], re_replaces = [], re_filename = [], re_sha256 = [], re_size = 0, re_index_path = [], re_repo_root = []\<rparr>"

record pkg_repo =
  rp_entries :: "pkg_repo_entry list"
  rp_roots :: "string list"

definition copytrim :: "nat \<Rightarrow> string \<Rightarrow> string" where
  "copytrim cap a = cstr (take (cap - 1) (drop_end isspace (dropWhile isspace a)))"

definition strtoull :: "string \<Rightarrow> u64" where
  "strtoull s = (case scan_ull s of None \<Rightarrow> 0 | Some (v, r) \<Rightarrow> v)"

definition field :: "string \<Rightarrow> string \<Rightarrow> pkg_repo_entry \<Rightarrow> pkg_repo_entry" where
  "field k v e =
     (if k = ''Package'' then e\<lparr>re_package := copytrim 128 v\<rparr>
      else if k = ''Version'' then e\<lparr>re_version := copytrim 128 v\<rparr>
      else if k = ''Architecture'' then e\<lparr>re_architecture := copytrim 64 v\<rparr>
      else if k = ''Depends'' then e\<lparr>re_depends := copytrim 4096 v\<rparr>
      else if k = ''Pre-Depends'' then e\<lparr>re_pre_depends := copytrim 2048 v\<rparr>
      else if k = ''Provides'' then e\<lparr>re_provides := copytrim 2048 v\<rparr>
      else if k = ''Conflicts'' then e\<lparr>re_conflicts := copytrim 2048 v\<rparr>
      else if k = ''Breaks'' then e\<lparr>re_breaks := copytrim 2048 v\<rparr>
      else if k = ''Replaces'' then e\<lparr>re_replaces := copytrim 2048 v\<rparr>
      else if k = ''Filename'' then e\<lparr>re_filename := copytrim 768 v\<rparr>
      else if k = ''SHA256'' then e\<lparr>re_sha256 := copytrim 65 v\<rparr>
      else if k = ''Size'' then e\<lparr>re_size := strtoull (copytrim 64 v)\<rparr>
      else e)"

definition same_record :: "pkg_repo_entry \<Rightarrow> pkg_repo_entry \<Rightarrow> string \<Rightarrow> bool" where
  "same_record a b root \<longleftrightarrow> re_repo_root a = root \<and> re_package a = re_package b \<and> re_version a = re_version b \<and>
     re_architecture a = re_architecture b \<and> re_filename a = re_filename b"

definition append_entry :: "string \<Rightarrow> string \<Rightarrow> pkg_repo_entry \<Rightarrow> pkg_repo \<Rightarrow> pkg_repo" where
  "append_entry root index e r =
     (if re_package e = [] \<or> re_version e = [] \<or> re_filename e = [] then r
      else if list_ex (\<lambda>a. same_record a e root) (rp_entries r) then r
      else r\<lparr>rp_entries := rp_entries r @ [e\<lparr>re_repo_root := take 511 root, re_index_path := take 767 index\<rparr>]\<rparr>)"

section \<open>Reading an index\<close>

definition idx_line :: "string \<Rightarrow> string \<Rightarrow> string \<Rightarrow> pkg_repo_entry \<times> pkg_repo \<Rightarrow> pkg_repo_entry \<times> pkg_repo" where
  "idx_line root path l0 st =
     (case st of (e, r) \<Rightarrow>
        let l = (if l0 \<noteq> [] \<and> last l0 = CHR 0x0D then butlast l0 else l0)
        in if l = [] then (entry_zero, append_entry root path e r)
           else if isblank (hd l) then (e, r)
           else let k = takeWhile (\<lambda>c. c \<noteq> CHR '':'') l
                in if k = l then (e, r) else (field k (drop (length k + 1) l) e, r))"

definition parse_index :: "string \<Rightarrow> string \<Rightarrow> string \<Rightarrow> pkg_repo \<Rightarrow> pkg_repo" where
  "parse_index buf root path r =
     (case fold (idx_line root path) (text_lines buf) (entry_zero, r) of (e, r) \<Rightarrow> append_entry root path e r)"

definition ends :: "string \<Rightarrow> string \<Rightarrow> bool" where
  "ends s x \<longleftrightarrow> length x \<le> length s \<and> drop (length s - length x) s = x"

definition path_join :: "nat \<Rightarrow> string \<Rightarrow> string \<Rightarrow> string option" where
  "path_join n a b =
     (let o' = a @ (if a \<noteq> [] \<and> last a \<noteq> CHR ''/'' then ''/'' else []) @ b in if length o' \<ge> n then None else Some o')"

text \<open>The environment: the bytes of a file, the names in a directory (with whether the entry is a directory or of unknown type), and the XZ decoder.\<close>

record repo_env =
  env_file :: "string \<Rightarrow> byte list option"
  env_dir :: "string \<Rightarrow> (string \<times> bool) list option"
  env_xz :: "byte list \<Rightarrow> byte list option"

definition load_data :: "repo_env \<Rightarrow> string \<Rightarrow> byte list \<Rightarrow> byte list option" where
  "load_data env path bs =
     (if ends path ''.xz'' then env_xz env bs
      else if ends path ''.gz'' then
        (case gu_gzip_decode_member (\<lambda>k. True) None bs 0 (of_nat (length bs)) of Inl e \<Rightarrow> None | Inr out \<Rightarrow> Some out)
      else Some bs)"

definition load_index :: "repo_env \<Rightarrow> string \<Rightarrow> string \<Rightarrow> pkg_repo \<Rightarrow> pkg_repo option" where
  "load_index env root path r =
     (case env_file env path of None \<Rightarrow> None
      | Some bs \<Rightarrow> (case load_data env path bs of None \<Rightarrow> None | Some d \<Rightarrow> Some (parse_index (text_of d) root path r)))"

text \<open>\<^verbatim>\<open>strstr\<close> as a test.\<close>

fun contains :: "string \<Rightarrow> string \<Rightarrow> bool" where
  "contains [] x \<longleftrightarrow> x = []"
| "contains (c # s) x \<longleftrightarrow> take (length x) (c # s) = x \<or> contains s x"

definition index_wanted :: "string \<Rightarrow> bool" where
  "index_wanted p \<longleftrightarrow> (contains p ''/binary-amd64/Packages'' \<or> contains p ''/binary-all/Packages'') \<and> \<not> contains p ''/debian-installer/''"

text \<open>The first argument is \<open>7 - depth\<close>: at depth 7 the walk returns without looking.\<close>

fun scan_dir :: "nat \<Rightarrow> repo_env \<Rightarrow> string \<Rightarrow> string \<Rightarrow> pkg_repo \<times> nat \<Rightarrow> bool \<times> pkg_repo \<times> nat" where
  "scan_dir 0 env root path st = (True, st)"
| "scan_dir (Suc n) env root path st =
     (case env_dir env path of None \<Rightarrow> (False, st)
      | Some des \<Rightarrow>
          (True, fold (\<lambda>(name, isdir) (r, found).
             if name = ''.'' \<or> name = ''..'' then (r, found)
             else case path_join 1024 path name of None \<Rightarrow> (r, found)
             | Some p \<Rightarrow>
                 if name = ''Packages'' \<or> name = ''Packages.xz'' \<or> name = ''Packages.gz'' then
                   (if index_wanted p then (case load_index env root p r of None \<Rightarrow> (r, found) | Some r' \<Rightarrow> (r', Suc found)) else (r, found))
                 else if isdir then snd (scan_dir n env root p (r, found))
                 else (r, found)) des st))"

section \<open>Operations\<close>

fun root_index_from :: "nat \<Rightarrow> string list \<Rightarrow> string \<Rightarrow> nat option" where
  "root_index_from i [] root = None"
| "root_index_from i (x # xs) root = (if x = root then Some i else root_index_from (Suc i) xs root)"

definition root_index :: "pkg_repo \<Rightarrow> string \<Rightarrow> nat option" where
  "root_index r root = root_index_from 0 (rp_roots r) root"

datatype repo_error = Repo_No_Root | Repo_Registered | Repo_Too_Many | Repo_Path_Long | Repo_No_Index | Repo_Missing | Repo_Not_Found

definition pkg_repo_add :: "repo_env \<Rightarrow> string \<Rightarrow> pkg_repo \<Rightarrow> (repo_error + nat) \<times> pkg_repo" where
  "pkg_repo_add env root r =
     (if root = [] then (Inl Repo_No_Root, r)
      else if root_index r root \<noteq> None then (Inl Repo_Registered, r)
      else if length (rp_roots r) \<ge> PKG_REPO_MAX then (Inl Repo_Too_Many, r)
      else case path_join 768 root ''dists'' of None \<Rightarrow> (Inl Repo_Path_Long, r)
      | Some dists \<Rightarrow>
          (case scan_dir 7 env root dists (r, 0) of (ok, r', found) \<Rightarrow>
             if \<not> ok \<or> found = 0 then (Inl Repo_No_Index, r'\<lparr>rp_entries := take (length (rp_entries r)) (rp_entries r')\<rparr>)
             else (Inr (length (rp_entries r') - length (rp_entries r)), r'\<lparr>rp_roots := rp_roots r' @ [take 511 root]\<rparr>)))"

definition delete_target :: "string \<Rightarrow> pkg_repo \<Rightarrow> nat option" where
  "delete_target spec r =
     (case scan_ull spec of
        Some (n, rest) \<Rightarrow> if rest = [] \<and> 1 \<le> unat n \<and> unat n \<le> length (rp_roots r) then Some (unat n - 1) else root_index r spec
      | None \<Rightarrow> root_index r spec)"

definition pkg_repo_delete :: "string \<Rightarrow> pkg_repo \<Rightarrow> repo_error option \<times> pkg_repo" where
  "pkg_repo_delete spec r =
     (if spec = [] then (Some Repo_Missing, r)
      else case delete_target spec r of None \<Rightarrow> (Some Repo_Not_Found, r)
      | Some idx \<Rightarrow>
          (None, r\<lparr>rp_entries := filter (\<lambda>e. re_repo_root e \<noteq> rp_roots r ! idx) (rp_entries r),
                   rp_roots := take idx (rp_roots r) @ drop (Suc idx) (rp_roots r)\<rparr>))"

definition pkg_repo_list :: "pkg_repo \<Rightarrow> (string \<times> nat) list \<times> nat" where
  "pkg_repo_list r = (map (\<lambda>x. (x, length (filter (\<lambda>e. re_repo_root e = x) (rp_entries r)))) (rp_roots r), length (rp_entries r))"

definition pkg_repo_clear :: "pkg_repo \<Rightarrow> pkg_repo" where
  "pkg_repo_clear r = \<lparr>rp_entries = [], rp_roots = []\<rparr>"

definition best_step :: "(pkg_repo_entry \<Rightarrow> bool) \<Rightarrow> pkg_repo_entry \<Rightarrow> pkg_repo_entry option \<Rightarrow> pkg_repo_entry option" where
  "best_step P e best =
     (if \<not> P e then best
      else case best of None \<Rightarrow> Some e | Some b \<Rightarrow> if deb_version_compare (re_version e) (re_version b) > 0 then Some e else best)"

definition repo_candidate :: "string \<Rightarrow> string \<Rightarrow> string \<Rightarrow> pkg_repo_entry \<Rightarrow> bool" where
  "repo_candidate name vop ver e \<longleftrightarrow> re_package e = name \<and> deb_version_satisfies (re_version e) vop ver"

definition pkg_repo_find_best :: "pkg_repo \<Rightarrow> string \<Rightarrow> string \<Rightarrow> string \<Rightarrow> pkg_repo_entry option" where
  "pkg_repo_find_best r name vop ver =
     fold (best_step (repo_candidate name vop ver)) (rp_entries r) None"

definition prov_sep :: "char \<Rightarrow> bool" where
  "prov_sep c \<longleftrightarrow> c = CHR '' '' \<or> c = CHR 0x09 \<or> c = CHR '',''"

definition prov_end :: "string \<Rightarrow> bool" where
  "prov_end s \<longleftrightarrow> (case s of [] \<Rightarrow> True | c # t \<Rightarrow> prov_sep c \<or> c = CHR ''('')"

lemma next_prov_shorter: "s \<noteq> [] \<Longrightarrow> length (tl (dropWhile (\<lambda>c. c \<noteq> CHR '','') (dropWhile prov_sep s))) < length s"
  using length_dropWhile_le [of prov_sep s] length_dropWhile_le [of "\<lambda>c. c \<noteq> CHR '',''" "dropWhile prov_sep s"] by (cases s) auto

function provides_name :: "string \<Rightarrow> string \<Rightarrow> bool" where
  "provides_name s n =
     (if s = [] then False
      else let t = dropWhile prov_sep s
           in if take (length n) t = n \<and> prov_end (drop (length n) t) then True
              else if dropWhile (\<lambda>c. c \<noteq> CHR '','') t = [] then False
              else provides_name (tl (dropWhile (\<lambda>c. c \<noteq> CHR '','') t)) n)"
  by pat_completeness auto
termination by (relation "measure (length \<circ> fst)") (use next_prov_shorter in auto)

declare provides_name.simps [simp del]

definition pkg_repo_find_provider :: "pkg_repo \<Rightarrow> string \<Rightarrow> pkg_repo_entry option" where
  "pkg_repo_find_provider r n = fold (best_step (\<lambda>e. provides_name (re_provides e) n)) (rp_entries r) None"

definition pkg_repo_resolve_path :: "pkg_repo \<Rightarrow> string \<Rightarrow> nat \<Rightarrow> string option" where
  "pkg_repo_resolve_path r name outsz =
     (case pkg_repo_find_best r name [] [] of None \<Rightarrow> None
      | Some e \<Rightarrow> if outsz = 0 then None else path_join outsz (re_repo_root e) (re_filename e))"

section \<open>The latest version\<close>

context three_way
begin

lemma cmp_le_less_trans:
  assumes "a \<in> carrier" and "b \<in> carrier" and "c \<in> carrier" and "cmp a b \<le> 0" and "cmp b c < 0"
  shows "cmp a c < 0"
proof (rule ccontr)
  assume "\<not> cmp a c < 0"
  then have "cmp c a \<le> 0" using cmp_anti [OF assms(1,3)] by simp
  from cmp_trans [OF assms(3,1,2) this assms(4)] cmp_anti [OF assms(2,3)] assms(5) show False by simp
qed

text \<open>Keeping the first element with a key that no later one exceeds.\<close>

lemma best_fold:
  assumes "\<forall>e b. f e b = (if \<not> P e then b else case b of None \<Rightarrow> Some e | Some x \<Rightarrow> if cmp (k e) (k x) > 0 then Some e else b)"
    and "\<forall>e \<in> set es. k e \<in> carrier"
  shows "case fold f es None of None \<Rightarrow> \<forall>e \<in> set es. \<not> P e
     | Some x \<Rightarrow> P x \<and> (\<exists>ys zs. es = ys @ x # zs \<and> (\<forall>e \<in> set ys. P e \<longrightarrow> cmp (k e) (k x) < 0) \<and> (\<forall>e \<in> set zs. P e \<longrightarrow> cmp (k e) (k x) \<le> 0))"
  using assms(2)
proof (induction es rule: rev_induct)
  case (snoc e es)
  have fnd: "fold f (es @ [e]) None = f e (fold f es None)" by simp
  show ?case
  proof (cases "fold f es None")
    case None
    have no: "\<forall>d \<in> set es. \<not> P d" using snoc None by simp
    show ?thesis
    proof (cases "P e")
      case True
      then have "fold f (es @ [e]) None = Some e" unfolding fnd using None assms(1) by simp
      moreover have "\<exists>ys zs. es @ [e] = ys @ e # zs \<and> (\<forall>d \<in> set ys. P d \<longrightarrow> cmp (k d) (k e) < 0) \<and> (\<forall>d \<in> set zs. P d \<longrightarrow> cmp (k d) (k e) \<le> 0)"
        using no by (intro exI [of _ es] exI [of _ "[]"]) simp
      ultimately show ?thesis using True by simp
    next
      case False
      then have "fold f (es @ [e]) None = None" unfolding fnd using None assms(1) by simp
      then show ?thesis using no False by simp
    qed
  next
    case (Some x)
    obtain ys zs where x: "P x" "es = ys @ x # zs" "\<forall>d \<in> set ys. P d \<longrightarrow> cmp (k d) (k x) < 0" "\<forall>d \<in> set zs. P d \<longrightarrow> cmp (k d) (k x) \<le> 0"
      using snoc Some by auto
    have c: "k e \<in> carrier" "k x \<in> carrier" "\<forall>d \<in> set es. k d \<in> carrier" using snoc.prems x(2) by auto
    show ?thesis
    proof (cases "P e \<and> cmp (k e) (k x) > 0")
      case True
      have "cmp (k d) (k e) < 0" if "d \<in> set es" "P d" for d
      proof -
        have d: "k d \<in> carrier" "cmp (k d) (k x) \<le> 0" using that x c cmp_refl [of "k x"] by (auto simp: less_le)
        have "cmp (k x) (k e) < 0" using True cmp_anti [OF c(1,2)] by simp
        then show ?thesis using cmp_le_less_trans [OF d(1) c(2,1) d(2)] by simp
      qed
      then have "\<exists>ys zs. es @ [e] = ys @ e # zs \<and> (\<forall>d \<in> set ys. P d \<longrightarrow> cmp (k d) (k e) < 0) \<and> (\<forall>d \<in> set zs. P d \<longrightarrow> cmp (k d) (k e) \<le> 0)"
        by (intro exI [of _ es] exI [of _ "[]"]) simp
      moreover have "fold f (es @ [e]) None = Some e" unfolding fnd using True Some assms(1) by simp
      ultimately show ?thesis using True by simp
    next
      case False
      have "fold f (es @ [e]) None = Some x" unfolding fnd using False Some assms(1) by auto
      moreover have "\<exists>ys zs. es @ [e] = ys @ x # zs \<and> (\<forall>d \<in> set ys. P d \<longrightarrow> cmp (k d) (k x) < 0) \<and> (\<forall>d \<in> set zs. P d \<longrightarrow> cmp (k d) (k x) \<le> 0)"
        using x False by (intro exI [of _ ys] exI [of _ "zs @ [e]"]) auto
      ultimately show ?thesis using x(1) by simp
    qed
  qed
qed simp

end

section \<open>The state invariant\<close>

definition entry_fields :: "pkg_repo_entry \<Rightarrow> (string \<times> nat) list" where
  "entry_fields e = [(re_package e, 128), (re_version e, 128), (re_architecture e, 64), (re_depends e, 4096), (re_pre_depends e, 2048),
     (re_provides e, 2048), (re_conflicts e, 2048), (re_breaks e, 2048), (re_replaces e, 2048), (re_filename e, 768), (re_sha256 e, 65)]"

definition entry_fits :: "pkg_repo_entry \<Rightarrow> bool" where
  "entry_fits e \<longleftrightarrow> (\<forall>(v, cap) \<in> set (entry_fields e). length v < cap \<and> CHR 0x00 \<notin> set v)"

definition rec_key :: "pkg_repo_entry \<Rightarrow> string \<times> string \<times> string \<times> string \<times> string" where
  "rec_key e = (re_repo_root e, re_package e, re_version e, re_architecture e, re_filename e)"

definition entries_ok :: "string set \<Rightarrow> pkg_repo_entry list \<Rightarrow> bool" where
  "entries_ok R es \<longleftrightarrow> distinct (map rec_key es) \<and>
     (\<forall>e \<in> set es. entry_fits e \<and> re_package e \<noteq> [] \<and> re_version e \<noteq> [] \<and> re_filename e \<noteq> [] \<and> re_repo_root e \<in> R)"

definition repo_wf :: "pkg_repo \<Rightarrow> bool" where
  "repo_wf r \<longleftrightarrow> length (rp_roots r) \<le> PKG_REPO_MAX \<and> distinct (rp_roots r) \<and> entries_ok (set (rp_roots r)) (rp_entries r)"

lemma copytrim_fits: "0 < cap \<Longrightarrow> length (copytrim cap s) < cap \<and> CHR 0x00 \<notin> set (copytrim cap s)"
proof
  assume "0 < cap"
  have "length (copytrim cap s) \<le> length (take (cap - 1) (drop_end isspace (dropWhile isspace s)))"
    unfolding copytrim_def by (rule length_cstr_le)
  with \<open>0 < cap\<close> show "length (copytrim cap s) < cap" by (simp, linarith)
  show "CHR 0x00 \<notin> set (copytrim cap s)" unfolding copytrim_def cstr_def by (auto dest: set_takeWhileD)
qed

lemma entry_fits_zero: "entry_fits entry_zero"
  by (simp add: entry_fits_def entry_fields_def entry_zero_def)

lemma field_fits: "entry_fits e \<Longrightarrow> entry_fits (field k v e)"
  by (simp add: field_def entry_fits_def entry_fields_def copytrim_fits)

text \<open>Reading an index only appends records, and each is a new one of that root.\<close>

definition grows :: "string \<Rightarrow> pkg_repo \<Rightarrow> pkg_repo \<Rightarrow> bool" where
  "grows root r r' \<longleftrightarrow> rp_roots r' = rp_roots r \<and> (\<exists>es. rp_entries r' = rp_entries r @ es \<and> (\<forall>e \<in> set es. re_repo_root e = root)) \<and>
     (\<forall>R. root \<in> R \<and> entries_ok R (rp_entries r) \<longrightarrow> entries_ok R (rp_entries r'))"

lemma grows_refl: "grows root r r"
  by (auto simp: grows_def)

lemma grows_trans: "grows root r s \<Longrightarrow> grows root s t \<Longrightarrow> grows root r t"
  unfolding grows_def by (clarsimp, metis Un_iff set_append)

lemma append_entry_grows:
  assumes "entry_fits e" and "length root < 512"
  shows "grows root r (append_entry root index e r)"
proof (cases "re_package e = [] \<or> re_version e = [] \<or> re_filename e = [] \<or> list_ex (\<lambda>a. same_record a e root) (rp_entries r)")
  case True
  then show ?thesis by (auto simp: append_entry_def grows_refl)
next
  case False
  let ?e = "e\<lparr>re_repo_root := root, re_index_path := take 767 index\<rparr>"
  have a: "append_entry root index e r = r\<lparr>rp_entries := rp_entries r @ [?e]\<rparr>" using False assms(2) by (simp add: append_entry_def)
  have "rec_key ?e \<notin> rec_key ` set (rp_entries r)" using False by (auto simp: rec_key_def same_record_def list_ex_iff)
  moreover have "entry_fits ?e" using assms(1) by (simp add: entry_fits_def entry_fields_def)
  ultimately show ?thesis using False unfolding a grows_def by (simp add: entries_ok_def)
qed

lemma parse_index_grows:
  assumes "length root < 512"
  shows "grows root r (parse_index buf root path r)"
proof -
  have "entry_fits (fst (fold (idx_line root path) ls (e, r))) \<and> grows root r (snd (fold (idx_line root path) ls (e, r)))" if "entry_fits e" for ls e r
    using that
  proof (induction ls arbitrary: e r)
    case (Cons l ls)
    obtain e' r' where l: "idx_line root path l (e, r) = (e', r')" by force
    then have "entry_fits e'" "grows root r r'" using Cons.prems
      by (auto simp: idx_line_def Let_def entry_fits_zero append_entry_grows [OF _ assms] grows_refl field_fits split: if_splits)
    with Cons.IH [of e' r'] l show ?case using grows_trans by auto
  qed (simp add: grows_refl)
  from this [OF entry_fits_zero, of "text_lines buf" r] show ?thesis
    using append_entry_grows [OF _ assms] grows_trans by (auto simp: parse_index_def split: prod.splits)
qed

lemma load_index_grows: "length root < 512 \<Longrightarrow> load_index env root path r = Some r' \<Longrightarrow> grows root r r'"
  using parse_index_grows by (auto simp: load_index_def split: option.splits)

lemma grows_fold:
  fixes f :: "'d \<Rightarrow> pkg_repo \<times> nat \<Rightarrow> pkg_repo \<times> nat"
  assumes "\<And>d st. grows root (fst st) (fst (f d st))"
  shows "grows root (fst st) (fst (fold f des st))"
proof (induction des arbitrary: st)
  case (Cons d des)
  show ?case using grows_trans [OF assms [of st d] Cons [of "f d st"]] by simp
qed (simp add: grows_refl)

lemma scan_dir_grows: "length root < 512 \<Longrightarrow> grows root (fst st) (fst (snd (scan_dir n env root path st)))"
proof (induction n arbitrary: path st)
  case (Suc n)
  show ?case
    using Suc load_index_grows
    by (cases "env_dir env path") (auto simp: grows_refl intro!: grows_fold split: option.splits)
qed (simp add: grows_refl)

lemma root_index_from_None: "root_index_from i xs root = None \<longleftrightarrow> root \<notin> set xs"
  by (induction xs arbitrary: i) auto

lemma root_index_from_Some: "root_index_from i xs root = Some j \<Longrightarrow> i \<le> j \<and> j < i + length xs \<and> xs ! (j - i) = root"
  by (induction xs arbitrary: i) (force simp: nth_Cons' split: if_splits)+

lemma root_index_None: "root_index r root = None \<longleftrightarrow> root \<notin> set (rp_roots r)"
  by (simp add: root_index_def root_index_from_None)

lemma root_index_Some: "root_index r root = Some j \<Longrightarrow> j < length (rp_roots r)"
  using root_index_from_Some [of 0] by (fastforce simp: root_index_def)

lemma add_cases:
  assumes "pkg_repo_add env root r = (x, r')" and "length root < 512"
  shows "(\<exists>e. x = Inl e \<and> r' = r) \<or>
    (\<exists>n s. x = Inr n \<and> r' = s\<lparr>rp_roots := rp_roots r @ [root]\<rparr> \<and> grows root r s \<and> root \<notin> set (rp_roots r) \<and> length (rp_roots r) < PKG_REPO_MAX)"
proof -
  have undo: "s\<lparr>rp_entries := take (length (rp_entries r)) (rp_entries s)\<rparr> = r" if "grows root r s" for s
    using that by (cases s; cases r) (auto simp: grows_def)
  have g: "grows root r s" if "scan_dir 7 env root d (r, 0) = (ok, s, n)" for d ok s n
    using scan_dir_grows [OF assms(2), of "(r, 0)" 7 env d] that by simp
  show ?thesis
  proof (cases "root = [] \<or> root_index r root \<noteq> None \<or> length (rp_roots r) \<ge> PKG_REPO_MAX \<or> path_join 768 root ''dists'' = None")
    case True
    then show ?thesis using assms(1) by (auto simp: pkg_repo_add_def split: if_splits)
  next
    case False
    then obtain d where d: "path_join 768 root ''dists'' = Some d" by auto
    obtain ok s n where sc: "scan_dir 7 env root d (r, 0) = (ok, s, n)" by (cases "scan_dir 7 env root d (r, 0)")
    from False have nr: "root \<notin> set (rp_roots r)" "length (rp_roots r) < PKG_REPO_MAX" by (auto simp: root_index_None)
    have eq: "pkg_repo_add env root r =
       (if \<not> ok \<or> n = 0 then (Inl Repo_No_Index, s\<lparr>rp_entries := take (length (rp_entries r)) (rp_entries s)\<rparr>)
        else (Inr (length (rp_entries s) - length (rp_entries r)), s\<lparr>rp_roots := rp_roots s @ [root]\<rparr>))"
      using False d sc assms(2) by (simp add: pkg_repo_add_def)
    have rs: "rp_roots s = rp_roots r" using g [OF sc] by (simp add: grows_def)
    show ?thesis using assms(1) nr g [OF sc] unfolding eq undo [OF g [OF sc]] rs by (auto split: if_splits)
  qed
qed

lemma entries_ok_mono: "entries_ok R es \<Longrightarrow> R \<subseteq> S \<Longrightarrow> entries_ok S es"
  by (auto simp: entries_ok_def)

lemma add_wf: "repo_wf r \<Longrightarrow> length root < 512 \<Longrightarrow> repo_wf (snd (pkg_repo_add env root r))"
proof -
  assume wf: "repo_wf r" and l: "length root < 512"
  obtain x r' where a: "pkg_repo_add env root r = (x, r')" by force
  consider "r' = r" | s where "r' = s\<lparr>rp_roots := rp_roots r @ [root]\<rparr>" "grows root r s" "root \<notin> set (rp_roots r)" "length (rp_roots r) < PKG_REPO_MAX"
    using add_cases [OF a l] by blast
  then show ?thesis
  proof cases
    case (2 s)
    let ?R = "set (rp_roots r @ [root])"
    have "entries_ok ?R (rp_entries r)" using wf entries_ok_mono [of "set (rp_roots r)" _ ?R] by (auto simp: repo_wf_def)
    then have "entries_ok ?R (rp_entries s)" using 2(2) by (auto simp: grows_def)
    then show ?thesis using 2 wf by (simp add: a repo_wf_def)
  qed (use a wf in simp)
qed

lemma delete_target_less: "delete_target spec r = Some i \<Longrightarrow> i < length (rp_roots r)"
  using root_index_Some by (auto simp: delete_target_def split: option.splits if_splits)

lemma delete_wf:
  assumes "repo_wf r"
  shows "repo_wf (snd (pkg_repo_delete spec r))"
proof (cases "spec = [] \<or> delete_target spec r = None")
  case True
  then show ?thesis using assms by (auto simp: pkg_repo_delete_def)
next
  case False
  then obtain i where i: "delete_target spec r = Some i" "spec \<noteq> []" by auto
  note l = delete_target_less [OF i(1)]
  have sp: "rp_roots r = take i (rp_roots r) @ rp_roots r ! i # drop (Suc i) (rp_roots r)" using id_take_nth_drop [OF l] .
  have d: "distinct (take i (rp_roots r) @ rp_roots r ! i # drop (Suc i) (rp_roots r))" using assms sp by (simp add: repo_wf_def)
  have st: "set (rp_roots r) = set (take i (rp_roots r) @ rp_roots r ! i # drop (Suc i) (rp_roots r))" using sp by simp
  have "entries_ok (set (take i (rp_roots r) @ drop (Suc i) (rp_roots r))) (filter (\<lambda>e. re_repo_root e \<noteq> rp_roots r ! i) (rp_entries r))"
    using assms st unfolding repo_wf_def entries_ok_def by (auto intro: distinct_map_filter)
  then show ?thesis using i d assms l by (auto simp: pkg_repo_delete_def repo_wf_def)
qed

section \<open>Properties of the repository\<close>

text \<open>C38. \<^verbatim>\<open>pkg_repo_find_best\<close> returns the latest version: nothing exactly when no record of that name satisfies the relation, and
  otherwise a record of that name that satisfies it and that no other such record is later than; among records of equal versions
  it is the first.\<close>

theorem repo_find_best_latest:
  assumes "repo_wf r"
  shows "case pkg_repo_find_best r name vop ver of None \<Rightarrow> \<forall>e \<in> set (rp_entries r). \<not> repo_candidate name vop ver e
    | Some b \<Rightarrow> repo_candidate name vop ver b \<and> (\<exists>ys zs. rp_entries r = ys @ b # zs \<and>
        (\<forall>e \<in> set ys. repo_candidate name vop ver e \<longrightarrow> deb_version_compare (re_version e) (re_version b) < 0) \<and>
        (\<forall>e \<in> set zs. repo_candidate name vop ver e \<longrightarrow> deb_version_compare (re_version e) (re_version b) \<le> 0))"
proof -
  have v: "\<forall>e \<in> set (rp_entries r). re_version e \<in> cstrings"
    using assms(1) by (auto simp: repo_wf_def entries_ok_def entry_fits_def entry_fields_def cstrings_def)
  show ?thesis unfolding pkg_repo_find_best_def using deb_version.best_fold [OF _ v, of "best_step (repo_candidate name vop ver)" "repo_candidate name vop ver"] by (simp add: best_step_def)
qed

text \<open>C40. Adding, removing and clearing repositories keep the state well formed: no record is registered twice, every record fits its arrays and belongs to a
  registered root, the roots are distinct and at most eight; and a failed add changes nothing.\<close>

theorem repo_operations_keep_wf:
  assumes "repo_wf r" and "length root < 512"
  shows "repo_wf (snd (pkg_repo_add env root r)) \<and> repo_wf (snd (pkg_repo_delete spec r)) \<and> repo_wf (pkg_repo_clear r) \<and>
    (\<forall>e. fst (pkg_repo_add env root r) = Inl e \<longrightarrow> snd (pkg_repo_add env root r) = r)"
proof -
  obtain x r' where a: "pkg_repo_add env root r = (x, r')" by force
  have "repo_wf (pkg_repo_clear r)" by (simp add: repo_wf_def pkg_repo_clear_def entries_ok_def)
  then show ?thesis using add_wf [OF assms, of env] delete_wf [OF assms(1)] add_cases [OF a assms(2)] by (auto simp: a)
qed

text \<open>Removing a repository undoes adding it: after a successful add, deleting the repository by its number gives back the very state before.\<close>

theorem repo_delete_undoes_add:
  assumes "repo_wf r" and "length root < 512" and "pkg_repo_add env root r = (Inr n, r')"
  shows "pkg_repo_delete (dec (length (rp_roots r'))) r' = (None, r)"
proof -
  obtain s where s: "r' = s\<lparr>rp_roots := rp_roots r @ [root]\<rparr>" "grows root r s" "root \<notin> set (rp_roots r)" "length (rp_roots r) < PKG_REPO_MAX"
    using add_cases [OF assms(3,2)] by auto
  obtain es where es: "rp_entries s = rp_entries r @ es" "\<forall>e \<in> set es. re_repo_root e = root" using s(2) by (auto simp: grows_def)
  let ?k = "Suc (length (rp_roots r))"
  have k: "?k < 2 ^ 64" using s(4) by (simp add: PKG_REPO_MAX_def)
  then have "unat (of_nat ?k :: u64) = ?k" by (simp add: unat_of_nat_small del: of_nat_Suc)
  then have t: "delete_target (dec ?k) r' = Some (length (rp_roots r))"
    using scan_ull_dec_end [OF k] by (simp add: delete_target_def s(1) del: of_nat_Suc)
  have "\<forall>e \<in> set (rp_entries r). re_repo_root e \<noteq> root" using assms(1) s(3) by (auto simp: repo_wf_def entries_ok_def)
  then have "filter (\<lambda>e. re_repo_root e \<noteq> root) (rp_entries s) = rp_entries r" using es by (simp add: filter_id_conv)
  then show ?thesis using t by (cases r; cases s) (simp add: pkg_repo_delete_def s(1))
qed

section \<open>Names provided\<close>

text \<open>A list of provided names, each with an optional version, as it is written in a control field.\<close>

definition prov_item :: "string \<times> string option \<Rightarrow> string" where
  "prov_item p = fst p @ (case snd p of None \<Rightarrow> [] | Some w \<Rightarrow> '' (= '' @ w @ '')'')"

definition prov_print :: "(string \<times> string option) list \<Rightarrow> string" where
  "prov_print ps = join '', '' (map prov_item ps)"

definition prov_name :: "string \<Rightarrow> bool" where
  "prov_name n \<longleftrightarrow> n \<noteq> [] \<and> (\<forall>c \<in> set n. name_char c)"

definition prov_ok :: "(string \<times> string option) list \<Rightarrow> bool" where
  "prov_ok ps \<longleftrightarrow> (\<forall>(n, v) \<in> set ps. prov_name n \<and> (\<forall>w \<in> set_option v. CHR '','' \<notin> set w))"

lemma name_char_not_sep: "name_char c \<Longrightarrow> \<not> prov_sep c \<and> c \<noteq> CHR ''('' \<and> c \<noteq> CHR '',''"
  by (auto simp: name_char_def prov_sep_def isalnum_def isalpha_def isdigit_def)

lemma name_clash: "prov_name (a @ c # t) \<Longrightarrow> \<not> prov_end (c # s)"
  using name_char_not_sep [of c] by (auto simp: prov_name_def prov_end_def)

lemma name_match:
  assumes "prov_name a" and "prov_name n" and "prov_end s"
  shows "take (length n) (a @ s) = n \<and> prov_end (drop (length n) (a @ s)) \<longleftrightarrow> n = a"
proof
  assume m: "take (length n) (a @ s) = n \<and> prov_end (drop (length n) (a @ s))"
  define t where "t = drop (length n) (a @ s)"
  have eq: "a @ s = n @ t" and e: "prov_end t"
    unfolding t_def using append_take_drop_id [of "length n" "a @ s"] m by (simp_all only:)
  obtain us where "a = n @ us \<and> us @ s = t \<or> a @ us = n \<and> s = us @ t" using eq unfolding append_eq_append_conv2 by blast
  then have "us = []" using name_clash assms e by (cases us) auto
  with \<open>a = n @ us \<and> us @ s = t \<or> a @ us = n \<and> s = us @ t\<close> show "n = a" by auto
qed (use assms(3) in simp)

lemma prov_item_no_comma: "prov_ok [p] \<Longrightarrow> CHR '','' \<notin> set (prov_item p)"
  using name_char_not_sep [of "CHR '',''"] by (auto simp: prov_ok_def prov_item_def prov_name_def split: option.splits)

lemma provides_step:
  assumes "prov_ok [p]" and "prov_name n" and "rest = [] \<or> (\<exists>t. rest = CHR '','' # t)" and "\<forall>c \<in> set pre. prov_sep c"
  shows "provides_name (pre @ prov_item p @ rest) n \<longleftrightarrow> n = fst p \<or> (rest \<noteq> [] \<and> provides_name (tl rest) n)"
proof -
  let ?v = "case snd p of None \<Rightarrow> [] | Some w \<Rightarrow> '' (= '' @ w @ '')''"
  have nm: "prov_name (fst p)" using assms(1) by (auto simp: prov_ok_def)
  have d: "dropWhile prov_sep (pre @ prov_item p @ rest) = fst p @ ?v @ rest"
    using nm name_char_not_sep assms(4) by (cases "fst p") (auto simp: prov_item_def prov_name_def dropWhile_append)
  have e: "prov_end (?v @ rest)" using assms(3) by (auto simp: prov_end_def prov_sep_def split: option.splits)
  have c: "dropWhile (\<lambda>c. c \<noteq> CHR '','') (fst p @ ?v @ rest) = rest"
    using prov_item_no_comma [OF assms(1)] assms(3) unfolding prov_item_def by (subst append_assoc [symmetric]) (auto simp: dropWhile_append)
  have "pre @ prov_item p @ rest \<noteq> []" using nm by (simp add: prov_item_def prov_name_def)
  then show ?thesis
    unfolding provides_name.simps [of "pre @ prov_item p @ rest"] Let_def d c name_match [OF nm assms(2) e] by simp
qed

text \<open>\<^verbatim>\<open>provides_name\<close> finds exactly the names of the list: on a \<^verbatim>\<open>Provides\<close> field as packages write it, with or without versions, it says
  yes for a package name just when that name is one of those provided, and not when it is only a prefix of one.\<close>

lemma provides_print: "prov_ok ps \<Longrightarrow> prov_name n \<Longrightarrow> \<forall>c \<in> set pre. prov_sep c \<Longrightarrow> provides_name (pre @ prov_print ps) n \<longleftrightarrow> n \<in> fst ` set ps"
proof (induction ps arbitrary: pre)
  case Nil
  have "dropWhile prov_sep pre = []" using Nil(3) by simp
  then show ?case using Nil(2) unfolding provides_name.simps [of "pre @ prov_print []"] by (auto simp: prov_print_def prov_name_def Let_def simp del: dropWhile_eq_Nil_conv)
next
  case (Cons p ps)
  have ok: "prov_ok [p]" "prov_ok ps" using Cons.prems(1) by (auto simp: prov_ok_def)
  show ?case
  proof (cases ps)
    case Nil
    then show ?thesis using provides_step [OF ok(1) Cons.prems(2) _ Cons.prems(3), of "[]"] by (simp add: prov_print_def)
  next
    case (Cons q qs)
    then have e: "pre @ prov_print (p # ps) = pre @ prov_item p @ (CHR '','' # '' '' @ prov_print ps)" by (simp add: prov_print_def)
    show ?thesis unfolding e using provides_step [OF ok(1) Cons.prems(2) _ Cons.prems(3), of "CHR '','' # '' '' @ prov_print ps"]
        Cons.IH [OF ok(2) Cons.prems(2), of "'' ''"] by (simp add: prov_sep_def)
  qed
qed

section \<open>Printing an index\<close>

definition entry_pairs :: "pkg_repo_entry \<Rightarrow> (string \<times> string) list" where
  "entry_pairs e = [(''Package'', re_package e), (''Version'', re_version e), (''Architecture'', re_architecture e), (''Depends'', re_depends e),
     (''Pre-Depends'', re_pre_depends e), (''Provides'', re_provides e), (''Conflicts'', re_conflicts e), (''Breaks'', re_breaks e),
     (''Replaces'', re_replaces e), (''Filename'', re_filename e), (''SHA256'', re_sha256 e), (''Size'', dec (unat (re_size e)))]"

definition entry_lines :: "pkg_repo_entry \<Rightarrow> string list" where
  "entry_lines e = map (\<lambda>(k, v). k @ '': '' @ v) (filter (\<lambda>(k, v). v \<noteq> []) (entry_pairs e))"

definition index_print :: "pkg_repo_entry list \<Rightarrow> string" where
  "index_print es = concat (map (\<lambda>e. para_text (entry_lines e) @ [NL]) es)"

definition text_ok :: "string \<Rightarrow> bool" where
  "text_ok v \<longleftrightarrow> NL \<notin> set v \<and> CHR 0x00 \<notin> set v \<and> (v = [] \<or> \<not> isspace (hd v) \<and> \<not> isspace (last v))"

definition entry_ok :: "pkg_repo_entry \<Rightarrow> bool" where
  "entry_ok e \<longleftrightarrow> (\<forall>(v, cap) \<in> set (entry_fields e). length v < cap \<and> text_ok v) \<and>
     re_package e \<noteq> [] \<and> re_version e \<noteq> [] \<and> re_filename e \<noteq> []"

definition placed :: "string \<Rightarrow> string \<Rightarrow> pkg_repo_entry \<Rightarrow> pkg_repo_entry" where
  "placed root path e = e\<lparr>re_repo_root := root, re_index_path := path\<rparr>"

lemma text_lines_NL: "NL \<notin> set l \<Longrightarrow> text_lines (l @ NL # s) = l # text_lines s"
  unfolding text_lines.simps [of "l @ NL # s"] by (simp add: takeWhile_line Let_def)

lemma text_lines_para: "\<forall>l \<in> set ls. NL \<notin> set l \<Longrightarrow> text_lines (para_text ls @ s) = ls @ text_lines s"
  by (induction ls) (simp_all add: para_text_def text_lines_NL)

lemma copytrim_text: "text_ok v \<Longrightarrow> length v < cap \<Longrightarrow> copytrim cap (CHR '' '' # v) = v"
proof -
  assume v: "text_ok v" "length v < cap"
  have "dropWhile isspace (CHR '' '' # v) = v" using v(1) by (cases v) (auto simp: text_ok_def isspace_def)
  moreover have "drop_end isspace v = v" using v(1) drop_end_keep [of v isspace] by (cases "v = []") (auto simp: text_ok_def drop_end_def)
  moreover have "cstr v = v" using v(1) by (simp add: text_ok_def cstr_id)
  ultimately show ?thesis using v(2) by (simp add: copytrim_def)
qed

lemma dec_u64: "text_ok (dec (unat (n :: u64)))" "length (dec (unat n)) < 64" "strtoull (dec (unat n)) = n"
proof -
  have n: "unat n < 2 ^ 64" using unat_u64_less [of n] by simp
  have "\<not> isspace c" "c \<noteq> NL" "c \<noteq> CHR 0x00" if "c \<in> set (dec (unat n))" for c
    using bspec [OF dec_digits that] by (auto simp: isdigit_def isspace_def)
  then show "text_ok (dec (unat n))" by (fastforce simp: text_ok_def)
  have "unat n < 10 ^ Suc 19" by (rule less_trans [OF n]) simp
  from length_dec_less [OF this] show "length (dec (unat n)) < 64" by simp
  show "strtoull (dec (unat n)) = n" using scan_ull_dec_end [OF n] by (simp add: strtoull_def)
qed

definition pair_ok :: "string \<times> string \<Rightarrow> bool" where
  "pair_ok p \<longleftrightarrow> fst p \<noteq> [] \<and> CHR '':'' \<notin> set (fst p) \<and> NL \<notin> set (fst p) \<and> \<not> isblank (hd (fst p)) \<and> text_ok (snd p)"

lemma idx_line_pair:
  assumes "pair_ok (k, v)" and "v \<noteq> []"
  shows "idx_line root path (k @ '': '' @ v) (e, r) = (field k (CHR '' '' # v) e, r)"
proof -
  have "last v \<noteq> CHR 0x0D" using assms by (auto simp: pair_ok_def text_ok_def isspace_def)
  moreover have "takeWhile (\<lambda>c. c \<noteq> CHR '':'') (k @ CHR '':'' # CHR '' '' # v) = k" using assms by (intro key_of) (simp add: pair_ok_def)
  ultimately show ?thesis using assms by (simp add: idx_line_def Let_def pair_ok_def)
qed

definition put_pair :: "string \<times> string \<Rightarrow> pkg_repo_entry \<Rightarrow> pkg_repo_entry" where
  "put_pair p e = (if snd p = [] then e else field (fst p) (CHR '' '' # snd p) e)"

lemma fold_idx_pairs:
  "\<forall>p \<in> set ps. pair_ok p \<Longrightarrow>
   fold (idx_line root path) (map (\<lambda>(k, v). k @ '': '' @ v) (filter (\<lambda>(k, v). v \<noteq> []) ps)) (e, r) = (fold put_pair ps e, r)"
proof (induction ps arbitrary: e)
  case (Cons p ps)
  obtain k v where p: "p = (k, v)" by force
  show ?case
  proof (cases "v = []")
    case True
    then have "put_pair p e = e" by (simp add: put_pair_def p)
    then show ?thesis using Cons True by (simp add: p)
  next
    case False
    then have f: "put_pair p e = field k (CHR '' '' # v) e" by (simp add: put_pair_def p)
    have "idx_line root path (k @ CHR '':'' # CHR '' '' # v) (e, r) = (field k (CHR '' '' # v) e, r)"
      using idx_line_pair [of k v] False Cons.prems by (simp add: p)
    then show ?thesis using Cons False f [symmetric] by (simp add: p)
  qed
qed simp

lemma entry_pairs_ok: "entry_ok e \<Longrightarrow> \<forall>p \<in> set (entry_pairs e). pair_ok p"
  by (simp add: entry_pairs_def entry_ok_def entry_fields_def pair_ok_def isblank_def dec_u64)

lemma put_pair_field:
  fixes e :: pkg_repo_entry
  assumes "text_ok v"
  shows "re_package e = [] \<Longrightarrow> length v < 128 \<Longrightarrow> put_pair (''Package'', v) e = e\<lparr>re_package := v\<rparr>"
    and "re_version e = [] \<Longrightarrow> length v < 128 \<Longrightarrow> put_pair (''Version'', v) e = e\<lparr>re_version := v\<rparr>"
    and "re_architecture e = [] \<Longrightarrow> length v < 64 \<Longrightarrow> put_pair (''Architecture'', v) e = e\<lparr>re_architecture := v\<rparr>"
    and "re_depends e = [] \<Longrightarrow> length v < 4096 \<Longrightarrow> put_pair (''Depends'', v) e = e\<lparr>re_depends := v\<rparr>"
    and "re_pre_depends e = [] \<Longrightarrow> length v < 2048 \<Longrightarrow> put_pair (''Pre-Depends'', v) e = e\<lparr>re_pre_depends := v\<rparr>"
    and "re_provides e = [] \<Longrightarrow> length v < 2048 \<Longrightarrow> put_pair (''Provides'', v) e = e\<lparr>re_provides := v\<rparr>"
    and "re_conflicts e = [] \<Longrightarrow> length v < 2048 \<Longrightarrow> put_pair (''Conflicts'', v) e = e\<lparr>re_conflicts := v\<rparr>"
    and "re_breaks e = [] \<Longrightarrow> length v < 2048 \<Longrightarrow> put_pair (''Breaks'', v) e = e\<lparr>re_breaks := v\<rparr>"
    and "re_replaces e = [] \<Longrightarrow> length v < 2048 \<Longrightarrow> put_pair (''Replaces'', v) e = e\<lparr>re_replaces := v\<rparr>"
    and "re_filename e = [] \<Longrightarrow> length v < 768 \<Longrightarrow> put_pair (''Filename'', v) e = e\<lparr>re_filename := v\<rparr>"
    and "re_sha256 e = [] \<Longrightarrow> length v < 65 \<Longrightarrow> put_pair (''SHA256'', v) e = e\<lparr>re_sha256 := v\<rparr>"
  using assms copytrim_text [of v] by (cases "v = []"; cases e; simp add: put_pair_def field_def)+

lemma put_pair_size: "put_pair (''Size'', dec (unat n)) e = e\<lparr>re_size := n\<rparr>"
  using copytrim_text [OF dec_u64(1,2)] by (simp add: put_pair_def field_def dec_u64)

lemma put_pairs:
  assumes "entry_ok e"
  shows "fold put_pair (entry_pairs e) entry_zero = e\<lparr>re_repo_root := [], re_index_path := []\<rparr>"
proof -
  note ok = assms [unfolded entry_ok_def entry_fields_def, simplified]
  have v: "text_ok (re_package e)" "text_ok (re_version e)" "text_ok (re_architecture e)" "text_ok (re_depends e)" "text_ok (re_pre_depends e)" "text_ok (re_provides e)" "text_ok (re_conflicts e)" "text_ok (re_breaks e)" "text_ok (re_replaces e)" "text_ok (re_filename e)" "text_ok (re_sha256 e)"
    using ok by simp_all
  show ?thesis unfolding entry_pairs_def by (simp add: put_pair_field put_pair_size v ok entry_zero_def)
qed

lemma entry_ok_lines: "entry_ok e \<Longrightarrow> \<forall>l \<in> set (entry_lines e). NL \<notin> set l"
  using entry_pairs_ok by (fastforce simp: entry_lines_def pair_ok_def text_ok_def)

lemma fold_idx_print:
  assumes "\<forall>e \<in> set es. entry_ok e" and "distinct (map rec_key (rp_entries r @ map (placed root path) es))"
    and "length root < 512" and "length path < 768"
  shows "fold (idx_line root path) (text_lines (index_print es)) (entry_zero, r) =
    (entry_zero, r\<lparr>rp_entries := rp_entries r @ map (placed root path) es\<rparr>)"
  using assms(1,2)
proof (induction es arbitrary: r)
  case Nil
  then show ?case by (simp add: index_print_def text_lines.simps)
next
  case (Cons e es)
  let ?r = "r\<lparr>rp_entries := rp_entries r @ [placed root path e]\<rparr>"
  have ok: "entry_ok e" using Cons.prems by simp
  have t: "text_lines (index_print (e # es)) = entry_lines e @ [] # text_lines (index_print es)"
    using text_lines_para [OF entry_ok_lines [OF ok]] text_lines_NL [of "[]"] by (simp add: index_print_def)
  have f: "fold (idx_line root path) (entry_lines e) (entry_zero, r) = (e\<lparr>re_repo_root := [], re_index_path := []\<rparr>, r)"
    unfolding entry_lines_def fold_idx_pairs [OF entry_pairs_ok [OF ok]] put_pairs [OF ok] ..
  have "rec_key (placed root path e) \<notin> rec_key ` set (rp_entries r)" using Cons.prems(2) by auto
  then have "append_entry root path (e\<lparr>re_repo_root := [], re_index_path := []\<rparr>) r = ?r"
    using ok assms(3,4) by (auto simp: append_entry_def entry_ok_def list_ex_iff same_record_def rec_key_def placed_def)
  then have "idx_line root path [] (e\<lparr>re_repo_root := [], re_index_path := []\<rparr>, r) = (entry_zero, ?r)" by (simp add: idx_line_def)
  then show ?case using Cons.IH [of ?r] Cons.prems unfolding t by (simp add: f)
qed

lemma parse_index_print:
  assumes "\<forall>e \<in> set es. entry_ok e" and "distinct (map rec_key (rp_entries r @ map (placed root path) es))"
    and "length root < 512" and "length path < 768"
  shows "parse_index (index_print es) root path r = r\<lparr>rp_entries := rp_entries r @ map (placed root path) es\<rparr>"
  unfolding parse_index_def fold_idx_print [OF assms] by (simp add: append_entry_def entry_zero_def)

text \<open>C39. A compressed index is read back in full: when the file at a path ending in \<^verbatim>\<open>.gz\<close> is a gzip member, of any mix of blocks, that holds the
  printed records, loading it appends exactly these records, in order and with every field and the size, each marked with its root
  and index; a plain file with the same text is read to the same state.\<close>

theorem repo_index_roundtrip:
  assumes "\<forall>e \<in> set es. entry_ok e" and "distinct (map rec_key (rp_entries r @ map (placed root path) es))"
    and "length root < 512" and "length path < 768" and "ends path ''.gz''"
    and "gz_header_ok h" and "blocks_ok [] bs" and "bs \<noteq> []" and "es \<noteq> []"
    and "foldl block_out [] bs = bytes_of (index_print es)" and "length (index_print es) < 4294967296" and "length (gz_member h bs) \<le> LONG_MAX"
    and "env_file env path = Some (gz_member h bs)"
  shows "load_index env root path r = Some (r\<lparr>rp_entries := rp_entries r @ map (placed root path) es\<rparr>) \<and>
    parse_index (index_print es) root path r = r\<lparr>rp_entries := rp_entries r @ map (placed root path) es\<rparr>"
proof -
  have ne: "index_print es \<noteq> []" using assms(9) by (cases es) (auto simp: index_print_def)
  have "foldl block_out [] bs \<noteq> []" using ne assms(10) by (simp add: bytes_of_def)
  moreover have "length (foldl block_out [] bs) < 4294967296" using assms(10,11) by simp
  ultimately have g: "gu_gzip_decode_member (\<lambda>k. True) None (gz_member h bs) 0 (of_nat (length (gz_member h bs))) = Inr (bytes_of (index_print es))"
    using gu_gzip_decode_member_spec [OF assms(6-8) _ _ _ _, of "\<lambda>k. True" "[]" "[]"] assms(10,12) by simp
  have "\<not> ends path ''.xz''" using assms(5) by (auto simp: ends_def)
  then have "load_data env path (gz_member h bs) = Some (bytes_of (index_print es))" using assms(5) g by (simp add: load_data_def)
  then show ?thesis using parse_index_print [OF assms(1-4)] assms(13) by (simp add: load_index_def)
qed

section \<open>Witnesses\<close>

definition demo_entry :: "string \<Rightarrow> pkg_repo_entry" where
  "demo_entry v = entry_zero\<lparr>re_package := ''a'', re_version := v, re_filename := ''f'' @ v, re_size := 70\<rparr>"

definition demo_repo :: pkg_repo where
  "demo_repo = \<lparr>rp_entries = map (placed ''/r'' ''i'') [demo_entry ''1.9'', demo_entry ''1.10''], rp_roots = [''/r'']\<rparr>"

lemma demo_repo_wf: "repo_wf demo_repo"
  by (simp add: demo_repo_def repo_wf_def entries_ok_def rec_key_def demo_entry_def placed_def entry_zero_def entry_fits_def entry_fields_def
    PKG_REPO_MAX_def)

theorem repo_find_best_latest_witness:
  "pkg_repo_find_best demo_repo ''a'' ''>='' ''1'' = Some (placed ''/r'' ''i'' (demo_entry ''1.10'')) \<and> deb_version_compare ''1.9'' ''1.10'' < 0"
proof -
  have b: "pkg_repo_find_best demo_repo ''a'' ''>='' ''1'' = Some (placed ''/r'' ''i'' (demo_entry ''1.10''))" by code_simp
  have c: "repo_candidate ''a'' ''>='' ''1'' (placed ''/r'' ''i'' (demo_entry ''1.9''))" by code_simp
  have ne: "placed ''/r'' ''i'' (demo_entry ''1.9'') \<noteq> placed ''/r'' ''i'' (demo_entry ''1.10'')" by (simp add: placed_def demo_entry_def entry_zero_def)
  obtain ys zs where y: "rp_entries demo_repo = ys @ placed ''/r'' ''i'' (demo_entry ''1.10'') # zs"
    "\<forall>e \<in> set ys. repo_candidate ''a'' ''>='' ''1'' e \<longrightarrow> deb_version_compare (re_version e) (re_version (placed ''/r'' ''i'' (demo_entry ''1.10''))) < 0"
    using repo_find_best_latest [OF demo_repo_wf, of "''a''" "''>=''" "''1''"] by (auto simp: b)
  have "ys = [placed ''/r'' ''i'' (demo_entry ''1.9'')]" using y(1) ne by (cases ys) (auto simp: demo_repo_def Cons_eq_append_conv)
  then show ?thesis using b c y(2) by (simp add: placed_def demo_entry_def)
qed

definition demo_env :: repo_env where
  "demo_env = \<lparr>env_file = (\<lambda>p. Some (bytes_of (index_print [demo_entry ''2'']))),
     env_dir = (\<lambda>p. if p = ''/r/dists'' then Some [(''binary-amd64'', True)]
       else if p = ''/r/dists/binary-amd64'' then Some [(''.'', True), (''Packages'', False)] else None),
     env_xz = (\<lambda>b. None)\<rparr>"

definition demo_added :: pkg_repo where
  "demo_added = \<lparr>rp_entries = [placed ''/r'' ''/r/dists/binary-amd64/Packages'' (demo_entry ''2'')], rp_roots = []\<rparr>"

definition repo_empty :: pkg_repo where
  "repo_empty = \<lparr>rp_entries = [], rp_roots = []\<rparr>"

lemma demo_entry_ok: "entry_ok (demo_entry ''2'')"
  by (simp add: entry_ok_def entry_fields_def demo_entry_def entry_zero_def text_ok_def isspace_def)

lemma demo_add: "pkg_repo_add demo_env ''/r'' repo_empty = (Inr 1, demo_added\<lparr>rp_roots := [''/r'']\<rparr>)"
proof -
  let ?p = "''/r/dists/binary-amd64/Packages''"
  have w: "index_wanted ?p" by code_simp
  have "parse_index (index_print [demo_entry ''2'']) ''/r'' ?p repo_empty = demo_added"
    using parse_index_print [of "[demo_entry ''2'']" repo_empty "''/r''" ?p] demo_entry_ok by (simp add: demo_added_def repo_empty_def)
  then have l: "load_index demo_env ''/r'' ?p repo_empty = Some demo_added" by (simp add: load_index_def load_data_def demo_env_def ends_def)
  have d: "env_dir demo_env ''/r/dists'' = Some [(''binary-amd64'', True)]"
    "env_dir demo_env ''/r/dists/binary-amd64'' = Some [(''.'', True), (''Packages'', False)]" by (simp_all add: demo_env_def)
  have "scan_dir (Suc 5) demo_env ''/r'' ''/r/dists/binary-amd64'' (repo_empty, 0) = (True, demo_added, Suc 0)"
    by (subst scan_dir.simps(2)) (simp add: d w l path_join_def)
  then have "scan_dir (Suc (Suc 5)) demo_env ''/r'' ''/r/dists'' (repo_empty, 0) = (True, demo_added, Suc 0)"
    by (subst scan_dir.simps(2)) (simp add: d path_join_def del: Suc_numeral)
  then have "scan_dir 7 demo_env ''/r'' ''/r/dists'' (repo_empty, 0) = (True, demo_added, Suc 0)" by simp
  then show ?thesis by (simp add: pkg_repo_add_def root_index_def PKG_REPO_MAX_def path_join_def) (simp add: demo_added_def repo_empty_def)
qed

theorem repo_operations_keep_wf_witness:
  "repo_wf demo_repo \<and> repo_wf (snd (pkg_repo_add demo_env ''/r'' demo_repo)) \<and> repo_wf (snd (pkg_repo_delete ''1'' demo_repo))"
  using repo_operations_keep_wf [OF demo_repo_wf, of "''/r''" demo_env "''1''"] demo_repo_wf by simp

lemma repo_delete_undoes_add_demo: "pkg_repo_delete (dec 1) (demo_added\<lparr>rp_roots := [''/r'']\<rparr>) = (None, repo_empty)"
  using repo_delete_undoes_add [OF _ _ demo_add] by (simp add: repo_wf_def repo_empty_def entries_ok_def)

lemma length_pack_le: "length (pack bs) \<le> length bs"
proof (induction bs rule: pack.induct)
  case (1 bs)
  then show ?case by (cases bs) (auto simp: pack.simps [of "[]"] pack.simps [of "_ # _"])
qed

theorem repo_index_roundtrip_witness:
  "\<exists>z. load_index (demo_env\<lparr>env_file := (\<lambda>p. Some z)\<rparr>) ''/r'' ''P.gz'' repo_empty =
     Some \<lparr>rp_entries = [placed ''/r'' ''P.gz'' (demo_entry ''2'')], rp_roots = []\<rparr>"
proof -
  let ?t = "index_print [demo_entry ''2'']"
  let ?b = "[StoredBlock (bytes_of ?t)]"
  have l: "length ?t = 45" by code_simp
  have s: "length (gz_member demo_gz ?b) \<le> LONG_MAX"
  proof -
    have "length (stream_bits 0 ?b) \<le> 1000" using l by (simp add: pad_to_byte_def stored_bytes_def length_concat comp_def byte_bits_def sum_list_triv)
    then have "length (pack (stream_bits 0 ?b)) \<le> 1000" using length_pack_le le_trans by blast
    then show ?thesis by (simp add: gz_member_def Let_def gz_head_bytes_def demo_gz_def xtra_bytes_def zstr_bytes_def LONG_MAX_def)
  qed
  have e: "env_file (demo_env\<lparr>env_file := (\<lambda>p. Some (gz_member demo_gz ?b))\<rparr>) ''P.gz'' = Some (gz_member demo_gz ?b)" by simp
  have x: "load_index (demo_env\<lparr>env_file := (\<lambda>p. Some (gz_member demo_gz ?b))\<rparr>) ''/r'' ''P.gz'' repo_empty =
     Some (repo_empty\<lparr>rp_entries := rp_entries repo_empty @ map (placed ''/r'' ''P.gz'') [demo_entry ''2'']\<rparr>)"
    by (rule conjunct1 [OF repo_index_roundtrip [OF _ _ _ _ _ demo_member_facts(1) _ _ _ _ _ s e]])
      (use demo_entry_ok l in \<open>simp_all add: ends_def repo_empty_def\<close>)
  then show ?thesis by (intro exI [of _ "gz_member demo_gz ?b"]) (simp add: repo_empty_def)
qed

end
