(* ===== verification/Pkg_Plan.thy ===== *)
theory Pkg_Plan
  imports Pkg_Repo
begin

text \<open>
  The dependency planner (\<^verbatim>\<open>src/pkg_plan.c\<close>), first part: the nodes and edges of a plan and the expansion of a package into
  everything it depends on.

  A plan is the record \<open>plan\<close>; its arrays are lists, the stack of \<^verbatim>\<open>tarjan\<close> has its top first. The database and the repository, which the planner
  only reads, are arguments. \<open>expand\<close> takes fuel for its recursion and is \<open>None\<close> without it; one more than \<^verbatim>\<open>MAX_NODES\<close> is shown to
  be enough, as a package is entered only once. Memory for the parsed dependencies is taken to be available: the plan that the code marks
  invalid when \<^verbatim>\<open>malloc\<close> fails in \<^verbatim>\<open>expand\<close> is left out. The lemmas show that a valid plan is closed: every
  dependency of every package in it is met, as far as the records of a package provide the same names.
\<close>

section \<open>Plans\<close>

definition MAX_NODES :: nat where "MAX_NODES = 512"

definition MAX_EDGES :: nat where "MAX_EDGES = 4096"

record node =
  nd_e :: pkg_repo_entry
  nd_installed :: bool
  nd_visiting :: bool
  nd_done :: bool
  nd_index :: int
  nd_low :: int
  nd_onstack :: bool
  nd_component :: int

datatype plan_conflict =
    Pkg_Missing string
  | Graph_Full
  | Bad_Depends string
  | Selected_Conflict string string string deb_dep_alt
  | Unsatisfied_Group string

record plan =
  pl_n :: "node list"
  pl_e :: "(nat \<times> nat) list"
  pl_valid :: bool
  pl_conflict :: "plan_conflict option"
  pl_next :: int
  pl_stack :: "nat list"
  pl_comp :: "nat list list"

definition upd_node :: "nat \<Rightarrow> (node \<Rightarrow> node) \<Rightarrow> plan \<Rightarrow> plan" where
  "upd_node v f p = p\<lparr>pl_n := (pl_n p)[v := f (pl_n p ! v)]\<rparr>"

definition pl_pkg :: "plan \<Rightarrow> nat \<Rightarrow> pkg_repo_entry" where
  "pl_pkg p i = nd_e (pl_n p ! i)"

definition node_named :: "plan \<Rightarrow> string \<Rightarrow> nat option" where
  "node_named p name = find (\<lambda>i. re_package (pl_pkg p i) = name) [0..<length (pl_n p)]"

definition new_node :: "pkg_repo_entry \<Rightarrow> node" where
  "new_node e = \<lparr>nd_e = e, nd_installed = False, nd_visiting = False, nd_done = False, nd_index = -1, nd_low = 0, nd_onstack = False, nd_component = -1\<rparr>"

definition node_for :: "pkg_repo_entry \<Rightarrow> plan \<Rightarrow> nat option \<times> plan" where
  "node_for e p =
     (case node_named p (re_package e) of Some i \<Rightarrow> (Some i, p)
      | None \<Rightarrow> if length (pl_n p) \<ge> MAX_NODES then (None, p) else (Some (length (pl_n p)), p\<lparr>pl_n := pl_n p @ [new_node e]\<rparr>))"

definition add_edge :: "nat \<Rightarrow> nat \<Rightarrow> plan \<Rightarrow> plan" where
  "add_edge a b p = (if length (pl_e p) < MAX_EDGES then p\<lparr>pl_e := pl_e p @ [(a, b)]\<rparr> else p)"

definition plan_fail :: "plan_conflict \<Rightarrow> plan \<Rightarrow> plan" where
  "plan_fail c p = p\<lparr>pl_valid := False, pl_conflict := Some c\<rparr>"

section \<open>Choosing an alternative\<close>

definition state_satisfies :: "string option \<Rightarrow> deb_dep_alt \<Rightarrow> bool" where
  "state_satisfies status a \<longleftrightarrow>
     (case pkg_state_lookup status (dd_name a) of Inl rc \<Rightarrow> False | Inr st \<Rightarrow> deb_version_satisfies (ps_version st) (dd_op a) (dd_version a))"

definition state_has :: "string option \<Rightarrow> string \<Rightarrow> string \<Rightarrow> bool" where
  "state_has status name ver \<longleftrightarrow>
     (case pkg_state_lookup status name of Inl rc \<Rightarrow> False | Inr st \<Rightarrow> deb_version_compare (ps_version st) ver = 0)"

text \<open>The record chosen, whether the target has it (2: the target satisfies the group and the repository has no record), and the alternative.\<close>

fun choose_alt :: "pkg_repo \<Rightarrow> string option \<Rightarrow> deb_dep_alt list \<Rightarrow> pkg_repo_entry option \<times> nat \<times> deb_dep_alt option" where
  "choose_alt r status [] = (None, 0, None)"
| "choose_alt r status (a # as) =
     (let best = pkg_repo_find_best r (dd_name a) (dd_op a) (dd_version a)
      in if state_satisfies status a then (best, if best = None then 2 else 1, Some a)
         else if best \<noteq> None then (best, 0, Some a)
         else case pkg_repo_find_provider r (dd_name a) of
           Some e \<Rightarrow> (Some e, if state_has status (re_package e) (re_version e) then 1 else 0, Some a)
         | None \<Rightarrow> choose_alt r status as)"

section \<open>Expansion\<close>

text \<open>The message for a group without a choice: the first alternative that names a package of the plan, if it has a relation.\<close>

definition group_conflict :: "plan \<Rightarrow> nat \<Rightarrow> deb_dep_alt list \<Rightarrow> plan_conflict" where
  "group_conflict p ni g =
     (case find (\<lambda>a. node_named p (dd_name a) \<noteq> None) g of
        Some a \<Rightarrow> if dd_op a \<noteq> [] then
            (let x = pl_pkg p (the (node_named p (dd_name a))) in Selected_Conflict (re_package x) (re_version x) (re_package (pl_pkg p ni)) a)
          else Unsatisfied_Group (re_package (pl_pkg p ni))
      | None \<Rightarrow> Unsatisfied_Group (re_package (pl_pkg p ni)))"

datatype group_step = Group_Skip | Group_Fail plan | Group_Go nat plan

definition plan_group :: "pkg_repo \<Rightarrow> string option \<Rightarrow> nat \<Rightarrow> deb_dep_alt list \<Rightarrow> plan \<Rightarrow> group_step" where
  "plan_group r status ni g p =
     (case choose_alt r status g of (d, isinst, alt) \<Rightarrow>
        if isinst = 2 then Group_Skip
        else case (d, alt) of
          (Some d, Some a) \<Rightarrow>
            (let clash = (case node_named p (re_package d) of None \<Rightarrow> None
                          | Some j \<Rightarrow> if deb_version_satisfies (re_version (pl_pkg p j)) (dd_op a) (dd_version a) then None else Some j)
             in case clash of
                  Some j \<Rightarrow> Group_Fail (plan_fail (Selected_Conflict (re_package (pl_pkg p j)) (re_version (pl_pkg p j)) (re_package (pl_pkg p ni)) a) p)
                | None \<Rightarrow>
                    (case node_for d p of
                       (None, p) \<Rightarrow> Group_Fail (plan_fail Graph_Full p)
                     | (Some di, p) \<Rightarrow>
                         Group_Go di (add_edge ni di (if isinst \<noteq> 0 then upd_node di (nd_installed_update (\<lambda>_. True)) p else p))))
        | _ \<Rightarrow> Group_Fail (plan_fail (group_conflict p ni g) p))"

function (sequential) expand :: "nat \<Rightarrow> pkg_repo \<Rightarrow> string option \<Rightarrow> nat \<Rightarrow> plan \<Rightarrow> (bool \<times> plan) option"
  and expand_field :: "nat \<Rightarrow> pkg_repo \<Rightarrow> string option \<Rightarrow> nat \<Rightarrow> string \<Rightarrow> plan \<Rightarrow> (bool \<times> plan) option"
  and expand_groups :: "nat \<Rightarrow> pkg_repo \<Rightarrow> string option \<Rightarrow> nat \<Rightarrow> deb_dep_alt list list \<Rightarrow> plan \<Rightarrow> (bool \<times> plan) option" where
  "expand 0 r status ni p = None"
| "expand (Suc k) r status ni p =
     (if nd_done (pl_n p ! ni) \<or> nd_visiting (pl_n p ! ni) then Some (True, p)
      else let e = pl_pkg p ni; p = upd_node ni (nd_visiting_update (\<lambda>_. True)) p
           in case expand_field k r status ni (re_pre_depends e) p of
                None \<Rightarrow> None
              | Some (False, p) \<Rightarrow> Some (False, upd_node ni (nd_visiting_update (\<lambda>_. False)) p)
              | Some (True, p) \<Rightarrow>
                  (case expand_field k r status ni (re_depends e) p of
                     None \<Rightarrow> None
                   | Some (False, p) \<Rightarrow> Some (False, upd_node ni (nd_visiting_update (\<lambda>_. False)) p)
                   | Some (True, p) \<Rightarrow> Some (True, upd_node ni (\<lambda>n. n\<lparr>nd_done := True, nd_visiting := False\<rparr>) p)))"
| "expand_field k r status ni s p =
     (if s = [] then Some (True, p)
      else case deb_dep_parse s of (rc, gs) \<Rightarrow>
        if rc \<noteq> 0 then Some (False, plan_fail (Bad_Depends (re_package (pl_pkg p ni))) p) else expand_groups k r status ni gs p)"
| "expand_groups k r status ni [] p = Some (True, p)"
| "expand_groups k r status ni (g # gs) p =
     (case plan_group r status ni g p of
        Group_Skip \<Rightarrow> expand_groups k r status ni gs p
      | Group_Fail p \<Rightarrow> Some (False, p)
      | Group_Go di p \<Rightarrow>
          (case expand k r status di p of
             None \<Rightarrow> None
           | Some (False, p) \<Rightarrow> Some (False, p)
           | Some (True, p) \<Rightarrow> expand_groups k r status ni gs p))"
  by pat_completeness auto
termination
  by (relation "inv_image (less_than <*lex*> less_than)
      (\<lambda>x. case x of Inl (k, _) \<Rightarrow> (k, 0)
         | Inr (Inl (k, r, st, ni, s, p)) \<Rightarrow> (k, Suc (Suc (length (snd (deb_dep_parse s)))))
         | Inr (Inr (k, r, st, ni, gs, p)) \<Rightarrow> (k, Suc (length gs)))") (auto dest: sym)

section \<open>What expansion keeps\<close>

definition plan_shape :: "plan \<Rightarrow> bool" where
  "plan_shape p \<longleftrightarrow> length (pl_n p) \<le> MAX_NODES \<and> length (pl_e p) \<le> MAX_EDGES \<and>
     (\<forall>(a, b) \<in> set (pl_e p). a < length (pl_n p) \<and> b < length (pl_n p)) \<and>
     distinct (map (re_package \<circ> nd_e) (pl_n p))"

definition entered :: "plan \<Rightarrow> nat" where
  "entered p = card {i. i < length (pl_n p) \<and> (nd_done (pl_n p ! i) \<or> nd_visiting (pl_n p ! i))}"

definition ext :: "plan \<Rightarrow> plan \<Rightarrow> bool" where
  "ext p q \<longleftrightarrow> length (pl_n p) \<le> length (pl_n q) \<and>
     (\<forall>i < length (pl_n p). pl_pkg q i = pl_pkg p i \<and> (nd_done (pl_n p ! i) \<longrightarrow> nd_done (pl_n q ! i)) \<and>
        nd_visiting (pl_n q ! i) = nd_visiting (pl_n p ! i)) \<and>
     (\<forall>i. length (pl_n p) \<le> i \<and> i < length (pl_n q) \<longrightarrow> \<not> nd_visiting (pl_n q ! i)) \<and>
     (\<exists>es. pl_e q = pl_e p @ es) \<and> pl_valid q = pl_valid p"

text \<open>When a record answers an alternative of a dependency: it has the name and a version as required, or it provides the name. What the
  code ensures is weaker: when the plan already has another record of a provider's package, that record stays in the plan, so it is only known that
  some record of its package provides the name.\<close>

definition answers :: "deb_dep_alt \<Rightarrow> pkg_repo_entry \<Rightarrow> bool" where
  "answers a e \<longleftrightarrow> (re_package e = dd_name a \<and> deb_version_satisfies (re_version e) (dd_op a) (dd_version a)) \<or>
     provides_name (re_provides e) (dd_name a)"

definition may_answer :: "pkg_repo \<Rightarrow> deb_dep_alt \<Rightarrow> pkg_repo_entry \<Rightarrow> bool" where
  "may_answer r a e \<longleftrightarrow> answers a e \<or>
     (\<exists>d \<in> set (rp_entries r). re_package d = re_package e \<and> provides_name (re_provides d) (dd_name a))"

text \<open>A dependency group of node \<open>i\<close> is met: by the target, or by a package of the plan that answers one of its alternatives; and the plan
  then has the edge, unless its array is full. The test for an answer is an argument.\<close>

definition group_met :: "(deb_dep_alt \<Rightarrow> pkg_repo_entry \<Rightarrow> bool) \<Rightarrow> string option \<Rightarrow> plan \<Rightarrow> nat \<Rightarrow> deb_dep_alt list \<Rightarrow> bool" where
  "group_met ans status p i g \<longleftrightarrow>
     (\<exists>a \<in> set g. state_satisfies status a) \<or>
     (\<exists>a \<in> set g. \<exists>j < length (pl_n p). ans a (pl_pkg p j) \<and> ((i, j) \<in> set (pl_e p) \<or> length (pl_e p) = MAX_EDGES))"

definition field_met :: "(deb_dep_alt \<Rightarrow> pkg_repo_entry \<Rightarrow> bool) \<Rightarrow> string option \<Rightarrow> plan \<Rightarrow> nat \<Rightarrow> string \<Rightarrow> bool" where
  "field_met ans status p i s \<longleftrightarrow> s = [] \<or> (fst (deb_dep_parse s) = 0 \<and> (\<forall>g \<in> set (snd (deb_dep_parse s)). group_met ans status p i g))"

definition node_met :: "(deb_dep_alt \<Rightarrow> pkg_repo_entry \<Rightarrow> bool) \<Rightarrow> string option \<Rightarrow> plan \<Rightarrow> nat \<Rightarrow> bool" where
  "node_met ans status p i \<longleftrightarrow> field_met ans status p i (re_pre_depends (pl_pkg p i)) \<and> field_met ans status p i (re_depends (pl_pkg p i))"

definition done_met :: "pkg_repo \<Rightarrow> string option \<Rightarrow> plan \<Rightarrow> bool" where
  "done_met r status p \<longleftrightarrow> (\<forall>i < length (pl_n p). nd_done (pl_n p ! i) \<longrightarrow> node_met (may_answer r) status p i)"

lemma ext_refl: "ext p p"
  by (auto simp: ext_def)

lemma ext_trans:
  assumes "ext p q" and "ext q t"
  shows "ext p t"
proof -
  have "\<not> nd_visiting (pl_n t ! i)" if "length (pl_n p) \<le> i" "i < length (pl_n t)" for i
    using assms that by (cases "i < length (pl_n q)") (auto simp: ext_def)
  then show ?thesis using assms unfolding ext_def by fastforce
qed

lemma entered_mono:
  assumes "ext p q"
  shows "entered p \<le> entered q"
proof -
  have "{i. i < length (pl_n p) \<and> (nd_done (pl_n p ! i) \<or> nd_visiting (pl_n p ! i))} \<subseteq> {i. i < length (pl_n q) \<and> (nd_done (pl_n q ! i) \<or> nd_visiting (pl_n q ! i))}"
    using assms by (auto simp: ext_def)
  then show ?thesis unfolding entered_def by (intro card_mono) auto
qed

lemma entered_le: "entered p \<le> length (pl_n p)"
proof -
  have "entered p \<le> card {..<length (pl_n p)}" unfolding entered_def by (rule card_mono) auto
  then show ?thesis by simp
qed

lemma group_met_mono:
  assumes "ext p q" and "plan_shape q" and "group_met ans status p i g"
  shows "group_met ans status q i g"
proof -
  obtain es where e: "pl_e q = pl_e p @ es" using assms(1) by (auto simp: ext_def)
  have full: "length (pl_e p) = MAX_EDGES \<Longrightarrow> length (pl_e q) = MAX_EDGES" using e assms(2) by (auto simp: plan_shape_def)
  have "ans a (pl_pkg q j)" if "ans a (pl_pkg p j)" "j < length (pl_n p)" for a j using that assms(1) by (auto simp: ext_def)
  moreover have "j < length (pl_n q)" if "j < length (pl_n p)" for j using that assms(1) by (auto simp: ext_def)
  moreover have "x \<in> set (pl_e q)" if "x \<in> set (pl_e p)" for x using that e by simp
  ultimately show ?thesis using assms(3) full unfolding group_met_def by meson
qed

lemma node_met_mono:
  assumes "ext p q" and "plan_shape q" and "i < length (pl_n p)" and "node_met ans status p i"
  shows "node_met ans status q i"
proof -
  have "pl_pkg q i = pl_pkg p i" using assms by (auto simp: ext_def)
  then show ?thesis using assms group_met_mono [OF assms(1,2)] by (auto simp: node_met_def field_met_def)
qed

section \<open>Nodes and edges\<close>

lemma upd_node_simps [simp]:
  "length (pl_n (upd_node v f p)) = length (pl_n p)" "pl_e (upd_node v f p) = pl_e p" "pl_valid (upd_node v f p) = pl_valid p"
  "pl_conflict (upd_node v f p) = pl_conflict p" "pl_stack (upd_node v f p) = pl_stack p" "pl_comp (upd_node v f p) = pl_comp p" "pl_next (upd_node v f p) = pl_next p"
  by (simp_all add: upd_node_def)

lemma upd_node_nth: "i < length (pl_n p) \<Longrightarrow> pl_n (upd_node v f p) ! i = (if i = v then f (pl_n p ! i) else pl_n p ! i)"
  by (simp add: upd_node_def)

lemma node_named_Some: "node_named p name = Some j \<Longrightarrow> j < length (pl_n p) \<and> re_package (pl_pkg p j) = name"
  by (auto simp: node_named_def find_Some_iff)

lemma node_named_None: "node_named p name = None \<longleftrightarrow> name \<notin> set (map (re_package \<circ> nd_e) (pl_n p))"
proof -
  have "(\<forall>i < length (pl_n p). re_package (nd_e (pl_n p ! i)) \<noteq> name) \<longleftrightarrow> (\<forall>n \<in> set (pl_n p). re_package (nd_e n) \<noteq> name)"
    by (simp add: all_set_conv_all_nth)
  then show ?thesis by (auto simp: node_named_def find_None_iff pl_pkg_def)
qed

lemma upd_keeps:
  assumes "\<And>n. nd_e (f n) = nd_e n"
  shows "plan_shape (upd_node v f p) = plan_shape p" and "pl_pkg (upd_node v f p) i = pl_pkg p i"
proof -
  show g: "pl_pkg (upd_node v f p) i = pl_pkg p i" for i
    by (cases "v < length (pl_n p)"; cases "i = v") (simp_all add: upd_node_def pl_pkg_def assms list_update_beyond)
  have "map (re_package \<circ> nd_e) (pl_n (upd_node v f p)) = map (re_package \<circ> nd_e) (pl_n p)"
    using g by (intro nth_equalityI) (auto simp: pl_pkg_def)
  then show "plan_shape (upd_node v f p) = plan_shape p" by (simp add: plan_shape_def del: map_map)
qed

lemma best_fold_Some: "fold (best_step P) es b = Some x \<Longrightarrow> (\<forall>y. b = Some y \<longrightarrow> P y \<and> y \<in> S) \<Longrightarrow> set es \<subseteq> S \<Longrightarrow> P x \<and> x \<in> S"
proof (induction es arbitrary: b)
  case (Cons e es)
  show ?case by (rule Cons.IH [of "best_step P e b"]) (use Cons.prems in \<open>auto simp: best_step_def split: option.splits if_splits\<close>)
qed auto

lemma find_best_candidate: "pkg_repo_find_best r name vop ver = Some d \<Longrightarrow> repo_candidate name vop ver d \<and> d \<in> set (rp_entries r)"
  unfolding pkg_repo_find_best_def by (rule best_fold_Some) auto

lemma find_provider_provides: "pkg_repo_find_provider r n = Some d \<Longrightarrow> provides_name (re_provides d) n \<and> d \<in> set (rp_entries r)"
  unfolding pkg_repo_find_provider_def by (rule best_fold_Some) auto

text \<open>What is chosen: an alternative that the target satisfies, one whose record has the name and a fitting version, or a provider of the name.\<close>

definition chosen :: "pkg_repo \<Rightarrow> deb_dep_alt \<Rightarrow> pkg_repo_entry \<Rightarrow> bool" where
  "chosen r a d \<longleftrightarrow> repo_candidate (dd_name a) (dd_op a) (dd_version a) d \<or> (d \<in> set (rp_entries r) \<and> provides_name (re_provides d) (dd_name a))"

lemma choose_alt_cases:
  "choose_alt r status g = (d, i, a) \<Longrightarrow>
   (i = 2 \<longrightarrow> (\<exists>a \<in> set g. state_satisfies status a)) \<and> (\<forall>e. d = Some e \<longrightarrow> (\<exists>b \<in> set g. a = Some b \<and> chosen r b e))"
proof (induction g)
  case (Cons b g)
  show ?case
  proof (cases "choose_alt r status (b # g) = choose_alt r status g")
    case True
    then show ?thesis using Cons by auto
  next
    case False
    then show ?thesis using Cons.prems find_best_candidate find_provider_provides
      by (auto simp: Let_def chosen_def split: if_splits option.splits)
  qed
qed simp

lemma node_for_facts:
  assumes "node_for e p = (x, q)" and "plan_shape p"
  shows "plan_shape q \<and> ext p q \<and> pl_e q = pl_e p \<and> (\<forall>i. x = Some i \<longrightarrow> i < length (pl_n q) \<and> re_package (pl_pkg q i) = re_package e \<and>
    (\<forall>j. length (pl_n p) \<le> j \<and> j < length (pl_n q) \<longrightarrow> j = i) \<and>
    (if node_named p (re_package e) = None then pl_pkg q i = e \<and> \<not> nd_done (pl_n q ! i) else q = p \<and> node_named p (re_package e) = Some i))"
proof (cases "node_named p (re_package e)")
  case (Some i)
  then show ?thesis using assms node_named_Some [OF Some] by (auto simp: node_for_def ext_refl)
next
  case None
  then have u: "re_package e \<notin> set (map (re_package \<circ> nd_e) (pl_n p))" by (simp add: node_named_None)
  show ?thesis
  proof (cases "length (pl_n p) \<ge> MAX_NODES")
    case True
    then show ?thesis using assms None by (simp add: node_for_def ext_refl)
  next
    case False
    then have q: "x = Some (length (pl_n p))" "q = p\<lparr>pl_n := pl_n p @ [new_node e]\<rparr>" using assms(1) None by (auto simp: node_for_def)
    have "plan_shape q" using assms(2) False u by (fastforce simp: plan_shape_def q(2) new_node_def)
    moreover have "ext p q" by (auto simp: ext_def q(2) pl_pkg_def nth_append new_node_def)
    ultimately show ?thesis using None by (auto simp: q pl_pkg_def new_node_def)
  qed
qed

lemma add_edge_facts:
  assumes "plan_shape p" and "a < length (pl_n p)" and "b < length (pl_n p)"
  shows "plan_shape (add_edge a b p)" and "ext p (add_edge a b p)" and "pl_n (add_edge a b p) = pl_n p"
    and "(a, b) \<in> set (pl_e (add_edge a b p)) \<or> length (pl_e (add_edge a b p)) = MAX_EDGES"
  using assms by (auto simp: add_edge_def plan_shape_def ext_def pl_pkg_def)

lemma installed_facts:
  "plan_shape (upd_node i (nd_installed_update (\<lambda>_. True)) p) = plan_shape p" "ext p (upd_node i (nd_installed_update (\<lambda>_. True)) p)"
  by (auto simp: upd_keeps ext_def upd_node_nth)

text \<open>The step that leads on: the plan grows by at most the node of the chosen record, and the group is met.\<close>

lemma plan_group_go:
  assumes "plan_group r status ni g p = Group_Go di q" and "plan_shape p" and "ni < length (pl_n p)"
  shows "ext p q \<and> plan_shape q \<and> di < length (pl_n q) \<and> group_met (may_answer r) status q ni g \<and>
    (\<forall>j. length (pl_n p) \<le> j \<and> j < length (pl_n q) \<longrightarrow> j = di \<and> \<not> nd_done (pl_n q ! j)) \<and>
    (\<forall>j < length (pl_n p). nd_done (pl_n q ! j) = nd_done (pl_n p ! j))"
proof -
  obtain d i a where c: "choose_alt r status g = (d, i, a)" by (cases "choose_alt r status g")
  then obtain d' a' where d: "d = Some d'" "a = Some a'" "i \<noteq> 2" using assms(1) by (auto simp: plan_group_def split: if_splits option.splits)
  have ch: "a' \<in> set g" "chosen r a' d'" using choose_alt_cases [OF c] d by auto
  obtain x p1 where nf: "node_for d' p = (x, p1)" by force
  have cl: "case node_named p (re_package d') of None \<Rightarrow> True | Some j \<Rightarrow> deb_version_satisfies (re_version (pl_pkg p j)) (dd_op a') (dd_version a')"
    using assms(1) c d nf by (auto simp: plan_group_def split: option.splits if_splits)
  have x: "x = Some di" and q: "q = add_edge ni di (if i \<noteq> 0 then upd_node di (nd_installed_update (\<lambda>_. True)) p1 else p1)"
    using assms(1) c d nf by (auto simp: plan_group_def Let_def split: option.splits if_splits)
  note f = node_for_facts [OF nf assms(2), unfolded x, simplified]
  let ?p2 = "if i \<noteq> 0 then upd_node di (nd_installed_update (\<lambda>_. True)) p1 else p1"
  have p2: "plan_shape ?p2" "ext p1 ?p2" "length (pl_n ?p2) = length (pl_n p1)" "\<And>j. pl_pkg ?p2 j = pl_pkg p1 j"
    "\<And>j. j < length (pl_n p1) \<Longrightarrow> nd_done (pl_n ?p2 ! j) = nd_done (pl_n p1 ! j)"
    using f installed_facts ext_refl by (auto simp: upd_keeps upd_node_nth)
  have le: "length (pl_n p) \<le> length (pl_n p1)" using f by (auto simp: ext_def)
  have e: "plan_shape q" "ext ?p2 q" "pl_n q = pl_n ?p2" "(ni, di) \<in> set (pl_e q) \<or> length (pl_e q) = MAX_EDGES"
    using add_edge_facts [OF p2(1), of ni di] f assms(3) le p2(3) unfolding q by auto
  have pk: "pl_pkg q j = pl_pkg p1 j" for j using p2(4) e(3) by (simp add: pl_pkg_def)
  have "may_answer r a' (pl_pkg q di)"
  proof (cases "repo_candidate (dd_name a') (dd_op a') (dd_version a') d'")
    case True
    then show ?thesis using f cl pk by (auto simp: may_answer_def answers_def repo_candidate_def split: if_splits option.splits)
  next
    case False
    then show ?thesis using ch(2) f pk by (auto simp: chosen_def may_answer_def answers_def)
  qed
  then have "group_met (may_answer r) status q ni g" using ch(1) e(3,4) f p2(3) unfolding group_met_def by auto
  moreover have "ext p q" using f p2(2) e(2) ext_trans by blast
  moreover have "\<not> nd_done (pl_n q ! j)" if "length (pl_n p) \<le> j" "j < length (pl_n q)" for j
    using f p2(3,5) e(3) that by (auto split: if_splits)
  moreover have "nd_done (pl_n q ! j) = nd_done (pl_n p ! j)" if "j < length (pl_n p)" for j
    using nf p2(5) e(3) that le by (auto simp: node_for_def nth_append split: option.splits if_splits)
  ultimately show ?thesis using f e p2(3) by auto
qed

lemma plan_group_fail: "plan_group r status ni g p = Group_Fail q \<Longrightarrow> plan_shape p \<Longrightarrow> plan_shape q \<and> \<not> pl_valid q"
  by (auto simp: plan_group_def plan_fail_def plan_shape_def Let_def node_for_def split: prod.splits if_splits option.splits)

lemma plan_group_skip: "plan_group r status ni g p = Group_Skip \<Longrightarrow> group_met (may_answer r) status p ni g"
  using choose_alt_cases [of r status g] by (auto simp: plan_group_def group_met_def Let_def split: prod.splits if_splits option.splits)

section \<open>Expansion ends and closes the plan\<close>

definition outcome :: "pkg_repo \<Rightarrow> string option \<Rightarrow> plan \<Rightarrow> bool \<Rightarrow> plan \<Rightarrow> bool" where
  "outcome r status p b q \<longleftrightarrow> plan_shape q \<and> (\<not> b \<longrightarrow> \<not> pl_valid q) \<and>
     (b \<longrightarrow> ext p q \<and> done_met r status q \<and> (\<forall>i. length (pl_n p) \<le> i \<and> i < length (pl_n q) \<longrightarrow> nd_done (pl_n q ! i)))"

definition ready :: "pkg_repo \<Rightarrow> string option \<Rightarrow> nat \<Rightarrow> nat \<Rightarrow> plan \<Rightarrow> bool" where
  "ready r status k ni p \<longleftrightarrow> plan_shape p \<and> ni < length (pl_n p) \<and> MAX_NODES < k + entered p \<and> done_met r status p"

lemma done_met_ext:
  assumes "done_met r status p" and "ext p q" and "plan_shape q"
    and "\<forall>i < length (pl_n q). nd_done (pl_n q ! i) \<longrightarrow> i < length (pl_n p) \<and> nd_done (pl_n p ! i)"
  shows "done_met r status q"
  using assms node_met_mono [OF assms(2,3)] by (auto simp: done_met_def)

lemma ready_step:
  assumes "plan_group r status ni g p = Group_Go di q" and "ready r status k ni p"
  shows "ready r status k di q" and "ext p q" and "group_met (may_answer r) status q ni g" and "\<forall>j. length (pl_n p) \<le> j \<and> j < length (pl_n q) \<longrightarrow> j = di"
proof -
  have g: "ext p q" "plan_shape q" "di < length (pl_n q)" "group_met (may_answer r) status q ni g"
    "\<forall>j. length (pl_n p) \<le> j \<and> j < length (pl_n q) \<longrightarrow> j = di \<and> \<not> nd_done (pl_n q ! j)"
    "\<forall>j < length (pl_n p). nd_done (pl_n q ! j) = nd_done (pl_n p ! j)"
    using plan_group_go [OF assms(1)] assms(2) by (auto simp: ready_def)
  have "done_met r status q" using assms(2) by (intro done_met_ext [OF _ g(1,2)]) (use g in \<open>auto simp: ready_def not_le [symmetric]\<close>)
  then show "ready r status k di q" using assms(2) g(2,3) entered_mono [OF g(1)] by (auto simp: ready_def)
  show "ext p q" "group_met (may_answer r) status q ni g" "\<forall>j. length (pl_n p) \<le> j \<and> j < length (pl_n q) \<longrightarrow> j = di" using g by auto
qed

lemma ready_next: "ready r status k ni p \<Longrightarrow> outcome r status p True q \<Longrightarrow> ready r status k ni q"
  using entered_mono [of p q] by (auto simp: ready_def outcome_def ext_def)

lemma outcome_trans:
  assumes "outcome r status p True q" and "outcome r status q b t"
  shows "outcome r status p b t"
proof -
  have "nd_done (pl_n t ! i)" if b and "length (pl_n p) \<le> i" "i < length (pl_n t)" for i
    using assms that by (cases "i < length (pl_n q)") (auto simp: outcome_def ext_def)
  then show ?thesis using assms ext_trans [of p q t] by (auto simp: outcome_def)
qed

lemma outcome_refl: "ready r status k ni p \<Longrightarrow> outcome r status p True p"
  by (auto simp: outcome_def ready_def ext_refl)

text \<open>Entering a node, and leaving it.\<close>

lemma visit_ready:
  assumes "ready r status (Suc k) ni p" and "\<not> nd_done (pl_n p ! ni)" and "\<not> nd_visiting (pl_n p ! ni)"
  shows "ready r status k ni (upd_node ni (nd_visiting_update (\<lambda>_. True)) p)" (is "ready _ _ _ _ ?p")
proof -
  let ?S = "\<lambda>p. {i. i < length (pl_n p) \<and> (nd_done (pl_n p ! i) \<or> nd_visiting (pl_n p ! i))}"
  have ni: "ni < length (pl_n p)" using assms(1) by (simp add: ready_def)
  have "?S ?p = insert ni (?S p)" using ni by (auto simp: upd_node_nth)
  then have "entered ?p = Suc (entered p)" using assms(2,3) by (simp add: entered_def)
  moreover have "group_met (may_answer r) status ?p i g = group_met (may_answer r) status p i g" for i g by (simp add: group_met_def upd_keeps)
  ultimately show ?thesis using assms(1) by (auto simp: ready_def upd_keeps done_met_def node_met_def field_met_def upd_node_nth)
qed

lemma leave_outcome:
  assumes "outcome r status (upd_node ni (nd_visiting_update (\<lambda>_. True)) p) True q" and "node_met (may_answer r) status q ni"
    and "ni < length (pl_n p)" and "\<not> nd_visiting (pl_n p ! ni)"
  shows "outcome r status p True (upd_node ni (\<lambda>n. n\<lparr>nd_done := True, nd_visiting := False\<rparr>) q)" (is "outcome _ _ _ _ ?q")
proof -
  have len: "length (pl_n p) \<le> length (pl_n q)" using assms(1) by (simp add: outcome_def ext_def)
  have gm: "group_met (may_answer r) status ?q i g = group_met (may_answer r) status q i g" for i g by (simp add: group_met_def upd_keeps)
  have "done_met r status ?q" using assms(1,2) gm by (auto simp: outcome_def done_met_def node_met_def field_met_def upd_keeps upd_node_nth split: if_splits)
  moreover have "ext p ?q" using assms len unfolding outcome_def ext_def by (auto simp: upd_keeps upd_node_nth)
  ultimately show ?thesis using assms(1) by (auto simp: outcome_def upd_keeps upd_node_nth)
qed

lemma field_met_ext: "ext p q \<Longrightarrow> plan_shape q \<Longrightarrow> field_met (may_answer r) status p i s \<Longrightarrow> field_met (may_answer r) status q i s"
  using group_met_mono by (auto simp: field_met_def)

lemma unvisit_outcome: "outcome r status p False q \<Longrightarrow> outcome r status p' False (upd_node ni (nd_visiting_update (\<lambda>_. False)) q)"
  by (simp add: outcome_def upd_keeps)

lemma outcome_False: "outcome r status p False q \<Longrightarrow> outcome r status p' False q"
  by (simp add: outcome_def)

text \<open>The whole of a node, given what its two fields do.\<close>

lemma expand_node:
  assumes "ready r status (Suc k) ni p" and nv: "\<not> (nd_done (pl_n p ! ni) \<or> nd_visiting (pl_n p ! ni))"
    and p1: "p1 = upd_node ni (nd_visiting_update (\<lambda>_. True)) p"
    and q: "expand_field k r status ni (re_pre_depends (pl_pkg p ni)) p1 = Some (b, q)" "outcome r status p1 b q"
      "b \<longrightarrow> field_met (may_answer r) status q ni (re_pre_depends (pl_pkg p ni))"
    and t: "b \<Longrightarrow> expand_field k r status ni (re_depends (pl_pkg p ni)) q = Some (c, t)" "b \<Longrightarrow> outcome r status q c t"
      "b \<Longrightarrow> c \<longrightarrow> field_met (may_answer r) status t ni (re_depends (pl_pkg p ni))"
  shows "\<exists>b q. expand (Suc k) r status ni p = Some (b, q) \<and> outcome r status p b q \<and> (b \<longrightarrow> nd_done (pl_n q ! ni) \<or> nd_visiting (pl_n p ! ni))"
proof -
  have ni: "ni < length (pl_n p)" using assms(1) by (simp add: ready_def)
  consider "\<not> b" | "b" "\<not> c" | "b" "c" by blast
  then show ?thesis
  proof cases
    case 1
    then have "expand (Suc k) r status ni p = Some (False, upd_node ni (nd_visiting_update (\<lambda>_. False)) q)" using nv q(1) by (simp add: Let_def p1)
    moreover have "outcome r status p False (upd_node ni (nd_visiting_update (\<lambda>_. False)) q)" using unvisit_outcome q(2) 1 by simp
    ultimately show ?thesis by blast
  next
    case 2
    then have "expand (Suc k) r status ni p = Some (False, upd_node ni (nd_visiting_update (\<lambda>_. False)) t)" using nv q(1) t(1) by (simp add: Let_def p1)
    moreover have "outcome r status p False (upd_node ni (nd_visiting_update (\<lambda>_. False)) t)" using unvisit_outcome t(2) 2 by simp
    ultimately show ?thesis by blast
  next
    case 3
    let ?t = "upd_node ni (\<lambda>n. n\<lparr>nd_done := True, nd_visiting := False\<rparr>) t"
    have e: "expand (Suc k) r status ni p = Some (True, ?t)" using nv q(1) t(1) 3 by (simp add: Let_def p1)
    have o: "outcome r status p1 True t" using outcome_trans [of r status p1 q True t] q(2) t(2) 3 by simp
    have "pl_pkg t ni = pl_pkg p ni" and l: "ni < length (pl_n t)" using o ni by (auto simp: outcome_def ext_def upd_keeps p1)
    moreover have "field_met (may_answer r) status t ni (re_pre_depends (pl_pkg p ni))" using field_met_ext q(3) t(2) 3 by (auto simp: outcome_def)
    ultimately have "node_met (may_answer r) status t ni" using t(3) 3 by (simp add: node_met_def)
    then have "outcome r status p True ?t" using leave_outcome [OF o [unfolded p1] _ ni] nv by blast
    moreover have "nd_done (pl_n ?t ! ni)" using l by (simp add: upd_node_nth)
    ultimately show ?thesis using e by blast
  qed
qed

lemma expand_group_go:
  assumes go: "plan_group r status ni g p = Group_Go di p1" and rd: "ready r status k ni p"
    and q: "expand k r status di p1 = Some (True, q)" "outcome r status p1 True q" "nd_done (pl_n q ! di) \<or> nd_visiting (pl_n p1 ! di)"
  shows "outcome r status p True q" and "group_met (may_answer r) status q ni g"
proof -
  note st = ready_step [OF go rd]
  have e: "ext p1 q" "plan_shape q" using q(2) by (auto simp: outcome_def)
  have "nd_done (pl_n q ! i)" if "length (pl_n p) \<le> i" "i < length (pl_n q)" for i
  proof (cases "i < length (pl_n p1)")
    case True
    then have "i = di" "\<not> nd_visiting (pl_n p1 ! i)" using st(2,4) that by (auto simp: ext_def)
    then show ?thesis using q(3) by auto
  qed (use q(2) that in \<open>auto simp: outcome_def\<close>)
  then show "outcome r status p True q" using q(2) ext_trans [OF st(2) e(1)] by (simp add: outcome_def)
  show "group_met (may_answer r) status q ni g" using group_met_mono [OF e st(3)] .
qed

lemma expand_total:
  "ready r status k ni p \<Longrightarrow> \<exists>b q. expand k r status ni p = Some (b, q) \<and> outcome r status p b q \<and>
     (b \<longrightarrow> nd_done (pl_n q ! ni) \<or> nd_visiting (pl_n p ! ni))"
  "ready r status k ni p \<Longrightarrow> \<exists>b q. expand_field k r status ni s p = Some (b, q) \<and> outcome r status p b q \<and> (b \<longrightarrow> field_met (may_answer r) status q ni s)"
  "ready r status k ni p \<Longrightarrow> \<exists>b q. expand_groups k r status ni gs p = Some (b, q) \<and> outcome r status p b q \<and> (b \<longrightarrow> (\<forall>g \<in> set gs. group_met (may_answer r) status q ni g))"
proof (induction k r status ni p and k r status ni s p and k r status ni gs p rule: expand_expand_field_expand_groups.induct)
  case (1 r status ni p)
  then show ?case using entered_le [of p] by (simp add: ready_def plan_shape_def)
next
  case (2 k r status ni p)
  show ?case
  proof (cases "nd_done (pl_n p ! ni) \<or> nd_visiting (pl_n p ! ni)")
    case True
    then have "expand (Suc k) r status ni p = Some (True, p)" by simp
    then show ?thesis using outcome_refl [OF 2(3)] True by blast
  next
    case False
    let ?p = "upd_node ni (nd_visiting_update (\<lambda>_. True)) p"
    have rd: "ready r status k ni ?p" using visit_ready [OF 2(3)] False by blast
    obtain b q where q: "expand_field k r status ni (re_pre_depends (pl_pkg p ni)) ?p = Some (b, q)" "outcome r status ?p b q"
      "b \<longrightarrow> field_met (may_answer r) status q ni (re_pre_depends (pl_pkg p ni))"
      using 2(1) [OF False refl refl rd] by blast
    show ?thesis
    proof (cases b)
      case b: True
      have rd2: "ready r status k ni q" using ready_next [OF rd] q(2) b by simp
      obtain c t where "expand_field k r status ni (re_depends (pl_pkg p ni)) q = Some (c, t)" "outcome r status q c t"
        "c \<longrightarrow> field_met (may_answer r) status t ni (re_depends (pl_pkg p ni))"
        using 2(2) [OF False refl refl q(1) refl eqTrueI [OF b] rd2] by blast
      then show ?thesis by (rule expand_node [OF 2(3) False refl q])
    qed (rule expand_node [OF 2(3) False refl q], simp_all)
  qed
next
  case (3 k r status ni s p)
  obtain rc gs where d: "deb_dep_parse s = (rc, gs)" by force
  show ?case
  proof (cases "s = [] \<or> rc \<noteq> 0")
    case True
    then show ?thesis using outcome_refl [OF 3(2)] 3(2) d by (auto simp: field_met_def outcome_def plan_fail_def plan_shape_def ready_def)
  next
    case False
    then show ?thesis using 3(1) [of rc gs] 3(2) d by (simp add: field_met_def)
  qed
next
  case (4 k r status ni p)
  then show ?case using outcome_refl by auto
next
  case (5 k r status ni g gs p)
  show ?case
  proof (cases "plan_group r status ni g p")
    case Group_Skip
    obtain b q where q: "expand_groups k r status ni gs p = Some (b, q)" "outcome r status p b q" "b \<longrightarrow> (\<forall>g \<in> set gs. group_met (may_answer r) status q ni g)"
      using 5(1) [OF Group_Skip 5(4)] by blast
    have "b \<longrightarrow> group_met (may_answer r) status q ni g" using group_met_mono plan_group_skip [OF Group_Skip] q(2) by (auto simp: outcome_def)
    then show ?thesis using q Group_Skip by simp
  next
    case (Group_Fail q)
    then show ?thesis using plan_group_fail [OF Group_Fail] 5(4) by (auto simp: outcome_def ready_def)
  next
    case (Group_Go di p1)
    note st = ready_step [OF Group_Go 5(4)]
    obtain b q where q: "expand k r status di p1 = Some (b, q)" "outcome r status p1 b q" "b \<longrightarrow> nd_done (pl_n q ! di) \<or> nd_visiting (pl_n p1 ! di)"
      using 5(2) [OF Group_Go st(1)] by blast
    show ?thesis
    proof (cases b)
      case False
      then have "expand_groups k r status ni (g # gs) p = Some (False, q)" using q(1) Group_Go by simp
      moreover have "outcome r status p False q" using outcome_False q(2) False by simp
      ultimately show ?thesis by blast
    next
      case b: True
      have q': "expand k r status di p1 = Some (True, q)" "outcome r status p1 True q" "nd_done (pl_n q ! di) \<or> nd_visiting (pl_n p1 ! di)"
        using q b by auto
      note o = expand_group_go [OF Group_Go 5(4) q']
      obtain c t where t: "expand_groups k r status ni gs q = Some (c, t)" "outcome r status q c t" "c \<longrightarrow> (\<forall>g \<in> set gs. group_met (may_answer r) status t ni g)"
        using 5(3) [OF Group_Go q'(1) refl refl ready_next [OF 5(4) o(1)]] by blast
      have "c \<longrightarrow> group_met (may_answer r) status t ni g" using group_met_mono o(2) t(2) by (auto simp: outcome_def)
      moreover have "expand_groups k r status ni (g # gs) p = Some (c, t)" using t(1) Group_Go q'(1) by simp
      ultimately show ?thesis using t(3) outcome_trans [OF o(1) t(2)] by auto
    qed
  qed
qed

section \<open>Where the records of a plan come from\<close>

definition from_repo :: "pkg_repo \<Rightarrow> plan \<Rightarrow> bool" where
  "from_repo r p \<longleftrightarrow> (\<forall>n \<in> set (pl_n p). nd_e n \<in> set (rp_entries r))"

lemma from_repo_pkg: "from_repo r p \<longleftrightarrow> (\<forall>i < length (pl_n p). pl_pkg p i \<in> set (rp_entries r))"
  by (simp add: from_repo_def pl_pkg_def all_set_conv_all_nth)

lemma from_repo_upd: "(\<And>n. nd_e (f n) = nd_e n) \<Longrightarrow> from_repo r (upd_node v f p) = from_repo r p"
  by (simp add: from_repo_pkg upd_keeps)

lemma from_repo_simps [simp]:
  "from_repo r (plan_fail c p) = from_repo r p" "from_repo r (add_edge a b p) = from_repo r p"
  "from_repo r (upd_node v (nd_installed_update f) p) = from_repo r p" "from_repo r (upd_node v (nd_visiting_update f) p) = from_repo r p"
  "from_repo r (upd_node v (\<lambda>n. n\<lparr>nd_done := x, nd_visiting := y\<rparr>) p) = from_repo r p"
  by (simp_all add: from_repo_upd) (simp_all add: from_repo_def plan_fail_def add_edge_def)

lemma choose_alt_repo: "choose_alt r status g = (Some d, i, a) \<Longrightarrow> d \<in> set (rp_entries r)"
  by (induction g) (auto simp: Let_def split: if_splits option.splits dest: find_best_candidate find_provider_provides)

lemma node_for_repo: "node_for d p = (x, q) \<Longrightarrow> d \<in> set (rp_entries r) \<Longrightarrow> from_repo r p \<Longrightarrow> from_repo r q"
  by (auto simp: node_for_def from_repo_def new_node_def split: option.splits if_splits)

lemma plan_group_repo:
  assumes "from_repo r p" and "plan_group r status ni g p = s"
  shows "(\<forall>q. s = Group_Fail q \<longrightarrow> from_repo r q) \<and> (\<forall>di q. s = Group_Go di q \<longrightarrow> from_repo r q)"
proof -
  obtain d i a where c: "choose_alt r status g = (d, i, a)" by (cases "choose_alt r status g")
  show ?thesis
  proof (cases "i = 2 \<or> d = None \<or> a = None")
    case True
    then show ?thesis using assms c by (auto simp: plan_group_def split: if_splits option.splits)
  next
    case False
    then obtain d' a' where d: "d = Some d'" "a = Some a'" "i \<noteq> 2" by auto
    obtain x q where n: "node_for d' p = (x, q)" by force
    have "from_repo r q" using node_for_repo [OF n choose_alt_repo assms(1)] c d(1) by blast
    then show ?thesis using assms c d n by (auto simp: plan_group_def Let_def split: option.splits)
  qed
qed

lemma expand_repo:
  "\<And>b q. expand k r status ni p = Some (b, q) \<Longrightarrow> from_repo r p \<Longrightarrow> from_repo r q"
  "\<And>b q. expand_field k r status ni s p = Some (b, q) \<Longrightarrow> from_repo r p \<Longrightarrow> from_repo r q"
  "\<And>b q. expand_groups k r status ni gs p = Some (b, q) \<Longrightarrow> from_repo r p \<Longrightarrow> from_repo r q"
proof (induction k r status ni p and k r status ni s p and k r status ni gs p rule: expand_expand_field_expand_groups.induct)
  case (2 k r status ni p)
  show ?case
  proof (cases "nd_done (pl_n p ! ni) \<or> nd_visiting (pl_n p ! ni)")
    case False
    let ?p = "upd_node ni (nd_visiting_update (\<lambda>_. True)) p"
    obtain c p1 where f: "expand_field k r status ni (re_pre_depends (pl_pkg p ni)) ?p = Some (c, p1)"
      using 2(3) False by (auto simp: Let_def split: option.splits)
    have p1: "from_repo r p1" by (rule 2(1) [OF False refl refl f]) (simp add: 2(4))
    show ?thesis
    proof (cases c)
      case True
      obtain c2 p2 where f2: "expand_field k r status ni (re_depends (pl_pkg p ni)) p1 = Some (c2, p2)"
        using 2(3) False f True by (auto simp: Let_def split: option.splits)
      have "from_repo r p2" by (rule 2(2) [OF False refl refl f refl eqTrueI [OF True] f2 p1])
      then show ?thesis using 2(3) False f True f2 by (cases c2) (auto simp: Let_def)
    qed (use 2(3) False f p1 in \<open>auto simp: Let_def\<close>)
  qed (use 2 in simp)
next
  case (3 k r status ni s p)
  then show ?case by (auto split: if_splits prod.splits)
next
  case (5 k r status ni g gs p)
  note pg = plan_group_repo [OF 5(5), of status ni g]
  show ?case
  proof (cases "plan_group r status ni g p")
    case Group_Skip
    then show ?thesis using 5(1) [OF Group_Skip] 5(4,5) by simp
  next
    case (Group_Fail p1)
    then show ?thesis using pg 5(4) by auto
  next
    case (Group_Go di p1)
    then have p1: "from_repo r p1" using pg by auto
    obtain c p2 where e: "expand k r status di p1 = Some (c, p2)" using 5(4) Group_Go by (auto split: option.splits)
    have p2: "from_repo r p2" by (rule 5(2) [OF Group_Go e p1])
    show ?thesis
    proof (cases c)
      case True
      then have "expand_groups k r status ni gs p2 = Some (b, q)" using 5(4) Group_Go e by simp
      then show ?thesis by (rule 5(3) [OF Group_Go e refl eqTrueI [OF True] _ p2])
    qed (use 5(4) Group_Go e p2 in auto)
  qed
qed auto

text \<open>When all records of a package provide the same names, the record in the plan provides what any of them does.\<close>

definition provides_uniform :: "pkg_repo \<Rightarrow> bool" where
  "provides_uniform r \<longleftrightarrow> (\<forall>d \<in> set (rp_entries r). \<forall>e \<in> set (rp_entries r). re_package d = re_package e \<longrightarrow>
     provides_name (re_provides d) = provides_name (re_provides e))"

lemma group_answered:
  assumes "provides_uniform r" and "from_repo r p" and "group_met (may_answer r) status p i g"
  shows "group_met answers status p i g"
proof -
  have "answers a (pl_pkg p j)" if "may_answer r a (pl_pkg p j)" "j < length (pl_n p)" for a j
    using assms(1,2) that unfolding may_answer_def provides_uniform_def from_repo_pkg answers_def by metis
  then show ?thesis using assms(3) unfolding group_met_def by blast
qed

lemma node_answered:
  "provides_uniform r \<Longrightarrow> from_repo r p \<Longrightarrow> node_met (may_answer r) status p i \<Longrightarrow> node_met answers status p i"
  using group_answered by (auto simp: node_met_def field_met_def)

section \<open>From the requested package\<close>

text \<open>From a plan with the requested package alone, the expansion always returns; when it succeeds every package of the plan has all its dependencies met.\<close>

definition plan_start :: "pkg_repo_entry \<Rightarrow> bool \<Rightarrow> plan" where
  "plan_start e inst = \<lparr>pl_n = [(new_node e)\<lparr>nd_installed := inst\<rparr>], pl_e = [], pl_valid = True, pl_conflict = None, pl_next = 0, pl_stack = [], pl_comp = []\<rparr>"

lemma expand_start:
  assumes "e \<in> set (rp_entries r)"
  shows "\<exists>b q. expand (Suc MAX_NODES) r status 0 (plan_start e inst) = Some (b, q) \<and> plan_shape q \<and> pl_valid q = b \<and> from_repo r q \<and>
     (b \<longrightarrow> 0 < length (pl_n q) \<and> pl_pkg q 0 = e \<and> (\<forall>i < length (pl_n q). node_met (may_answer r) status q i))"
proof -
  let ?p = "plan_start e inst"
  have rd: "ready r status (Suc MAX_NODES) 0 ?p"
    by (auto simp: ready_def plan_start_def plan_shape_def MAX_NODES_def done_met_def new_node_def)
  obtain b q where q: "expand (Suc MAX_NODES) r status 0 ?p = Some (b, q)" "outcome r status ?p b q" "b \<longrightarrow> nd_done (pl_n q ! 0) \<or> nd_visiting (pl_n ?p ! 0)"
    using expand_total(1) [OF rd] by blast
  have "nd_done (pl_n q ! i)" if b and "i < length (pl_n q)" for i
    using q(2,3) that by (cases i) (auto simp: outcome_def plan_start_def new_node_def)
  then have "b \<longrightarrow> (\<forall>i < length (pl_n q). node_met (may_answer r) status q i)" using q(2) by (simp add: outcome_def done_met_def)
  moreover have "plan_shape q" using q(2) by (simp add: outcome_def)
  moreover have "from_repo r q" by (rule expand_repo(1) [OF q(1)]) (use assms in \<open>simp add: from_repo_def plan_start_def new_node_def\<close>)
  moreover have "pl_valid q = b" using q(2) by (auto simp: outcome_def ext_def plan_start_def)
  moreover have "b \<longrightarrow> 0 < length (pl_n q) \<and> pl_pkg q 0 = e"
    using q(2) by (auto simp: outcome_def ext_def plan_start_def pl_pkg_def new_node_def Suc_le_eq)
  ultimately show ?thesis unfolding q(1) by blast
qed

end
