(* ===== verification/Pkg_Scc.thy ===== *)
theory Pkg_Scc
  imports Pkg_Plan
begin

text \<open>
  The dependency planner (\<^verbatim>\<open>src/pkg_plan.c\<close>), second part: \<^verbatim>\<open>tarjan\<close> and \<^verbatim>\<open>build_components\<close>, which group the packages of a plan
  into the strongly connected components of the dependency graph.

  The recursion takes fuel; as many steps as there are unvisited nodes are shown to be enough. The contract of a call says what it adds to the
  stack, that every edge out of what it added leads to a visited node, and that the low value of the node bounds the indexes of those
  targets that are still on the stack. It follows that components are numbered with dependencies first and that they are exactly
  the classes of mutually dependent packages.
\<close>

section \<open>Operations\<close>

definition idx :: "plan \<Rightarrow> nat \<Rightarrow> int" where "idx p v = nd_index (pl_n p ! v)"

definition low :: "plan \<Rightarrow> nat \<Rightarrow> int" where "low p v = nd_low (pl_n p ! v)"

definition cmp :: "plan \<Rightarrow> nat \<Rightarrow> int" where "cmp p v = nd_component (pl_n p ! v)"

definition tj_enter :: "nat \<Rightarrow> plan \<Rightarrow> plan" where
  "tj_enter v p = (upd_node v (\<lambda>n. n\<lparr>nd_index := pl_next p, nd_low := pl_next p, nd_onstack := True\<rparr>) p)
     \<lparr>pl_next := pl_next p + 1, pl_stack := v # pl_stack p\<rparr>"

definition set_low :: "nat \<Rightarrow> int \<Rightarrow> plan \<Rightarrow> plan" where
  "set_low v x p = upd_node v (nd_low_update (\<lambda>_. x)) p"

fun pop_comp :: "nat \<Rightarrow> nat list \<Rightarrow> plan \<Rightarrow> nat list \<times> nat list \<times> plan" where
  "pop_comp v [] p = ([], [], p)"
| "pop_comp v (w # st) p =
     (let p = upd_node w (\<lambda>n. n\<lparr>nd_onstack := False, nd_component := int (length (pl_comp p))\<rparr>) p
      in if w = v then ([w], st, p) else case pop_comp v st p of (ms, st, p) \<Rightarrow> (w # ms, st, p))"

definition tj_close :: "nat \<Rightarrow> plan \<Rightarrow> plan" where
  "tj_close v p =
     (if low p v = idx p v then
        if length (pl_comp p) \<ge> MAX_NODES then p
        else case pop_comp v (pl_stack p) p of (ms, st, p) \<Rightarrow> p\<lparr>pl_stack := st, pl_comp := pl_comp p @ [ms]\<rparr>
      else p)"

fun tarjan :: "nat \<Rightarrow> nat \<Rightarrow> plan \<Rightarrow> plan option"
  and tj_edges :: "nat \<Rightarrow> nat \<Rightarrow> (nat \<times> nat) list \<Rightarrow> plan \<Rightarrow> plan option" where
  "tarjan 0 v p = None"
| "tarjan (Suc k) v p = map_option (tj_close v) (tj_edges k v (pl_e p) (tj_enter v p))"
| "tj_edges k v [] p = Some p"
| "tj_edges k v ((a, w) # es) p =
     (if a \<noteq> v then tj_edges k v es p
      else if idx p w < 0 then
        (case tarjan k w p of None \<Rightarrow> None
         | Some p \<Rightarrow> tj_edges k v es (if low p w < low p v then set_low v (low p w) p else p))
      else if nd_onstack (pl_n p ! w) \<and> idx p w < low p v then tj_edges k v es (set_low v (idx p w) p)
      else tj_edges k v es p)"

definition tj_reset :: "plan \<Rightarrow> plan" where
  "tj_reset p = p\<lparr>pl_next := 0, pl_stack := [], pl_comp := [],
     pl_n := map (\<lambda>n. n\<lparr>nd_index := -1, nd_low := 0, nd_onstack := False, nd_component := -1\<rparr>) (pl_n p)\<rparr>"

fun tj_all :: "nat list \<Rightarrow> plan \<Rightarrow> plan option" where
  "tj_all [] p = Some p"
| "tj_all (i # is) p =
     (if idx p i < 0 then (case tarjan (length (pl_n p)) i p of None \<Rightarrow> None | Some p \<Rightarrow> tj_all is p) else tj_all is p)"

definition build_components :: "plan \<Rightarrow> plan option" where
  "build_components p = tj_all [0..<length (pl_n p)] (tj_reset p)"

section \<open>What an operation leaves alone\<close>

text \<open>The packages, edges and verdict of the plan; nothing here touches them.\<close>

definition alike :: "plan \<Rightarrow> plan \<Rightarrow> bool" where
  "alike p q \<longleftrightarrow> pl_e q = pl_e p \<and> length (pl_n q) = length (pl_n p) \<and> pl_valid q = pl_valid p \<and> pl_conflict q = pl_conflict p \<and>
     (\<forall>i < length (pl_n p). pl_pkg q i = pl_pkg p i \<and> nd_installed (pl_n q ! i) = nd_installed (pl_n p ! i))"

lemma alike_refl: "alike p p"
  by (simp add: alike_def)

lemma alike_trans: "alike p q \<Longrightarrow> alike q t \<Longrightarrow> alike p t"
  by (simp add: alike_def)

lemma upd_nth: "pl_n (upd_node v f p) ! i = (if i = v \<and> v < length (pl_n p) then f (pl_n p ! v) else pl_n p ! i)"
  by (cases "v < length (pl_n p)") (auto simp: upd_node_def list_update_beyond)

lemma alike_upd: "(\<And>n. nd_e (f n) = nd_e n \<and> nd_installed (f n) = nd_installed n) \<Longrightarrow> alike p (upd_node v f p)"
  by (auto simp: alike_def upd_nth pl_pkg_def)

lemma alike_enter: "alike p (tj_enter v p)"
  using alike_upd [of "\<lambda>n. n\<lparr>nd_index := pl_next p, nd_low := pl_next p, nd_onstack := True\<rparr>" p v] by (simp add: alike_def tj_enter_def pl_pkg_def)

lemma alike_set_low: "alike p (set_low v x p)"
  unfolding set_low_def by (rule alike_upd) simp

lemma pop_comp_facts:
  assumes "pop_comp v st p = (ms, st', q)" and "v \<in> set st" and "distinct st" and "\<forall>w \<in> set st. w < length (pl_n p)"
  shows "st = ms @ st' \<and> ms \<noteq> [] \<and> last ms = v \<and> alike p q \<and> pl_next q = pl_next p \<and> pl_comp q = pl_comp p \<and>
    (\<forall>u. idx q u = idx p u \<and> low q u = low p u \<and>
      nd_onstack (pl_n q ! u) = (nd_onstack (pl_n p ! u) \<and> u \<notin> set ms) \<and> cmp q u = (if u \<in> set ms then int (length (pl_comp p)) else cmp p u))"
  using assms
proof (induction v st p arbitrary: ms st' q rule: pop_comp.induct)
  case (2 v w st p)
  let ?f = "\<lambda>n. n\<lparr>nd_onstack := False, nd_component := int (length (pl_comp p))\<rparr>"
  let ?p = "upd_node w ?f p"
  have w: "w < length (pl_n p)" using 2(5) by simp
  have a: "alike p ?p" by (rule alike_upd) simp
  have s: "idx ?p u = idx p u" "low ?p u = low p u" "nd_onstack (pl_n ?p ! u) = (nd_onstack (pl_n p ! u) \<and> u \<noteq> w)"
    "cmp ?p u = (if u = w then int (length (pl_comp p)) else cmp p u)" for u
    using w by (auto simp: idx_def low_def cmp_def upd_nth)
  show ?case
  proof (cases "w = v")
    case True
    then show ?thesis using 2(2) a s by (auto simp: Let_def)
  next
    case False
    obtain ms1 q1 st1 where r: "pop_comp v st ?p = (ms1, st1, q1)" by (cases "pop_comp v st ?p")
    then have e: "ms = w # ms1" "st' = st1" "q = q1" using 2(2) False by (auto simp: Let_def)
    have "v \<in> set st" "distinct st" "\<forall>x \<in> set st. x < length (pl_n ?p)" using 2(3-5) False by auto
    note ih = 2(1) [OF refl False r this]
    then show ?thesis using a s alike_trans [OF a] by (auto simp: e)
  qed
qed simp

section \<open>The invariant\<close>

text \<open>Each node is unvisited, or on the stack, or in a component.\<close>

definition fresh :: "plan \<Rightarrow> nat \<Rightarrow> bool" where
  "fresh p v \<longleftrightarrow> idx p v = -1 \<and> cmp p v = -1 \<and> v \<notin> set (pl_stack p)"

definition waiting :: "plan \<Rightarrow> nat \<Rightarrow> bool" where
  "waiting p v \<longleftrightarrow> 0 \<le> idx p v \<and> idx p v < pl_next p \<and> cmp p v = -1 \<and> v \<in> set (pl_stack p)"

definition settled :: "plan \<Rightarrow> nat \<Rightarrow> bool" where
  "settled p v \<longleftrightarrow> 0 \<le> idx p v \<and> idx p v < pl_next p \<and> 0 \<le> cmp p v \<and> cmp p v < int (length (pl_comp p)) \<and> v \<notin> set (pl_stack p)"

definition stack_ok :: "plan \<Rightarrow> bool" where
  "stack_ok p \<longleftrightarrow> 0 \<le> pl_next p \<and> distinct (pl_stack p) \<and> (\<forall>v \<in> set (pl_stack p). v < length (pl_n p)) \<and>
     sorted_wrt (\<lambda>a b. idx p b < idx p a) (pl_stack p) \<and>
     (\<forall>v < length (pl_n p). nd_onstack (pl_n p ! v) = (v \<in> set (pl_stack p)) \<and> (fresh p v \<or> waiting p v \<or> settled p v))"

definition comps_ok :: "plan \<Rightarrow> bool" where
  "comps_ok p \<longleftrightarrow> (\<forall>(a, b) \<in> set (pl_e p). 0 \<le> cmp p a \<longrightarrow> 0 \<le> cmp p b \<and> cmp p b \<le> cmp p a) \<and>
     (\<forall>c < length (pl_comp p). distinct (pl_comp p ! c) \<and> pl_comp p ! c \<noteq> [] \<and> set (pl_comp p ! c) = {v. v < length (pl_n p) \<and> cmp p v = int c}) \<and>
     (\<forall>a < length (pl_n p). \<forall>b < length (pl_n p). 0 \<le> cmp p a \<and> cmp p a = cmp p b \<longrightarrow> (a, b) \<in> (set (pl_e p))\<^sup>*)"

definition tinv :: "plan \<Rightarrow> bool" where
  "tinv p \<longleftrightarrow> plan_shape p \<and> stack_ok p \<and> comps_ok p"

lemma node_cases: "tinv p \<Longrightarrow> v < length (pl_n p) \<Longrightarrow> fresh p v \<or> waiting p v \<or> settled p v"
  by (simp add: tinv_def stack_ok_def)

lemma edge_range: "tinv p \<Longrightarrow> (a, b) \<in> set (pl_e p) \<Longrightarrow> a < length (pl_n p) \<and> b < length (pl_n p)"
  by (auto simp: tinv_def plan_shape_def)

lemma on_stack: "tinv p \<Longrightarrow> v \<in> set (pl_stack p) \<Longrightarrow> v < length (pl_n p) \<and> waiting p v"
  by (auto simp: tinv_def stack_ok_def fresh_def settled_def)

lemma plan_shape_alike: "alike p q \<Longrightarrow> plan_shape q = plan_shape p"
proof -
  assume a: "alike p q"
  then have "map (re_package \<circ> nd_e) (pl_n q) = map (re_package \<circ> nd_e) (pl_n p)"
    by (intro nth_equalityI) (auto simp: alike_def pl_pkg_def)
  with a show ?thesis by (simp add: plan_shape_def alike_def del: map_map)
qed

lemma enter_views:
  assumes "v < length (pl_n p)"
  shows "idx (tj_enter v p) u = (if u = v then pl_next p else idx p u)" and "low (tj_enter v p) u = (if u = v then pl_next p else low p u)"
    and "cmp (tj_enter v p) u = cmp p u" and "nd_onstack (pl_n (tj_enter v p) ! u) = (nd_onstack (pl_n p ! u) \<or> u = v)"
    and "pl_next (tj_enter v p) = pl_next p + 1" and "pl_stack (tj_enter v p) = v # pl_stack p" and "pl_comp (tj_enter v p) = pl_comp p"
  using assms by (auto simp: idx_def low_def cmp_def tj_enter_def upd_nth)

lemma set_low_views:
  assumes "v < length (pl_n p)"
  shows "idx (set_low v x p) u = idx p u" and "low (set_low v x p) u = (if u = v then x else low p u)" and "cmp (set_low v x p) u = cmp p u"
    and "nd_onstack (pl_n (set_low v x p) ! u) = nd_onstack (pl_n p ! u)" and "pl_next (set_low v x p) = pl_next p"
    and "pl_stack (set_low v x p) = pl_stack p" and "pl_comp (set_low v x p) = pl_comp p"
  using assms by (auto simp: idx_def low_def cmp_def set_low_def upd_nth)

lemma set_low_inv:
  assumes "tinv p" and "v < length (pl_n p)"
  shows "tinv (set_low v x p)"
proof -
  note a = alike_set_low [of p v x]
  note w = set_low_views [OF assms(2), of x]
  have n: "length (pl_n (set_low v x p)) = length (pl_n p)" "pl_e (set_low v x p) = pl_e p" using a by (auto simp: alike_def)
  show ?thesis using assms(1) unfolding tinv_def plan_shape_alike [OF a] stack_ok_def comps_ok_def fresh_def waiting_def settled_def w n .
qed

lemma sorted_wrt_cong: "(\<And>a b. a \<in> set xs \<Longrightarrow> b \<in> set xs \<Longrightarrow> P a b = Q a b) \<Longrightarrow> sorted_wrt P xs = sorted_wrt Q xs"
  by (induction xs) auto

lemma enter_inv:
  assumes "tinv p" and "v < length (pl_n p)" and "idx p v < 0"
  shows "tinv (tj_enter v p)"
proof -
  note a = alike_enter [of p v]
  note w = enter_views [OF assms(2)]
  have n: "length (pl_n (tj_enter v p)) = length (pl_n p)" "pl_e (tj_enter v p) = pl_e p" using a by (auto simp: alike_def)
  have f: "fresh p v" using assms node_cases [OF assms(1,2)] by (auto simp: waiting_def settled_def)
  have i: "idx (tj_enter v p) u = idx p u" if "u \<in> set (pl_stack p)" for u using that f w(1) by (auto simp: fresh_def)
  have so: "sorted_wrt (\<lambda>a b. idx (tj_enter v p) b < idx (tj_enter v p) a) (pl_stack p)"
    using assms(1) i by (subst sorted_wrt_cong [of _ _ "\<lambda>a b. idx p b < idx p a"]) (auto simp: tinv_def stack_ok_def)
  have "stack_ok (tj_enter v p)" unfolding stack_ok_def w(5,6) n sorted_wrt.simps
  proof (intro conjI ballI allI impI)
    show "0 \<le> pl_next p + 1" "distinct (v # pl_stack p)" using assms(1) f by (auto simp: tinv_def stack_ok_def fresh_def)
    show "u < length (pl_n p)" if "u \<in> set (v # pl_stack p)" for u using that assms(1,2) on_stack by auto
    show "idx (tj_enter v p) u < idx (tj_enter v p) v" if "u \<in> set (pl_stack p)" for u
      using on_stack [OF assms(1) that] i [OF that] w(1) by (simp add: waiting_def)
    show "nd_onstack (pl_n (tj_enter v p) ! u) = (u \<in> set (v # pl_stack p))" if "u < length (pl_n p)" for u
      using that assms(1) w(4) by (auto simp: tinv_def stack_ok_def)
    show "fresh (tj_enter v p) u \<or> waiting (tj_enter v p) u \<or> settled (tj_enter v p) u" if "u < length (pl_n p)" for u
      using node_cases [OF assms(1) that] f assms(1) by (auto simp: fresh_def waiting_def settled_def w tinv_def stack_ok_def)
  qed (use so in simp)
  moreover have "comps_ok (tj_enter v p)" using assms(1) unfolding tinv_def comps_ok_def w(3,7) n by simp
  ultimately show ?thesis using assms(1) plan_shape_alike [OF a] by (simp add: tinv_def)
qed

section \<open>Inside a call\<close>

definition target_ok :: "plan \<Rightarrow> nat \<Rightarrow> nat \<Rightarrow> bool" where
  "target_ok p v b \<longleftrightarrow> 0 \<le> idx p b \<and> (b \<in> set (pl_stack p) \<longrightarrow> low p v \<le> idx p b)"

text \<open>The call for \<open>v\<close> has put \<open>S\<close> above \<open>v\<close> and has looked at the edges \<open>D\<close> of \<open>v\<close>.\<close>

definition scope :: "nat \<Rightarrow> nat list \<Rightarrow> nat list \<Rightarrow> (nat \<times> nat) set \<Rightarrow> plan \<Rightarrow> bool" where
  "scope v S base D p \<longleftrightarrow> tinv p \<and> D \<subseteq> set (pl_e p) \<and> pl_stack p = S @ v # base \<and> low p v \<le> idx p v \<and>
     (\<forall>a \<in> set S. \<forall>b. (a, b) \<in> set (pl_e p) \<longrightarrow> target_ok p v b) \<and> (\<forall>b. (v, b) \<in> D \<longrightarrow> target_ok p v b) \<and>
     (\<forall>a \<in> set S. (v, a) \<in> (set (pl_e p))\<^sup>* \<and> (\<exists>b \<in> set (pl_stack p). (a, b) \<in> (set (pl_e p))\<^sup>* \<and> idx p b < idx p a)) \<and>
     (\<exists>b \<in> set (pl_stack p). idx p b = low p v \<and> (v, b) \<in> (set (pl_e p))\<^sup>*)"

lemma comps_less:
  assumes "tinv p" and "v \<in> set (pl_stack p)"
  shows "length (pl_comp p) < length (pl_n p)"
proof -
  let ?f = "\<lambda>c. hd (pl_comp p ! c)"
  have m: "?f c < length (pl_n p) \<and> cmp p (?f c) = int c" if "c < length (pl_comp p)" for c
    using assms(1) that hd_in_set [of "pl_comp p ! c"] by (auto simp: tinv_def comps_ok_def)
  have v: "v < length (pl_n p)" "cmp p v = -1" using on_stack [OF assms] by (auto simp: waiting_def)
  have "inj_on ?f {..<length (pl_comp p)}" by (intro inj_onI) (metis m lessThan_iff of_nat_eq_iff)
  moreover have "?f ` {..<length (pl_comp p)} \<subseteq> {..<length (pl_n p)} - {v}" using m v(2) by fastforce
  ultimately have "card {..<length (pl_comp p)} \<le> card ({..<length (pl_n p)} - {v})" by (intro card_inj_on_le) auto
  then show ?thesis using v(1) by simp
qed

lemma scope_target:
  assumes "scope v S base (set (pl_e p)) p" and "low p v = idx p v" and "(a, b) \<in> set (pl_e p)" and "a \<in> set (S @ [v])"
  shows "b \<in> set (S @ [v]) \<or> settled p b"
proof -
  have t: "tinv p" "pl_stack p = S @ v # base" using assms(1) by (auto simp: scope_def)
  have ok: "target_ok p v b" using assms(1,3,4) by (auto simp: scope_def)
  have b: "b < length (pl_n p)" using edge_range [OF t(1) assms(3)] by simp
  show ?thesis
  proof (cases "b \<in> set (pl_stack p)")
    case True
    then have "idx p v \<le> idx p b" using ok assms(2) by (simp add: target_ok_def)
    moreover have "\<forall>u \<in> set base. idx p u < idx p v" using t by (simp add: tinv_def stack_ok_def sorted_wrt_append)
    ultimately show ?thesis using True t(2) by auto
  next
    case False
    then show ?thesis using node_cases [OF t(1) b] ok by (auto simp: fresh_def waiting_def target_ok_def)
  qed
qed

lemma settled_closed: "tinv p \<Longrightarrow> (a, b) \<in> set (pl_e p) \<Longrightarrow> settled p a \<Longrightarrow> settled p b \<and> cmp p b \<le> cmp p a"
proof -
  assume t: "tinv p" and e: "(a, b) \<in> set (pl_e p)" and a: "settled p a"
  then have "0 \<le> cmp p b \<and> cmp p b \<le> cmp p a" by (auto simp: tinv_def comps_ok_def settled_def)
  moreover have "fresh p b \<or> waiting p b \<or> settled p b" using node_cases [OF t] edge_range [OF t e] by simp
  ultimately show ?thesis by (auto simp: fresh_def waiting_def)
qed

lemma scope_reach:
  assumes "scope v S base (set (pl_e p)) p" and "low p v = idx p v" and "(a, b) \<in> (set (pl_e p))\<^sup>*" and "a \<in> set (S @ [v])"
  shows "b \<in> set (S @ [v]) \<or> settled p b"
  using assms(3)
proof (induction rule: rtrancl_induct)
  case (step y z)
  have "tinv p" using assms(1) by (simp add: scope_def)
  with step settled_closed scope_target [OF assms(1,2) step(2)] show ?case by blast
qed (use assms(4) in simp)

text \<open>Everything above \<open>v\<close> leads back to \<open>v\<close> when the low value of \<open>v\<close> is its own index.\<close>

lemma scope_back:
  assumes "scope v S base (set (pl_e p)) p" and "low p v = idx p v"
  shows "a \<in> set (S @ [v]) \<Longrightarrow> (a, v) \<in> (set (pl_e p))\<^sup>*"
proof (induction "nat (idx p a)" arbitrary: a rule: less_induct)
  case less
  have t: "tinv p" "pl_stack p = S @ v # base" using assms(1) by (auto simp: scope_def)
  show ?case
  proof (cases "a = v")
    case False
    then obtain b where b: "b \<in> set (pl_stack p)" "(a, b) \<in> (set (pl_e p))\<^sup>*" "idx p b < idx p a" using assms(1) less(2) by (auto simp: scope_def)
    have "b \<in> set (S @ [v])" using scope_reach [OF assms b(2) less(2)] b(1) by (auto simp: settled_def)
    moreover have "0 \<le> idx p b" using on_stack [OF t(1) b(1)] by (simp add: waiting_def)
    ultimately have "(b, v) \<in> (set (pl_e p))\<^sup>*" using less(1) b(3) by simp
    then show ?thesis using b(2) by simp
  qed simp
qed

lemma close_views:
  assumes "scope v S base (set (pl_e p)) p" and "low p v = idx p v" and "q = tj_close v p"
  shows "alike p q" and "pl_stack q = base" and "pl_comp q = pl_comp p @ [S @ [v]]" and "pl_next q = pl_next p"
    and "idx q u = idx p u" and "low q u = low p u" and "cmp q u = (if u \<in> set (S @ [v]) then int (length (pl_comp p)) else cmp p u)"
    and "nd_onstack (pl_n q ! u) = (nd_onstack (pl_n p ! u) \<and> u \<notin> set (S @ [v]))"
proof -
  have t: "tinv p" "pl_stack p = S @ v # base" using assms(1) by (auto simp: scope_def)
  have lt: "length (pl_comp p) < MAX_NODES" using comps_less [OF t(1), of v] t by (simp add: tinv_def plan_shape_def)
  obtain ms st q1 where p: "pop_comp v (pl_stack p) p = (ms, st, q1)" by (cases "pop_comp v (pl_stack p) p")
  have "v \<in> set (pl_stack p)" "distinct (pl_stack p)" "\<forall>w \<in> set (pl_stack p). w < length (pl_n p)" using t by (auto simp: tinv_def stack_ok_def)
  note f = pop_comp_facts [OF p this]
  have q: "q = q1\<lparr>pl_stack := st, pl_comp := pl_comp q1 @ [ms]\<rparr>" using assms(2,3) lt p by (simp add: tj_close_def)
  obtain ms1 where ms1: "ms = ms1 @ [v]" using f by (metis append_butlast_last_id)
  have d: "ms1 @ v # st = pl_stack p" using conjunct1 [OF f] ms1 by simp
  have "distinct (pl_stack p)" using t by (simp add: tinv_def stack_ok_def)
  then have "v \<notin> set ms1" "v \<notin> set st" unfolding d [symmetric] by simp_all
  then have "ms1 = S \<and> st = base" using d append_Cons_eq_iff [of v ms1 st S base] t(2) by simp
  then have ms: "ms = S @ [v]" "st = base" using ms1 by simp_all
  show "alike p q" "pl_stack q = base" "pl_comp q = pl_comp p @ [S @ [v]]" "pl_next q = pl_next p" "idx q u = idx p u" "low q u = low p u"
    "cmp q u = (if u \<in> set (S @ [v]) then int (length (pl_comp p)) else cmp p u)"
    "nd_onstack (pl_n q ! u) = (nd_onstack (pl_n p ! u) \<and> u \<notin> set (S @ [v]))"
    using f unfolding q ms by (auto simp: alike_def pl_pkg_def idx_def low_def cmp_def)
qed

lemma close_comps:
  assumes "scope v S base (set (pl_e p)) p" and "low p v = idx p v"
  shows "comps_ok (tj_close v p)"
proof -
  let ?q = "tj_close v p" and ?M = "set (S @ [v])" and ?n = "int (length (pl_comp p))"
  note w = close_views [OF assms refl]
  have t: "tinv p" "pl_stack p = S @ v # base" using assms(1) by (auto simp: scope_def)
  have n: "pl_e ?q = pl_e p" "length (pl_n ?q) = length (pl_n p)" using w(1) by (auto simp: alike_def)
  have m: "u < length (pl_n p) \<and> cmp p u = -1" if "u \<in> ?M" for u using on_stack [OF t(1), of u] that t(2) by (auto simp: waiting_def)
  have old: "cmp p u < ?n" if "u < length (pl_n p)" for u using node_cases [OF t(1) that] by (auto simp: fresh_def waiting_def settled_def)
  have "0 \<le> cmp ?q b \<and> cmp ?q b \<le> cmp ?q a" if e: "(a, b) \<in> set (pl_e p)" and a: "0 \<le> cmp ?q a" for a b
  proof (cases "a \<in> ?M")
    case True
    then show ?thesis using scope_target [OF assms e True] old edge_range [OF t(1) e] w(7) by (auto simp: settled_def less_imp_le)
  next
    case False
    have r: "a < length (pl_n p)" using edge_range [OF t(1) e] by simp
    then have "settled p a" using a False node_cases [OF t(1) r] w(7) by (auto simp: fresh_def waiting_def)
    then have "settled p b" "cmp p b \<le> cmp p a" using settled_closed [OF t(1) e] by auto
    moreover have "b \<notin> ?M" using m \<open>settled p b\<close> by (auto simp: settled_def)
    ultimately show ?thesis using False w(7) by (auto simp: settled_def)
  qed
  moreover have "distinct (pl_comp ?q ! c) \<and> pl_comp ?q ! c \<noteq> [] \<and> set (pl_comp ?q ! c) = {u. u < length (pl_n p) \<and> cmp ?q u = int c}"
    if "c < length (pl_comp ?q)" for c
  proof (cases "c = length (pl_comp p)")
    case True
    have "distinct (S @ [v])" using t by (auto simp: tinv_def stack_ok_def)
    moreover have "?M = {u. u < length (pl_n p) \<and> cmp ?q u = int c}"
      using m old True by (auto simp: w(7) split: if_splits) (metis less_irrefl)
    ultimately show ?thesis unfolding w(3) using True by (simp add: nth_append)
  next
    case False
    then have c: "c < length (pl_comp p)" using that w(3) by simp
    then have "{u. u < length (pl_n p) \<and> cmp ?q u = int c} = {u. u < length (pl_n p) \<and> cmp p u = int c}" using m w(7) by (auto split: if_splits)
    then show ?thesis using t(1) c unfolding w(3) by (simp add: nth_append tinv_def comps_ok_def)
  qed
  moreover have "(a, b) \<in> (set (pl_e p))\<^sup>*" if "a < length (pl_n p)" "b < length (pl_n p)" "0 \<le> cmp ?q a" "cmp ?q a = cmp ?q b" for a b
  proof (cases "a \<in> ?M")
    case True
    then have "b \<in> ?M" using that old w(7) by (metis less_irrefl)
    then have "(v, b) \<in> (set (pl_e p))\<^sup>*" using assms(1) by (auto simp: scope_def)
    with scope_back [OF assms True] show ?thesis by simp
  next
    case False
    then have "b \<notin> ?M" using that old w(7) by (metis less_irrefl)
    then show ?thesis using False that t(1) w(7) by (simp add: tinv_def comps_ok_def)
  qed
  ultimately show ?thesis unfolding comps_ok_def n by blast
qed

lemma close_inv:
  assumes "scope v S base (set (pl_e p)) p" and "low p v = idx p v"
  shows "tinv (tj_close v p)"
proof -
  let ?q = "tj_close v p"
  note w = close_views [OF assms refl]
  have t: "tinv p" "pl_stack p = S @ v # base" using assms(1) by (auto simp: scope_def)
  have n: "length (pl_n ?q) = length (pl_n p)" using w(1) by (auto simp: alike_def)
  have s: "stack_ok p" using t(1) by (simp add: tinv_def)
  have "stack_ok ?q" unfolding stack_ok_def w(2,4,5) n
  proof (intro conjI ballI allI impI)
    show "nd_onstack (pl_n ?q ! u) = (u \<in> set base)" if "u < length (pl_n p)" for u
      using s that t(2) unfolding w(8) stack_ok_def by auto
    show "fresh ?q u \<or> waiting ?q u \<or> settled ?q u" if "u < length (pl_n p)" for u
      using node_cases [OF t(1) that] s t(2) by (auto simp: fresh_def waiting_def settled_def w stack_ok_def)
  qed (use s t(2) in \<open>auto simp: stack_ok_def sorted_wrt_append\<close>)
  then show ?thesis using close_comps [OF assms] plan_shape_alike [OF w(1)] t(1) by (simp add: tinv_def)
qed

section \<open>The contract of a call\<close>

definition keeps :: "plan \<Rightarrow> plan \<Rightarrow> bool" where
  "keeps p q \<longleftrightarrow> alike p q \<and> (\<forall>u < length (pl_n p). 0 \<le> idx p u \<longrightarrow> idx q u = idx p u \<and> cmp q u = cmp p u)"

definition left_open :: "nat \<Rightarrow> nat list \<Rightarrow> plan \<Rightarrow> bool" where
  "left_open v S q \<longleftrightarrow> (\<forall>a \<in> set S. \<forall>b. (a, b) \<in> set (pl_e q) \<longrightarrow> target_ok q v b) \<and>
     (\<forall>a \<in> set S. (v, a) \<in> (set (pl_e q))\<^sup>* \<and> (\<exists>b \<in> set (pl_stack q). (a, b) \<in> (set (pl_e q))\<^sup>* \<and> idx q b < idx q a)) \<and>
     (\<exists>b \<in> set (pl_stack q). idx q b = low q v \<and> (v, b) \<in> (set (pl_e q))\<^sup>*)"

definition call_post :: "nat \<Rightarrow> nat list \<Rightarrow> plan \<Rightarrow> plan \<Rightarrow> bool" where
  "call_post v S p q \<longleftrightarrow> tinv q \<and> keeps p q \<and> (\<forall>u < length (pl_n p). 0 \<le> idx p u \<longrightarrow> low q u = low p u) \<and>
     pl_stack q = S @ pl_stack p \<and> idx q v = pl_next p \<and> low q v \<le> idx q v \<and> (\<forall>a \<in> set S. idx p a < 0) \<and>
     (if S = [] then low q v = idx q v \<and> settled q v else left_open v S q)"

definition unvisited :: "plan \<Rightarrow> nat" where
  "unvisited p = card {u. u < length (pl_n p) \<and> idx p u < 0}"

lemma keeps_trans: "keeps p q \<Longrightarrow> keeps q t \<Longrightarrow> keeps p t"
  unfolding keeps_def using alike_trans by (auto simp: alike_def)

lemma keeps_unvisited: "keeps p q \<Longrightarrow> unvisited q \<le> unvisited p"
  unfolding unvisited_def by (rule card_mono) (force simp: keeps_def alike_def not_less [symmetric])+

lemma keeps_set_low: "v < length (pl_n p) \<Longrightarrow> keeps p (set_low v x p)"
  by (simp add: keeps_def alike_set_low set_low_views)

lemma scope_lower:
  assumes "scope v S base D p" and "x \<le> low p v" and "b \<in> set (pl_stack p)" and "idx p b = x" and "(v, b) \<in> (set (pl_e p))\<^sup>*"
  shows "scope v S base D (set_low v x p)"
proof -
  have v: "v < length (pl_n p)" using assms(1) on_stack [of p v] by (auto simp: scope_def)
  note w = set_low_views [OF v, of x]
  have e: "pl_e (set_low v x p) = pl_e p" using alike_set_low by (simp add: alike_def)
  have "target_ok (set_low v x p) v c" if "target_ok p v c" for c using that assms(2) by (auto simp: target_ok_def w)
  then show ?thesis using assms set_low_inv [OF _ v, of x] unfolding scope_def w e by fastforce
qed

text \<open>Returning from the call for \<open>w\<close> to the one for \<open>v\<close>.\<close>

lemma scope_call:
  assumes sc: "scope v S base D p" and e: "(v, w) \<in> set (pl_e p)" and w: "idx p w < 0" and c: "call_post w S1 p q"
    and p2: "p2 = (if low q w < low q v then set_low v (low q w) q else q)"
  shows "scope v (S1 @ S) base (insert (v, w) D) p2" and "keeps p p2"
proof -
  have sp: "tinv p" "pl_stack p = S @ v # base" "low p v \<le> idx p v" using sc by (auto simp: scope_def)
  have v: "v < length (pl_n p)" "0 \<le> idx p v" "idx p v < pl_next p" using on_stack [OF sp(1), of v] sp(2) by (auto simp: waiting_def)
  have k: "keeps p q" "tinv q" "pl_stack q = S1 @ pl_stack p" "idx q w = pl_next p" "low q w \<le> idx q w" "\<forall>a \<in> set S1. idx p a < 0"
    using c by (auto simp: call_post_def)
  have q: "pl_e q = pl_e p" "length (pl_n q) = length (pl_n p)" using k(1) by (auto simp: keeps_def alike_def)
  have same: "idx q u = idx p u" if "u < length (pl_n p)" "0 \<le> idx p u" for u using that k(1) by (auto simp: keeps_def)
  have lv: "low q v = low p v" using c v by (auto simp: call_post_def)
  have vq: "v < length (pl_n q)" using v q by simp
  have i2: "idx p2 u = idx q u" "pl_stack p2 = pl_stack q" "pl_e p2 = pl_e p" for u
    using set_low_views [OF vq] alike_set_low [of q v] q(1) by (auto simp: p2 alike_def)
  have l2: "low p2 v = min (low p v) (low q w)" using set_low_views [OF vq] lv by (auto simp: p2)
  show kp: "keeps p p2" using k(1) keeps_trans keeps_set_low [OF vq] by (auto simp: p2)
  have t2: "tinv p2" using k(2) set_low_inv vq by (auto simp: p2)
  have st: "set (pl_stack p2) = set S1 \<union> set (pl_stack p)" using k(3) i2 by auto
  have idp: "0 \<le> idx p u \<and> idx q u = idx p u" if "u \<in> set (pl_stack p)" for u using on_stack [OF sp(1) that] same by (auto simp: waiting_def)
  have old: "target_ok p2 v b" if "target_ok p v b" "b < length (pl_n p)" for b
  proof -
    have "b \<notin> set S1" using that(1) k(6) by (auto simp: target_ok_def)
    then show ?thesis using that same st l2 by (auto simp: target_ok_def i2)
  qed
  have tw: "target_ok p2 v w" using k(4,5) l2 sp(1) by (auto simp: target_ok_def i2 tinv_def stack_ok_def)
  have new: "target_ok p2 v b" if "a \<in> set S1" "(a, b) \<in> set (pl_e p)" for a b
  proof -
    have "target_ok q w b" using c that q(1) by (auto simp: call_post_def left_open_def split: if_splits)
    then show ?thesis using l2 by (auto simp: target_ok_def i2)
  qed
  have E: "(v, a) \<in> (set (pl_e p))\<^sup>*" if "(w, a) \<in> (set (pl_e p))\<^sup>*" for a using converse_rtrancl_into_rtrancl [OF e that] .
  have R: "(v, a) \<in> (set (pl_e p))\<^sup>* \<and> (\<exists>b \<in> set (pl_stack p2). (a, b) \<in> (set (pl_e p))\<^sup>* \<and> idx p2 b < idx p2 a)" if "a \<in> set (S1 @ S)" for a
  proof (cases "a \<in> set S1")
    case True
    then have "(w, a) \<in> (set (pl_e p))\<^sup>* \<and> (\<exists>b \<in> set (pl_stack q). (a, b) \<in> (set (pl_e p))\<^sup>* \<and> idx q b < idx q a)"
      using c q(1) by (auto simp: call_post_def left_open_def split: if_splits)
    then show ?thesis using E i2 by auto
  next
    case False
    then have a: "a \<in> set S" "a \<in> set (pl_stack p)" using that sp(2) by auto
    then obtain b where "(v, a) \<in> (set (pl_e p))\<^sup>*" "b \<in> set (pl_stack p)" "(a, b) \<in> (set (pl_e p))\<^sup>*" "idx p b < idx p a" using sc unfolding scope_def by blast
    then show ?thesis using idp [OF a(2)] idp [of b] st i2 by auto
  qed
  have L: "\<exists>b \<in> set (pl_stack p2). idx p2 b = low p2 v \<and> (v, b) \<in> (set (pl_e p))\<^sup>*"
  proof (cases "low q w < low p v")
    case True
    have "S1 \<noteq> []" using True c v sp(3) k(4) by (auto simp: call_post_def)
    then obtain b where "b \<in> set (pl_stack q)" "idx q b = low q w" "(w, b) \<in> (set (pl_e p))\<^sup>*" using c q(1) by (auto simp: call_post_def left_open_def)
    then show ?thesis using E True l2 i2 by auto
  next
    case False
    obtain b where "b \<in> set (pl_stack p)" "idx p b = low p v" "(v, b) \<in> (set (pl_e p))\<^sup>*" using sc unfolding scope_def by blast
    then show ?thesis using False l2 i2 idp [of b] st by auto
  qed
  have D: "target_ok p2 v b" if "(v, b) \<in> insert (v, w) D" for b
  proof (cases "b = w")
    case False
    then have "(v, b) \<in> D" "(v, b) \<in> set (pl_e p)" using that sc by (auto simp: scope_def)
    then show ?thesis using old edge_range [OF sp(1)] sc by (auto simp: scope_def)
  qed (use tw in simp)
  have A: "target_ok p2 v b" if "a \<in> set (S1 @ S)" "(a, b) \<in> set (pl_e p)" for a b
  proof (cases "a \<in> set S1")
    case False
    then have "a \<in> set S" using that(1) by simp
    then show ?thesis using old edge_range [OF sp(1) that(2)] that(2) sc by (auto simp: scope_def)
  qed (use new that in blast)
  have "low p2 v \<le> idx p2 v" using l2 sp(3) same v by (simp add: i2)
  moreover have "insert (v, w) D \<subseteq> set (pl_e p)" using e sc by (simp add: scope_def)
  moreover have "pl_stack p2 = (S1 @ S) @ v # base" using i2 k(3) sp(2) by simp
  ultimately show "scope v (S1 @ S) base (insert (v, w) D) p2" unfolding scope_def i2(3) using t2 A D R L by blast
qed

lemma scope_seen:
  assumes "scope v S base D p" and "(a, w) \<in> set (pl_e p)" and "a = v \<Longrightarrow> target_ok p v w"
  shows "scope v S base (insert (a, w) D) p"
  unfolding scope_def using assms(1) [unfolded scope_def] assms(2,3) by blast

lemma keeps_refl: "keeps p p"
  by (simp add: keeps_def alike_refl)

lemma keeps_low_refl: "keeps p q \<Longrightarrow> u < length (pl_n p) \<Longrightarrow> 0 \<le> idx p u \<Longrightarrow> 0 \<le> idx q u \<and> u < length (pl_n q)"
  by (auto simp: keeps_def alike_def)

text \<open>The loop over the edges, given that the calls it makes keep their contract. \<open>others\<close>: only the low value of \<open>v\<close> may change.\<close>

definition others :: "nat \<Rightarrow> plan \<Rightarrow> plan \<Rightarrow> bool" where
  "others v p q \<longleftrightarrow> keeps p q \<and> (\<forall>u < length (pl_n p). 0 \<le> idx p u \<and> u \<noteq> v \<longrightarrow> low q u = low p u)"

lemma others_trans: "others v p q \<Longrightarrow> others v q t \<Longrightarrow> others v p t"
  unfolding others_def using keeps_trans keeps_low_refl by (metis keeps_def)

lemma others_set_low: "v < length (pl_n p) \<Longrightarrow> others v p (set_low v x p)"
  by (simp add: others_def keeps_set_low set_low_views)

lemma tj_edges_ok:
  assumes IH: "\<And>w p. tinv p \<Longrightarrow> w < length (pl_n p) \<Longrightarrow> idx p w < 0 \<Longrightarrow> unvisited p \<le> k \<Longrightarrow> \<exists>q S. tarjan k w p = Some q \<and> call_post w S p q"
  shows "scope v S base D p \<Longrightarrow> unvisited p \<le> k \<Longrightarrow> set es \<subseteq> set (pl_e p) \<Longrightarrow>
    \<exists>q S'. tj_edges k v es p = Some q \<and> scope v (S' @ S) base (D \<union> set es) q \<and> others v p q \<and> (\<forall>a \<in> set S'. idx p a < 0)"
proof (induction es arbitrary: p S D)
  case Nil
  then show ?case by (intro exI [of _ p] exI [of _ "[]"]) (simp add: others_def keeps_refl)
next
  case (Cons x es)
  obtain a w where x: "x = (a, w)" by force
  have sc: "scope v S base D p" and e: "(a, w) \<in> set (pl_e p)" using Cons.prems x by auto
  have t: "tinv p" "v < length (pl_n p)" "w < length (pl_n p)" "idx p v \<ge> 0"
    using sc on_stack [of p v] edge_range [OF _ e] by (auto simp: scope_def waiting_def)
  have step: "\<exists>q S'. tj_edges k v (x # es) p = Some q \<and> scope v (S' @ S) base (D \<union> set (x # es)) q \<and> others v p q \<and> (\<forall>a \<in> set S'. idx p a < 0)"
    if eq: "tj_edges k v (x # es) p = tj_edges k v es p2" and s2: "scope v (S1 @ S) base (insert (a, w) D) p2" and o2: "others v p p2"
      and n1: "\<forall>a \<in> set S1. idx p a < 0" for p2 S1
  proof -
    have k2: "keeps p p2" using o2 by (simp add: others_def)
    have "unvisited p2 \<le> k" "set es \<subseteq> set (pl_e p2)" using Cons.prems keeps_unvisited [OF k2] k2 by (auto simp: keeps_def alike_def)
    then obtain q S' where q: "tj_edges k v es p2 = Some q" "scope v (S' @ S1 @ S) base (insert (a, w) D \<union> set es) q" "others v p2 q" "\<forall>a \<in> set S'. idx p2 a < 0"
      using Cons.IH [OF s2] by auto
    have "idx p a < 0" if "a \<in> set S'" for a
    proof (rule ccontr)
      assume c: "\<not> idx p a < 0"
      have "a \<in> set (pl_stack q)" using q(2) that by (simp add: scope_def)
      then have "a < length (pl_n q)" using q(2) on_stack [of q a] by (simp add: scope_def)
      then have "a < length (pl_n p)" using k2 q(3) by (simp add: others_def keeps_def alike_def)
      then have "0 \<le> idx p2 a" using c k2 by (simp add: keeps_def)
      then show False using q(4) that by auto
    qed
    then show ?thesis using q eq n1 others_trans [OF o2 q(3)] by (intro exI [of _ q] exI [of _ "S' @ S1"]) (auto simp: x)
  qed
  consider "a \<noteq> v" | "a = v" "idx p w < 0" | "a = v" "\<not> idx p w < 0" "nd_onstack (pl_n p ! w) \<and> idx p w < low p v"
    | "a = v" "\<not> idx p w < 0" "\<not> (nd_onstack (pl_n p ! w) \<and> idx p w < low p v)" by blast
  then show ?case
  proof cases
    case 1
    show ?thesis by (rule step [of p "[]"]) (use 1 scope_seen [OF sc e] in \<open>simp_all add: x others_def keeps_refl\<close>)
  next
    case 2
    obtain q S1 where q: "tarjan k w p = Some q" "call_post w S1 p q" using IH [OF t(1,3) 2(2)] Cons.prems(2) by blast
    let ?p2 = "if low q w < low q v then set_low v (low q w) q else q"
    have vq: "v < length (pl_n q)" "others v p q" using q(2) t(2) by (auto simp: call_post_def keeps_def alike_def others_def)
    show ?thesis
    proof (rule step [of ?p2 S1])
      show "tj_edges k v (x # es) p = tj_edges k v es ?p2" using 2 q(1) by (simp add: x)
      show "scope v (S1 @ S) base (insert (a, w) D) ?p2" using scope_call(1) [OF sc _ 2(2) q(2) refl] e 2(1) by simp
      show "others v p ?p2" using vq others_trans [OF vq(2) others_set_low [OF vq(1)]] by simp
      show "\<forall>a \<in> set S1. idx p a < 0" using q(2) by (simp add: call_post_def)
    qed
  next
    case 3
    have ws: "w \<in> set (pl_stack p)" using 3 t by (simp add: tinv_def stack_ok_def)
    have vw: "(v, w) \<in> (set (pl_e p))\<^sup>*" using e 3(1) by blast
    have "scope v S base D (set_low v (idx p w) p)" using scope_lower [OF sc _ ws refl vw] 3 by simp
    then have "scope v S base (insert (v, w) D) (set_low v (idx p w) p)"
      by (rule scope_seen) (use e 3 alike_set_low [of p v] set_low_views [OF t(2)] in \<open>auto simp: alike_def target_ok_def\<close>)
    then show ?thesis by (intro step [of "set_low v (idx p w) p" "[]"]) (use 3 others_set_low [OF t(2)] in \<open>simp_all add: x\<close>)
  next
    case 4
    have "target_ok p v w" using 4 t by (auto simp: target_ok_def tinv_def stack_ok_def)
    then have "scope v S base (insert (a, w) D) p" using scope_seen [OF sc e] by simp
    then show ?thesis by (intro step [of p "[]"]) (use 4 in \<open>auto simp: x others_def keeps_refl\<close>)
  qed
qed

lemma tarjan_ok:
  "tinv p \<Longrightarrow> v < length (pl_n p) \<Longrightarrow> idx p v < 0 \<Longrightarrow> unvisited p \<le> k \<Longrightarrow> \<exists>q S. tarjan k v p = Some q \<and> call_post v S p q"
proof (induction k arbitrary: v p)
  case 0
  then have "v \<in> {u. u < length (pl_n p) \<and> idx p u < 0}" by simp
  then show ?case using 0(4) by (auto simp: unvisited_def card_eq_0_iff)
next
  case (Suc k)
  let ?p = "tj_enter v p"
  note w = enter_views [OF Suc.prems(2)]
  have al: "alike p ?p" by (rule alike_enter)
  have n: "pl_e ?p = pl_e p" "length (pl_n ?p) = length (pl_n p)" using al by (auto simp: alike_def)
  have k: "keeps p ?p" using al w Suc.prems(3) by (auto simp: keeps_def)
  have nx: "0 \<le> pl_next p" using Suc.prems(1) by (simp add: tinv_def stack_ok_def)
  have "{u. u < length (pl_n p) \<and> idx p u < 0} = insert v {u. u < length (pl_n ?p) \<and> idx ?p u < 0}" using Suc.prems(2,3) w(1) n(2) by auto
  then have u: "unvisited ?p \<le> k" using Suc.prems(4) w(1) nx by (simp add: unvisited_def)
  have sc: "scope v [] (pl_stack p) {} ?p" using enter_inv [OF Suc.prems(1-3)] by (auto simp: scope_def w)
  obtain q S where q: "tj_edges k v (pl_e p) ?p = Some q" "scope v S (pl_stack p) (set (pl_e p)) q" "others v ?p q" "\<forall>a \<in> set S. idx ?p a < 0"
    using tj_edges_ok [OF Suc.IH sc u, of "pl_e p"] n(1) by auto
  have kq: "keeps p q" using keeps_trans [OF k] q(3) by (simp add: others_def)
  have e: "pl_e q = pl_e p" using kq by (simp add: keeps_def alike_def)
  have sq: "scope v S (pl_stack p) (set (pl_e q)) q" using q(2) e by simp
  have iv: "idx q v = pl_next p" using q(3) w(1) nx Suc.prems(2) n(2) by (auto simp: others_def keeps_def)
  have lo: "low q u = low p u" if "u < length (pl_n p)" "0 \<le> idx p u" for u
  proof -
    have "u \<noteq> v" using that(2) Suc.prems(3) by auto
    then show ?thesis using that q(3) w(1,2) n(2) by (simp add: others_def)
  qed
  have fr: "idx p a < 0" if "a \<in> set S" for a using q(4) that w(1) nx by (auto split: if_splits)
  have tl: "tinv q" "pl_stack q = S @ v # pl_stack p" "low q v \<le> idx q v" using q(2) by (auto simp: scope_def)
  have r: "tarjan (Suc k) v p = Some (tj_close v q)" using q(1) by simp
  show ?case
  proof (cases "low q v = idx q v")
    case True
    note c = close_views [OF sq True refl]
    have kc: "keeps p (tj_close v q)"
    proof -
      have "cmp (tj_close v q) u = cmp q u" if "u < length (pl_n p)" "0 \<le> idx p u" for u using that fr Suc.prems(3) c(7) by force
      then show ?thesis using kq c(1,5) alike_trans by (auto simp: keeps_def)
    qed
    have "waiting q v" "v \<notin> set (pl_stack p)" using on_stack [OF tl(1), of v] tl(1,2) by (simp_all add: tinv_def stack_ok_def)
    then have "settled (tj_close v q) v" by (simp add: settled_def c waiting_def)
    then have "call_post v [] p (tj_close v q)" using close_inv [OF sq True] kc lo True iv c(2,5,6) by (simp add: call_post_def)
    then show ?thesis using r by blast
  next
    case False
    then have cl: "tj_close v q = q" by (simp add: tj_close_def)
    have "left_open v (S @ [v]) q"
    proof -
      obtain b where b: "b \<in> set (pl_stack q)" "idx q b = low q v" "(v, b) \<in> (set (pl_e q))\<^sup>*" using sq by (auto simp: scope_def)
      then have "idx q b < idx q v" using False tl(3) by simp
      then have "\<exists>b \<in> set (pl_stack q). (v, b) \<in> (set (pl_e q))\<^sup>* \<and> idx q b < idx q v" using b by blast
      then have B: "(v, a) \<in> (set (pl_e q))\<^sup>* \<and> (\<exists>b \<in> set (pl_stack q). (a, b) \<in> (set (pl_e q))\<^sup>* \<and> idx q b < idx q a)" if "a \<in> set (S @ [v])" for a
      proof (cases "a = v")
        case False
        then have "a \<in> set S" using that by simp
        then show ?thesis using sq unfolding scope_def by blast
      qed simp
      have A: "target_ok q v c" if "a \<in> set (S @ [v])" "(a, c) \<in> set (pl_e q)" for a c
      proof (cases "a = v")
        case True
        then show ?thesis using sq that(2) unfolding scope_def by blast
      next
        case False
        then have "a \<in> set S" using that by simp
        then show ?thesis using sq that(2) unfolding scope_def by blast
      qed
      show ?thesis unfolding left_open_def using A B b by blast
    qed
    moreover have "\<forall>a \<in> set (S @ [v]). idx p a < 0" using fr Suc.prems(3) by simp
    ultimately have "call_post v (S @ [v]) p q" using tl kq lo iv by (simp add: call_post_def)
    then show ?thesis using r cl by auto
  qed
qed

section \<open>The components of a plan\<close>

lemma reset_inv:
  assumes "plan_shape p"
  shows "tinv (tj_reset p)" and "alike p (tj_reset p)" and "length (pl_n (tj_reset p)) = length (pl_n p)" and "pl_stack (tj_reset p) = []"
proof -
  have v: "idx (tj_reset p) u = -1" "cmp (tj_reset p) u = -1" "\<not> nd_onstack (pl_n (tj_reset p) ! u)" if "u < length (pl_n p)" for u
    using that by (auto simp: idx_def cmp_def tj_reset_def)
  have e: "pl_e (tj_reset p) = pl_e p" "pl_stack (tj_reset p) = []" "pl_comp (tj_reset p) = []" "pl_next (tj_reset p) = 0"
    "length (pl_n (tj_reset p)) = length (pl_n p)" by (auto simp: tj_reset_def)
  have "map (re_package \<circ> nd_e) (pl_n (tj_reset p)) = map (re_package \<circ> nd_e) (pl_n p)" by (simp add: tj_reset_def)
  then have "plan_shape (tj_reset p)" using assms e by (simp add: plan_shape_def del: map_map)
  moreover have "comps_ok (tj_reset p)"
  proof -
    have "\<not> 0 \<le> cmp (tj_reset p) a" if "(a, b) \<in> set (pl_e p)" for a b using assms that v by (auto simp: plan_shape_def)
    then show ?thesis unfolding comps_ok_def e using v by auto
  qed
  ultimately show "tinv (tj_reset p)" using v by (auto simp: tinv_def stack_ok_def e fresh_def)
  show "length (pl_n (tj_reset p)) = length (pl_n p)" "pl_stack (tj_reset p) = []" by (rule e)+
  show "alike p (tj_reset p)" by (simp add: alike_def tj_reset_def pl_pkg_def)
qed

lemma tj_all_ok:
  "tinv p \<Longrightarrow> pl_stack p = [] \<Longrightarrow> \<forall>i \<in> set is. i < length (pl_n p) \<Longrightarrow>
   \<exists>q. tj_all is p = Some q \<and> tinv q \<and> pl_stack q = [] \<and> keeps p q \<and> (\<forall>i \<in> set is. 0 \<le> idx q i)"
proof (induction "is" arbitrary: p)
  case Nil
  then show ?case by (auto simp: keeps_refl)
next
  case (Cons i "is")
  have un: "unvisited p \<le> length (pl_n p)"
  proof -
    have "unvisited p \<le> card {..<length (pl_n p)}" unfolding unvisited_def by (rule card_mono) auto
    then show ?thesis by simp
  qed
  have i: "i < length (pl_n p)" using Cons.prems(3) by simp
  obtain q where q: "tj_all (i # is) p = tj_all is q" "tinv q" "pl_stack q = []" "keeps p q" "0 \<le> idx q i"
  proof (cases "idx p i < 0")
    case True
    obtain q S where t: "tarjan (length (pl_n p)) i p = Some q" "call_post i S p q" using tarjan_ok [OF Cons.prems(1) i True un] by blast
    have S: "S = []"
    proof (rule ccontr)
      assume "S \<noteq> []"
      then have st: "pl_stack q = S" and lo: "left_open i S q" using t(2) Cons.prems(2) by (auto simp: call_post_def)
      define a where "a = arg_min_on (idx q) (set S)"
      have a: "a \<in> set S" "\<not> (\<exists>b \<in> set S. idx q b < idx q a)"
        unfolding a_def using arg_min_if_finite [of "set S" "idx q"] \<open>S \<noteq> []\<close> by auto
      then show False using lo unfolding left_open_def st by blast
    qed
    show ?thesis by (rule that [of q]) (use t True S Cons.prems in \<open>auto simp: call_post_def tinv_def stack_ok_def\<close>)
  next
    case False
    show ?thesis by (rule that [of p]) (use False Cons.prems in \<open>auto simp: keeps_refl\<close>)
  qed
  have "\<forall>j \<in> set is. j < length (pl_n q)" using Cons.prems(3) q(4) by (auto simp: keeps_def alike_def)
  then obtain t where t: "tj_all is q = Some t" "tinv t" "pl_stack t = []" "keeps q t" "\<forall>j \<in> set is. 0 \<le> idx t j"
    using Cons.IH [OF q(2,3)] by blast
  have "0 \<le> idx t i" using t(4) q(4,5) i by (auto simp: keeps_def alike_def)
  then show ?case using q(1,4) t keeps_trans by auto
qed

lemma build_components_facts:
  assumes "plan_shape p"
  shows "\<exists>q. build_components p = Some q \<and> alike p q \<and>
    (\<forall>v < length (pl_n q). 0 \<le> cmp q v \<and> cmp q v < int (length (pl_comp q))) \<and>
    (\<forall>c < length (pl_comp q). distinct (pl_comp q ! c) \<and> pl_comp q ! c \<noteq> [] \<and> set (pl_comp q ! c) = {v. v < length (pl_n q) \<and> cmp q v = int c}) \<and>
    (\<forall>(a, b) \<in> set (pl_e q). cmp q b \<le> cmp q a) \<and>
    (\<forall>a < length (pl_n q). \<forall>b < length (pl_n q). cmp q a = cmp q b \<longleftrightarrow> (a, b) \<in> (set (pl_e q))\<^sup>* \<and> (b, a) \<in> (set (pl_e q))\<^sup>*)"
proof -
  note r = reset_inv [OF assms]
  obtain q where q: "tj_all [0..<length (pl_n p)] (tj_reset p) = Some q" "tinv q" "pl_stack q = []" "keeps (tj_reset p) q" "\<forall>i \<in> set [0..<length (pl_n p)]. 0 \<le> idx q i"
    using tj_all_ok [OF r(1,4), of "[0..<length (pl_n p)]"] r(3) by auto
  have al: "alike p q" using alike_trans [OF r(2)] q(4) by (simp add: keeps_def)
  then have n: "length (pl_n q) = length (pl_n p)" by (simp add: alike_def)
  have st: "settled q v" if "v < length (pl_n q)" for v
  proof -
    have "0 \<le> idx q v" using q(5) that n by simp
    then show ?thesis using node_cases [OF q(2) that] q(3) by (auto simp: fresh_def waiting_def)
  qed
  have co: "comps_ok q" using q(2) by (simp add: tinv_def)
  have ed: "cmp q b \<le> cmp q a" if "(a, b) \<in> set (pl_e q)" for a b
    using settled_closed [OF q(2) that] st edge_range [OF q(2) that] by simp
  have re: "cmp q b \<le> cmp q a" if "(a, b) \<in> (set (pl_e q))\<^sup>*" for a b
    using that by (induction rule: rtrancl_induct) (use ed order_trans in blast)+
  have "cmp q a = cmp q b \<longleftrightarrow> (a, b) \<in> (set (pl_e q))\<^sup>* \<and> (b, a) \<in> (set (pl_e q))\<^sup>*" if "a < length (pl_n q)" "b < length (pl_n q)" for a b
    using that co st re [of a b] re [of b a] by (auto simp: comps_ok_def settled_def)
  then show ?thesis using q(1) al st co ed unfolding build_components_def comps_ok_def settled_def by blast
qed

text \<open>C9. \<^verbatim>\<open>build_components\<close> finds the strongly connected components and numbers dependencies first: it always returns, every package gets a
  component, the member lists are exactly the packages of each number, an edge never leads to a higher number, and two packages are in one
  component just when each depends on the other, directly or not.\<close>

theorem build_components_scc:
  assumes "plan_shape p"
  shows "\<exists>q. build_components p = Some q \<and> alike p q \<and>
    (\<forall>v < length (pl_n q). 0 \<le> cmp q v \<and> cmp q v < int (length (pl_comp q))) \<and>
    (\<forall>c < length (pl_comp q). distinct (pl_comp q ! c) \<and> pl_comp q ! c \<noteq> [] \<and> set (pl_comp q ! c) = {v. v < length (pl_n q) \<and> cmp q v = int c}) \<and>
    (\<forall>(a, b) \<in> set (pl_e q). cmp q b \<le> cmp q a) \<and>
    (\<forall>a < length (pl_n q). \<forall>b < length (pl_n q). cmp q a = cmp q b \<longleftrightarrow> (a, b) \<in> (set (pl_e q))\<^sup>* \<and> (b, a) \<in> (set (pl_e q))\<^sup>*)"
  using build_components_facts [OF assms] .

definition demo_graph :: plan where
  "demo_graph = \<lparr>pl_n = map (\<lambda>n. new_node (entry_zero\<lparr>re_package := n\<rparr>)) [''a'', ''b'', ''c''], pl_e = [(0, 1), (1, 2), (2, 1)],
     pl_valid = True, pl_conflict = None, pl_next = 0, pl_stack = [], pl_comp = []\<rparr>"

theorem build_components_scc_witness:
  "\<exists>q. build_components demo_graph = Some q \<and> cmp q 1 = cmp q 2 \<and> cmp q 1 \<le> cmp q 0 \<and> cmp q 0 < int (length (pl_comp q))"
proof -
  have s: "plan_shape demo_graph" by (simp add: plan_shape_def demo_graph_def MAX_NODES_def MAX_EDGES_def new_node_def)
  obtain q where q: "build_components demo_graph = Some q" "alike demo_graph q" "\<forall>v < length (pl_n q). 0 \<le> cmp q v \<and> cmp q v < int (length (pl_comp q))"
    "\<forall>(a, b) \<in> set (pl_e q). cmp q b \<le> cmp q a" using build_components_scc [OF s] by (elim exE conjE)
  have e: "pl_e q = [(0, 1), (1, 2), (2, 1)]" "length (pl_n q) = 3" using q(2) by (simp_all add: alike_def demo_graph_def)
  then have "cmp q 1 \<le> cmp q 0" "cmp q 2 \<le> cmp q 1" "cmp q 1 \<le> cmp q 2" "cmp q 0 < int (length (pl_comp q))" using q(3,4) by simp_all
  then show ?thesis using q(1) by auto
qed

end
