(* ===== verification/Pkg_Order.thy ===== *)
theory Pkg_Order
  imports Pkg_Scc "HOL-Library.Sublist"
begin

text \<open>
  The dependency planner (\<^verbatim>\<open>src/pkg_plan.c\<close>), third part: building the plan for a package, and the walks over its components that print it,
  install it and audit it.

  The three walks of the code share their recursion, \<open>comp_walk\<close>, and differ in what they do with a component once its dependencies are
  done; the flags of the components already handled are a list beside the plan. The installer's callback may depend on all calls
  made before. The lemmas show that a valid plan is closed under dependencies where all records of a package provide the same names,
  that the walk visits every component once with its dependencies first, and so that a package is handed to the installer only after what it depends on, up
  to the first call that fails.
\<close>

section \<open>Building a plan\<close>

definition plan_empty :: plan where
  "plan_empty = \<lparr>pl_n = [], pl_e = [], pl_valid = True, pl_conflict = None, pl_next = 0, pl_stack = [], pl_comp = []\<rparr>"

definition build_plan :: "pkg_repo \<Rightarrow> string option \<Rightarrow> string \<Rightarrow> (plan \<times> nat option) option" where
  "build_plan r status package =
     (case pkg_repo_find_best r package [] [] of
        None \<Rightarrow> Some (plan_fail (Pkg_Missing package) plan_empty, None)
      | Some e \<Rightarrow>
          (case node_for e plan_empty of
             (None, p) \<Rightarrow> Some (plan_fail Graph_Full p, None)
           | (Some ri, p) \<Rightarrow>
               (let p = (if state_has status package (re_version e) then upd_node ri (nd_installed_update (\<lambda>_. True)) p else p)
                in case expand (Suc MAX_NODES) r status ri p of
                     None \<Rightarrow> None
                   | Some (b, p) \<Rightarrow> map_option (\<lambda>p. (p, Some ri)) (build_components p))))"

section \<open>Walking the components\<close>

definition comp_deps :: "plan \<Rightarrow> nat \<Rightarrow> int list" where
  "comp_deps p c = concat (map (\<lambda>m. map (\<lambda>(a, b). cmp p b) (filter (\<lambda>(a, b). a = m) (pl_e p))) (pl_comp p ! c))"

fun comp_walk :: "plan \<Rightarrow> (nat \<Rightarrow> 's \<Rightarrow> bool \<times> 's) \<Rightarrow> nat \<Rightarrow> int \<Rightarrow> bool list \<times> 's \<Rightarrow> (bool \<times> bool list \<times> 's) option"
  and walk_deps :: "plan \<Rightarrow> (nat \<Rightarrow> 's \<Rightarrow> bool \<times> 's) \<Rightarrow> nat \<Rightarrow> int \<Rightarrow> int list \<Rightarrow> bool list \<times> 's \<Rightarrow> (bool \<times> bool list \<times> 's) option" where
  "comp_walk p act 0 ci s = None"
| "comp_walk p act (Suc k) ci s =
     (if ci < 0 \<or> ci \<ge> int (length (pl_comp p)) then Some (True, s)
      else if fst s ! nat ci then Some (True, s)
      else case walk_deps p act k ci (comp_deps p (nat ci)) ((fst s)[nat ci := True], snd s) of
          None \<Rightarrow> None
        | Some (False, s) \<Rightarrow> Some (False, s)
        | Some (True, em, st) \<Rightarrow> (case act (nat ci) st of (b, st) \<Rightarrow> Some (b, em, st)))"
| "walk_deps p act k ci [] s = Some (True, s)"
| "walk_deps p act k ci (d # ds) s =
     (if d = ci then walk_deps p act k ci ds s
      else case comp_walk p act k d s of
          None \<Rightarrow> None
        | Some (False, s) \<Rightarrow> Some (False, s)
        | Some (True, s) \<Rightarrow> walk_deps p act k ci ds s)"

text \<open>From the component of the requested package, then over all components that were not reached.\<close>

definition walk_all :: "plan \<Rightarrow> (nat \<Rightarrow> 's \<Rightarrow> bool \<times> 's) \<Rightarrow> nat option \<Rightarrow> 's \<Rightarrow> (bool \<times> bool list \<times> 's) option" where
  "walk_all p act ri st =
     walk_deps p act (Suc (length (pl_comp p))) (-1) ((case ri of None \<Rightarrow> [] | Some i \<Rightarrow> [cmp p i]) @ map int [0..<length (pl_comp p)])
       (replicate (length (pl_comp p)) False, st)"

section \<open>Printing, installing, auditing\<close>

definition entry_path :: "nat \<Rightarrow> pkg_repo_entry \<Rightarrow> string option" where
  "entry_path outsz e =
     (let s = re_repo_root e @ (if re_repo_root e \<noteq> [] \<and> last (re_repo_root e) = CHR ''/'' then [] else ''/'') @ re_filename e
      in if length s \<ge> outsz then None else Some s)"

definition emit_act :: "plan \<Rightarrow> nat \<Rightarrow> (string \<times> string \<times> bool) list list \<Rightarrow> bool \<times> (string \<times> string \<times> bool) list list" where
  "emit_act p c out = (True, out @ [map (\<lambda>m. (re_package (pl_pkg p m), re_version (pl_pkg p m), nd_installed (pl_n p ! m))) (pl_comp p ! c)])"

definition print_unpack_plan :: "plan \<Rightarrow> nat option \<Rightarrow> (string \<times> string \<times> bool) list list option" where
  "print_unpack_plan p ri = map_option (\<lambda>(b, em, out). out) (walk_all p (emit_act p) ri [])"

record apply_state =
  ap_plan :: plan
  ap_calls :: "string list"
  ap_done :: nat
  ap_skip :: nat

fun apply_members :: "(string list \<Rightarrow> string \<Rightarrow> bool) \<Rightarrow> nat list \<Rightarrow> apply_state \<Rightarrow> bool \<times> apply_state" where
  "apply_members cb [] s = (True, s)"
| "apply_members cb (m # ms) s =
     (if nd_installed (pl_n (ap_plan s) ! m) then apply_members cb ms (s\<lparr>ap_skip := ap_skip s + 1\<rparr>)
      else case entry_path 1400 (pl_pkg (ap_plan s) m) of
          None \<Rightarrow> (False, s)
        | Some path \<Rightarrow>
            if cb (ap_calls s) path then
              apply_members cb ms (s\<lparr>ap_plan := upd_node m (nd_installed_update (\<lambda>_. True)) (ap_plan s), ap_calls := ap_calls s @ [path], ap_done := ap_done s + 1\<rparr>)
            else (False, s\<lparr>ap_calls := ap_calls s @ [path]\<rparr>))"

definition apply_component :: "plan \<Rightarrow> (string list \<Rightarrow> string \<Rightarrow> bool) \<Rightarrow> nat \<Rightarrow> apply_state \<Rightarrow> bool \<times> apply_state" where
  "apply_component p cb c s = apply_members cb (pl_comp p ! c) s"

definition apply_start :: "plan \<Rightarrow> apply_state" where
  "apply_start p = \<lparr>ap_plan = p, ap_calls = [], ap_done = 0, ap_skip = 0\<rparr>"

definition pkg_plan_apply :: "pkg_repo \<Rightarrow> string option \<Rightarrow> string \<Rightarrow> (string list \<Rightarrow> string \<Rightarrow> bool) \<Rightarrow> (plan_conflict option + bool \<times> apply_state) option" where
  "pkg_plan_apply r status package cb =
     (case build_plan r status package of
        None \<Rightarrow> None
      | Some (p, ri) \<Rightarrow>
          if \<not> pl_valid p then Some (Inl (pl_conflict p))
          else map_option (\<lambda>(b, em, s). Inr (b, s)) (walk_all p (apply_component p cb) ri (apply_start p)))"

fun audit_members :: "plan \<Rightarrow> (string \<Rightarrow> int) \<Rightarrow> nat list \<Rightarrow> nat \<times> nat \<Rightarrow> nat \<times> nat" where
  "audit_members p scan [] s = s"
| "audit_members p scan (m # ms) (inspected, failures) =
     (case entry_path 1400 (pl_pkg p m) of
        None \<Rightarrow> audit_members p scan ms (inspected, failures + 1)
      | Some path \<Rightarrow> audit_members p scan ms (inspected + 1, if scan path \<noteq> 0 then failures + 1 else failures))"

definition audit_component :: "plan \<Rightarrow> (string \<Rightarrow> int) \<Rightarrow> nat \<Rightarrow> nat \<times> nat \<Rightarrow> bool \<times> nat \<times> nat" where
  "audit_component p scan c s = (True, audit_members p scan (pl_comp p ! c) s)"

definition pkg_plan_audit :: "pkg_repo \<Rightarrow> string option \<Rightarrow> string \<Rightarrow> (string \<Rightarrow> int) \<Rightarrow> (plan_conflict option + nat \<times> nat) option" where
  "pkg_plan_audit r status package scan =
     (case build_plan r status package of
        None \<Rightarrow> None
      | Some (p, ri) \<Rightarrow>
          if \<not> pl_valid p then Some (Inl (pl_conflict p))
          else map_option (\<lambda>(b, em, s). Inr s) (walk_all p (audit_component p scan) ri (0, 0)))"

text \<open>What \<^verbatim>\<open>pkg_plan_run\<close> reports: the packages present and required, the cyclic groups, and the order.\<close>

record plan_report =
  rep_present :: "nat list"
  rep_required :: "nat list"
  rep_cycles :: "nat list list"
  rep_order :: "(string \<times> string \<times> bool) list list option"

definition pkg_plan_run :: "pkg_repo \<Rightarrow> string option \<Rightarrow> string \<Rightarrow> (plan_conflict option + plan \<times> plan_report) option" where
  "pkg_plan_run r status package =
     (case build_plan r status package of
        None \<Rightarrow> None
      | Some (p, None) \<Rightarrow> Some (Inl (pl_conflict p))
      | Some (p, Some ri) \<Rightarrow>
          Some (Inr (p, \<lparr>rep_present = filter (\<lambda>i. nd_installed (pl_n p ! i)) [0..<length (pl_n p)],
             rep_required = filter (\<lambda>i. \<not> nd_installed (pl_n p ! i) \<and> i \<noteq> ri) [0..<length (pl_n p)],
             rep_cycles = filter (\<lambda>c. length c > 1) (pl_comp p),
             rep_order = (if pl_valid p then print_unpack_plan p (Some ri) else None)\<rparr>)))"

section \<open>The order of a walk\<close>

text \<open>The walk that only notes the components it handles; every other walk does its work along the same list.\<close>

definition note_act :: "nat \<Rightarrow> nat list \<Rightarrow> bool \<times> nat list" where
  "note_act c cs = (True, cs @ [c])"

fun run_acts :: "(nat \<Rightarrow> 's \<Rightarrow> bool \<times> 's) \<Rightarrow> nat list \<Rightarrow> 's \<Rightarrow> bool \<times> 's" where
  "run_acts act [] st = (True, st)"
| "run_acts act (c # cs) st = (case act c st of (False, st) \<Rightarrow> (False, st) | (True, st) \<Rightarrow> run_acts act cs st)"

lemma run_acts_append: "run_acts act (xs @ ys) st = (case run_acts act xs st of (False, st) \<Rightarrow> (False, st) | (True, st) \<Rightarrow> run_acts act ys st)"
  by (induction xs arbitrary: st) (auto split: prod.splits bool.splits)

definition deps_below :: "plan \<Rightarrow> bool" where
  "deps_below p \<longleftrightarrow> (\<forall>c < length (pl_comp p). \<forall>d \<in> set (comp_deps p c). 0 \<le> d \<and> d \<le> int c)"

definition ordered :: "plan \<Rightarrow> nat list \<Rightarrow> bool" where
  "ordered p cs \<longleftrightarrow> distinct cs \<and> set cs \<subseteq> {..<length (pl_comp p)} \<and>
     (\<forall>i < length cs. \<forall>d \<in> set (comp_deps p (cs ! i)). d \<noteq> int (cs ! i) \<longrightarrow> nat d \<in> set (take i cs))"

text \<open>The flags mark the components of \<open>cs\<close>, which are done, and those of \<open>P\<close>, which are under way.\<close>

definition marked :: "plan \<Rightarrow> bool list \<Rightarrow> nat list \<Rightarrow> nat set \<Rightarrow> bool" where
  "marked p em cs P \<longleftrightarrow> length em = length (pl_comp p) \<and> (\<forall>c < length em. em ! c \<longleftrightarrow> c \<in> set cs \<union> P) \<and> ordered p cs \<and> P \<inter> set cs = {}"

lemma ordered_snoc:
  assumes "ordered p cs" and "c \<notin> set cs" and "c < length (pl_comp p)" and "\<forall>d \<in> set (comp_deps p c). d \<noteq> int c \<longrightarrow> nat d \<in> set cs"
  shows "ordered p (cs @ [c])"
  using assms by (auto simp: ordered_def nth_append less_Suc_eq)

lemma marked_begin: "marked p em cs P \<Longrightarrow> c < length (pl_comp p) \<Longrightarrow> \<not> em ! c \<Longrightarrow> marked p (em[c := True]) cs (insert c P)"
  by (auto simp: marked_def nth_list_update)

lemma walk_deps_notes:
  assumes IH: "\<And>ci em cs. marked p em cs P \<Longrightarrow> \<forall>x \<in> P. ci < int x \<Longrightarrow> ci < int k \<Longrightarrow> 0 \<le> ci \<Longrightarrow> ci < int (length (pl_comp p)) \<Longrightarrow>
      \<exists>em' cs'. comp_walk p note_act k ci (em, cs) = Some (True, em', cs @ cs') \<and> marked p em' (cs @ cs') P \<and> nat ci \<in> set (cs @ cs')"
  shows "marked p em cs P \<Longrightarrow> \<forall>d \<in> set ds. d = ci \<or> (0 \<le> d \<and> d < int (length (pl_comp p)) \<and> d < int k \<and> (\<forall>x \<in> P. d < int x)) \<Longrightarrow>
      \<exists>em' cs'. walk_deps p note_act k ci ds (em, cs) = Some (True, em', cs @ cs') \<and> marked p em' (cs @ cs') P \<and>
        (\<forall>d \<in> set ds. d \<noteq> ci \<longrightarrow> nat d \<in> set (cs @ cs'))"
proof (induction ds arbitrary: em cs)
  case Nil
  then show ?case by (intro exI [of _ em] exI [of _ "[]"]) simp
next
  case (Cons d ds)
  show ?case
  proof (cases "d = ci")
    case True
    then show ?thesis using Cons.IH [OF Cons.prems(1)] Cons.prems(2) by simp
  next
    case False
    then obtain em1 cs1 where 1: "comp_walk p note_act k d (em, cs) = Some (True, em1, cs @ cs1)" "marked p em1 (cs @ cs1) P" "nat d \<in> set (cs @ cs1)"
      using IH [OF Cons.prems(1), of d] Cons.prems(2) by auto
    obtain em2 cs2 where 2: "walk_deps p note_act k ci ds (em1, cs @ cs1) = Some (True, em2, (cs @ cs1) @ cs2)" "marked p em2 ((cs @ cs1) @ cs2) P"
      "\<forall>d \<in> set ds. d \<noteq> ci \<longrightarrow> nat d \<in> set ((cs @ cs1) @ cs2)" using Cons.IH [OF 1(2)] Cons.prems(2) by auto
    show ?thesis by (intro exI [of _ em2] exI [of _ "cs1 @ cs2"]) (use 1 2 False in auto)
  qed
qed

lemma comp_walk_notes:
  assumes "deps_below p"
  shows "marked p em cs P \<Longrightarrow> \<forall>x \<in> P. ci < int x \<Longrightarrow> ci < int k \<Longrightarrow> 0 \<le> ci \<Longrightarrow> ci < int (length (pl_comp p)) \<Longrightarrow>
      \<exists>em' cs'. comp_walk p note_act k ci (em, cs) = Some (True, em', cs @ cs') \<and> marked p em' (cs @ cs') P \<and> nat ci \<in> set (cs @ cs')"
proof (induction k arbitrary: em cs P ci)
  case (Suc k)
  have l: "nat ci < length (pl_comp p)" "length em = length (pl_comp p)" using Suc.prems by (auto simp: marked_def)
  show ?case
  proof (cases "em ! nat ci")
    case True
    then have "nat ci \<in> set cs \<union> P" using Suc.prems(1) l by (simp add: marked_def)
    moreover have "nat ci \<notin> P" using Suc.prems(2,4) by auto
    ultimately show ?thesis using Suc.prems True by (intro exI [of _ em] exI [of _ "[]"]) simp
  next
    case False
    note m = marked_begin [OF Suc.prems(1) l(1) False]
    let ?ds = "comp_deps p (nat ci)"
    have "d = ci \<or> (0 \<le> d \<and> d < int (length (pl_comp p)) \<and> d < int k \<and> (\<forall>x \<in> insert (nat ci) P. d < int x))" if "d \<in> set ?ds" for d
    proof -
      have "0 \<le> d" "d \<le> ci" using assms that l(1) Suc.prems(4) by (auto simp: deps_below_def)
      then show ?thesis using Suc.prems by (cases "d = ci") force+
    qed
    then obtain em' cs' where w: "walk_deps p note_act k ci ?ds (em[nat ci := True], cs) = Some (True, em', cs @ cs')"
      "marked p em' (cs @ cs') (insert (nat ci) P)" "\<forall>d \<in> set ?ds. d \<noteq> ci \<longrightarrow> nat d \<in> set (cs @ cs')"
      using walk_deps_notes [OF Suc.IH m, of ?ds ci] by blast
    have "comp_walk p note_act (Suc k) ci (em, cs) = Some (True, em', cs @ cs' @ [nat ci])" using w(1) False Suc.prems by (simp add: note_act_def)
    moreover have "nat ci \<notin> set (cs @ cs')" using w(2) by (auto simp: marked_def)
    moreover have "ordered p (cs @ cs' @ [nat ci])" using ordered_snoc [of p "cs @ cs'" "nat ci"] w l(1) Suc.prems(4) calculation(2) by (simp add: marked_def)
    moreover have "nat ci \<notin> P" using Suc.prems(2,4) by auto
    ultimately show ?thesis using w(2) by (intro exI [of _ em'] exI [of _ "cs' @ [nat ci]"]) (auto simp: marked_def)
  qed
qed simp

text \<open>Any other walk does its work along the noted list, up to the first failure.\<close>

definition follows :: "(nat \<Rightarrow> 's \<Rightarrow> bool \<times> 's) \<Rightarrow> nat list \<Rightarrow> bool list \<Rightarrow> 's \<Rightarrow> (bool \<times> bool list \<times> 's) option \<Rightarrow> bool" where
  "follows act cs em st x \<longleftrightarrow> (\<exists>b em' st'. x = Some (b, em', st') \<and> run_acts act cs st = (b, st') \<and> (b \<longrightarrow> em' = em))"

lemma follows_append:
  assumes "follows act ms em st x" and "run_acts act ms st = (True, st1) \<Longrightarrow> x = Some (True, em, st1) \<Longrightarrow> follows act ns em2 st1 y"
    and "\<And>em' st'. x = Some (True, em', st') \<Longrightarrow> z = y" and "\<And>em' st'. x = Some (False, em', st') \<Longrightarrow> z = x" and "fst (run_acts act ms st) \<Longrightarrow> snd (run_acts act ms st) = st1"
  shows "follows act (ms @ ns) em2 st z"
proof -
  obtain b em' st' where x: "x = Some (b, em', st')" "run_acts act ms st = (b, st')" "b \<longrightarrow> em' = em" using assms(1) by (auto simp: follows_def)
  show ?thesis
  proof (cases b)
    case True
    then show ?thesis using assms(2,3,5) x by (auto simp: follows_def run_acts_append)
  next
    case False
    then show ?thesis using assms(4) x by (auto simp: follows_def run_acts_append)
  qed
qed

lemma walk_deps_follows:
  assumes IH: "\<And>ci em cs em' cs' st. comp_walk p note_act k ci (em, cs) = Some (True, em', cs') \<Longrightarrow>
      \<exists>ms. cs' = cs @ ms \<and> follows act ms em' st (comp_walk p act k ci (em, st))"
  shows "walk_deps p note_act k ci ds (em, cs) = Some (True, em', cs') \<Longrightarrow> \<exists>ms. cs' = cs @ ms \<and> follows act ms em' st (walk_deps p act k ci ds (em, st))"
proof (induction ds arbitrary: em cs st)
  case Nil
  then show ?case by (auto simp: follows_def)
next
  case (Cons d ds)
  show ?case
  proof (cases "d = ci")
    case True
    then show ?thesis using Cons by simp
  next
    case False
    obtain b1 em1 cs1 where 1: "comp_walk p note_act k d (em, cs) = Some (b1, em1, cs1)" using Cons.prems False by (auto split: option.splits)
    have b1: "b1" using Cons.prems False 1 by (cases b1) auto
    have w: "walk_deps p note_act k ci ds (em1, cs1) = Some (True, em', cs')" using Cons.prems False 1 b1 by simp
    obtain ms where ms: "cs1 = cs @ ms" "follows act ms em1 st (comp_walk p act k d (em, st))" using IH [of d em cs em1 cs1 st] 1 b1 by auto
    define st1 where "st1 = snd (run_acts act ms st)"
    obtain ns where ns: "cs' = cs1 @ ns" "follows act ns em' st1 (walk_deps p act k ci ds (em1, st1))" using Cons.IH [OF w] by blast
    have "follows act (ms @ ns) em' st (walk_deps p act k ci (d # ds) (em, st))"
    proof (rule follows_append [OF ms(2) ns(2)])
      fix e s assume x: "comp_walk p act k d (em, st) = Some (True, e, s)"
      then have "e = em1" "s = st1" using ms(2) by (auto simp: follows_def st1_def)
      then show "walk_deps p act k ci (d # ds) (em, st) = walk_deps p act k ci ds (em1, st1)" using x False by simp
    next
      fix e s assume "comp_walk p act k d (em, st) = Some (False, e, s)"
      then show "walk_deps p act k ci (d # ds) (em, st) = comp_walk p act k d (em, st)" using False by simp
    qed (simp add: st1_def)
    then show ?thesis using ms(1) ns(1) by (intro exI [of _ "ms @ ns"]) simp
  qed
qed

lemma comp_walk_follows:
  "comp_walk p note_act k ci (em, cs) = Some (True, em', cs') \<Longrightarrow> \<exists>ms. cs' = cs @ ms \<and> follows act ms em' st (comp_walk p act k ci (em, st))"
proof (induction k arbitrary: ci em cs em' cs' st)
  case (Suc k)
  show ?case
  proof (cases "ci < 0 \<or> ci \<ge> int (length (pl_comp p)) \<or> em ! nat ci")
    case True
    then have "em' = em" "cs' = cs" "comp_walk p act (Suc k) ci (em, st) = Some (True, em, st)" using Suc.prems by (auto split: if_splits)
    then show ?thesis unfolding follows_def by (intro exI [of _ "[]"]) (auto simp del: comp_walk.simps)
  next
    case False
    let ?em = "em[nat ci := True]" and ?ds = "comp_deps p (nat ci)"
    obtain b1 em1 cs1 where 1: "walk_deps p note_act k ci ?ds (?em, cs) = Some (b1, em1, cs1)"
      using Suc.prems False by (cases "walk_deps p note_act k ci ?ds (?em, cs)") auto
    have b1: "b1" using Suc.prems False 1 by (cases b1) simp_all
    have e: "em' = em1" "cs' = cs1 @ [nat ci]" using Suc.prems False 1 b1 by (simp_all add: note_act_def [of "nat ci"])
    obtain ms where ms: "cs1 = cs @ ms" "follows act ms em1 st (walk_deps p act k ci ?ds (?em, st))"
      using walk_deps_follows [OF Suc.IH, where ci = ci and ds = ?ds and em = ?em and cs = cs and em' = em1 and cs' = cs1 and st = st] 1 b1 by auto
    define st1 where "st1 = snd (run_acts act ms st)"
    have "follows act (ms @ [nat ci]) em1 st (comp_walk p act (Suc k) ci (em, st))"
    proof (rule follows_append [OF ms(2), of st1 _ _ "case act (nat ci) st1 of (b, s) \<Rightarrow> Some (b, em1, s)"])
      show "follows act [nat ci] em1 st1 (case act (nat ci) st1 of (b, s) \<Rightarrow> Some (b, em1, s))"
        by (cases "act (nat ci) st1"; cases "fst (act (nat ci) st1)") (auto simp: follows_def)
    next
      fix e s assume x: "walk_deps p act k ci ?ds (?em, st) = Some (True, e, s)"
      then have "e = em1" "s = st1" using ms(2) by (auto simp: follows_def st1_def)
      then show "comp_walk p act (Suc k) ci (em, st) = (case act (nat ci) st1 of (b, s) \<Rightarrow> Some (b, em1, s))" using x False by simp
    next
      fix e s assume "walk_deps p act k ci ?ds (?em, st) = Some (False, e, s)"
      then show "comp_walk p act (Suc k) ci (em, st) = walk_deps p act k ci ?ds (?em, st)" using False by simp
    qed (simp add: st1_def)
    then show ?thesis using ms(1) e by (intro exI [of _ "ms @ [nat ci]"]) simp
  qed
qed simp

lemma walk_all_order:
  assumes "deps_below p" and "\<forall>i. ri = Some i \<longrightarrow> 0 \<le> cmp p i \<and> cmp p i < int (length (pl_comp p))"
  shows "\<exists>cs. ordered p cs \<and> set cs = {..<length (pl_comp p)} \<and>
    (\<forall>act (st :: 's). \<exists>em. walk_all p act ri st = (case run_acts act cs st of (b, st') \<Rightarrow> Some (b, em, st')))"
proof -
  let ?n = "length (pl_comp p)" and ?ds = "(case ri of None \<Rightarrow> [] | Some i \<Rightarrow> [cmp p i]) @ map int [0..<length (pl_comp p)]"
  have m: "marked p (replicate ?n False) [] {}" by (simp add: marked_def ordered_def)
  have "\<forall>d \<in> set ?ds. d = -1 \<or> (0 \<le> d \<and> d < int ?n \<and> d < int (Suc ?n) \<and> (\<forall>x \<in> {}. d < int x))" using assms(2) by (auto split: option.splits)
  then obtain em cs where w: "walk_deps p note_act (Suc ?n) (-1) ?ds (replicate ?n False, []) = Some (True, em, [] @ cs)" "marked p em ([] @ cs) {}"
    "\<forall>d \<in> set ?ds. d \<noteq> -1 \<longrightarrow> nat d \<in> set ([] @ cs)"
    using walk_deps_notes [OF comp_walk_notes [OF assms(1)] m, where ds = ?ds and ci = "-1" and k = "Suc ?n"] by blast
  have o: "ordered p cs" using w(2) by (simp add: marked_def)
  have "{..<?n} \<subseteq> set cs"
  proof
    fix c assume "c \<in> {..<?n}"
    then have "int c \<in> set ?ds" by auto
    then show "c \<in> set cs" using w(3) by force
  qed
  then have s: "set cs = {..<?n}" using o by (auto simp: ordered_def)
  have "\<exists>em. walk_all p act ri st = (case run_acts act cs st of (b, st') \<Rightarrow> Some (b, em, st'))" for act :: "nat \<Rightarrow> 's \<Rightarrow> bool \<times> 's" and st
    using walk_deps_follows [OF comp_walk_follows w(1) [unfolded append_Nil], where act = act and st = st]
    by (auto simp: follows_def walk_all_def)
  then show ?thesis using o s by blast
qed

section \<open>From components to packages\<close>

definition precedes :: "'a list \<Rightarrow> 'a \<Rightarrow> 'a \<Rightarrow> bool" where
  "precedes xs a b \<longleftrightarrow> (\<exists>us vs ws. xs = us @ a # vs @ b # ws)"

text \<open>What \<^verbatim>\<open>build_components\<close> provides.\<close>

definition sorted_plan :: "plan \<Rightarrow> bool" where
  "sorted_plan q \<longleftrightarrow> plan_shape q \<and>
    (\<forall>v < length (pl_n q). 0 \<le> cmp q v \<and> cmp q v < int (length (pl_comp q))) \<and>
    (\<forall>c < length (pl_comp q). distinct (pl_comp q ! c) \<and> pl_comp q ! c \<noteq> [] \<and> set (pl_comp q ! c) = {v. v < length (pl_n q) \<and> cmp q v = int c}) \<and>
    (\<forall>(a, b) \<in> set (pl_e q). cmp q b \<le> cmp q a) \<and>
    (\<forall>a < length (pl_n q). \<forall>b < length (pl_n q). cmp q a = cmp q b \<longleftrightarrow> (a, b) \<in> (set (pl_e q))\<^sup>* \<and> (b, a) \<in> (set (pl_e q))\<^sup>*)"

lemma comp_deps_set: "set (comp_deps p c) = {cmp p b |a b. a \<in> set (pl_comp p ! c) \<and> (a, b) \<in> set (pl_e p)}"
  by (auto simp: comp_deps_def image_iff)

lemma sorted_plan_facts:
  assumes "sorted_plan q"
  shows "v < length (pl_n q) \<Longrightarrow> 0 \<le> cmp q v \<and> cmp q v < int (length (pl_comp q))"
    and "c < length (pl_comp q) \<Longrightarrow> distinct (pl_comp q ! c) \<and> pl_comp q ! c \<noteq> [] \<and> set (pl_comp q ! c) = {v. v < length (pl_n q) \<and> cmp q v = int c}"
    and "a < length (pl_n q) \<Longrightarrow> b < length (pl_n q) \<Longrightarrow> cmp q a = cmp q b \<longleftrightarrow> (a, b) \<in> (set (pl_e q))\<^sup>* \<and> (b, a) \<in> (set (pl_e q))\<^sup>*"
    and "(a, b) \<in> set (pl_e q) \<Longrightarrow> a < length (pl_n q) \<and> b < length (pl_n q)"
  using assms unfolding sorted_plan_def plan_shape_def by blast+

lemma sorted_plan_below:
  assumes "sorted_plan p"
  shows "deps_below p"
  unfolding deps_below_def
proof (intro allI impI ballI)
  fix c d assume "c < length (pl_comp p)" and "d \<in> set (comp_deps p c)"
  then obtain a b where ab: "d = cmp p b" "a \<in> set (pl_comp p ! c)" "(a, b) \<in> set (pl_e p)" by (auto simp: comp_deps_set)
  then have "cmp p a = int c" "b < length (pl_n p)" using assms \<open>c < length (pl_comp p)\<close> by (auto simp: sorted_plan_def plan_shape_def)
  then show "0 \<le> d \<and> d \<le> int c" using assms ab by (auto simp: sorted_plan_def)
qed

lemma precedes_concat:
  assumes "i < j" and "j < length xss" and "a \<in> set (xss ! i)" and "b \<in> set (xss ! j)"
  shows "precedes (concat xss) a b"
proof -
  obtain u1 u2 where u: "xss ! i = u1 @ a # u2" using assms(3) split_list by fast
  obtain w1 w2 where w: "xss ! j = w1 @ b # w2" using assms(4) split_list by fast
  have "xss = take i xss @ xss ! i # drop (Suc i) xss" using assms by (intro id_take_nth_drop) simp
  moreover have "drop (Suc i) xss = take (j - Suc i) (drop (Suc i) xss) @ xss ! j # drop (Suc j) xss"
    using id_take_nth_drop [of "j - Suc i" "drop (Suc i) xss"] assms by simp
  ultimately have "xss = take i xss @ xss ! i # take (j - Suc i) (drop (Suc i) xss) @ xss ! j # drop (Suc j) xss" by simp
  then have "concat xss = (concat (take i xss) @ u1) @ a # (u2 @ concat (take (j - Suc i) (drop (Suc i) xss)) @ w1) @ b # (w2 @ concat (drop (Suc j) xss))"
    using u w by (metis append.assoc append_Cons concat.simps(2) concat_append)
  then show ?thesis unfolding precedes_def by blast
qed

lemma node_order:
  assumes "sorted_plan p" and "ordered p cs" and "set cs = {..<length (pl_comp p)}"
  defines "ns \<equiv> concat (map (\<lambda>c. pl_comp p ! c) cs)"
  shows "distinct ns" and "set ns = {..<length (pl_n p)}"
    and "(a, b) \<in> set (pl_e p) \<Longrightarrow> (b, a) \<notin> (set (pl_e p))\<^sup>* \<Longrightarrow> precedes ns b a"
proof -
  have m: "set (pl_comp p ! c) = {v. v < length (pl_n p) \<and> cmp p v = int c}" "distinct (pl_comp p ! c)" "pl_comp p ! c \<noteq> []" if "c \<in> set cs" for c
    using sorted_plan_facts(2) [OF assms(1), of c] assms(3) that by simp_all
  have d: "distinct cs" using assms(2) by (simp add: ordered_def)
  have inj: "inj_on (\<lambda>c. pl_comp p ! c) (set cs)"
  proof (rule inj_onI)
    fix c e assume ce: "c \<in> set cs" "e \<in> set cs" "pl_comp p ! c = pl_comp p ! e"
    have x: "hd (pl_comp p ! c) \<in> set (pl_comp p ! c)" using m(3) [OF ce(1)] by simp
    then have "cmp p (hd (pl_comp p ! c)) = int c" using m(1) [OF ce(1)] by simp
    moreover have "cmp p (hd (pl_comp p ! c)) = int e" using x m(1) [OF ce(2)] unfolding ce(3) by simp
    ultimately show "c = e" by simp
  qed
  show "distinct ns" unfolding ns_def
  proof (rule distinct_concat)
    show "distinct (map (\<lambda>c. pl_comp p ! c) cs)" using d inj by (simp add: distinct_map)
    show "distinct ys" if "ys \<in> set (map (\<lambda>c. pl_comp p ! c) cs)" for ys using that m(2) by auto
    show "set ys \<inter> set zs = {}" if yz: "ys \<in> set (map (\<lambda>c. pl_comp p ! c) cs)" "zs \<in> set (map (\<lambda>c. pl_comp p ! c) cs)" "ys \<noteq> zs" for ys zs
    proof -
      obtain c e where ce: "c \<in> set cs" "e \<in> set cs" "ys = pl_comp p ! c" "zs = pl_comp p ! e" "c \<noteq> e" using yz by auto
      show ?thesis unfolding ce(3,4) m(1) [OF ce(1)] m(1) [OF ce(2)] using ce(5) by auto
    qed
  qed
  have "set ns = (\<Union>c \<in> set cs. {v. v < length (pl_n p) \<and> cmp p v = int c})" unfolding ns_def using m(1) by simp
  moreover have "nat (cmp p v) \<in> set cs \<and> cmp p v = int (nat (cmp p v))" if "v < length (pl_n p)" for v
    using sorted_plan_facts(1) [OF assms(1) that] assms(3) by (simp add: nat_less_iff)
  ultimately show "set ns = {..<length (pl_n p)}" by blast
  assume e: "(a, b) \<in> set (pl_e p)" and nb: "(b, a) \<notin> (set (pl_e p))\<^sup>*"
  have r: "a < length (pl_n p)" "b < length (pl_n p)" using sorted_plan_facts(4) [OF assms(1) e] by auto
  have ne: "cmp p a \<noteq> cmp p b" using sorted_plan_facts(3) [OF assms(1) r] nb by blast
  have ca: "0 \<le> cmp p a" "0 \<le> cmp p b" "cmp p a < int (length (pl_comp p))"
    using sorted_plan_facts(1) [OF assms(1) r(1)] sorted_plan_facts(1) [OF assms(1) r(2)] by simp_all
  have "nat (cmp p a) \<in> set cs" using assms(3) ca by (simp add: nat_less_iff)
  then obtain j where j: "j < length cs" "cs ! j = nat (cmp p a)" by (auto simp: in_set_conv_nth)
  have am: "a \<in> set (pl_comp p ! (cs ! j))" unfolding m(1) [OF nth_mem [OF j(1)]] using j(2) r(1) ca(1) by simp
  then have "cmp p b \<in> set (comp_deps p (cs ! j))" using e unfolding comp_deps_set by blast
  moreover have "cmp p b \<noteq> int (cs ! j)" using j(2) ne ca(1) by simp
  ultimately have "nat (cmp p b) \<in> set (take j cs)" using assms(2) j(1) unfolding ordered_def by blast
  then obtain i where i: "i < j" "cs ! i = nat (cmp p b)" by (auto simp: in_set_conv_nth)
  have "b \<in> set (pl_comp p ! (cs ! i))" unfolding m(1) [OF nth_mem [OF less_trans [OF i(1) j(1)]]] using i(2) r(2) ca(2) by simp
  then show "precedes ns b a" unfolding ns_def using precedes_concat [of i j "map (\<lambda>c. pl_comp p ! c) cs" b a] i j am by simp
qed

section \<open>A valid plan\<close>

lemma sorted_plan_built:
  assumes "plan_shape p"
  shows "\<exists>q. build_components p = Some q \<and> alike p q \<and> sorted_plan q"
  using build_components_facts [OF assms] plan_shape_alike assms unfolding sorted_plan_def by blast

lemma group_met_alike: "alike p q \<Longrightarrow> group_met ans status q i g = group_met ans status p i g"
  unfolding group_met_def alike_def by auto

lemma node_met_alike: "alike p q \<Longrightarrow> i < length (pl_n p) \<Longrightarrow> node_met ans status q i = node_met ans status p i"
  by (simp add: node_met_def field_met_def group_met_alike) (simp add: alike_def)

lemma from_repo_alike: "alike p q \<Longrightarrow> from_repo r q = from_repo r p"
  by (simp add: from_repo_pkg alike_def)

lemma build_plan_cases:
  obtains (missing) "pkg_repo_find_best r package [] [] = None" "build_plan r status package = Some (plan_fail (Pkg_Missing package) plan_empty, None)"
  | (built) e p where "pkg_repo_find_best r package [] [] = Some e" "build_plan r status package = Some (p, Some 0)" "sorted_plan p" "from_repo r p"
      "pl_valid p \<longrightarrow> 0 < length (pl_n p) \<and> pl_pkg p 0 = e \<and> (\<forall>i < length (pl_n p). node_met (may_answer r) status p i)"
proof (cases "pkg_repo_find_best r package [] []")
  case None
  then show ?thesis using missing by (simp add: build_plan_def)
next
  case (Some e)
  let ?i = "state_has status package (re_version e)"
  have nf: "node_for e plan_empty = (Some 0, plan_start e False)"
    by (simp add: node_for_def plan_empty_def node_named_def plan_start_def new_node_def MAX_NODES_def)
  have st: "(if ?i then upd_node 0 (nd_installed_update (\<lambda>_. True)) (plan_start e False) else plan_start e False) = plan_start e ?i"
    by (simp add: upd_node_def plan_start_def)
  obtain b q where q: "expand (Suc MAX_NODES) r status 0 (plan_start e ?i) = Some (b, q)" "plan_shape q" "pl_valid q = b" "from_repo r q"
    "b \<longrightarrow> 0 < length (pl_n q) \<and> pl_pkg q 0 = e \<and> (\<forall>i < length (pl_n q). node_met (may_answer r) status q i)" using expand_start [OF conjunct2 [OF find_best_candidate [OF Some]]] by blast
  obtain t where t: "build_components q = Some t" "alike q t" "sorted_plan t" using sorted_plan_built [OF q(2)] by blast
  have "build_plan r status package = Some (t, Some 0)"
    unfolding build_plan_def Some option.case nf prod.case Let_def st q(1) t(1) by simp
  moreover have "pl_valid t \<longrightarrow> 0 < length (pl_n t) \<and> pl_pkg t 0 = e \<and> (\<forall>i < length (pl_n t). node_met (may_answer r) status t i)"
    using q(3,5) t(2) node_met_alike [OF t(2)] by (simp add: alike_def)
  moreover have "from_repo r t" using q(4) from_repo_alike [OF t(2)] by simp
  ultimately show ?thesis using built Some t(3) by blast
qed

section \<open>Installing\<close>

definition member_path :: "plan \<Rightarrow> nat \<Rightarrow> string" where
  "member_path p m = the (entry_path 1400 (pl_pkg p m))"

lemma apply_members_append:
  "apply_members cb (xs @ ys) s = (case apply_members cb xs s of (False, s) \<Rightarrow> (False, s) | (True, s) \<Rightarrow> apply_members cb ys s)"
  by (induction cb xs s rule: apply_members.induct) (auto split: option.splits)

lemma run_apply: "run_acts (apply_component p cb) cs s = apply_members cb (concat (map (\<lambda>c. pl_comp p ! c) cs)) s"
  by (induction cs arbitrary: s) (auto simp: apply_component_def apply_members_append split: prod.splits bool.splits)

text \<open>What the installer is called with. \<open>todo\<close> are the nodes not yet present, in order, and \<open>call_ok\<close> is the answer of the installer to
  call number \<open>i\<close>, given the calls before. After \<open>k\<close> calls the walk of a list of members has stopped: at its end, because the last call failed, or
  because the path of the next package is too long.\<close>

definition todo :: "plan \<Rightarrow> nat list \<Rightarrow> nat list" where
  "todo p ns = filter (\<lambda>m. \<not> nd_installed (pl_n p ! m)) ns"

definition call_ok :: "(string list \<Rightarrow> string \<Rightarrow> bool) \<Rightarrow> string list \<Rightarrow> nat \<Rightarrow> bool" where
  "call_ok cb ps i = cb (take i ps) (ps ! i)"

definition stops_after :: "(string list \<Rightarrow> string \<Rightarrow> bool) \<Rightarrow> plan \<Rightarrow> nat list \<Rightarrow> nat \<Rightarrow> bool \<Rightarrow> bool" where
  "stops_after cb p ms k ok \<longleftrightarrow> k \<le> length ms \<and> (\<forall>i. Suc i < k \<longrightarrow> call_ok cb (map (member_path p) ms) i) \<and>
     (if ok then k = length ms \<and> (\<forall>i < k. call_ok cb (map (member_path p) ms) i)
      else 0 < k \<and> \<not> call_ok cb (map (member_path p) ms) (k - 1) \<or>
           k < length ms \<and> (\<forall>i < k. call_ok cb (map (member_path p) ms) i) \<and> entry_path 1400 (pl_pkg p (ms ! k)) = None)"

lemma call_ok_Cons [simp]:
  "call_ok cb (x # ps) 0 = cb [] x" "call_ok cb (x # ps) (Suc i) = call_ok (\<lambda>cs. cb (x # cs)) ps i"
  by (simp_all add: call_ok_def)

lemma stops_after_Cons:
  assumes "cb [] (member_path p m)" and "stops_after (\<lambda>cs. cb (member_path p m # cs)) p ms k ok"
  shows "stops_after cb p (m # ms) (Suc k) ok"
proof -
  let ?ps = "map (member_path p) ms" and ?c = "\<lambda>cs. cb (member_path p m # cs)"
  have s: "(\<forall>i < Suc k. call_ok cb (member_path p m # ?ps) i) \<longleftrightarrow> (\<forall>i < k. call_ok ?c ?ps i)"
    using assms(1) by (simp add: All_less_Suc2)
  have b: "call_ok cb (member_path p m # ?ps) i" if "Suc i < Suc k" for i
    using assms that by (cases i) (auto simp: stops_after_def)
  have c: "call_ok cb (member_path p m # ?ps) k = call_ok ?c ?ps (k - 1)" if "0 < k"
    using that by (cases k) simp_all
  show ?thesis
  proof (cases ok)
    case True
    then have "k = length ms" "\<forall>i < Suc k. call_ok cb (member_path p m # ?ps) i" using assms(2) unfolding s by (simp_all add: stops_after_def)
    then show ?thesis using True by (simp add: stops_after_def)
  next
    case False
    then consider "0 < k" "\<not> call_ok ?c ?ps (k - 1)" | "k < length ms" "\<forall>i < k. call_ok ?c ?ps i" "entry_path 1400 (pl_pkg p (ms ! k)) = None"
      using assms(2) by (auto simp: stops_after_def)
    then show ?thesis
    proof cases
      case 1
      then show ?thesis using assms(2) b c False by (simp add: stops_after_def)
    next
      case 2
      then show ?thesis using b False unfolding s [symmetric] by (simp add: stops_after_def)
    qed
  qed
qed

lemma apply_members_calls:
  assumes "distinct ms" and "\<forall>m \<in> set ms. m < length (pl_n (ap_plan s)) \<and> pl_pkg (ap_plan s) m = pl_pkg p m \<and> nd_installed (pl_n (ap_plan s) ! m) = nd_installed (pl_n p ! m)"
    and "apply_members cb ms s = (b, t)"
  shows "\<exists>k. stops_after (\<lambda>cs. cb (ap_calls s @ cs)) p (todo p ms) k b \<and> ap_calls t = ap_calls s @ take k (map (member_path p) (todo p ms)) \<and>
    (\<forall>m. nd_installed (pl_n (ap_plan t) ! m) \<longleftrightarrow> nd_installed (pl_n (ap_plan s) ! m) \<or>
       (\<exists>i < k. call_ok (\<lambda>cs. cb (ap_calls s @ cs)) (map (member_path p) (todo p ms)) i \<and> todo p ms ! i = m))"
  using assms
proof (induction cb ms s rule: apply_members.induct)
  case (1 cb s)
  then show ?case by (auto simp: todo_def stops_after_def)
next
  case (2 cb m ms s)
  have m: "m < length (pl_n (ap_plan s))" "pl_pkg (ap_plan s) m = pl_pkg p m" "nd_installed (pl_n (ap_plan s) ! m) = nd_installed (pl_n p ! m)" using 2(4) by auto
  show ?case
  proof (cases "nd_installed (pl_n (ap_plan s) ! m)")
    case True
    then show ?thesis using 2(1) [OF True] 2(3-5) m(3) by (simp add: todo_def)
  next
    case False
    then have td: "todo p (m # ms) = m # todo p ms" using m(3) by (simp add: todo_def)
    show ?thesis
    proof (cases "entry_path 1400 (pl_pkg (ap_plan s) m)")
      case None
      then have "stops_after (\<lambda>cs. cb (ap_calls s @ cs)) p (todo p (m # ms)) 0 b" "t = s" using False 2(5) m(2) by (auto simp: td stops_after_def)
      then show ?thesis by (intro exI [of _ 0]) simp
    next
      case (Some pth)
      then have mp: "member_path p m = pth" by (simp add: member_path_def m(2))
      show ?thesis
      proof (cases "cb (ap_calls s) pth")
        case fl: False
        then have "stops_after (\<lambda>cs. cb (ap_calls s @ cs)) p (todo p (m # ms)) 1 b" "t = s\<lparr>ap_calls := ap_calls s @ [pth]\<rparr>"
          using False Some 2(5) mp by (auto simp: td stops_after_def)
        then show ?thesis using fl by (intro exI [of _ 1]) (simp add: td mp)
      next
        case True
        let ?p = "upd_node m (nd_installed_update (\<lambda>_. True)) (ap_plan s)"
        let ?s = "s\<lparr>ap_plan := ?p, ap_calls := ap_calls s @ [pth], ap_done := ap_done s + 1\<rparr>"
        let ?cb = "\<lambda>cs. cb (ap_calls ?s @ cs)" and ?ps = "map (member_path p) (todo p ms)"
        have h1: "\<forall>n \<in> set ms. n < length (pl_n (ap_plan ?s)) \<and> pl_pkg (ap_plan ?s) n = pl_pkg p n \<and> nd_installed (pl_n (ap_plan ?s) ! n) = nd_installed (pl_n p ! n)"
          using 2(3,4) by (auto simp: upd_keeps upd_nth)
        have h2: "apply_members cb ms ?s = (b, t)" using 2(5) False Some True by simp
        have h0: "distinct ms" using 2(3) by simp
        obtain k where k: "stops_after ?cb p (todo p ms) k b" "ap_calls t = ap_calls ?s @ take k ?ps"
          "\<forall>n. nd_installed (pl_n (ap_plan t) ! n) \<longleftrightarrow> nd_installed (pl_n ?p ! n) \<or> (\<exists>i < k. call_ok ?cb ?ps i \<and> todo p ms ! i = n)"
          using 2(2) [OF False Some True h0 h1 h2] by auto
        have "stops_after (\<lambda>cs. cb (ap_calls s @ cs)) p (todo p (m # ms)) (Suc k) b"
          unfolding td using stops_after_Cons [of "\<lambda>cs. cb (ap_calls s @ cs)" p m "todo p ms" k b] True k(1) by (simp add: mp)
        moreover have "nd_installed (pl_n ?p ! n) \<longleftrightarrow> nd_installed (pl_n (ap_plan s) ! n) \<or> n = m" for n using m(1) by (auto simp: upd_nth)
        ultimately show ?thesis using k(2,3) True by (intro exI [of _ "Suc k"]) (auto simp: td mp Ex_less_Suc2)
      qed
    qed
  qed
qed

section \<open>Properties\<close>

text \<open>C10. A plan is closed under dependencies. Building one always returns, and when it is valid it contains the latest record of the
  requested package. If moreover all records of a package in the repository provide the same names, every dependency group of every package in
  a valid plan is met: by the target as it is, or by a package of the plan whose own record has the name and a version as required or provides the
  name; the plan then also has the edge, unless the array of edges is full. Without the condition a group may be left unmet, as
  \<open>plan_keeps_other_record\<close> below shows.\<close>

theorem plan_closed:
  "\<exists>p ri. build_plan r status package = Some (p, ri) \<and>
     (pl_valid p \<longrightarrow> ri = Some 0 \<and> 0 < length (pl_n p) \<and> pkg_repo_find_best r package [] [] = Some (pl_pkg p 0) \<and>
        (provides_uniform r \<longrightarrow> (\<forall>i < length (pl_n p). node_met answers status p i)))"
proof (cases rule: build_plan_cases [where r = r and package = package and status = status])
  case missing
  then show ?thesis by (simp add: plan_fail_def)
next
  case (built e p)
  then show ?thesis using node_answered [of r p status] by auto
qed

text \<open>C4. Dependencies are installed first, up to the first failure. For a valid plan there is an order of all its packages, each once, in
  which a package stands after everything it depends on, except for packages that also depend on it. Whatever the installer does, \<^verbatim>\<open>pkg_plan_apply\<close>
  returns. The calls of the installer are the paths of the packages not yet present, in that order, and each call but the last has succeeded. When
  \<^verbatim>\<open>pkg_plan_apply\<close> succeeds, every one of these packages was called for, each call succeeded and every package of the plan is marked present; when it
  fails, the last call failed or the path of the next package is too long. In both cases exactly the packages present before and those whose call
  succeeded are marked present.\<close>

theorem plan_apply_order:
  assumes "build_plan r status package = Some (p, ri)" and "pl_valid p"
  shows "\<exists>ns. distinct ns \<and> set ns = {..<length (pl_n p)} \<and>
    (\<forall>(a, b) \<in> set (pl_e p). (b, a) \<notin> (set (pl_e p))\<^sup>* \<longrightarrow> precedes ns b a) \<and>
    (\<forall>cb. \<exists>ok t k. pkg_plan_apply r status package cb = Some (Inr (ok, t)) \<and> stops_after cb p (todo p ns) k ok \<and>
       ap_calls t = take k (map (member_path p) (todo p ns)) \<and>
       (ok \<longrightarrow> ap_calls t = map (member_path p) (todo p ns) \<and> (\<forall>m < length (pl_n p). nd_installed (pl_n (ap_plan t) ! m))) \<and>
       (\<forall>m < length (pl_n p). nd_installed (pl_n (ap_plan t) ! m) \<longleftrightarrow>
          nd_installed (pl_n p ! m) \<or> (\<exists>i < k. call_ok cb (map (member_path p) (todo p ns)) i \<and> todo p ns ! i = m)))"
proof (cases rule: build_plan_cases [where r = r and package = package and status = status])
  case missing
  then show ?thesis using assms by (simp add: plan_fail_def)
next
  case (built e p')
  then have p: "sorted_plan p" "ri = Some 0" "0 < length (pl_n p)" using assms by auto
  have root: "\<forall>i. ri = Some i \<longrightarrow> 0 \<le> cmp p i \<and> cmp p i < int (length (pl_comp p))" using sorted_plan_facts(1) [OF p(1,3)] p(2) by simp
  obtain cs where cs: "ordered p cs" "set cs = {..<length (pl_comp p)}"
    and walk: "\<forall>act (st :: apply_state). \<exists>em. walk_all p act ri st = (case run_acts act cs st of (b, st') \<Rightarrow> Some (b, em, st'))"
    using walk_all_order [OF sorted_plan_below [OF p(1)] root] by (elim exE conjE)
  define ns where "ns = concat (map (\<lambda>c. pl_comp p ! c) cs)"
  note no = node_order [OF p(1) cs(1,2), folded ns_def]
  let ?todo = "map (member_path p) (todo p ns)"
  have "\<exists>ok t k. pkg_plan_apply r status package cb = Some (Inr (ok, t)) \<and> stops_after cb p (todo p ns) k ok \<and> ap_calls t = take k ?todo \<and>
     (ok \<longrightarrow> ap_calls t = ?todo \<and> (\<forall>m < length (pl_n p). nd_installed (pl_n (ap_plan t) ! m))) \<and>
     (\<forall>m < length (pl_n p). nd_installed (pl_n (ap_plan t) ! m) \<longleftrightarrow> nd_installed (pl_n p ! m) \<or> (\<exists>i < k. call_ok cb ?todo i \<and> todo p ns ! i = m))" for cb
  proof -
    obtain ok t where t: "apply_members cb ns (apply_start p) = (ok, t)" by force
    have h: "\<forall>m \<in> set ns. m < length (pl_n (ap_plan (apply_start p))) \<and> pl_pkg (ap_plan (apply_start p)) m = pl_pkg p m \<and>
        nd_installed (pl_n (ap_plan (apply_start p)) ! m) = nd_installed (pl_n p ! m)" using no(2) by (simp add: apply_start_def)
    obtain k where k: "stops_after cb p (todo p ns) k ok" "ap_calls t = take k ?todo"
      "\<And>m. nd_installed (pl_n (ap_plan t) ! m) \<longleftrightarrow> nd_installed (pl_n p ! m) \<or> (\<exists>i < k. call_ok cb ?todo i \<and> todo p ns ! i = m)"
      using apply_members_calls [OF no(1) h t] by (auto simp: apply_start_def)
    obtain em where "walk_all p (apply_component p cb) ri (apply_start p) = Some (ok, em, t)"
      using walk [THEN spec, THEN spec, of "apply_component p cb" "apply_start p"] unfolding run_apply ns_def [symmetric] t prod.case by (elim exE)
    then have a: "pkg_plan_apply r status package cb = Some (Inr (ok, t))" using assms by (simp add: pkg_plan_apply_def)
    have "nd_installed (pl_n (ap_plan t) ! m)" if "ok" "m < length (pl_n p)" for m
    proof (cases "nd_installed (pl_n p ! m)")
      case False
      then have "m \<in> set (todo p ns)" using that(2) no(2) by (simp add: todo_def)
      then obtain i where "i < length (todo p ns)" "todo p ns ! i = m" by (auto simp: in_set_conv_nth)
      then show ?thesis using k(1,3) that(1) by (auto simp: stops_after_def)
    qed (use k(3) in simp)
    moreover have "ok \<longrightarrow> ap_calls t = ?todo" using k(1,2) by (simp add: stops_after_def)
    ultimately show ?thesis using a k by (intro exI [of _ ok] exI [of _ t] exI [of _ k]) blast
  qed
  moreover have "\<forall>(a, b) \<in> set (pl_e p). (b, a) \<notin> (set (pl_e p))\<^sup>* \<longrightarrow> precedes ns b a" using no(3) by (intro ballI) (simp add: split_paired_all)
  ultimately show ?thesis using no(1,2) by (intro exI [of _ ns] conjI allI)
qed

section \<open>Witnesses\<close>

definition demo_pkg :: "string \<Rightarrow> string \<Rightarrow> pkg_repo_entry" where
  "demo_pkg n d = entry_zero\<lparr>re_package := n, re_version := ''1'', re_depends := d, re_filename := n @ ''.deb'', re_repo_root := ''/r''\<rparr>"

definition demo_pool :: pkg_repo where
  "demo_pool = \<lparr>rp_entries = [demo_pkg ''a'' ''b (>= 1), c'', demo_pkg ''b'' ''c'', demo_pkg ''c'' ''b''], rp_roots = [''/r'']\<rparr>"

lemma demo_build: "map_option (\<lambda>(p, ri). (map (\<lambda>n. (re_package (nd_e n), nd_component n)) (pl_n p), pl_e p, pl_valid p, pl_comp p, ri)) (build_plan demo_pool (Some []) ''a'') =
   Some ([(''a'', 1), (''b'', 0), (''c'', 0)], [(0, 1), (1, 2), (2, 1), (0, 2)], True, [[2, 1], [0]], Some 0)"
  by code_simp

lemma demo_not_present: "map_option (\<lambda>(p, ri). map nd_installed (pl_n p)) (build_plan demo_pool (Some []) ''a'') = Some [False, False, False]"
  by code_simp

lemma demo_plan:
  obtains p where "build_plan demo_pool (Some []) ''a'' = Some (p, Some 0)" "length (pl_n p) = 3" "pl_e p = [(0, 1), (1, 2), (2, 1), (0, 2)]" "pl_valid p"
    "pl_comp p = [[2, 1], [0]]" "\<forall>i < 3. \<not> nd_installed (pl_n p ! i)"
proof -
  obtain p ri where b: "build_plan demo_pool (Some []) ''a'' = Some (p, ri)" using demo_build by (cases "build_plan demo_pool (Some []) ''a''") auto
  then have f: "length (map (\<lambda>n. (re_package (nd_e n), nd_component n)) (pl_n p)) = 3" "pl_e p = [(0, 1), (1, 2), (2, 1), (0, 2)]" "pl_valid p" "pl_comp p = [[2, 1], [0]]" "ri = Some 0"
    using demo_build by simp_all
  have "map nd_installed (pl_n p) = replicate 3 False" using demo_not_present b by (simp add: eval_nat_numeral)
  then have "\<not> nd_installed (pl_n p ! i)" if "i < 3" for i using nth_map [of i "pl_n p" nd_installed] f(1) that by simp
  with b f that show ?thesis by simp
qed

text \<open>The condition of \<open>plan_closed\<close> holds in this repository, where no record provides anything; and it is needed: where \<^verbatim>\<open>foo 1\<close> provides
  \<^verbatim>\<open>bar\<close> and \<^verbatim>\<open>foo 2\<close> does not, a package that depends on \<^verbatim>\<open>foo\<close> and \<^verbatim>\<open>bar\<close> gets a valid plan with \<^verbatim>\<open>foo 2\<close> alone.\<close>

lemma demo_uniform: "provides_uniform demo_pool"
  by (simp add: provides_uniform_def demo_pool_def demo_pkg_def entry_zero_def)

definition mixed_pool :: pkg_repo where
  "mixed_pool = \<lparr>rp_entries = [(demo_pkg ''foo'' [])\<lparr>re_provides := ''bar''\<rparr>, (demo_pkg ''foo'' [])\<lparr>re_version := ''2''\<rparr>, demo_pkg ''x'' ''foo, bar''],
     rp_roots = [''/r'']\<rparr>"

lemma plan_keeps_other_record:
  "map_option (\<lambda>(p, ri). (map (\<lambda>n. (re_package (nd_e n), re_version (nd_e n), provides_name (re_provides (nd_e n)) ''bar'')) (pl_n p), pl_valid p))
     (build_plan mixed_pool (Some []) ''x'') = Some ([(''x'', ''1'', False), (''foo'', ''2'', False)], True)"
  by code_simp

theorem plan_closed_witness:
  "\<exists>p. build_plan demo_pool (Some []) ''a'' = Some (p, Some 0) \<and> pl_valid p \<and> node_met answers (Some []) p 0 \<and> node_met answers (Some []) p 1 \<and>
     node_met answers (Some []) p 2"
proof -
  obtain p where p: "build_plan demo_pool (Some []) ''a'' = Some (p, Some 0)" "length (pl_n p) = 3" "pl_valid p" using demo_plan by blast
  have "\<forall>i < length (pl_n p). node_met answers (Some []) p i" using plan_closed [of demo_pool "Some []" "''a''"] p demo_uniform by auto
  then show ?thesis using p by simp
qed

text \<open>An installer that accepts its first package only: the second call fails and so does \<^verbatim>\<open>pkg_plan_apply\<close>.\<close>

theorem plan_apply_order_witness:
  "\<exists>ns ok t. precedes ns 1 (0 :: nat) \<and> precedes ns 2 0 \<and> pkg_plan_apply demo_pool (Some []) ''a'' (\<lambda>calls path. calls = []) = Some (Inr (ok, t)) \<and> \<not> ok"
proof -
  obtain p where p: "build_plan demo_pool (Some []) ''a'' = Some (p, Some 0)" "pl_e p = [(0, 1), (1, 2), (2, 1), (0, 2)]" "pl_valid p"
    "length (pl_n p) = 3" "\<forall>i < 3. \<not> nd_installed (pl_n p ! i)" using demo_plan by blast
  have nr: "(x, 0) \<notin> (set (pl_e p))\<^sup>*" if "x \<noteq> 0" for x
  proof
    assume "(x, 0) \<in> (set (pl_e p))\<^sup>*"
    then show False by (cases rule: rtranclE) (use that p(2) in auto)
  qed
  obtain ns where d: "distinct ns" "set ns = {..<length (pl_n p)}" and n: "\<forall>(a, b) \<in> set (pl_e p). (b, a) \<notin> (set (pl_e p))\<^sup>* \<longrightarrow> precedes ns b a"
    and c: "\<forall>cb. \<exists>ok t k. pkg_plan_apply demo_pool (Some []) ''a'' cb = Some (Inr (ok, t)) \<and> stops_after cb p (todo p ns) k ok \<and>
       ap_calls t = take k (map (member_path p) (todo p ns)) \<and>
       (ok \<longrightarrow> ap_calls t = map (member_path p) (todo p ns) \<and> (\<forall>m < length (pl_n p). nd_installed (pl_n (ap_plan t) ! m))) \<and>
       (\<forall>m < length (pl_n p). nd_installed (pl_n (ap_plan t) ! m) \<longleftrightarrow>
          nd_installed (pl_n p ! m) \<or> (\<exists>i < k. call_ok cb (map (member_path p) (todo p ns)) i \<and> todo p ns ! i = m))"
    using plan_apply_order [OF p(1,3)] by (elim exE conjE)
  have e: "(0, 1) \<in> set (pl_e p)" "(0, 2) \<in> set (pl_e p)" using p(2) by simp_all
  have o: "precedes ns 1 0" "precedes ns 2 0" using bspec [OF n e(1)] bspec [OF n e(2)] nr [of 1] nr [of 2] by simp_all
  have td: "todo p ns = ns" "length ns = 3" using d p(4,5) distinct_card [OF d(1)] by (simp_all add: todo_def filter_id_conv)
  let ?cb = "\<lambda>calls path. calls = []"
  obtain ok t k where a: "pkg_plan_apply demo_pool (Some []) ''a'' ?cb = Some (Inr (ok, t))" "stops_after ?cb p (todo p ns) k ok"
    using c [THEN spec, of ?cb] by (elim exE conjE)
  have "\<not> call_ok ?cb (map (member_path p) ns) 1" using td(2) by (cases ns) (simp_all add: call_ok_def)
  then have "\<not> ok" using a(2) td by (auto simp: stops_after_def)
  with a(1) o show ?thesis by (intro exI [of _ ns] exI [of _ ok] exI [of _ t] conjI)
qed

end
