(* ===== verification/Sha256.thy ===== *)
theory Sha256
  imports Bytes
begin

text \<open>
  The \<^verbatim>\<open>sha256\<close> command (\<^verbatim>\<open>src/cmd_sha256.c\<close>): the streaming hash and the loop that feeds it a file.

  The context keeps the eight state words, the number of bytes seen, the block being filled and how much of it is filled. A file is
  what the successive \<^verbatim>\<open>vfs_read\<close> calls return: \<open>Some bs\<close> for a non-negative count, the empty list at the end of the file,
  \<open>None\<close> for an error. The update loop is written as a partial function, since it would turn for ever on a context
  whose block is already full; no such context is ever made, and the loop is shown to return.

  \<open>sha256_spec\<close> is the hash as FIPS 180-4 defines it, on the padded message as a whole. The lemmas show that the
  streaming code computes it however the input is cut into pieces.
\<close>

section \<open>The compression function\<close>

definition rotr32 :: "u32 \<Rightarrow> nat \<Rightarrow> u32" where
  "rotr32 x n = drop_bit n x OR push_bit (32 - n) x"

definition load_be32 :: "byte list \<Rightarrow> u32" where
  "load_be32 p = push_bit 24 (ucast (p ! 0)) OR push_bit 16 (ucast (p ! 1)) OR push_bit 8 (ucast (p ! 2)) OR ucast (p ! 3)"

definition store_be32 :: "u32 \<Rightarrow> byte list" where
  "store_be32 v = [ucast (drop_bit 24 v), ucast (drop_bit 16 v), ucast (drop_bit 8 v), ucast v]"

definition k256 :: "u32 list" where
  "k256 =
     [0x428a2f98, 0x71374491, 0xb5c0fbcf, 0xe9b5dba5] @ [0x3956c25b, 0x59f111f1, 0x923f82a4, 0xab1c5ed5] @
     [0xd807aa98, 0x12835b01, 0x243185be, 0x550c7dc3] @ [0x72be5d74, 0x80deb1fe, 0x9bdc06a7, 0xc19bf174] @
     [0xe49b69c1, 0xefbe4786, 0x0fc19dc6, 0x240ca1cc] @ [0x2de92c6f, 0x4a7484aa, 0x5cb0a9dc, 0x76f988da] @
     [0x983e5152, 0xa831c66d, 0xb00327c8, 0xbf597fc7] @ [0xc6e00bf3, 0xd5a79147, 0x06ca6351, 0x14292967] @
     [0x27b70a85, 0x2e1b2138, 0x4d2c6dfc, 0x53380d13] @ [0x650a7354, 0x766a0abb, 0x81c2c92e, 0x92722c85] @
     [0xa2bfe8a1, 0xa81a664b, 0xc24b8b70, 0xc76c51a3] @ [0xd192e819, 0xd6990624, 0xf40e3585, 0x106aa070] @
     [0x19a4c116, 0x1e376c08, 0x2748774c, 0x34b0bcb5] @ [0x391c0cb3, 0x4ed8aa4a, 0x5b9cca4f, 0x682e6ff3] @
     [0x748f82ee, 0x78a5636f, 0x84c87814, 0x8cc70208] @ [0x90befffa, 0xa4506ceb, 0xbef9a3f7, 0xc67178f2]"

record sha256_ctx =
  hh :: "u32 list"
  total :: u64
  block :: "byte list"
  used :: nat

definition w_next :: "u32 list \<Rightarrow> u32" where
  "w_next w =
     (let i = length w;
          s0 = rotr32 (w ! (i - 15)) 7 XOR rotr32 (w ! (i - 15)) 18 XOR drop_bit 3 (w ! (i - 15));
          s1 = rotr32 (w ! (i - 2)) 17 XOR rotr32 (w ! (i - 2)) 19 XOR drop_bit 10 (w ! (i - 2))
      in w ! (i - 16) + s0 + w ! (i - 7) + s1)"

primrec w_fill :: "nat \<Rightarrow> u32 list \<Rightarrow> u32 list" where
  "w_fill 0 w = w"
| "w_fill (Suc n) w = w_fill n (w @ [w_next w])"

definition w_schedule :: "byte list \<Rightarrow> u32 list" where
  "w_schedule blk = w_fill 48 (map (\<lambda>i. load_be32 (drop (i * 4) blk)) [0..<16])"

definition sha_round :: "u32 \<times> u32 \<Rightarrow> u32 list \<Rightarrow> u32 list" where
  "sha_round kw v =
     (let a = v ! 0; b = v ! 1; cc = v ! 2; d = v ! 3; e = v ! 4; f = v ! 5; g = v ! 6; h = v ! 7;
          s1 = rotr32 e 6 XOR rotr32 e 11 XOR rotr32 e 25;
          ch = (e AND f) XOR (NOT e AND g);
          t1 = h + s1 + ch + fst kw + snd kw;
          s0 = rotr32 a 2 XOR rotr32 a 13 XOR rotr32 a 22;
          maj = (a AND b) XOR (a AND cc) XOR (b AND cc);
          t2 = s0 + maj
      in [t1 + t2, a, b, cc, d + t1, e, f, g])"

definition sha256_transform :: "sha256_ctx \<Rightarrow> byte list \<Rightarrow> sha256_ctx" where
  "sha256_transform c blk = c\<lparr>hh := map2 (+) (hh c) (fold sha_round (zip k256 (w_schedule blk)) (hh c))\<rparr>"

section \<open>The streaming interface\<close>

definition sha_iv :: "u32 list" where
  "sha_iv = [0x6a09e667, 0xbb67ae85, 0x3c6ef372, 0xa54ff53a, 0x510e527f, 0x9b05688c, 0x1f83d9ab, 0x5be0cd19]"

text \<open>\<^verbatim>\<open>sha256_init\<close> does not touch the block, so the context on the stack keeps whatever was there.\<close>

definition sha256_init :: "byte list \<Rightarrow> sha256_ctx" where
  "sha256_init stale = \<lparr>hh = sha_iv, total = 0, block = stale, used = 0\<rparr>"

partial_function (option) update_loop :: "sha256_ctx \<Rightarrow> byte list \<Rightarrow> sha256_ctx option" where
  [code]: "update_loop c data =
     (if data = [] then Some c
      else let n = min (64 - used c) (length data);
               c = c\<lparr>block := blit (block c) (used c) (take n data), used := used c + n\<rparr>;
               c = (if used c = 64 then (sha256_transform c (block c))\<lparr>used := 0\<rparr> else c)
           in update_loop c (drop n data))"

definition sha256_update :: "sha256_ctx \<Rightarrow> byte list \<Rightarrow> sha256_ctx option" where
  "sha256_update c data = update_loop (c\<lparr>total := total c + of_nat (length data)\<rparr>) data"

definition sha256_final :: "sha256_ctx \<Rightarrow> byte list" where
  "sha256_final c =
     (let bits = total c * 8;
          c = c\<lparr>block := (block c)[used c := 0x80], used := used c + 1\<rparr>;
          c = (if used c > 56 then (sha256_transform c (blit (block c) (used c) (zeros (64 - used c))))
                 \<lparr>block := blit (block c) (used c) (zeros (64 - used c)), used := 0\<rparr> else c);
          blk = blit (blit (block c) (used c) (zeros (56 - used c))) 56 (map (\<lambda>i. ucast (drop_bit ((7 - i) * 8) bits)) [0..<8]);
          c = sha256_transform c blk
      in concat (map store_be32 (hh c)))"

section \<open>The command\<close>

datatype sha_result = ShaCannotOpen | ShaReadFailed | ShaCloseFailed | ShaDigest "byte list"

text \<open>The reads of a file, one after the other; \<open>None\<close> when the given reads do not reach the end of the file.\<close>

fun sha_reads :: "sha256_ctx \<Rightarrow> byte list option list \<Rightarrow> (sha_result + sha256_ctx) option" where
  "sha_reads c [] = None"
| "sha_reads c (None # rs) = Some (Inl ShaReadFailed)"
| "sha_reads c (Some bs # rs) =
     (if bs = [] then Some (Inr c)
      else case sha256_update c bs of None \<Rightarrow> None | Some c \<Rightarrow> sha_reads c rs)"

definition sha256_vfs_file :: "byte list \<Rightarrow> bool \<Rightarrow> byte list option list \<Rightarrow> bool \<Rightarrow> (int \<times> sha_result) option" where
  "sha256_vfs_file stale opened reads closed =
     (if \<not> opened then Some (1, ShaCannotOpen)
      else case sha_reads (sha256_init stale) reads of None \<Rightarrow> None
        | Some (Inl e) \<Rightarrow> Some (1, e)
        | Some (Inr c) \<Rightarrow> if \<not> closed then Some (1, ShaCloseFailed) else Some (0, ShaDigest (sha256_final c)))"

text \<open>The files named on the command line, each as \<^verbatim>\<open>sha256_vfs_file\<close> ends on it. An error on one does not stop the others.\<close>

definition cmd_sha256 :: "(string \<Rightarrow> int \<times> sha_result) \<Rightarrow> string list \<Rightarrow> int \<times> sha_result list" where
  "cmd_sha256 file argv =
     (if length argv < 2 then (2, [])
      else (fold (\<lambda>a rc. if fst (file a) \<noteq> 0 then 1 else rc) (tl argv) 0, map (\<lambda>a. snd (file a)) (tl argv)))"

section \<open>The hash function of the standard\<close>

definition small_sigma0 :: "u32 \<Rightarrow> u32" where
  "small_sigma0 x = word_rotr 7 x XOR word_rotr 18 x XOR drop_bit 3 x"

definition small_sigma1 :: "u32 \<Rightarrow> u32" where
  "small_sigma1 x = word_rotr 17 x XOR word_rotr 19 x XOR drop_bit 10 x"

definition big_sigma0 :: "u32 \<Rightarrow> u32" where
  "big_sigma0 x = word_rotr 2 x XOR word_rotr 13 x XOR word_rotr 22 x"

definition big_sigma1 :: "u32 \<Rightarrow> u32" where
  "big_sigma1 x = word_rotr 6 x XOR word_rotr 11 x XOR word_rotr 25 x"

definition sha_ch :: "u32 \<Rightarrow> u32 \<Rightarrow> u32 \<Rightarrow> u32" where
  "sha_ch x y z = (x AND y) XOR (NOT x AND z)"

definition sha_maj :: "u32 \<Rightarrow> u32 \<Rightarrow> u32 \<Rightarrow> u32" where
  "sha_maj x y z = (x AND y) XOR (x AND z) XOR (y AND z)"

fun fips_W :: "byte list \<Rightarrow> nat \<Rightarrow> u32" where
  "fips_W M t = (if t < 16 then be32 (bslice (4 * t) 4 M)
     else small_sigma1 (fips_W M (t - 2)) + fips_W M (t - 7) + small_sigma0 (fips_W M (t - 15)) + fips_W M (t - 16))"

declare fips_W.simps [simp del]

primrec fips_vars :: "byte list \<Rightarrow> u32 list \<Rightarrow> nat \<Rightarrow> u32 list" where
  "fips_vars M H 0 = H"
| "fips_vars M H (Suc t) =
     (let v = fips_vars M H t;
          T1 = v ! 7 + big_sigma1 (v ! 4) + sha_ch (v ! 4) (v ! 5) (v ! 6) + k256 ! t + fips_W M t;
          T2 = big_sigma0 (v ! 0) + sha_maj (v ! 0) (v ! 1) (v ! 2)
      in [T1 + T2, v ! 0, v ! 1, v ! 2, v ! 3 + T1, v ! 4, v ! 5, v ! 6])"

definition fips_compress :: "byte list \<Rightarrow> u32 list \<Rightarrow> u32 list" where
  "fips_compress M H = map2 (+) H (fips_vars M H 64)"

definition fips_pad :: "byte list \<Rightarrow> byte list" where
  "fips_pad m = m @ [0x80] @ zeros ((119 - length m mod 64) mod 64) @ put64be (of_nat (8 * length m))"

definition blocks64 :: "byte list \<Rightarrow> byte list list" where
  "blocks64 p = map (\<lambda>i. bslice (64 * i) 64 p) [0..<length p div 64]"

definition sha256_spec :: "byte list \<Rightarrow> byte list" where
  "sha256_spec m = concat (map put32be (fold fips_compress (blocks64 (fips_pad m)) sha_iv))"

section \<open>The compression function is that of the standard\<close>

lemma rotr32_rotr:
  assumes "0 < n" and "n < 32"
  shows "rotr32 x n = word_rotr n x"
proof (rule bit_word_eqI)
  fix k assume k: "k < LENGTH(32)"
  show "bit (rotr32 x n) k = bit (word_rotr n x) k"
  proof (cases "k + n < 32")
    case True
    then show ?thesis using k assms by (auto simp: rotr32_def bit_simps bit_word_rotr_iff add.commute)
  next
    case False
    then have "(k + n) mod 32 = k + n - 32" "\<not> bit x (n + k)"
      using k assms by (auto simp: mod_if dest: bit_imp_le_length)
    with False k assms show ?thesis by (auto simp: rotr32_def bit_simps bit_word_rotr_iff)
  qed
qed

lemma load_store_be32: "load_be32 = be32" "store_be32 = put32be"
  by (simp_all add: fun_eq_iff load_be32_def store_be32_def be32_def put32be_def)

lemma length_w_fill [simp]: "length (w_fill n w) = length w + n"
  by (induction n arbitrary: w) simp_all

lemma w_next_W:
  assumes "length w = t" and "16 \<le> t" and "\<And>i. i < t \<Longrightarrow> w ! i = fips_W M i"
  shows "w_next w = fips_W M t"
proof -
  have "fips_W M t = small_sigma1 (fips_W M (t - 2)) + fips_W M (t - 7) + small_sigma0 (fips_W M (t - 15)) + fips_W M (t - 16)"
    using assms(2) by (simp add: fips_W.simps [of M t])
  then show ?thesis
    using assms by (simp add: w_next_def Let_def rotr32_rotr small_sigma0_def small_sigma1_def ac_simps)
qed

lemma w_fill_W:
  "16 \<le> length w \<Longrightarrow> (\<And>i. i < length w \<Longrightarrow> w ! i = fips_W M i) \<Longrightarrow> i < length w + n \<Longrightarrow> w_fill n w ! i = fips_W M i"
proof (induction n arbitrary: w)
  case (Suc n)
  have "w_next w = fips_W M (length w)" using w_next_W [OF refl Suc.prems(1,2)] .
  then have "\<And>i. i < length (w @ [w_next w]) \<Longrightarrow> (w @ [w_next w]) ! i = fips_W M i"
    using Suc.prems(2) by (auto simp: nth_append less_Suc_eq)
  with Suc.IH [of "w @ [w_next w]"] Suc.prems show ?case by simp
qed simp

lemma w_schedule_W: "t < 64 \<Longrightarrow> length M = 64 \<Longrightarrow> w_schedule M ! t = fips_W M t"
  unfolding w_schedule_def
  by (rule w_fill_W) (auto simp: load_store_be32 be32_bslice fips_W.simps mult.commute)

lemma length_w_schedule [simp]: "length (w_schedule M) = 64"
  by (simp add: w_schedule_def)

lemma length_k256 [simp]: "length k256 = 64"
  by (simp add: k256_def)

lemma rounds_vars:
  assumes "length M = 64"
  shows "t \<le> 64 \<Longrightarrow> fold sha_round (take t (zip k256 (w_schedule M))) H = fips_vars M H t"
proof (induction t)
  case (Suc t)
  have z: "take (Suc t) (zip k256 (w_schedule M)) = take t (zip k256 (w_schedule M)) @ [(k256 ! t, w_schedule M ! t)]"
    using Suc.prems by (simp add: take_Suc_conv_app_nth)
  show ?case unfolding z fold_append comp_def Suc.IH [OF Suc_leD [OF Suc.prems]]
    using w_schedule_W [of t M] Suc.prems assms
    by (simp add: sha_round_def Let_def big_sigma0_def big_sigma1_def sha_ch_def sha_maj_def rotr32_rotr)
qed simp

lemma transform_compress:
  "length blk = 64 \<Longrightarrow> sha256_transform c blk = c\<lparr>hh := fips_compress blk (hh c)\<rparr>"
  using rounds_vars [of blk 64 "hh c"] by (simp add: sha256_transform_def fips_compress_def)

section \<open>The context after a prefix of the message\<close>

definition ctx_ok :: "sha256_ctx \<Rightarrow> byte list \<Rightarrow> bool" where
  "ctx_ok c m \<longleftrightarrow> length (block c) = 64 \<and> used c < 64 \<and> total c = of_nat (length m) \<and>
     (\<exists>bs. m = concat bs @ take (used c) (block c) \<and> (\<forall>b \<in> set bs. length b = 64) \<and> hh c = fold fips_compress bs sha_iv)"

text \<open>The same without the length, which \<^verbatim>\<open>sha256_update\<close> adds before its loop.\<close>

definition ctx_at :: "sha256_ctx \<Rightarrow> byte list \<Rightarrow> bool" where
  "ctx_at c m \<longleftrightarrow> length (block c) = 64 \<and> used c < 64 \<and>
     (\<exists>bs. m = concat bs @ take (used c) (block c) \<and> (\<forall>b \<in> set bs. length b = 64) \<and> hh c = fold fips_compress bs sha_iv)"

lemma update_step:
  assumes "ctx_at c m" and "0 < n" and "n \<le> 64 - used c" and "n \<le> length data"
  defines "c1 \<equiv> c\<lparr>block := blit (block c) (used c) (take n data), used := used c + n\<rparr>"
  defines "c2 \<equiv> (if used c1 = 64 then (sha256_transform c1 (block c1))\<lparr>used := 0\<rparr> else c1)"
  shows "ctx_at c2 (m @ take n data)" and "total c2 = total c"
proof -
  obtain bs where bs: "m = concat bs @ take (used c) (block c)" "\<forall>b \<in> set bs. length b = 64" "hh c = fold fips_compress bs sha_iv"
    and l: "length (block c) = 64" "used c < 64" using assms(1) by (auto simp: ctx_at_def)
  have len: "length (block c1) = 64" using l assms(3,4) by (simp add: c1_def)
  have tk: "take (used c + n) (block c1) = take (used c) (block c) @ take n data"
    using l assms(3,4) by (simp add: c1_def blit_def take_drop)
  have m: "m @ take n data = concat bs @ take (used c + n) (block c1)" unfolding tk bs(1) by simp
  show "ctx_at c2 (m @ take n data)"
  proof (cases "used c1 = 64")
    case True
    then have u: "used c + n = 64" by (simp add: c1_def)
    have "c2 = c1\<lparr>hh := fips_compress (block c1) (hh c1), used := 0\<rparr>" using True len by (simp add: c2_def transform_compress)
    with m bs(2,3) len u show ?thesis unfolding ctx_at_def by (intro conjI exI [of _ "bs @ [block c1]"]) (auto simp: c1_def)
  next
    case False
    then have "c2 = c1" "used c + n < 64" using assms(3) l by (auto simp: c2_def c1_def)
    with m bs(2,3) len show ?thesis unfolding ctx_at_def by (intro conjI exI [of _ bs]) (auto simp: c1_def)
  qed
  show "total c2 = total c" by (simp add: c2_def c1_def sha256_transform_def)
qed

lemma update_loop_returns:
  "ctx_at c m \<Longrightarrow> \<exists>c'. update_loop c data = Some c' \<and> ctx_at c' (m @ data) \<and> total c' = total c"
proof (induction data arbitrary: c m rule: length_induct)
  case (1 data)
  show ?case
  proof (cases "data = []")
    case True
    with 1 show ?thesis by (simp add: update_loop.simps)
  next
    case False
    let ?n = "min (64 - used c) (length data)"
    have n: "0 < ?n" "?n \<le> 64 - used c" "?n \<le> length data" using False 1(2) by (auto simp: ctx_at_def)
    define c1 where "c1 = c\<lparr>block := blit (block c) (used c) (take ?n data), used := used c + ?n\<rparr>"
    define c2 where "c2 = (if used c1 = 64 then (sha256_transform c1 (block c1))\<lparr>used := 0\<rparr> else c1)"
    note st = update_step [OF 1(2) n, folded c1_def, folded c2_def]
    have "length (drop ?n data) < length data" using n by simp
    with 1(1) st obtain c' where "update_loop c2 (drop ?n data) = Some c'" "ctx_at c' ((m @ take ?n data) @ drop ?n data)" "total c' = total c2"
      by blast
    moreover have "update_loop c data = update_loop c2 (drop ?n data)"
      by (subst update_loop.simps) (simp only: False if_False Let_def c1_def c2_def)
    ultimately show ?thesis using st(2) by simp
  qed
qed

lemma sha256_update_ok:
  assumes "ctx_ok c m"
  shows "\<exists>c'. sha256_update c data = Some c' \<and> ctx_ok c' (m @ data)"
proof -
  have "ctx_at (c\<lparr>total := total c + of_nat (length data)\<rparr>) m" using assms by (auto simp: ctx_ok_def ctx_at_def)
  from update_loop_returns [OF this, of data] assms show ?thesis
    by (auto simp: sha256_update_def ctx_ok_def ctx_at_def)
qed

lemma sha256_init_ok: "length stale = 64 \<Longrightarrow> ctx_ok (sha256_init stale) []"
  by (auto simp: ctx_ok_def sha256_init_def intro: exI [of _ "[]"])

section \<open>Closing the message\<close>

lemma blocks64_concat:
  assumes "\<forall>b \<in> set bs. length b = 64"
  shows "blocks64 (concat bs) = bs"
proof (rule nth_equalityI)
  have l: "length (concat bs) = 64 * length bs" using assms by (induction bs) auto
  then show len: "length (blocks64 (concat bs)) = length bs" by (simp add: blocks64_def)
  have "bslice (64 * i) 64 (concat bs) = bs ! i" if "i < length bs" for i
    using assms that
  proof (induction bs arbitrary: i)
    case (Cons b bs)
    then show ?case by (cases i) (simp_all add: bslice_def)
  qed simp
  then show "blocks64 (concat bs) ! i = bs ! i" if "i < length (blocks64 (concat bs))" for i
    using that len l by (simp add: blocks64_def)
qed

lemma length_bytes8: "map (\<lambda>i. ucast (drop_bit ((7 - i) * 8) (v :: u64)) :: byte) [0..<8] = put64be v"
  by (simp add: put64be_def put32be_def upt_conv_Cons numeral_eq_Suc) (auto intro!: bit_word_eqI simp: bit_simps)

text \<open>What \<^verbatim>\<open>sha256_final\<close> hashes after the complete blocks: one block when the length still fits in the current one, two otherwise.\<close>

definition final_blocks :: "byte list \<Rightarrow> u64 \<Rightarrow> byte list list" where
  "final_blocks r bits =
     (if length r < 56 then [r @ [0x80] @ zeros (55 - length r) @ put64be bits]
      else [r @ [0x80] @ zeros (63 - length r), zeros 56 @ put64be bits])"

lemma final_blocks_pad:
  assumes "length r < 64"
  shows "concat (final_blocks r bits) = r @ [0x80] @ zeros ((119 - length r) mod 64) @ put64be bits"
    and "\<forall>b \<in> set (final_blocks r bits). length b = 64"
proof -
  have "(119 - length r) mod 64 = (if length r < 56 then 55 - length r else (63 - length r) + 56)"
    using assms by (simp add: mod_if)
  then show "concat (final_blocks r bits) = r @ [0x80] @ zeros ((119 - length r) mod 64) @ put64be bits"
    by (simp add: final_blocks_def zeros_def replicate_add)
  show "\<forall>b \<in> set (final_blocks r bits). length b = 64" using assms by (auto simp: final_blocks_def)
qed

lemma blit_tail: "length p = 64 \<Longrightarrow> blit (blit p 0 (zeros 56)) 56 (put64be v) = zeros 56 @ put64be v"
  by (simp add: blit_def)

lemma sha256_final_blocks:
  assumes "length (block c) = 64" and "used c < 64"
  shows "sha256_final c = concat (map put32be (fold fips_compress (final_blocks (take (used c) (block c)) (total c * 8)) (hh c)))"
proof -
  let ?b = "block c" and ?u = "used c"
  have i: "?b[?u := 0x80] = take ?u ?b @ [0x80] @ drop (Suc ?u) ?b" using assms by (simp add: upd_conv_take_nth_drop)
  have l: "length (take ?u ?b) = ?u" using assms by simp
  show ?thesis
  proof (cases "?u < 56")
    case True
    have e: "blit (blit (?b[?u := 0x80]) (?u + 1) (zeros (56 - (?u + 1)))) 56 (put64be (total c * 8)) =
       take ?u ?b @ [0x80] @ zeros (55 - ?u) @ put64be (total c * 8)" unfolding i using True assms by (simp add: blit_def take_Cons' drop_Cons')
    have "length (take ?u ?b @ [0x80] @ zeros (55 - ?u) @ put64be (total c * 8)) = 64" using True l by simp
    with True e l show ?thesis
      by (simp add: sha256_final_def Let_def length_bytes8 transform_compress final_blocks_def load_store_be32 del: upt_Suc)
  next
    case False
    let ?p = "blit (?b[?u := 0x80]) (?u + 1) (zeros (64 - (?u + 1)))"
    have p: "?p = take ?u ?b @ [0x80] @ zeros (63 - ?u)" unfolding i using False assms by (simp add: blit_def)
    have lp: "length ?p = 64" using p False l assms by simp
    have e: "blit (blit ?p 0 (zeros 56)) 56 (put64be (total c * 8)) = zeros 56 @ put64be (total c * 8)"
      using lp by (simp only: blit_tail [OF lp])
    have "length (zeros 56 @ put64be (total c * 8)) = 64" by simp
    with False e p lp l show ?thesis
      by (simp add: sha256_final_def Let_def length_bytes8 transform_compress final_blocks_def load_store_be32 del: upt_Suc)
  qed
qed

lemma sha256_final_spec:
  assumes "ctx_ok c m"
  shows "sha256_final c = sha256_spec m"
proof -
  let ?r = "take (used c) (block c)"
  obtain bs where bs: "m = concat bs @ ?r" "\<forall>b \<in> set bs. length b = 64" "hh c = fold fips_compress bs sha_iv"
    and l: "length (block c) = 64" "used c < 64" "total c = of_nat (length m)" using assms by (auto simp: ctx_ok_def)
  have lr: "length ?r = used c" "length ?r < 64" using l by simp_all
  note f = final_blocks_pad [OF lr(2), of "total c * 8"]
  have "length (concat bs) = 64 * length bs" using bs(2) by (induction bs) auto
  then have "length m mod 64 = length ?r" using bs(1) lr by simp
  moreover have "total c * 8 = of_nat (8 * length m)" using l(3) by (simp add: mult.commute)
  ultimately have "fips_pad m = concat (bs @ final_blocks ?r (total c * 8))"
    using f(1) bs(1) by (simp add: fips_pad_def)
  moreover have "\<forall>b \<in> set (bs @ final_blocks ?r (total c * 8)). length b = 64" using f(2) bs(2) by auto
  ultimately have "blocks64 (fips_pad m) = bs @ final_blocks ?r (total c * 8)" by (simp only: blocks64_concat)
  with sha256_final_blocks [OF l(1,2)] bs(3) show ?thesis by (simp add: sha256_spec_def)
qed

lemma sha_reads_ok:
  "ctx_ok c m \<Longrightarrow> [] \<notin> set chunks \<Longrightarrow> \<exists>c'. sha_reads c (map Some chunks @ Some [] # rest) = Some (Inr c') \<and> ctx_ok c' (m @ concat chunks)"
proof (induction chunks arbitrary: c m)
  case (Cons b chunks)
  obtain c' where "sha256_update c b = Some c'" "ctx_ok c' (m @ b)" using sha256_update_ok [OF Cons.prems(1)] by blast
  with Cons.IH [of c' "m @ b"] Cons.prems(2) show ?case by auto
qed simp

section \<open>A published value\<close>

text \<open>The message \<^verbatim>\<open>abc\<close>, evaluated sixteen steps at a time.\<close>

definition abc_w0 :: "u32 list" where
  "abc_w0 =
     [0x61626380, 0x0, 0x0, 0x0, 0x0, 0x0, 0x0, 0x0,
      0x0, 0x0, 0x0, 0x0, 0x0, 0x0, 0x0, 0x18]"

definition abc_w1 :: "u32 list" where
  "abc_w1 =
     [0x61626380, 0xf0000, 0x7da86405, 0x600003c6, 0x3e9d7b78, 0x183fc00, 0x12dcbfdb, 0xe2e2c38e,
      0xc8215c1a, 0xb73679a2, 0xe5bc3909, 0x32663c5b, 0x9d209d67, 0xec8726cb, 0x702138a4, 0xd3b7973b]"

definition abc_w2 :: "u32 list" where
  "abc_w2 =
     [0x93f5997f, 0x3b68ba73, 0xaff4ffc1, 0xf10a5c62, 0xa8b3996, 0x72af830a, 0x9409e33e, 0x24641522,
      0x9f47bf94, 0xf0a64f5a, 0x3e246a79, 0x27333ba3, 0xc4763f2, 0x840abf27, 0x7a290d5d, 0x65c43da]"

definition abc_w3 :: "u32 list" where
  "abc_w3 =
     [0xfb3e89cb, 0xcc7617db, 0xb9e66c34, 0xa9993667, 0x84badedd, 0xc21462bc, 0x1487472c, 0xb20f7a99,
      0xef57b9cd, 0xebe6b238, 0x9fe3095e, 0x78bc8d4b, 0xa43fcf15, 0x668b2ff8, 0xeeaba2cc, 0x12b1edeb]"

lemma abc_fill0: "w_fill 16 abc_w0 = abc_w0 @ abc_w1"
  by code_simp

lemma abc_fill1: "w_fill 16 abc_w1 = abc_w1 @ abc_w2"
  by code_simp

lemma abc_fill2: "w_fill 16 abc_w2 = abc_w2 @ abc_w3"
  by code_simp

lemma abc_rounds0: "fold sha_round (zip (bslice 0 16 k256) abc_w0) [0x6a09e667, 0xbb67ae85, 0x3c6ef372, 0xa54ff53a, 0x510e527f, 0x9b05688c, 0x1f83d9ab, 0x5be0cd19] =
   [0xb0fa238e, 0xc0645fde, 0xd932eb16, 0x87912990, 0x7590dcd, 0xb92f20c, 0x745a48de, 0x1e578218]"
  by code_simp

lemma abc_rounds1: "fold sha_round (zip (bslice 16 16 k256) abc_w1) [0xb0fa238e, 0xc0645fde, 0xd932eb16, 0x87912990, 0x7590dcd, 0xb92f20c, 0x745a48de, 0x1e578218] =
   [0x73b33bf5, 0xea992a22, 0xa0060b30, 0x363482c9, 0xba591112, 0x109ab3a, 0xade79437, 0x6112a3b7]"
  by code_simp

lemma abc_rounds2: "fold sha_round (zip (bslice 32 16 k256) abc_w2) [0x73b33bf5, 0xea992a22, 0xa0060b30, 0x363482c9, 0xba591112, 0x109ab3a, 0xade79437, 0x6112a3b7] =
   [0x4172328d, 0xa14c14b0, 0x72ab4b91, 0x26628815, 0xfecf0bc6, 0xd57b94a9, 0xb7755da1, 0xa80f11f0]"
  by code_simp

lemma abc_rounds3: "fold sha_round (zip (bslice 48 16 k256) abc_w3) [0x4172328d, 0xa14c14b0, 0x72ab4b91, 0x26628815, 0xfecf0bc6, 0xd57b94a9, 0xb7755da1, 0xa80f11f0] =
   [0x506e3058, 0xd39a2165, 0x4d24d6c, 0xb85e2ce9, 0x5ef50f24, 0xfb121210, 0x948d25b6, 0x961f4894]"
  by code_simp

lemma w_next_drop:
  assumes "16 \<le> length w"
  shows "w_next (p @ w) = w_next w"
proof -
  have "(p @ w) ! (length (p @ w) - k) = w ! (length w - k)" if "0 < k" "k \<le> 16" for k
  proof -
    have "length (p @ w) - k = length p + (length w - k)" using assms that by simp
    then show ?thesis by (simp only: nth_append_length_plus)
  qed
  then show ?thesis by (simp add: w_next_def Let_def)
qed

lemma w_fill_drop: "16 \<le> length w \<Longrightarrow> w_fill n (p @ w) = p @ w_fill n w"
  by (induction n arbitrary: w) (simp_all add: w_next_drop)

lemma w_fill_add: "w_fill (m + n) w = w_fill n (w_fill m w)"
  by (induction m arbitrary: w) simp_all

lemma length_abc_w [simp]: "length abc_w0 = 16" "length abc_w1 = 16" "length abc_w2 = 16" "length abc_w3 = 16"
  by (simp_all add: abc_w0_def abc_w1_def abc_w2_def abc_w3_def)

definition abc_block :: "byte list" where
  "abc_block = [97, 98, 99, 0x80] @ zeros 52 @ [0, 0, 0, 0, 0, 0, 0, 24]"

lemma abc_schedule: "w_schedule abc_block = abc_w0 @ abc_w1 @ abc_w2 @ abc_w3"
proof -
  have w: "map (\<lambda>i. load_be32 (drop (i * 4) abc_block)) [0..<16] = abc_w0" by code_simp
  have 1: "w_fill 16 (abc_w0 @ abc_w1) = abc_w0 @ abc_w1 @ abc_w2"
    using w_fill_drop [of abc_w1 16 abc_w0] by (simp add: abc_fill1)
  have 2: "w_fill 16 (abc_w0 @ abc_w1 @ abc_w2) = abc_w0 @ abc_w1 @ abc_w2 @ abc_w3"
    using w_fill_drop [of abc_w2 16 "abc_w0 @ abc_w1"] by (simp add: abc_fill2)
  have "w_fill (16 + (16 + 16)) abc_w0 = abc_w0 @ abc_w1 @ abc_w2 @ abc_w3"
    by (simp only: w_fill_add abc_fill0 1 2)
  then show ?thesis by (simp add: w_schedule_def w)
qed

lemma k256_parts: "k256 = bslice 0 16 k256 @ bslice 16 16 k256 @ bslice 32 16 k256 @ bslice 48 16 k256"
  by code_simp

lemma abc_compress: "fips_compress abc_block sha_iv = [0xba7816bf, 0x8f01cfea, 0x414140de, 0x5dae2223, 0xb00361a3, 0x96177a9c, 0xb410ff61, 0xf20015ad]"
proof -
  have l: "length abc_block = 64" by (simp add: abc_block_def)
  have z: "zip k256 (w_schedule abc_block) = zip (bslice 0 16 k256) abc_w0 @ zip (bslice 16 16 k256) abc_w1 @
      zip (bslice 32 16 k256) abc_w2 @ zip (bslice 48 16 k256) abc_w3"
    unfolding abc_schedule by (subst k256_parts) simp
  have "fips_compress abc_block sha_iv = map2 (+) sha_iv (fold sha_round (zip k256 (w_schedule abc_block)) sha_iv)"
    using rounds_vars [OF l, of 64 sha_iv] by (simp add: fips_compress_def)
  also have "fold sha_round (zip k256 (w_schedule abc_block)) sha_iv = [0x506e3058, 0xd39a2165, 0x4d24d6c, 0xb85e2ce9, 0x5ef50f24, 0xfb121210, 0x948d25b6, 0x961f4894]"
    unfolding z sha_iv_def by (simp add: abc_rounds0 abc_rounds1 abc_rounds2 abc_rounds3)
  finally show ?thesis by (simp add: sha_iv_def)
qed

lemma sha256_spec_abc: "sha256_spec [97, 98, 99] =
     [0xba, 0x78, 0x16, 0xbf, 0x8f, 0x01, 0xcf, 0xea, 0x41, 0x41, 0x40, 0xde, 0x5d, 0xae, 0x22, 0x23,
      0xb0, 0x03, 0x61, 0xa3, 0x96, 0x17, 0x7a, 0x9c, 0xb4, 0x10, 0xff, 0x61, 0xf2, 0x00, 0x15, 0xad]"
proof -
  have p: "fips_pad [97, 98, 99] = abc_block" by (simp add: fips_pad_def abc_block_def) code_simp
  have "blocks64 abc_block = [abc_block]" using blocks64_concat [of "[abc_block]"] by (simp add: abc_block_def)
  then show ?thesis unfolding sha256_spec_def p by (simp add: abc_compress) code_simp
qed

section \<open>Properties\<close>

text \<open>C13. \<^verbatim>\<open>sha256\<close> prints the SHA-256 hash of the file, whatever sizes the reads return: when the reads deliver the file's
  bytes and end, the command always comes to a digest, and it is the hash the standard defines for the bytes read, however
  they were cut up and whatever the block buffer held before.\<close>

theorem sha256_streaming_correct:
  assumes "length stale = 64" and "[] \<notin> set chunks"
  shows "sha256_vfs_file stale True (map Some chunks @ Some [] # rest) True = Some (0, ShaDigest (sha256_spec (concat chunks)))"
  using sha_reads_ok [OF sha256_init_ok [OF assms(1)] assms(2), of rest] sha256_final_spec
  by (auto simp: sha256_vfs_file_def)

text \<open>The message \<^verbatim>\<open>abc\<close> in two pieces: the digest is the one the standard prints for it.\<close>

theorem sha256_streaming_correct_witness:
  "sha256_vfs_file (zeros 64) True [Some [97, 98], Some [99], Some []] True =
     Some (0, ShaDigest [0xba, 0x78, 0x16, 0xbf, 0x8f, 0x01, 0xcf, 0xea, 0x41, 0x41, 0x40, 0xde, 0x5d, 0xae, 0x22, 0x23,
      0xb0, 0x03, 0x61, 0xa3, 0x96, 0x17, 0x7a, 0x9c, 0xb4, 0x10, 0xff, 0x61, 0xf2, 0x00, 0x15, 0xad])"
  using sha256_streaming_correct [of "zeros 64" "[[97, 98], [99]]" "[]"] by (simp add: sha256_spec_abc)

end
