(* ===== verification/Spec2Isabelle.thy ===== *)
theory Spec2Isabelle
  imports Use_Cmd Pkg_Order Sha256
begin

text \<open>
  Guppy: a verification library for a tool that builds and edits disk images offline (\<^verbatim>\<open>README.md\<close>, \<^verbatim>\<open>src/\<close>, \<^verbatim>\<open>lib/vdisk/\<close>).

  \<^bold>\<open>The program.\<close> Guppy is a command interpreter in C. An image file on the host is opened through the image library \<^verbatim>\<open>lib/vdisk\<close> (raw, VHD,
  VDI and VMDK backends behind one interface), attached under a device name (\<^verbatim>\<open>src/diskio.c\<close>), and registered as a whole disk in the block
  device registry (\<^verbatim>\<open>src/vblk.c\<close>). The partition scanner (\<^verbatim>\<open>src/blkdev.c\<close>) reads MBR and GPT tables and registers the partitions as
  further devices, which address the disk relative to their own start; file systems are mounted on them. Packages are read as \<^verbatim>\<open>ar\<close> archives of
  compressed \<^verbatim>\<open>tar\<close> members, ordered by Debian version and dependency rules, and unpacked into a mounted tree.

  \<^bold>\<open>The theories\<close>, from the bottom up. Each opens with a text that says how its state and operations correspond to the code.

  \<^item> \<open>Prelude\<close>, \<open>Bytes\<close>, \<open>Cstring\<close>: machine words as numbers, byte buffers (\<open>bslice\<close>, \<open>blit\<close>), stores (\<open>overlay\<close>, \<open>window\<close>), byte order,
    C strings and decimal numbers.
  \<^item> \<open>Vdisk_Core\<close>: the host file under an image (\<^verbatim>\<open>vdisk_host_*\<close>, short writes on a full host included), \<^verbatim>\<open>struct vdisk\<close>, and
    the locale \<open>block_image\<close>, what a flat disk promises. \<open>Vdisk_Raw\<close>, \<open>Vdisk_Vhd\<close>, \<open>Vdisk_Vdi\<close> (with \<open>Vdisk_Vdi_Create\<close> and
    \<open>Vdisk_Vdi_Inspect\<close>) and \<open>Vdisk_Vmdk\<close>: the four backends of \<^verbatim>\<open>lib/vdisk/src/backend_*.c\<close>, each an interpretation of
    \<open>block_image\<close>. \<open>Vdisk\<close>: the driver table, format selection, open, create, read, write and inspect of \<^verbatim>\<open>vdisk.c\<close>.
  \<^item> \<open>Diskio\<close>: the attachment table of \<^verbatim>\<open>src/diskio.c\<close>, with the locales \<open>keyed_table\<close> (what a table of named entries promises) and
    \<open>disk_slice\<close> (part of a disk is a disk). \<open>Vblk\<close>: the registry and the partition-relative access of \<^verbatim>\<open>src/vblk.c\<close>, interpretations of
    both.
  \<^item> \<open>Crc32\<close>: the table-driven checksum of \<^verbatim>\<open>src/blkdev.c\<close> and \<^verbatim>\<open>src/cmd_gpt.c\<close>. \<open>Blkdev\<close>: the MBR, EBR and GPT scans and the registration of
    partitions. \<open>Gpt_Cmd\<close>, \<open>Gpt_Disk\<close>: the \<^verbatim>\<open>gpt\<close> command of \<^verbatim>\<open>src/cmd_gpt.c\<close> and what its tables look like on the disk.
    \<open>Use_Cmd\<close>: the commands \<^verbatim>\<open>use\<close> and \<^verbatim>\<open>partscan\<close>.
  \<^item> \<open>Deb_Version\<close>, \<open>Deb_Dep\<close>, \<open>Deb_Control\<close>: version ordering (locales \<open>three_way\<close> and \<open>two_way\<close> for comparison functions and their
    lexicographic product), dependency fields and control files. \<open>Tar\<close>, \<open>Deb_Package\<close>: the archive formats of \<^verbatim>\<open>src/tar.c\<close>,
    \<^verbatim>\<open>src/tar_write.c\<close>, \<^verbatim>\<open>src/ar_write.c\<close> and \<^verbatim>\<open>src/deb.c\<close>.
  \<^item> \<open>Inflate\<close>, \<open>Deflate\<close>, \<open>Gzip\<close>: the decompressor of \<^verbatim>\<open>src/gu_gzip.c\<close>, a reference encoder, and the gzip wrapper.
    \<open>Sha256\<close>: the hash of \<^verbatim>\<open>src/cmd_sha256.c\<close>.
  \<^item> \<open>Pkg_State\<close>, \<open>Pkg_Repo\<close>: the package database of the target (\<^verbatim>\<open>src/pkg_state.c\<close>) and the registered repositories with their
    indexes and queries (\<^verbatim>\<open>src/pkg_repo.c\<close>). \<open>Pkg_Plan\<close>, \<open>Pkg_Scc\<close>, \<open>Pkg_Order\<close>: the planner of \<^verbatim>\<open>src/pkg_plan.c\<close>, which expands a package into its
    dependencies, groups them into strongly connected components, and walks these to print, install or audit.

  \<^bold>\<open>What is shown.\<close> For images: creating, writing, closing and reopening gives back what was written, for every
  format, where the host has room for the blocks of a VDI image and the path has no NUL, newline or quote; a write to a VDI image leaves it sound whatever
  the host's free space, also when it fails part-way; the VDI inspector accepts only sound images when its duplicate check runs (at most 16777216 blocks and a
  \<^verbatim>\<open>calloc\<close> that succeeds); a VHD footer with a changed byte is refused. For disks: partitions in disjoint ranges of one attached image, or on
  images whose host files have different paths, never see each other's writes; \<^verbatim>\<open>gpt init\<close> and \<^verbatim>\<open>gpt add\<close> keep a complete
  table without overlaps in both copies, the scan finds exactly its entries and survives damage to the primary entry array; \<^verbatim>\<open>use\<close>
  registers exactly the partitions of an image. For archives and packages: writing and reading back, total and partial correctness of the
  parsers within their arrays, version comparison as the order on keys, DEFLATE and gzip decoding against the formats, SHA-256 against the standard.
  For the package manager: the repositories hold every record once and answer with the latest version, marking a package changes nothing else, a valid
  plan is closed under dependencies where all records of a package provide the same names, and packages are handed to the installer with their
  dependencies first, up to the first failure.
  Where the code misbehaves the statement says so: walks that never end (\<open>scan_ebr_chain_diverges\<close>, \<open>deb_open_diverges\<close>), a valid
  table reported as unreadable, an entry of 4 GiB that derails the tar walk, an unclosed dependency that is dropped, a valid plan
  with a dependency that nothing in it provides (\<open>plan_keeps_other_record\<close>).

  \<^bold>\<open>Conventions.\<close> Integers that can wrap keep their width (\<open>u8\<close> to \<open>u64\<close>); counters that the code bounds are natural numbers, with the bound
  stated where the type is introduced. Errors are values: \<open>option\<close>, a sum, or the return code itself. A loop that may not end is a
  \<open>partial_function\<close>, so that not returning is the value \<open>None\<close>, and theorems that it returns are stated as such; other loops are recursive
  functions with a termination proof, or take fuel (the recursions of the planner, with the number of nodes, which is shown to be enough). What the program takes from outside is an argument: the host file system and the free space of a
  file, the outcome of \<^verbatim>\<open>malloc\<close> (\<open>mem\<close>), the entropy and the clock behind identifiers, the results of file system reads, and
  \<^verbatim>\<open>parse_size\<close> of \<^verbatim>\<open>helper.c\<close>, which computes in \<^verbatim>\<open>long double\<close>. Text that is only printed is a value of a message type
  or left out.

  \<^bold>\<open>Not modelled.\<close> The file systems (\<^verbatim>\<open>ext2*.c\<close>, \<^verbatim>\<open>fsck_ext2*.c\<close>, \<^verbatim>\<open>iso9660*.c\<close>, \<^verbatim>\<open>vfs*.c\<close>, \<^verbatim>\<open>mkfs_*.c\<close>) and the commands
  on mounted trees; package configuration (\<^verbatim>\<open>pkg_configure.c\<close>, \<^verbatim>\<open>pkg_triggers.c\<close>, \<^verbatim>\<open>pkg_ldconfig.c\<close>, \<^verbatim>\<open>pkg_scripts.c\<close>,
  \<^verbatim>\<open>pkg_preunpack.c\<close>) and the package command; the older absolute-address block layer (\<^verbatim>\<open>blkio.c\<close>, \<^verbatim>\<open>devmap.c\<close>, \<^verbatim>\<open>blkdevmap.c\<close>) and the path-based
  \<^verbatim>\<open>gpt.c\<close> and \<^verbatim>\<open>mbr.c\<close>, which no command calls; the interpreter loop, logging and printing; the compression libraries under \<^verbatim>\<open>lib/xz\<close>
  and \<^verbatim>\<open>lib/xzenc\<close>, which are third-party code. They come after the storage and package formats in the plan: the ext2 allocator and directory
  operations first.
\<close>

end
